(* ===== verification/TR_Prelude.thy ===== *)
theory TR_Prelude
  imports Complex_Main "HOL-Library.Word" "HOL-Library.Multiset"
begin

text \<open>
  Shared ground of the development: the errors the C code can raise, computations that carry
  the state of the index relation and may raise (the state survives the error, as shared
  buffers do), two's complement wrap-around on \<^typ>\<open>int\<close> (PostgreSQL is compiled with
  \<^verbatim>\<open>-fwrapv\<close>), flag tests on 16-bit words, and the generic list lemmas used everywhere.
\<close>

unbundle bit_operations_syntax

named_theorems comp_simps \<open>unfolding rules for state computations\<close>
named_theorems flag_simps \<open>flag tests as single bits\<close>

section \<open>Errors\<close>

datatype pg_error =
    PagePanic
  | CorruptPagePointers
  | InvalidIndexOffnum nat
  | CorruptLinePointer
  | IncorrectOffsets
  | CorruptItemLengths
  | ReadPastEnd nat
  | ExtendLimit
  | SelfDeadlock nat
  | RowTooBig nat
  | ArrayOverrun
  | MissingMetaPage
  | NoDownlinks
  | ChildNotOnPage
  | ReplaceFailed
  | RebuildFailed
  | KeyDataNull
  | OutOfFuel
  | NoUnpinnedBuffers
  | InvalidPage nat
  | BufferIOBusy nat
  | LockWouldBlock nat
  | PinnedTwice nat
  | BadBuffer nat
  | CorruptBufferTable
  | LockNotHeld nat
  | UnexpectedData nat

section \<open>Computations with state and errors\<close>

type_synonym ('s, 'a) comp = "'s \<Rightarrow> (pg_error + 'a) \<times> 's"

definition ret :: "'a \<Rightarrow> ('s, 'a) comp" where
  "ret x = (\<lambda>s. (Inr x, s))"

definition raise :: "pg_error \<Rightarrow> ('s, 'a) comp" where
  "raise e = (\<lambda>s. (Inl e, s))"

definition bindC :: "('s, 'a) comp \<Rightarrow> ('a \<Rightarrow> ('s, 'b) comp) \<Rightarrow> ('s, 'b) comp" where
  "bindC m f = (\<lambda>s. case m s of (Inl e, s') \<Rightarrow> (Inl e, s') | (Inr x, s') \<Rightarrow> f x s')"

definition gets :: "('s \<Rightarrow> 'a) \<Rightarrow> ('s, 'a) comp" where
  "gets f = (\<lambda>s. (Inr (f s), s))"

definition modifyC :: "('s \<Rightarrow> 's) \<Rightarrow> ('s, unit) comp" where
  "modifyC f = (\<lambda>s. (Inr (), f s))"

definition liftE :: "pg_error + 'a \<Rightarrow> ('s, 'a) comp" where
  "liftE r = (\<lambda>s. (r, s))"

lemma ret_run [simp, comp_simps]: "ret x s = (Inr x, s)"
  by (simp add: ret_def)

lemma raise_run [simp, comp_simps]: "raise e s = (Inl e, s)"
  by (simp add: raise_def)

lemma gets_run [simp, comp_simps]: "gets f s = (Inr (f s), s)"
  by (simp add: gets_def)

lemma modifyC_run [simp, comp_simps]: "modifyC f s = (Inr (), f s)"
  by (simp add: modifyC_def)

lemma liftE_run [simp, comp_simps]: "liftE r s = (r, s)"
  by (simp add: liftE_def)

lemma bindC_ok [simp, comp_simps]: "m s = (Inr x, s') \<Longrightarrow> bindC m f s = f x s'"
  by (simp add: bindC_def)

lemma bindC_err [simp, comp_simps]: "m s = (Inl e, s') \<Longrightarrow> bindC m f s = (Inl e, s')"
  by (simp add: bindC_def)

text \<open>A computation that came to a result did so step by step.\<close>

lemma bindC_InrE:
  assumes "bindC m f s = (Inr y, s2)"
  obtains x s1 where "m s = (Inr x, s1)" "f x s1 = (Inr y, s2)"
  using assms by (cases "m s") (auto simp: bindC_def split: sum.splits)

lemma bindC_assoc: "bindC (bindC m f) g = bindC m (\<lambda>x. bindC (f x) g)"
  by (auto simp: bindC_def fun_eq_iff split: prod.splits sum.splits)

text \<open>Loops over the entries of an array, stopping at the first error.\<close>

fun foldE :: "('b \<Rightarrow> 'a \<Rightarrow> 'e + 'b) \<Rightarrow> 'b \<Rightarrow> 'a list \<Rightarrow> 'e + 'b" where
  "foldE f b [] = Inr b"
| "foldE f b (x # xs) = (case f b x of Inl e \<Rightarrow> Inl e | Inr b' \<Rightarrow> foldE f b' xs)"

fun foldC :: "('b \<Rightarrow> 'a \<Rightarrow> ('s, 'b) comp) \<Rightarrow> 'b \<Rightarrow> 'a list \<Rightarrow> ('s, 'b) comp" where
  "foldC f acc [] = ret acc"
| "foldC f acc (x # xs) = bindC (f acc x) (\<lambda>acc'. foldC f acc' xs)"

section \<open>Computations that avoid an error\<close>

text \<open>
  A computation started in \<open>P\<close> never raises \<open>e\<close> and ends in \<open>Q\<close> when it returns.
\<close>

definition avoids :: "pg_error \<Rightarrow> ('s \<Rightarrow> bool) \<Rightarrow> ('s, 'a) comp \<Rightarrow> ('s \<Rightarrow> bool) \<Rightarrow> bool" where
  "avoids e P m Q \<longleftrightarrow> (\<forall>s. P s \<longrightarrow> (case m s of (Inl e', s') \<Rightarrow> e' \<noteq> e | (Inr x, s') \<Rightarrow> Q s'))"

lemma avoids_bind [intro]:
  "avoids e P m Q \<Longrightarrow> (\<And>x. avoids e Q (f x) R) \<Longrightarrow> avoids e P (bindC m f) R"
  by (fastforce simp: avoids_def bindC_def split: prod.splits sum.splits)

lemma avoids_ret [intro]: "avoids e P (ret x) P"
  by (simp add: avoids_def)

lemma avoids_raise: "e' \<noteq> e \<Longrightarrow> avoids e P (raise e') Q"
  by (simp add: avoids_def)

lemma avoids_liftE: "r \<noteq> Inl e \<Longrightarrow> avoids e P (liftE r) P"
  by (auto simp: avoids_def split: sum.splits)

lemma avoids_if [intro]: "avoids e P m Q \<Longrightarrow> avoids e P m' Q \<Longrightarrow> avoids e P (if c then m else m') Q"
  by simp

lemma avoids_weaken: "avoids e P m Q \<Longrightarrow> (\<And>s. P' s \<Longrightarrow> P s) \<Longrightarrow> (\<And>s. Q s \<Longrightarrow> Q' s) \<Longrightarrow> avoids e P' m Q'"
  by (fastforce simp: avoids_def split: prod.splits sum.splits)

lemma avoidsD: "avoids e P m Q \<Longrightarrow> P s \<Longrightarrow> fst (m s) \<noteq> Inl e"
  by (cases "m s") (auto simp: avoids_def split: sum.splits)

lemma avoids_foldC:
  "(\<And>acc x. x \<in> set xs \<Longrightarrow> avoids e P (f acc x) P) \<Longrightarrow> avoids e P (foldC f acc xs) P"
  by (induction xs arbitrary: acc) (auto intro!: avoids_bind [of e P _ P])

section \<open>Machine integers\<close>

definition wrap :: "nat \<Rightarrow> int \<Rightarrow> int" where
  "wrap n x = (x + 2 ^ (n - 1)) mod 2 ^ n - 2 ^ (n - 1)"

definition int_range :: "nat \<Rightarrow> int set" where
  "int_range n = {- (2 ^ (n - 1)) ..< 2 ^ (n - 1)}"

abbreviation wrap64 :: "int \<Rightarrow> int" where "wrap64 \<equiv> wrap 64"
abbreviation wrap32 :: "int \<Rightarrow> int" where "wrap32 \<equiv> wrap 32"

definition PG_INT64_MIN :: int where "PG_INT64_MIN = - 9223372036854775808"
definition PG_INT64_MAX :: int where "PG_INT64_MAX = 9223372036854775807"

lemma wrap_range: "0 < n \<Longrightarrow> wrap n x \<in> int_range n"
proof -
  assume n: "0 < n"
  have p: "(2::int) ^ n = 2 * 2 ^ (n - 1)"
    using n by (cases n) auto
  have "0 \<le> (x + 2 ^ (n - 1)) mod 2 ^ n" "(x + 2 ^ (n - 1)) mod 2 ^ n < 2 ^ n"
    by simp_all
  then show ?thesis
    using p unfolding wrap_def int_range_def by auto
qed

lemma wrap_id: "0 < n \<Longrightarrow> x \<in> int_range n \<Longrightarrow> wrap n x = x"
proof -
  assume n: "0 < n" and x: "x \<in> int_range n"
  have "(2::int) ^ n = 2 * 2 ^ (n - 1)"
    using n by (cases n) auto
  then have "(x + 2 ^ (n - 1)) mod 2 ^ n = x + 2 ^ (n - 1)"
    using x by (intro mod_pos_pos_trivial) (auto simp: int_range_def)
  then show ?thesis
    by (simp add: wrap_def)
qed

lemma int_range_64: "x \<in> int_range 64 \<longleftrightarrow> PG_INT64_MIN \<le> x \<and> x \<le> PG_INT64_MAX"
  by (auto simp: int_range_def PG_INT64_MIN_def PG_INT64_MAX_def)

lemma int_range_32: "x \<in> int_range 32 \<longleftrightarrow> - 2147483648 \<le> x \<and> x \<le> 2147483647"
  by (auto simp: int_range_def)

lemma wrap64_range [simp]: "wrap64 x \<in> int_range 64"
  by (rule wrap_range) simp

lemma wrap32_range [simp]: "wrap32 x \<in> int_range 32"
  by (rule wrap_range) simp

lemma wrap64_id [simp]: "x \<in> int_range 64 \<Longrightarrow> wrap64 x = x"
  by (rule wrap_id) simp_all

lemma wrap32_id [simp]: "x \<in> int_range 32 \<Longrightarrow> wrap32 x = x"
  by (rule wrap_id) simp_all

section \<open>Flag words\<close>

text \<open>The C test \<^verbatim>\<open>flags & F\<close> of a one-bit mask.\<close>

lemma bit_exp16: "k < 16 \<Longrightarrow> bit (2 ^ k :: 16 word) n \<longleftrightarrow> n = k"
  unfolding bit_exp_iff by auto

lemma bit_flag_literals [simp]:
  "bit (2 :: 16 word) n \<longleftrightarrow> n = 1"
  "bit (4 :: 16 word) n \<longleftrightarrow> n = 2"
  using bit_exp16 [of 1 n] bit_exp16 [of 2 n] by simp_all

lemma and_flag0 [flag_simps]: "(w :: 16 word) AND 1 \<noteq> 0 \<longleftrightarrow> bit w 0"
  using and_exp_eq_0_iff_not_bit [of w 0] by simp

lemma and_flag1 [flag_simps]: "(w :: 16 word) AND 2 \<noteq> 0 \<longleftrightarrow> bit w 1"
  using and_exp_eq_0_iff_not_bit [of w 1] by simp

lemma and_flag2 [flag_simps]: "(w :: 16 word) AND 4 \<noteq> 0 \<longleftrightarrow> bit w 2"
  using and_exp_eq_0_iff_not_bit [of w 2] by simp

end
