(* ===== verification/TR_Float64.thy ===== *)
theory TR_Float64
  imports TR_Prelude "HOL-Library.Log_Nat"
begin

text \<open>
  IEEE binary64 arithmetic, as far as the C code uses it. A \<open>double\<close> is a NaN, an infinity or
  a rational; every operation computes the exact rational result and rounds it to the nearest
  representable value, ties to even. The sign of zero and the payload of a NaN are not
  modelled: no comparison or conversion of the modelled code observes them.
\<close>

section \<open>Values and rounding\<close>

datatype f64 = F_NaN | F_PInf | F_NInf | F_Fin rat

definition pow2 :: "int \<Rightarrow> rat" where
  "pow2 e = (if 0 \<le> e then 2 ^ nat e else 1 / 2 ^ nat (- e))"

text \<open>The exponent of the leading binary digit of a positive rational.\<close>

definition ilog2 :: "rat \<Rightarrow> int" where
  "ilog2 x = (case quotient_of x of (p, q) \<Rightarrow>
     let k = bitlen p - bitlen q in if pow2 k \<le> x then k else k - 1)"

definition round_even :: "rat \<Rightarrow> int" where
  "round_even x = (let f = \<lfloor>x\<rfloor>; r = x - of_int f in
     if r < 1 / 2 then f else if 1 / 2 < r then f + 1 else if even f then f else f + 1)"

text \<open>The weight of the last digit of a 53-bit significand, subnormal numbers included.\<close>

definition quantum :: "rat \<Rightarrow> int" where
  "quantum x = max (ilog2 \<bar>x\<bar> - 52) (- 1074)"

definition round64 :: "rat \<Rightarrow> rat" where
  "round64 x = (if x = 0 then 0
     else of_int (round_even (x / pow2 (quantum x))) * pow2 (quantum x))"

definition f64_of_rat :: "rat \<Rightarrow> f64" where
  "f64_of_rat x = (let v = round64 x in
     if 2 ^ 1024 \<le> v then F_PInf else if v \<le> - (2 ^ 1024) then F_NInf else F_Fin v)"

text \<open>Conversion of an integer, and of a decimal literal \<open>p / q\<close>.\<close>

definition f64_of_int :: "int \<Rightarrow> f64" where
  "f64_of_int n = f64_of_rat (of_int n)"

definition f64_lit :: "int \<Rightarrow> int \<Rightarrow> f64" where
  "f64_lit p q = f64_of_rat (of_int p / of_int q)"

section \<open>Arithmetic and comparison\<close>

fun f_neg :: "f64 \<Rightarrow> f64" where
  "f_neg F_NaN = F_NaN"
| "f_neg F_PInf = F_NInf"
| "f_neg F_NInf = F_PInf"
| "f_neg (F_Fin a) = F_Fin (- a)"

fun f_add :: "f64 \<Rightarrow> f64 \<Rightarrow> f64" where
  "f_add F_NaN b = F_NaN"
| "f_add a F_NaN = F_NaN"
| "f_add F_PInf F_NInf = F_NaN"
| "f_add F_NInf F_PInf = F_NaN"
| "f_add F_PInf b = F_PInf"
| "f_add a F_PInf = F_PInf"
| "f_add F_NInf b = F_NInf"
| "f_add a F_NInf = F_NInf"
| "f_add (F_Fin a) (F_Fin b) = f64_of_rat (a + b)"

definition f_sub :: "f64 \<Rightarrow> f64 \<Rightarrow> f64" where
  "f_sub a b = f_add a (f_neg b)"

text \<open>The sign of a value that is not a NaN.\<close>

fun f_sgn :: "f64 \<Rightarrow> int" where
  "f_sgn F_NaN = 0"
| "f_sgn F_PInf = 1"
| "f_sgn F_NInf = - 1"
| "f_sgn (F_Fin a) = (if 0 < a then 1 else if a < 0 then - 1 else 0)"

definition f_inf_of :: "int \<Rightarrow> f64" where
  "f_inf_of s = (if 0 < s then F_PInf else if s < 0 then F_NInf else F_NaN)"

fun f_mul :: "f64 \<Rightarrow> f64 \<Rightarrow> f64" where
  "f_mul F_NaN b = F_NaN"
| "f_mul a F_NaN = F_NaN"
| "f_mul (F_Fin a) (F_Fin b) = f64_of_rat (a * b)"
| "f_mul a b = f_inf_of (f_sgn a * f_sgn b)"

fun f_div :: "f64 \<Rightarrow> f64 \<Rightarrow> f64" where
  "f_div F_NaN b = F_NaN"
| "f_div a F_NaN = F_NaN"
| "f_div (F_Fin a) (F_Fin b) =
     (if b = 0 then f_inf_of (f_sgn (F_Fin a)) else f64_of_rat (a / b))"
| "f_div (F_Fin a) b = F_Fin 0"
| "f_div a (F_Fin b) = f_inf_of (f_sgn a * (if b < 0 then - 1 else 1))"
| "f_div a b = F_NaN"

fun f_lt :: "f64 \<Rightarrow> f64 \<Rightarrow> bool" where
  "f_lt F_NaN b = False"
| "f_lt a F_NaN = False"
| "f_lt (F_Fin a) (F_Fin b) = (a < b)"
| "f_lt F_NInf b = (b \<noteq> F_NInf)"
| "f_lt a F_NInf = False"
| "f_lt F_PInf b = False"
| "f_lt a F_PInf = True"

definition f_le :: "f64 \<Rightarrow> f64 \<Rightarrow> bool" where
  "f_le a b \<longleftrightarrow> f_lt a b \<or> (a = b \<and> a \<noteq> F_NaN)"

abbreviation f_gt :: "f64 \<Rightarrow> f64 \<Rightarrow> bool" where "f_gt a b \<equiv> f_lt b a"
abbreviation f_ge :: "f64 \<Rightarrow> f64 \<Rightarrow> bool" where "f_ge a b \<equiv> f_le b a"

definition f_eq :: "f64 \<Rightarrow> f64 \<Rightarrow> bool" where
  "f_eq a b \<longleftrightarrow> a = b \<and> a \<noteq> F_NaN"

text \<open>The macros \<^verbatim>\<open>Max\<close> and \<^verbatim>\<open>Min\<close> of \<^verbatim>\<open>c.h\<close>.\<close>

definition f_Max :: "f64 \<Rightarrow> f64 \<Rightarrow> f64" where
  "f_Max a b = (if f_gt a b then a else b)"

definition f_Min :: "f64 \<Rightarrow> f64 \<Rightarrow> f64" where
  "f_Min a b = (if f_lt a b then a else b)"

definition f_isinf :: "f64 \<Rightarrow> bool" where
  "f_isinf a \<longleftrightarrow> a = F_PInf \<or> a = F_NInf"

section \<open>Conversions to integers\<close>

text \<open>
  What C leaves open: the result of \<^verbatim>\<open>llround\<close> and of a cast to \<^verbatim>\<open>int64\<close> outside the range of
  the target, and the value of a coordinate read beyond the array. They are parameters.
\<close>

record cenv =
  oor_llround :: "f64 \<Rightarrow> int"
  oor_cast64 :: "f64 \<Rightarrow> int"
  oob_coord :: "nat \<Rightarrow> f64"

definition round_away :: "rat \<Rightarrow> int" where
  "round_away x = (if 0 \<le> x then \<lfloor>x + 1 / 2\<rfloor> else - \<lfloor>1 / 2 - x\<rfloor>)"

definition trunc_rat :: "rat \<Rightarrow> int" where
  "trunc_rat x = (if 0 \<le> x then \<lfloor>x\<rfloor> else \<lceil>x\<rceil>)"

definition llround :: "cenv \<Rightarrow> f64 \<Rightarrow> int" where
  "llround ce x = (case x of
       F_Fin a \<Rightarrow> (if round_away a \<in> int_range 64 then round_away a else wrap64 (oor_llround ce x))
     | _ \<Rightarrow> wrap64 (oor_llround ce x))"

definition cast_int64 :: "cenv \<Rightarrow> f64 \<Rightarrow> int" where
  "cast_int64 ce x = (case x of
       F_Fin a \<Rightarrow> (if trunc_rat a \<in> int_range 64 then trunc_rat a else wrap64 (oor_cast64 ce x))
     | _ \<Rightarrow> wrap64 (oor_cast64 ce x))"

text \<open>\<^verbatim>\<open>rint\<close> and \<^verbatim>\<open>ceil\<close>: the results are integers below \<open>2\<^sup>5\<^sup>3\<close> or the argument itself.\<close>

definition f_rint :: "f64 \<Rightarrow> f64" where
  "f_rint x = (case x of F_Fin a \<Rightarrow> F_Fin (of_int (round_even a)) | _ \<Rightarrow> x)"

definition f_ceil :: "f64 \<Rightarrow> f64" where
  "f_ceil x = (case x of F_Fin a \<Rightarrow> F_Fin (of_int \<lceil>a\<rceil>) | _ \<Rightarrow> x)"

section \<open>Rounding is faithful\<close>

lemma pow2_powi: "pow2 e = 2 powi e"
  by (simp add: pow2_def power_int_def field_simps)

lemma pow2_pos [simp]: "0 < pow2 e"
  by (simp add: pow2_powi)

lemma pow2_nonzero [simp]: "pow2 e \<noteq> 0"
  using pow2_pos [of e] by linarith

lemma pow2_add: "pow2 (a + b) = pow2 a * pow2 b"
  by (simp add: pow2_powi power_int_add)

lemma pow2_mono: "a \<le> b \<Longrightarrow> pow2 a \<le> pow2 b"
  by (simp add: pow2_powi power_int_increasing)

lemma pow2_less_iff: "pow2 a < pow2 b \<longleftrightarrow> a < b"
proof
  show "a < b \<Longrightarrow> pow2 a < pow2 b"
    by (simp add: pow2_powi power_int_strict_increasing)
  show "pow2 a < pow2 b \<Longrightarrow> a < b"
    using pow2_mono [of b a] by (cases "a < b") auto
qed

lemma pow2_of_int: "0 \<le> e \<Longrightarrow> pow2 e = of_int (2 ^ nat e)"
  by (simp add: pow2_def)

lemma bitlen_pow2:
  assumes "0 < p"
  shows "pow2 (bitlen p - 1) \<le> of_int p" "of_int p < pow2 (bitlen p)"
proof -
  from bitlen_bounds [OF assms] have b: "2 ^ nat (bitlen p - 1) \<le> p" "p < 2 ^ nat (bitlen p)"
    by auto
  have l: "1 \<le> bitlen p"
    using assms bitlen_bounds [OF assms] by (cases "bitlen p \<le> 0") auto
  from b(1) have "of_int (2 ^ nat (bitlen p - 1)) \<le> (of_int p :: rat)"
    by (simp only: of_int_le_iff)
  then show "pow2 (bitlen p - 1) \<le> of_int p"
    using l by (simp add: pow2_def)
  from b(2) have "(of_int p :: rat) < of_int (2 ^ nat (bitlen p))"
    by (simp only: of_int_less_iff)
  then show "of_int p < pow2 (bitlen p)"
    using l by (simp add: pow2_def)
qed

lemma ilog2_bounds:
  assumes "0 < x"
  shows "pow2 (ilog2 x) \<le> x" "x < pow2 (ilog2 x + 1)"
proof -
  obtain p q where pq: "quotient_of x = (p, q)" by fastforce
  have q: "0 < q" and x: "x = of_int p / of_int q"
    using quotient_of_denom_pos [OF pq] quotient_of_div [OF pq] by auto
  have p: "0 < p"
    using assms q x by (simp add: zero_less_divide_iff)
  let ?k = "bitlen p - bitlen q"
  note P = bitlen_pow2 [OF p] and Q = bitlen_pow2 [OF q]
  have low: "pow2 (?k - 1) \<le> x"
  proof -
    have "pow2 (?k - 1) * of_int q \<le> pow2 (?k - 1) * pow2 (bitlen q)"
      using Q(2) by (intro mult_left_mono) (auto simp: less_imp_le)
    also have "\<dots> = pow2 (bitlen p - 1)"
      by (simp flip: pow2_add)
    also have "\<dots> \<le> of_int p" by (rule P)
    finally show ?thesis
      using q x by (simp add: pos_le_divide_eq)
  qed
  have high: "x < pow2 (?k + 1)"
  proof -
    have "of_int p < pow2 (bitlen p)" by (rule P)
    also have "\<dots> = pow2 (?k + 1) * pow2 (bitlen q - 1)"
      by (simp flip: pow2_add)
    also have "\<dots> \<le> pow2 (?k + 1) * of_int q"
      using Q(1) by (intro mult_left_mono) (auto simp: less_imp_le)
    finally show ?thesis
      using q x by (simp add: pos_divide_less_eq)
  qed
  show "pow2 (ilog2 x) \<le> x" "x < pow2 (ilog2 x + 1)"
    using low high pq by (auto simp: ilog2_def Let_def)
qed

lemma ilog2_eqI:
  assumes "pow2 k \<le> x" "x < pow2 (k + 1)"
  shows "ilog2 x = k"
proof -
  have x: "0 < x" using assms(1) pow2_pos [of k] by linarith
  note b = ilog2_bounds [OF x]
  have "pow2 (ilog2 x) < pow2 (k + 1)" "pow2 k < pow2 (ilog2 x + 1)"
    using b assms by linarith+
  then show ?thesis by (simp add: pow2_less_iff)
qed

lemma round_even_ge: "of_int n \<le> x \<Longrightarrow> n \<le> round_even x"
  using le_floor_iff [of n x] by (auto simp: round_even_def Let_def)

lemma round_even_le:
  assumes "x \<le> of_int n"
  shows "round_even x \<le> n"
proof (cases "x = of_int n")
  case True
  then show ?thesis by (simp add: round_even_def)
next
  case False
  with assms have "x < of_int n" by simp
  then have "\<lfloor>x\<rfloor> < n" by (simp add: floor_less_iff)
  then show ?thesis by (auto simp: round_even_def Let_def)
qed

lemma round_even_of_int [simp]: "round_even (of_int n) = n"
  by (simp add: round_even_def)

lemma round_even_mono: "x \<le> y \<Longrightarrow> round_even x \<le> round_even y"
proof -
  assume xy: "x \<le> y"
  then have f: "\<lfloor>x\<rfloor> \<le> \<lfloor>y\<rfloor>" by (rule floor_mono)
  show ?thesis
  proof (cases "\<lfloor>x\<rfloor> = \<lfloor>y\<rfloor>")
    case True
    then show ?thesis using xy by (auto simp: round_even_def Let_def)
  next
    case False
    with f have "\<lfloor>x\<rfloor> + 1 \<le> \<lfloor>y\<rfloor>" by simp
    then show ?thesis by (auto simp: round_even_def Let_def)
  qed
qed

text \<open>The finite values of the format.\<close>

definition representable :: "rat \<Rightarrow> bool" where
  "representable y \<longleftrightarrow> (\<exists>m k. y = of_int m * pow2 k \<and> \<bar>m\<bar> \<le> 2 ^ 53 \<and> - 1074 \<le> k)"

lemma representable_uminus: "representable y \<Longrightarrow> representable (- y)"
  unfolding representable_def
  by (metis abs_minus mult_minus_left of_int_minus)

lemma representable_int: "\<bar>n\<bar> \<le> 2 ^ 53 \<Longrightarrow> representable (of_int n)"
  unfolding representable_def by (rule exI [of _ n], rule exI [of _ 0]) (simp add: pow2_def)

lemma representable_0 [simp]: "representable 0"
  using representable_int [of 0] by simp

lemma representable_1 [simp]: "representable 1"
  using representable_int [of 1] by simp

lemma representable_pow2: "- 1074 \<le> k \<Longrightarrow> representable (pow2 k)"
  unfolding representable_def by (rule exI [of _ 1], rule exI [of _ k]) simp

text \<open>A multiple of the quantum of \<open>x\<close> bounds the rounded value as it bounds \<open>x\<close>.\<close>

lemma round64_le_multiple:
  assumes "x \<noteq> 0" "x \<le> of_int n * pow2 (quantum x)"
  shows "round64 x \<le> of_int n * pow2 (quantum x)"
proof -
  have "x / pow2 (quantum x) \<le> of_int n"
    using assms(2) by (simp add: pos_divide_le_eq)
  then have "round_even (x / pow2 (quantum x)) \<le> n" by (rule round_even_le)
  then show ?thesis using assms(1) by (simp add: round64_def)
qed

lemma representable_multiple:
  assumes "representable y" "x \<noteq> 0" "x \<le> y"
  shows "(\<exists>n. y = of_int n * pow2 (quantum x)) \<or> (x < 0 \<and> - (2 ^ 52) * pow2 (quantum x) \<le> y
    \<and> x \<le> - (2 ^ 52) * pow2 (quantum x))"
proof -
  let ?q = "quantum x"
  from assms(1) obtain m k where y: "y = of_int m * pow2 k" and m: "\<bar>m\<bar> \<le> 2 ^ 53"
    and k: "- 1074 \<le> k" by (auto simp: representable_def)
  show ?thesis
  proof (cases "?q \<le> k")
    case True
    then have "pow2 k = of_int (2 ^ nat (k - ?q)) * pow2 ?q"
      using pow2_add [of "k - ?q" ?q] pow2_of_int [of "k - ?q"] by simp
    then have "y = of_int (m * 2 ^ nat (k - ?q)) * pow2 ?q"
      using y by simp
    then show ?thesis by blast
  next
    case False
    then have q: "?q = ilog2 \<bar>x\<bar> - 52"
      using k by (auto simp: quantum_def max_def split: if_splits)
    have big: "pow2 (?q + 52) \<le> \<bar>x\<bar>"
      using ilog2_bounds(1) [of "\<bar>x\<bar>"] assms(2) q by simp
    have p52: "pow2 (?q + 52) = 2 ^ 52 * pow2 ?q"
      by (simp add: pow2_add) (simp add: pow2_def)
    have "\<bar>y\<bar> = of_int \<bar>m\<bar> * pow2 k"
      by (simp add: y abs_mult abs_of_pos)
    also have "\<dots> \<le> of_int (2 ^ 53) * pow2 k"
      using m by (intro mult_right_mono) (auto simp: less_imp_le simp del: of_int_power)
    also have "\<dots> = pow2 (k + 53)"
      by (simp add: pow2_add) (simp add: pow2_def)
    also have "\<dots> \<le> pow2 (?q + 52)"
      using False by (intro pow2_mono) simp
    finally have yb: "\<bar>y\<bar> \<le> pow2 (?q + 52)" .
    show ?thesis
    proof (cases "0 < x")
      case True
      then have "y = 2 ^ 52 * pow2 ?q"
        using big yb p52 assms(3) by linarith
      then have "y = of_int (2 ^ 52) * pow2 ?q" by simp
      then show ?thesis by blast
    next
      case False
      then have "x < 0" using assms(2) by simp
      then show ?thesis using big yb p52 by auto
    qed
  qed
qed

lemma round64_le:
  assumes "representable y" "x \<le> y"
  shows "round64 x \<le> y"
proof (cases "x = 0")
  case True
  then show ?thesis using assms by (simp add: round64_def)
next
  case False
  from representable_multiple [OF assms(1) False assms(2)] show ?thesis
  proof
    assume "\<exists>n. y = of_int n * pow2 (quantum x)"
    then show ?thesis using round64_le_multiple False assms(2) by blast
  next
    assume *: "x < 0 \<and> - (2 ^ 52) * pow2 (quantum x) \<le> y \<and> x \<le> - (2 ^ 52) * pow2 (quantum x)"
    then have "round64 x \<le> of_int (- (2 ^ 52)) * pow2 (quantum x)"
      using False by (intro round64_le_multiple) auto
    then show ?thesis using * by simp
  qed
qed

lemma round_even_minus: "round_even (- x) = - round_even x"
proof (cases "x = of_int \<lfloor>x\<rfloor>")
  case True
  then show ?thesis by (metis of_int_minus round_even_of_int)
next
  case False
  then have "\<lfloor>- x\<rfloor> = - \<lfloor>x\<rfloor> - 1"
    by (simp add: floor_minus ceiling_altdef)
  then show ?thesis by (auto simp: round_even_def Let_def)
qed

lemma round64_uminus: "round64 (- x) = - round64 x"
  by (simp add: round64_def quantum_def round_even_minus)

lemma round64_ge: "representable y \<Longrightarrow> y \<le> x \<Longrightarrow> y \<le> round64 x"
  using round64_le [of "- y" "- x"] by (simp add: representable_uminus round64_uminus)

lemma round64_representable: "representable y \<Longrightarrow> round64 y = y"
  using round64_le [of y y] round64_ge [of y y] by simp

lemma ilog2_mono: "0 < x \<Longrightarrow> x \<le> y \<Longrightarrow> ilog2 x \<le> ilog2 y"
proof -
  assume "0 < x" "x \<le> y"
  then have "pow2 (ilog2 x) < pow2 (ilog2 y + 1)"
    using ilog2_bounds(1) [of x] ilog2_bounds(2) [of y] by linarith
  then show ?thesis by (simp add: pow2_less_iff)
qed

lemma round64_mono_pos:
  assumes "0 < x" "x \<le> y"
  shows "round64 x \<le> round64 y"
proof -
  have y: "0 < y" using assms by linarith
  have l: "ilog2 x \<le> ilog2 y" using assms by (rule ilog2_mono)
  show ?thesis
  proof (cases "quantum x = quantum y")
    case True
    have "x / pow2 (quantum y) \<le> y / pow2 (quantum y)"
      using assms(2) by (simp add: divide_right_mono less_imp_le)
    then show ?thesis
      using True assms y round_even_mono by (simp add: round64_def less_imp_le)
  next
    case False
    then have q: "ilog2 x < ilog2 y" "- 1074 \<le> ilog2 y"
      using l assms y by (auto simp: quantum_def max_def split: if_splits)
    have "x \<le> pow2 (ilog2 y)"
      using ilog2_bounds(2) [OF assms(1)] pow2_mono [of "ilog2 x + 1" "ilog2 y"] q by linarith
    then have "round64 x \<le> pow2 (ilog2 y)"
      using q(2) by (intro round64_le representable_pow2)
    also have "\<dots> \<le> round64 y"
      using q(2) ilog2_bounds(1) [OF y] by (intro round64_ge representable_pow2)
    finally show ?thesis .
  qed
qed

lemma round64_mono: "x \<le> y \<Longrightarrow> round64 x \<le> round64 y"
proof -
  assume xy: "x \<le> y"
  consider "0 < x" | "x \<le> 0" "0 \<le> y" | "y < 0" by linarith
  then show ?thesis
  proof cases
    case 1
    then show ?thesis using xy by (rule round64_mono_pos)
  next
    case 2
    then have "round64 x \<le> 0" "0 \<le> round64 y"
      by (simp_all add: round64_le round64_ge)
    then show ?thesis by linarith
  next
    case 3
    then have "round64 (- y) \<le> round64 (- x)"
      using xy by (intro round64_mono_pos) auto
    then show ?thesis by (simp add: round64_uminus)
  qed
qed

lemma f64_of_rat_mono: "x \<le> y \<Longrightarrow> f_le (f64_of_rat x) (f64_of_rat y)"
  using round64_mono [of x y] by (auto simp: f64_of_rat_def Let_def f_le_def)
lemma f64_of_rat_exact:
  "representable y \<Longrightarrow> \<bar>y\<bar> < 2 ^ 1024 \<Longrightarrow> f64_of_rat y = F_Fin y"
  by (auto simp: f64_of_rat_def Let_def round64_representable)

lemma f64_of_rat_bounded:
  assumes "representable lo" "representable hi" "lo \<le> x" "x \<le> hi"
    "- (2 ^ 1024) < lo" "hi < 2 ^ 1024"
  obtains v where "f64_of_rat x = F_Fin v" "lo \<le> v" "v \<le> hi"
proof -
  have "lo \<le> round64 x" "round64 x \<le> hi"
    using assms round64_ge round64_le by blast+
  with assms(5,6) show thesis
    by (intro that [of "round64 x"]) (auto simp: f64_of_rat_def Let_def)
qed

lemma f64_of_int_exact:
  assumes "\<bar>n\<bar> \<le> 2 ^ 53"
  shows "f64_of_int n = F_Fin (of_int n)"
proof -
  have "\<bar>of_int n\<bar> \<le> (of_int (2 ^ 53) :: rat)"
    using assms by (simp only: of_int_le_iff flip: of_int_abs)
  also have "\<dots> < 2 ^ 1024" by simp
  finally show ?thesis
    unfolding f64_of_int_def
    using f64_of_rat_exact representable_int [OF assms] by blast
qed

text \<open>The largest 64-bit integer is not representable: it becomes \<open>2\<^sup>6\<^sup>3\<close>.\<close>

lemma f64_of_int64_max: "f64_of_int PG_INT64_MAX = F_Fin (2 ^ 63)"
proof -
  let ?x = "9223372036854775807 :: rat"
  have l: "ilog2 ?x = 62"
    by (rule ilog2_eqI) (simp_all add: pow2_def)
  have q: "quantum ?x = 10"
    by (simp add: quantum_def l)
  have "round_even (?x / 1024) = 9007199254740992"
  proof -
    have "\<lfloor>?x / 1024\<rfloor> = 9007199254740991"
      by (rule floor_unique) simp_all
    then show ?thesis by (simp add: round_even_def)
  qed
  then have "round64 ?x = 2 ^ 63"
    by (simp add: round64_def q pow2_def)
  then show ?thesis
    by (simp add: f64_of_int_def PG_INT64_MAX_def f64_of_rat_def)
qed

end
