(* ===== verification/TR_Cube.thy ===== *)
theory TR_Cube
  imports TR_Float64
begin

text \<open>
  The \<^verbatim>\<open>cube\<close> data type (\<^verbatim>\<open>contrib/cube/cubedata.h\<close>, \<^verbatim>\<open>cube.c\<close>): the datum, its access macros,
  the array constructors that the SQL functions \<open>temporalbox\<close> call, and the SQL operators
  \<open>&&\<close>, \<open>@>\<close> and \<open><@\<close> the index must agree with.
\<close>

section \<open>The datum and its macros\<close>

record NDBOX =
  vl_len :: nat
  ndheader :: "32 word"
  ndx :: "f64 list"

definition POINT_BIT :: "32 word" where "POINT_BIT = 0x80000000"
definition DIM_MASK :: "32 word" where "DIM_MASK = 0x7fffffff"
definition CUBE_MAX_DIM :: nat where "CUBE_MAX_DIM = 100"

definition IS_POINT :: "NDBOX \<Rightarrow> bool" where
  "IS_POINT c \<longleftrightarrow> ndheader c AND POINT_BIT \<noteq> 0"

definition DIM :: "NDBOX \<Rightarrow> nat" where
  "DIM c = unat (ndheader c AND DIM_MASK)"

definition SET_POINT_BIT :: "NDBOX \<Rightarrow> NDBOX" where
  "SET_POINT_BIT c = c\<lparr>ndheader := ndheader c OR POINT_BIT\<rparr>"

definition SET_DIM :: "NDBOX \<Rightarrow> nat \<Rightarrow> NDBOX" where
  "SET_DIM c d = c\<lparr>ndheader := (ndheader c AND NOT DIM_MASK) OR of_nat d\<rparr>"

definition SET_VARSIZE :: "NDBOX \<Rightarrow> nat \<Rightarrow> NDBOX" where
  "SET_VARSIZE c n = c\<lparr>vl_len := n\<rparr>"

text \<open>A read of the coordinate array beyond its end yields whatever is there.\<close>

definition coord :: "cenv \<Rightarrow> NDBOX \<Rightarrow> nat \<Rightarrow> f64" where
  "coord ce c i = (if i < length (ndx c) then ndx c ! i else oob_coord ce i)"

definition LL_COORD :: "cenv \<Rightarrow> NDBOX \<Rightarrow> nat \<Rightarrow> f64" where
  "LL_COORD ce c i = coord ce c i"

definition UR_COORD :: "cenv \<Rightarrow> NDBOX \<Rightarrow> nat \<Rightarrow> f64" where
  "UR_COORD ce c i = (if IS_POINT c then coord ce c i else coord ce c (i + DIM c))"

definition POINT_SIZE :: "nat \<Rightarrow> nat" where "POINT_SIZE d = 8 + 8 * d"
definition CUBE_SIZE :: "nat \<Rightarrow> nat" where "CUBE_SIZE d = 8 + 8 * d * 2"

text \<open>\<^verbatim>\<open>palloc0\<close> of \<open>n\<close> bytes: a zeroed datum with the coordinates that fit.\<close>

definition palloc0_NDBOX :: "nat \<Rightarrow> NDBOX" where
  "palloc0_NDBOX n = \<lparr>vl_len = 0, ndheader = 0, ndx = replicate ((n - 8) div 8) (F_Fin 0)\<rparr>"

section \<open>Construction from arrays\<close>

datatype cube_error = CubeNulls | CubeTooManyDims | CubeLengthMismatch

text \<open>An array of doubles with a null bitmap is a list of optional numbers; a null element is \<open>None\<close>.\<close>

definition array_contains_nulls :: "f64 option list \<Rightarrow> bool" where
  "array_contains_nulls array = list_ex (\<lambda>x. x = None) array"

definition cube_a_f8_f8 :: "f64 option list \<Rightarrow> f64 option list \<Rightarrow> cube_error + NDBOX" where
  "cube_a_f8_f8 ur ll =
     (if array_contains_nulls ur \<or> array_contains_nulls ll then Inl CubeNulls
      else
      let dim = length ur in
      if CUBE_MAX_DIM < dim then Inl CubeTooManyDims
      else if length ll \<noteq> dim then Inl CubeLengthMismatch
      else
        let ur = map the ur; ll = map the ll;
            point = list_all (\<lambda>i. f_eq (ur ! i) (ll ! i)) [0..<dim];
            size = (if point then POINT_SIZE dim else CUBE_SIZE dim);
            result = SET_DIM (SET_VARSIZE (palloc0_NDBOX size) size) dim
        in if \<not> point then Inr (result\<lparr>ndx := ur @ ll\<rparr>)
           else Inr (SET_POINT_BIT (result\<lparr>ndx := ur\<rparr>)))"

definition cube_a_f8 :: "f64 option list \<Rightarrow> cube_error + NDBOX" where
  "cube_a_f8 ur =
     (if array_contains_nulls ur then Inl CubeNulls
      else
      let dim = length ur in
      if CUBE_MAX_DIM < dim then Inl CubeTooManyDims
      else
        let ur = map the ur; size = POINT_SIZE dim;
            result = SET_POINT_BIT (SET_DIM (SET_VARSIZE (palloc0_NDBOX size) size) dim)
        in Inr (result\<lparr>ndx := ur\<rparr>))"

definition cube_is_point_internal :: "cenv \<Rightarrow> NDBOX \<Rightarrow> bool" where
  "cube_is_point_internal ce c \<longleftrightarrow>
     (if IS_POINT c then True
      else list_all (\<lambda>i. f_eq (LL_COORD ce c i) (UR_COORD ce c i)) [0..<DIM c])"

section \<open>The SQL operators\<close>

definition cube_lo :: "cenv \<Rightarrow> NDBOX \<Rightarrow> nat \<Rightarrow> f64" where
  "cube_lo ce c i = f_Min (LL_COORD ce c i) (UR_COORD ce c i)"

definition cube_hi :: "cenv \<Rightarrow> NDBOX \<Rightarrow> nat \<Rightarrow> f64" where
  "cube_hi ce c i = f_Max (LL_COORD ce c i) (UR_COORD ce c i)"

definition cube_contains_v0 :: "cenv \<Rightarrow> NDBOX \<Rightarrow> NDBOX \<Rightarrow> bool" where
  "cube_contains_v0 ce a b \<longleftrightarrow>
     (DIM a < DIM b \<longrightarrow>
        list_all (\<lambda>i. f_eq (LL_COORD ce b i) (F_Fin 0) \<and> f_eq (UR_COORD ce b i) (F_Fin 0))
          [DIM a..<DIM b]) \<and>
     list_all (\<lambda>i. \<not> f_gt (cube_lo ce a i) (cube_lo ce b i) \<and>
                   \<not> f_lt (cube_hi ce a i) (cube_hi ce b i))
       [0..<min (DIM a) (DIM b)]"

definition cube_overlap_v0 :: "cenv \<Rightarrow> NDBOX \<Rightarrow> NDBOX \<Rightarrow> bool" where
  "cube_overlap_v0 ce a0 b0 \<longleftrightarrow>
     (let a = (if DIM a0 < DIM b0 then b0 else a0);
          b = (if DIM a0 < DIM b0 then a0 else b0)
      in list_all (\<lambda>i. \<not> f_gt (cube_lo ce a i) (cube_hi ce b i) \<and>
                       \<not> f_lt (cube_hi ce a i) (cube_lo ce b i)) [0..<DIM b] \<and>
         list_all (\<lambda>i. \<not> f_gt (cube_lo ce a i) (F_Fin 0) \<and>
                       \<not> f_lt (cube_hi ce a i) (F_Fin 0)) [DIM b..<DIM a])"

definition cube_contains :: "cenv \<Rightarrow> NDBOX \<Rightarrow> NDBOX \<Rightarrow> bool" where
  "cube_contains ce a b = cube_contains_v0 ce a b"

definition cube_contained :: "cenv \<Rightarrow> NDBOX \<Rightarrow> NDBOX \<Rightarrow> bool" where
  "cube_contained ce a b = cube_contains_v0 ce b a"

definition cube_overlap :: "cenv \<Rightarrow> NDBOX \<Rightarrow> NDBOX \<Rightarrow> bool" where
  "cube_overlap ce a b = cube_overlap_v0 ce a b"

section \<open>Header lemmas\<close>

lemma header_dim:
  assumes "d \<le> 100"
  shows "unat ((of_nat d :: 32 word) AND DIM_MASK) = d"
    and "unat (((of_nat d :: 32 word) OR POINT_BIT) AND DIM_MASK) = d"
    and "(of_nat d :: 32 word) AND POINT_BIT = 0"
    and "((of_nat d :: 32 word) OR POINT_BIT) AND POINT_BIT \<noteq> 0"
proof -
  have m: "DIM_MASK = mask 31"
    by (simp add: DIM_MASK_def mask_eq_exp_minus_1)
  have p: "bit POINT_BIT n \<longleftrightarrow> n = 31" for n
  proof -
    have P: "POINT_BIT = 2 ^ 31" by (simp add: POINT_BIT_def)
    show ?thesis unfolding P bit_exp_iff by auto
  qed
  have u: "unat (of_nat d :: 32 word) = d"
    using assms by (simp add: unat_of_nat take_bit_eq_mod)
  have lt: "(of_nat d :: 32 word) = take_bit 31 (of_nat d)"
    using assms u by (simp add: word_unat_eq_iff unsigned_take_bit_eq take_bit_nat_eq_self)
  show 1: "unat ((of_nat d :: 32 word) AND DIM_MASK) = d"
    using u lt by (simp add: m take_bit_eq_mask)
  have bit31: "\<not> bit (of_nat d :: 32 word) 31"
    by (subst lt) (simp add: bit_take_bit_iff)
  show 3: "(of_nat d :: 32 word) AND POINT_BIT = 0"
    using bit31 and_exp_eq_0_iff_not_bit [of "of_nat d :: 32 word" 31] by (simp add: POINT_BIT_def)
  have "((of_nat d :: 32 word) OR POINT_BIT) AND DIM_MASK = of_nat d AND DIM_MASK"
    by (rule bit_eqI) (auto simp: m p bit_simps)
  then show "unat (((of_nat d :: 32 word) OR POINT_BIT) AND DIM_MASK) = d"
    using 1 by simp
  have "bit (((of_nat d :: 32 word) OR POINT_BIT) AND POINT_BIT) 31"
    by (simp add: p bit_simps)
  then show "((of_nat d :: 32 word) OR POINT_BIT) AND POINT_BIT \<noteq> 0"
    by auto
qed

end
