(* ===== verification/TR_Box.thy ===== *)
theory TR_Box
  imports TR_Cube
begin

text \<open>
  Temporal boxes (\<^verbatim>\<open>temporal_rtree.h\<close>, the first half of \<^verbatim>\<open>temporal_rtree_page.c\<close> and \<^verbatim>\<open>tr_union\<close>
  of \<^verbatim>\<open>temporal_rtree_split.c\<close>): the box record, its conversion to and from a cube, the search
  predicates, and the union of two boxes. The lemmas show that the union is the least box that
  contains both, that the conversion is exact on whole numbers up to \<open>2\<^sup>5\<^sup>3\<close>, and how the
  predicates relate to the SQL operators on cubes.
\<close>

section \<open>The box\<close>

record RTreeTemporalBox =
  lower_us :: int
  upper_us :: int
  attr_lo :: int
  attr_hi :: int
  dims :: nat
  box_flags :: "16 word"

definition TRTREE_FLAG_EMPTY :: "16 word" where "TRTREE_FLAG_EMPTY = 0x0001"
definition TRTREE_FLAG_LOWER_INF :: "16 word" where "TRTREE_FLAG_LOWER_INF = 0x0002"
definition TRTREE_FLAG_UPPER_INF :: "16 word" where "TRTREE_FLAG_UPPER_INF = 0x0004"

definition TRTREE_STRATEGY_OVERLAP :: nat where "TRTREE_STRATEGY_OVERLAP = 1"
definition TRTREE_STRATEGY_CONTAINS :: nat where "TRTREE_STRATEGY_CONTAINS = 2"
definition TRTREE_STRATEGY_CONTAINED :: nat where "TRTREE_STRATEGY_CONTAINED = 3"

text \<open>\<^verbatim>\<open>MemSet(&box, 0, sizeof(box))\<close>.\<close>

definition zero_box :: RTreeTemporalBox where
  "zero_box = \<lparr>lower_us = 0, upper_us = 0, attr_lo = 0, attr_hi = 0, dims = 0, box_flags = 0\<rparr>"

text \<open>The flag tests of the code.\<close>

definition box_empty :: "RTreeTemporalBox \<Rightarrow> bool" where
  "box_empty b \<longleftrightarrow> box_flags b AND TRTREE_FLAG_EMPTY \<noteq> 0"

definition box_upper_inf :: "RTreeTemporalBox \<Rightarrow> bool" where
  "box_upper_inf b \<longleftrightarrow> box_flags b AND TRTREE_FLAG_UPPER_INF \<noteq> 0"

definition box_lower_inf :: "RTreeTemporalBox \<Rightarrow> bool" where
  "box_lower_inf b \<longleftrightarrow> box_flags b AND TRTREE_FLAG_LOWER_INF \<noteq> 0"

section \<open>Conversion to and from a cube\<close>

definition box_is_point :: "RTreeTemporalBox \<Rightarrow> bool" where
  "box_is_point b \<longleftrightarrow> attr_lo b = attr_hi b \<and> lower_us b = upper_us b \<and>
     box_flags b AND (TRTREE_FLAG_LOWER_INF OR TRTREE_FLAG_UPPER_INF) = 0"

definition rtree_box_to_cube_internal :: "RTreeTemporalBox \<Rightarrow> NDBOX" where
  "rtree_box_to_cube_internal box =
     (let point = box_is_point box;
          size = (if point then POINT_SIZE 2 else CUBE_SIZE 2);
          cube = palloc0_NDBOX size;
          coords = [f64_of_int (attr_lo box), f64_of_int (lower_us box)] @
                   (if \<not> point then [f64_of_int (attr_hi box), f64_of_int (upper_us box)] else []);
          cube = (if \<not> point then cube else SET_POINT_BIT cube)
      in (SET_DIM (SET_VARSIZE cube size) 2)\<lparr>ndx := take (if point then 2 else 4) coords\<rparr>)"

definition rtree_box_to_cube :: "RTreeTemporalBox \<Rightarrow> NDBOX" where
  "rtree_box_to_cube box = rtree_box_to_cube_internal box"

definition rtree_cube_to_box :: "cenv \<Rightarrow> NDBOX \<Rightarrow> RTreeTemporalBox" where
  "rtree_cube_to_box ce cube =
     (let dim = DIM cube;
          attr_lo_d = LL_COORD ce cube 0;
          attr_hi_d = (if IS_POINT cube then LL_COORD ce cube 0 else UR_COORD ce cube 0);
          lower_d = (if 2 \<le> dim then LL_COORD ce cube 1 else LL_COORD ce cube 0);
          upper_d = (if 2 \<le> dim
                     then (if IS_POINT cube then LL_COORD ce cube 1 else UR_COORD ce cube 1)
                     else lower_d);
          alo = wrap32 (llround ce attr_lo_d);
          ahi = wrap32 (llround ce attr_hi_d);
          linf = (f_isinf lower_d \<and> f_lt lower_d (F_Fin 0));
          lo = (if linf then PG_INT64_MIN else llround ce lower_d);
          uinf = (f_isinf upper_d \<and> f_gt upper_d (F_Fin 0));
          hi = (if uinf then PG_INT64_MAX else llround ce upper_d);
          fl = (if linf then TRTREE_FLAG_LOWER_INF else 0);
          fl = (if uinf then fl OR TRTREE_FLAG_UPPER_INF else fl);
          fl = (if lo = PG_INT64_MIN then fl OR TRTREE_FLAG_LOWER_INF else fl);
          fl = (if hi = PG_INT64_MAX then fl OR TRTREE_FLAG_UPPER_INF else fl)
      in \<lparr>lower_us = lo, upper_us = hi, attr_lo = alo, attr_hi = ahi,
          dims = (if 2 \<le> dim then 2 else 1), box_flags = fl\<rparr>)"

section \<open>Search predicates\<close>

definition rtree_box_overlaps :: "RTreeTemporalBox \<Rightarrow> RTreeTemporalBox \<Rightarrow> bool" where
  "rtree_box_overlaps a b \<longleftrightarrow>
     (if box_empty a then False
      else if box_empty b then False
      else \<not> (attr_hi a < attr_lo b \<or> attr_hi b < attr_lo a \<or>
              upper_us a < lower_us b \<or> upper_us b < lower_us a))"

definition rtree_box_contains :: "RTreeTemporalBox \<Rightarrow> RTreeTemporalBox \<Rightarrow> bool" where
  "rtree_box_contains a b \<longleftrightarrow>
     \<not> box_empty a \<and> \<not> box_empty b \<and>
     attr_lo a \<le> attr_lo b \<and> attr_hi a \<ge> attr_hi b \<and>
     lower_us a \<le> lower_us b \<and> upper_us a \<ge> upper_us b"

definition rtree_box_contained :: "RTreeTemporalBox \<Rightarrow> RTreeTemporalBox \<Rightarrow> bool" where
  "rtree_box_contained a b = rtree_box_contains b a"

definition rtree_box_matches_strategy ::
  "RTreeTemporalBox \<Rightarrow> RTreeTemporalBox \<Rightarrow> nat \<Rightarrow> bool" where
  "rtree_box_matches_strategy tuple_box query_box strategy =
     (if strategy = TRTREE_STRATEGY_OVERLAP then rtree_box_overlaps tuple_box query_box
      else if strategy = TRTREE_STRATEGY_CONTAINS then rtree_box_contains tuple_box query_box
      else if strategy = TRTREE_STRATEGY_CONTAINED then rtree_box_contained tuple_box query_box
      else rtree_box_overlaps tuple_box query_box)"

section \<open>Union\<close>

definition tr_union :: "RTreeTemporalBox \<Rightarrow> RTreeTemporalBox \<Rightarrow> RTreeTemporalBox" where
  "tr_union a b =
     (if box_empty a then b
      else if box_empty b then a
      else
        let fl = (box_flags a OR box_flags b) AND NOT TRTREE_FLAG_EMPTY;
            u = \<lparr>lower_us = min (lower_us a) (lower_us b),
                 upper_us = max (upper_us a) (upper_us b),
                 attr_lo = min (attr_lo a) (attr_lo b),
                 attr_hi = max (attr_hi a) (attr_hi b),
                 dims = max (dims a) (dims b),
                 box_flags = fl\<rparr>
        in if box_upper_inf a \<or> box_upper_inf b
           then u\<lparr>box_flags := box_flags u OR TRTREE_FLAG_UPPER_INF\<rparr> else u)"

subsection \<open>Flags as bits\<close>

lemma box_empty_bit: "box_empty b \<longleftrightarrow> bit (box_flags b) 0"
  by (simp add: box_empty_def TRTREE_FLAG_EMPTY_def flag_simps)

lemma box_upper_inf_bit: "box_upper_inf b \<longleftrightarrow> bit (box_flags b) 2"
  by (simp add: box_upper_inf_def TRTREE_FLAG_UPPER_INF_def flag_simps)

lemma box_lower_inf_bit: "box_lower_inf b \<longleftrightarrow> bit (box_flags b) 1"
  by (simp add: box_lower_inf_def TRTREE_FLAG_LOWER_INF_def flag_simps)

lemma bit_flag_masks [simp]:
  "bit TRTREE_FLAG_EMPTY n \<longleftrightarrow> n = 0"
  "bit TRTREE_FLAG_LOWER_INF n \<longleftrightarrow> n = 1"
  "bit TRTREE_FLAG_UPPER_INF n \<longleftrightarrow> n = 2"
  by (simp_all only: TRTREE_FLAG_EMPTY_def TRTREE_FLAG_LOWER_INF_def TRTREE_FLAG_UPPER_INF_def
      bit_flag_literals) (simp add: bit_1_iff)

lemmas box_flag_bits = box_empty_bit box_upper_inf_bit box_lower_inf_bit

subsection \<open>The union of nonempty boxes\<close>

lemma tr_union_fields:
  assumes "\<not> box_empty a" "\<not> box_empty b"
  shows "lower_us (tr_union a b) = min (lower_us a) (lower_us b)"
    "upper_us (tr_union a b) = max (upper_us a) (upper_us b)"
    "attr_lo (tr_union a b) = min (attr_lo a) (attr_lo b)"
    "attr_hi (tr_union a b) = max (attr_hi a) (attr_hi b)"
    "dims (tr_union a b) = max (dims a) (dims b)"
    "\<not> box_empty (tr_union a b)"
    "box_upper_inf (tr_union a b) \<longleftrightarrow> box_upper_inf a \<or> box_upper_inf b"
    "box_lower_inf (tr_union a b) \<longleftrightarrow> box_lower_inf a \<or> box_lower_inf b"
  using assms by (auto simp: tr_union_def Let_def box_flag_bits bit_simps)

lemma tr_union_nonempty: "\<not> box_empty a \<or> \<not> box_empty b \<Longrightarrow> \<not> box_empty (tr_union a b)"
  by (cases "box_empty a"; cases "box_empty b") (auto simp: tr_union_fields, simp_all add: tr_union_def)

section \<open>Bounding boxes as an interface\<close>

text \<open>
  What the tree code relies on: a union operation that yields the least box containing both
  arguments. The client lemmas are about the loops that fold it over a page.
\<close>

locale mbr_union =
  fixes ok :: "'b \<Rightarrow> bool"
    and un :: "'b \<Rightarrow> 'b \<Rightarrow> 'b"
    and cont :: "'b \<Rightarrow> 'b \<Rightarrow> bool"
  assumes un_ok: "ok a \<Longrightarrow> ok b \<Longrightarrow> ok (un a b)"
    and cont_refl: "ok a \<Longrightarrow> cont a a"
    and cont_trans: "cont a b \<Longrightarrow> cont b c \<Longrightarrow> cont a c"
    and un_upper1: "ok a \<Longrightarrow> ok b \<Longrightarrow> cont (un a b) a"
    and un_upper2: "ok a \<Longrightarrow> ok b \<Longrightarrow> cont (un a b) b"
    and un_least: "ok a \<Longrightarrow> ok b \<Longrightarrow> cont c a \<Longrightarrow> cont c b \<Longrightarrow> cont c (un a b)"
begin

lemma fold_ok: "ok a \<Longrightarrow> list_all ok bs \<Longrightarrow> ok (foldl un a bs)"
  by (induction bs arbitrary: a) (auto intro: un_ok)

lemma fold_covers_acc: "ok a \<Longrightarrow> list_all ok bs \<Longrightarrow> cont (foldl un a bs) a"
proof (induction bs arbitrary: a)
  case Nil
  then show ?case by (simp add: cont_refl)
next
  case (Cons b bs)
  then have "cont (foldl un (un a b) bs) (un a b)" "cont (un a b) a"
    by (auto intro: un_ok un_upper1)
  then show ?case by (auto intro: cont_trans)
qed

lemma fold_covers: "ok a \<Longrightarrow> list_all ok bs \<Longrightarrow> b \<in> set bs \<Longrightarrow> cont (foldl un a bs) b"
proof (induction bs arbitrary: a)
  case Nil
  then show ?case by simp
next
  case (Cons c bs)
  show ?case
  proof (cases "b = c")
    case True
    have "cont (foldl un (un a c) bs) (un a c)" "cont (un a c) c"
      using Cons.prems by (auto intro: fold_covers_acc un_ok un_upper2)
    then show ?thesis using True by (auto intro: cont_trans)
  next
    case False
    with Cons show ?thesis by (auto intro: un_ok)
  qed
qed

lemma fold_least:
  "ok a \<Longrightarrow> list_all ok bs \<Longrightarrow> cont c a \<Longrightarrow> list_all (cont c) bs \<Longrightarrow> cont c (foldl un a bs)"
  by (induction bs arbitrary: a) (auto intro: un_ok un_least)

end

abbreviation nonempty_box :: "RTreeTemporalBox \<Rightarrow> bool" where
  "nonempty_box b \<equiv> \<not> box_empty b"

interpretation tbox: mbr_union nonempty_box tr_union rtree_box_contains
  by unfold_locales (auto simp: rtree_box_contains_def tr_union_fields)

subsection \<open>Predicates on boxes\<close>

lemma rtree_box_overlaps_sym: "rtree_box_overlaps a b = rtree_box_overlaps b a"
  by (auto simp: rtree_box_overlaps_def)

text \<open>Boxes whose bounds are in order.\<close>

definition ordered_box :: "RTreeTemporalBox \<Rightarrow> bool" where
  "ordered_box b \<longleftrightarrow> attr_lo b \<le> attr_hi b \<and> lower_us b \<le> upper_us b"

lemma contains_overlaps:
  "rtree_box_contains a b \<Longrightarrow> ordered_box b \<Longrightarrow> rtree_box_overlaps a b"
  by (auto simp: rtree_box_contains_def rtree_box_overlaps_def ordered_box_def)

lemma overlaps_mono:
  "rtree_box_contains m b \<Longrightarrow> rtree_box_overlaps b q \<Longrightarrow> rtree_box_overlaps m q"
  by (auto simp: rtree_box_contains_def rtree_box_overlaps_def split: if_splits)

text \<open>
  A tuple that matches a query, whatever the strategy, lies under a bounding box that overlaps
  the query.
\<close>

lemma matches_overlaps_mbr:
  assumes "rtree_box_contains m b" "rtree_box_matches_strategy b q st"
    "ordered_box b" "ordered_box q"
  shows "rtree_box_overlaps m q"
proof -
  have "rtree_box_overlaps b q"
    using assms contains_overlaps [of b q] contains_overlaps [of q b]
    by (auto simp: rtree_box_matches_strategy_def rtree_box_contained_def rtree_box_overlaps_sym
        split: if_splits)
  then show ?thesis using assms(1) overlaps_mono by blast
qed

section \<open>Rounding of coordinates\<close>

lemma round_away_mono: "x \<le> y \<Longrightarrow> round_away x \<le> round_away y"
proof -
  assume xy: "x \<le> y"
  have f: "\<lfloor>x + 1 / 2\<rfloor> \<le> \<lfloor>y + 1 / 2\<rfloor>" "\<lfloor>1 / 2 - y\<rfloor> \<le> \<lfloor>1 / 2 - x\<rfloor>"
    using xy by (auto intro: floor_mono)
  have "0 \<le> \<lfloor>1 / 2 - x\<rfloor>" if "x < 0"
    using that by simp
  moreover have "0 \<le> \<lfloor>y + 1 / 2\<rfloor>" if "0 \<le> y"
    using that by simp
  ultimately show ?thesis
    using f xy by (auto simp only: round_away_def split: if_splits) linarith+
qed

lemma round_away_of_int [simp]: "round_away (of_int n) = n"
proof -
  have "\<lfloor>of_int n + 1 / 2 :: rat\<rfloor> = n" "\<lfloor>1 / 2 - of_int n :: rat\<rfloor> = - n"
    by (rule floor_unique; simp)+
  then show ?thesis by (simp add: round_away_def)
qed

lemma round_away_bounds:
  "of_int l \<le> x \<Longrightarrow> x \<le> of_int h \<Longrightarrow> l \<le> round_away x \<and> round_away x \<le> h"
  using round_away_mono [of "of_int l" x] round_away_mono [of x "of_int h"] by simp

lemma llround_fin:
  assumes "of_int PG_INT64_MIN \<le> a" "a \<le> of_int PG_INT64_MAX"
  shows "llround ce (F_Fin a) = round_away a"
  using round_away_bounds [OF assms] by (simp add: llround_def int_range_64)

section \<open>Temporal cubes\<close>

text \<open>
  The cubes that \<^verbatim>\<open>temporalbox\<close>, \<^verbatim>\<open>temporalbox_point\<close> and \<^verbatim>\<open>temporalbox_range\<close> build from an
  integer attribute and a valid-time period in seconds: two dimensions, corners in order, the
  attribute in the range of \<^verbatim>\<open>int32\<close>, the times finite and up to \<open>2\<^sup>5\<^sup>3\<close> or the proper infinity.
\<close>

definition attr_coord :: "f64 \<Rightarrow> bool" where
  "attr_coord f = (case f of F_Fin a \<Rightarrow> - 2147483648 \<le> a \<and> a \<le> 2147483647 | _ \<Rightarrow> False)"

definition lower_coord :: "f64 \<Rightarrow> bool" where
  "lower_coord f = (case f of F_Fin a \<Rightarrow> - (2 ^ 53) \<le> a \<and> a \<le> 2 ^ 53 | F_NInf \<Rightarrow> True | _ \<Rightarrow> False)"

definition upper_coord :: "f64 \<Rightarrow> bool" where
  "upper_coord f = (case f of F_Fin a \<Rightarrow> - (2 ^ 53) \<le> a \<and> a \<le> 2 ^ 53 | F_PInf \<Rightarrow> True | _ \<Rightarrow> False)"

definition cube_ll :: "NDBOX \<Rightarrow> nat \<Rightarrow> f64" where
  "cube_ll c i = ndx c ! i"

definition cube_ur :: "NDBOX \<Rightarrow> nat \<Rightarrow> f64" where
  "cube_ur c i = (if IS_POINT c then ndx c ! i else ndx c ! (i + 2))"

definition temporal_cube :: "NDBOX \<Rightarrow> bool" where
  "temporal_cube c \<longleftrightarrow> DIM c = 2 \<and> length (ndx c) = (if IS_POINT c then 2 else 4) \<and>
     attr_coord (cube_ll c 0) \<and> attr_coord (cube_ur c 0) \<and>
     lower_coord (cube_ll c 1) \<and> upper_coord (cube_ur c 1) \<and>
     f_le (cube_ll c 0) (cube_ur c 0) \<and> f_le (cube_ll c 1) (cube_ur c 1)"

definition us_lower :: "f64 \<Rightarrow> int" where
  "us_lower f = (case f of F_Fin a \<Rightarrow> round_away a | _ \<Rightarrow> PG_INT64_MIN)"

definition us_upper :: "f64 \<Rightarrow> int" where
  "us_upper f = (case f of F_Fin a \<Rightarrow> round_away a | _ \<Rightarrow> PG_INT64_MAX)"

lemma temporal_coords:
  assumes "temporal_cube c"
  shows "LL_COORD ce c 0 = cube_ll c 0" "LL_COORD ce c 1 = cube_ll c 1"
    "UR_COORD ce c 0 = cube_ur c 0" "UR_COORD ce c 1 = cube_ur c 1"
    "IS_POINT c \<Longrightarrow> cube_ur c i = cube_ll c i"
  using assms
  by (auto simp: temporal_cube_def LL_COORD_def UR_COORD_def coord_def cube_ll_def cube_ur_def
      numeral_2_eq_2)

lemma attr_coordE:
  assumes "attr_coord f"
  obtains a where "f = F_Fin a" "llround ce f = round_away a" "round_away a \<in> int_range 32"
proof -
  from assms obtain a where a: "f = F_Fin a" "of_int (- 2147483648) \<le> a" "a \<le> of_int 2147483647"
    by (cases f) (auto simp: attr_coord_def)
  then have "of_int PG_INT64_MIN \<le> a" "a \<le> of_int PG_INT64_MAX"
    by (auto simp: PG_INT64_MIN_def PG_INT64_MAX_def)
  moreover have "round_away a \<in> int_range 32"
    using round_away_bounds [OF a(2,3)] by (simp add: int_range_32)
  ultimately show thesis using a that llround_fin by blast
qed

lemma time_round:
  assumes "- (2 ^ 53) \<le> a" "a \<le> (2 ^ 53 :: rat)"
  shows "llround ce (F_Fin a) = round_away a"
    and "PG_INT64_MIN < round_away a" and "round_away a < PG_INT64_MAX"
    and "- (2 ^ 53) \<le> round_away a" and "round_away a \<le> 2 ^ 53"
proof -
  have b: "of_int (- (2 ^ 53)) \<le> a" "a \<le> of_int (2 ^ 53)" using assms by simp_all
  show "llround ce (F_Fin a) = round_away a"
    using assms by (intro llround_fin) (simp_all add: PG_INT64_MIN_def PG_INT64_MAX_def)
  from round_away_bounds [OF b]
  show "PG_INT64_MIN < round_away a" "round_away a < PG_INT64_MAX"
    "- (2 ^ 53) \<le> round_away a" "round_away a \<le> 2 ^ 53"
    by (simp_all add: PG_INT64_MIN_def PG_INT64_MAX_def)
qed

text \<open>The flags of a converted box say exactly which bounds are at the end of the range.\<close>

lemma rtree_cube_to_box_flags:
  "nonempty_box (rtree_cube_to_box ce c)"
  "box_upper_inf (rtree_cube_to_box ce c) \<longleftrightarrow> upper_us (rtree_cube_to_box ce c) = PG_INT64_MAX"
  "box_lower_inf (rtree_cube_to_box ce c) \<longleftrightarrow> lower_us (rtree_cube_to_box ce c) = PG_INT64_MIN"
  by (auto simp: rtree_cube_to_box_def Let_def box_flag_bits bit_simps)

lemma us_lower_min: "lower_coord f \<Longrightarrow> us_lower f = PG_INT64_MIN \<longleftrightarrow> f = F_NInf"
  using time_round(2) by (cases f) (auto simp: lower_coord_def us_lower_def, fastforce)

lemma us_upper_max: "upper_coord f \<Longrightarrow> us_upper f = PG_INT64_MAX \<longleftrightarrow> f = F_PInf"
  using time_round(3) by (cases f) (auto simp: upper_coord_def us_upper_def, fastforce)

lemma rtree_cube_to_box_temporal:
  assumes "temporal_cube c"
  shows "attr_lo (rtree_cube_to_box ce c) = us_lower (cube_ll c 0)"
    and "attr_hi (rtree_cube_to_box ce c) = us_upper (cube_ur c 0)"
    and "lower_us (rtree_cube_to_box ce c) = us_lower (cube_ll c 1)"
    and "upper_us (rtree_cube_to_box ce c) = us_upper (cube_ur c 1)"
    and "dims (rtree_cube_to_box ce c) = 2"
proof -
  note T = temporal_coords [OF assms]
  have d: "DIM c = 2" using assms by (simp add: temporal_cube_def)
  from assms obtain a where a: "cube_ll c 0 = F_Fin a" "llround ce (F_Fin a) = round_away a"
    "round_away a \<in> int_range 32"
    by (metis attr_coordE temporal_cube_def)
  from assms obtain b where b: "cube_ur c 0 = F_Fin b" "llround ce (F_Fin b) = round_away b"
    "round_away b \<in> int_range 32"
    by (metis attr_coordE temporal_cube_def)
  have l: "lower_coord (cube_ll c 1)" and u: "upper_coord (cube_ur c 1)"
    using assms by (auto simp: temporal_cube_def)
  have sel: "(if IS_POINT c then LL_COORD ce c 0 else UR_COORD ce c 0) = F_Fin b"
    "(if IS_POINT c then LL_COORD ce c 1 else UR_COORD ce c 1) = cube_ur c 1"
    using T b by auto
  show "attr_lo (rtree_cube_to_box ce c) = us_lower (cube_ll c 0)"
    using T a by (simp add: rtree_cube_to_box_def Let_def us_lower_def)
  show "attr_hi (rtree_cube_to_box ce c) = us_upper (cube_ur c 0)"
    using sel b by (simp add: rtree_cube_to_box_def Let_def us_upper_def)
  show "lower_us (rtree_cube_to_box ce c) = us_lower (cube_ll c 1)"
    using T l d by (auto simp: rtree_cube_to_box_def Let_def us_lower_def lower_coord_def
        f_isinf_def time_round split: f64.splits)
  show "upper_us (rtree_cube_to_box ce c) = us_upper (cube_ur c 1)"
    using sel u d by (auto simp: rtree_cube_to_box_def Let_def us_upper_def upper_coord_def
        f_isinf_def time_round split: f64.splits)
  show "dims (rtree_cube_to_box ce c) = 2"
    using d by (simp add: rtree_cube_to_box_def Let_def)
qed

section \<open>Agreement with the SQL operators\<close>

text \<open>The operator class: strategy 1 is \<open>&&\<close>, 2 is \<open>@>\<close>, 3 is \<open><@\<close>, the indexed cube on the left.\<close>

definition sql_operator :: "cenv \<Rightarrow> nat \<Rightarrow> NDBOX \<Rightarrow> NDBOX \<Rightarrow> bool" where
  "sql_operator ce st key query =
     (if st = TRTREE_STRATEGY_CONTAINS then cube_contains ce key query
      else if st = TRTREE_STRATEGY_CONTAINED then cube_contained ce key query
      else cube_overlap ce key query)"

lemma f_not_gt_iff: "a \<noteq> F_NaN \<Longrightarrow> b \<noteq> F_NaN \<Longrightarrow> \<not> f_gt a b \<longleftrightarrow> f_le a b"
  by (cases a; cases b) (auto simp: f_le_def)

lemma f_le_not_nan: "f_le a b \<Longrightarrow> a \<noteq> F_NaN \<and> b \<noteq> F_NaN"
  by (cases a; cases b) (auto simp: f_le_def)

lemma f_MinMax_ordered: "f_le a b \<Longrightarrow> f_Min a b = a" "f_le a b \<Longrightarrow> f_Max a b = b"
  by (cases a; cases b; auto simp: f_le_def f_Min_def f_Max_def)+

lemma attr_coord_time: "attr_coord f \<Longrightarrow> lower_coord f \<and> upper_coord f"
  by (cases f) (auto simp: attr_coord_def lower_coord_def upper_coord_def)

lemma temporal_cubeD:
  assumes "temporal_cube c" "i < 2"
  shows "DIM c = 2" "lower_coord (cube_ll c i)" "upper_coord (cube_ur c i)"
    "f_le (cube_ll c i) (cube_ur c i)" "cube_lo ce c i = cube_ll c i" "cube_hi ce c i = cube_ur c i"
proof -
  have i: "i = 0 \<or> i = 1" using assms(2) by auto
  note T = temporal_coords [OF assms(1)]
  show "DIM c = 2" "lower_coord (cube_ll c i)" "upper_coord (cube_ur c i)"
    and le: "f_le (cube_ll c i) (cube_ur c i)"
    using i assms(1) attr_coord_time by (auto simp: temporal_cube_def)
  show "cube_lo ce c i = cube_ll c i" "cube_hi ce c i = cube_ur c i"
    using i T le f_MinMax_ordered by (auto simp: cube_lo_def cube_hi_def)
qed

lemma upt_0_2: "[0..<2] = [0, 1]"
  by (simp add: upt_rec)

lemma temporal_view:
  assumes "temporal_cube c"
  shows "DIM c = 2" "cube_lo ce c 0 = cube_ll c 0" "cube_lo ce c (Suc 0) = cube_ll c (Suc 0)"
    "cube_hi ce c 0 = cube_ur c 0" "cube_hi ce c (Suc 0) = cube_ur c (Suc 0)"
    "cube_ll c 0 \<noteq> F_NaN" "cube_ll c (Suc 0) \<noteq> F_NaN"
    "cube_ur c 0 \<noteq> F_NaN" "cube_ur c (Suc 0) \<noteq> F_NaN"
  using temporal_cubeD [OF assms, of 0] temporal_cubeD [OF assms, of "Suc 0"] f_le_not_nan
  by auto

lemma cube_overlap_temporal:
  assumes "temporal_cube a" "temporal_cube b"
  shows "cube_overlap ce a b \<longleftrightarrow>
    (\<forall>i \<in> {0, 1}. f_le (cube_ll a i) (cube_ur b i) \<and> f_le (cube_ll b i) (cube_ur a i))"
  using assms
  by (auto simp: cube_overlap_def cube_overlap_v0_def upt_0_2 f_not_gt_iff temporal_view)

lemma cube_contains_temporal:
  assumes "temporal_cube a" "temporal_cube b"
  shows "cube_contains ce a b \<longleftrightarrow>
    (\<forall>i \<in> {0, 1}. f_le (cube_ll a i) (cube_ll b i) \<and> f_le (cube_ur b i) (cube_ur a i))"
  using assms
  by (auto simp: cube_contains_def cube_contains_v0_def upt_0_2 f_not_gt_iff temporal_view)

subsection \<open>Rounding keeps the order\<close>

lemma us_bounds:
  "lower_coord f \<Longrightarrow> PG_INT64_MIN \<le> us_lower f \<and> us_lower f < PG_INT64_MAX"
  "upper_coord f \<Longrightarrow> PG_INT64_MIN < us_upper f \<and> us_upper f \<le> PG_INT64_MAX"
  using time_round(2,3)
  by (cases f; fastforce simp: lower_coord_def upper_coord_def us_lower_def us_upper_def
      PG_INT64_MIN_def PG_INT64_MAX_def)+

lemma us_mono:
  "lower_coord x \<Longrightarrow> lower_coord y \<Longrightarrow> f_le x y \<Longrightarrow> us_lower x \<le> us_lower y"
  "upper_coord x \<Longrightarrow> upper_coord y \<Longrightarrow> f_le x y \<Longrightarrow> us_upper x \<le> us_upper y"
  "lower_coord x \<Longrightarrow> upper_coord y \<Longrightarrow> f_le x y \<Longrightarrow> us_lower x \<le> us_upper y"
  using us_bounds [of x] us_bounds [of y]
  by (cases x; cases y; auto simp: lower_coord_def upper_coord_def us_lower_def us_upper_def
      f_le_def intro: round_away_mono)+

text \<open>On whole numbers rounding does nothing, so the order is kept both ways.\<close>

definition whole :: "f64 \<Rightarrow> bool" where
  "whole f = (case f of F_Fin a \<Rightarrow> a = of_int \<lfloor>a\<rfloor> | F_NaN \<Rightarrow> False | _ \<Rightarrow> True)"

lemma round_away_whole: "a = of_int \<lfloor>a\<rfloor> \<Longrightarrow> of_int (round_away a) = a"
  by (metis round_away_of_int)

lemma round_away_whole_le:
  "a = of_int \<lfloor>a\<rfloor> \<Longrightarrow> b = of_int \<lfloor>b\<rfloor> \<Longrightarrow> round_away a \<le> round_away b \<longleftrightarrow> a \<le> b"
  by (metis of_int_le_iff round_away_whole)

lemma us_order:
  "lower_coord x \<Longrightarrow> lower_coord y \<Longrightarrow> whole x \<Longrightarrow> whole y \<Longrightarrow> us_lower x \<le> us_lower y \<longleftrightarrow> f_le x y"
  "upper_coord x \<Longrightarrow> upper_coord y \<Longrightarrow> whole x \<Longrightarrow> whole y \<Longrightarrow> us_upper x \<le> us_upper y \<longleftrightarrow> f_le x y"
  "lower_coord x \<Longrightarrow> upper_coord y \<Longrightarrow> whole x \<Longrightarrow> whole y \<Longrightarrow> us_lower x \<le> us_upper y \<longleftrightarrow> f_le x y"
  using us_bounds [of x] us_bounds [of y] us_lower_min [of x] us_lower_min [of y]
    us_upper_max [of x] us_upper_max [of y]
  by (cases x; cases y; auto simp: lower_coord_def upper_coord_def us_lower_def us_upper_def
      f_le_def whole_def round_away_whole_le)+

definition whole_cube :: "NDBOX \<Rightarrow> bool" where
  "whole_cube c \<longleftrightarrow> list_all whole (ndx c)"

lemma whole_cube_coords:
  assumes "temporal_cube c" "whole_cube c" "i \<in> {0, 1}"
  shows "whole (cube_ll c i)" "whole (cube_ur c i)"
  using assms
  by (auto simp: temporal_cube_def whole_cube_def cube_ll_def cube_ur_def list_all_length
      split: if_splits)

lemmas box_sides = rtree_cube_to_box_temporal rtree_cube_to_box_flags(1)

lemma sql_overlap_box:
  assumes "temporal_cube a" "temporal_cube b"
  shows "cube_overlap ce a b \<Longrightarrow> rtree_box_overlaps (rtree_cube_to_box ce a) (rtree_cube_to_box ce b)"
    and "whole_cube a \<Longrightarrow> whole_cube b \<Longrightarrow>
      rtree_box_overlaps (rtree_cube_to_box ce a) (rtree_cube_to_box ce b) = cube_overlap ce a b"
proof -
  note A = temporal_cubeD(2,3) [OF assms(1)] and B = temporal_cubeD(2,3) [OF assms(2)]
  note S = cube_overlap_temporal [OF assms] rtree_box_overlaps_def box_sides assms not_less
  show "cube_overlap ce a b \<Longrightarrow> rtree_box_overlaps (rtree_cube_to_box ce a) (rtree_cube_to_box ce b)"
    using A B by (auto simp: S intro: us_mono)
  show "whole_cube a \<Longrightarrow> whole_cube b \<Longrightarrow>
      rtree_box_overlaps (rtree_cube_to_box ce a) (rtree_cube_to_box ce b) = cube_overlap ce a b"
    using A B whole_cube_coords [OF assms(1)] whole_cube_coords [OF assms(2)]
    by (simp add: S us_order de_Morgan_disj) blast
qed

lemma sql_contains_box:
  assumes "temporal_cube a" "temporal_cube b"
  shows "cube_contains ce a b \<Longrightarrow> rtree_box_contains (rtree_cube_to_box ce a) (rtree_cube_to_box ce b)"
    and "whole_cube a \<Longrightarrow> whole_cube b \<Longrightarrow>
      rtree_box_contains (rtree_cube_to_box ce a) (rtree_cube_to_box ce b) = cube_contains ce a b"
proof -
  note A = temporal_cubeD(2,3) [OF assms(1)] and B = temporal_cubeD(2,3) [OF assms(2)]
  note S = cube_contains_temporal [OF assms] rtree_box_contains_def box_sides assms
  show "cube_contains ce a b \<Longrightarrow> rtree_box_contains (rtree_cube_to_box ce a) (rtree_cube_to_box ce b)"
    using A B by (auto simp: S intro: us_mono)
  show "whole_cube a \<Longrightarrow> whole_cube b \<Longrightarrow>
      rtree_box_contains (rtree_cube_to_box ce a) (rtree_cube_to_box ce b) = cube_contains ce a b"
    using A B whole_cube_coords [OF assms(1)] whole_cube_coords [OF assms(2)]
    by (simp add: S us_order)
qed

section \<open>Stored boxes\<close>

lemma box_to_cube_parts:
  "DIM (rtree_box_to_cube b) = 2"
  "IS_POINT (rtree_box_to_cube b) = box_is_point b"
  "vl_len (rtree_box_to_cube b) = (if box_is_point b then 24 else 40)"
  "ndx (rtree_box_to_cube b) =
     (if box_is_point b then [f64_of_int (attr_lo b), f64_of_int (lower_us b)]
      else [f64_of_int (attr_lo b), f64_of_int (lower_us b), f64_of_int (attr_hi b),
            f64_of_int (upper_us b)])"
proof -
  have h: "(POINT_BIT AND NOT DIM_MASK) OR 2 = (2 :: 32 word) OR POINT_BIT"
    by (simp add: POINT_BIT_def DIM_MASK_def)
  note H = header_dim [of 2, simplified]
  show "DIM (rtree_box_to_cube b) = 2" "IS_POINT (rtree_box_to_cube b) = box_is_point b"
    "vl_len (rtree_box_to_cube b) = (if box_is_point b then 24 else 40)"
    "ndx (rtree_box_to_cube b) =
     (if box_is_point b then [f64_of_int (attr_lo b), f64_of_int (lower_us b)]
      else [f64_of_int (attr_lo b), f64_of_int (lower_us b), f64_of_int (attr_hi b),
            f64_of_int (upper_us b)])"
    using H h
    by (simp_all add: rtree_box_to_cube_def rtree_box_to_cube_internal_def Let_def DIM_def
        IS_POINT_def SET_DIM_def SET_VARSIZE_def SET_POINT_BIT_def palloc0_NDBOX_def
        POINT_SIZE_def CUBE_SIZE_def)
qed

lemma point_ur: "(if IS_POINT c then LL_COORD ce c i else UR_COORD ce c i) = UR_COORD ce c i"
  by (simp add: LL_COORD_def UR_COORD_def)

lemmas rtree_cube_to_box_ur = rtree_cube_to_box_def [unfolded point_ur Let_def]

lemma coords_of_box:
  "LL_COORD ce (rtree_box_to_cube b) 0 = f64_of_int (attr_lo b)"
  "LL_COORD ce (rtree_box_to_cube b) (Suc 0) = f64_of_int (lower_us b)"
  "UR_COORD ce (rtree_box_to_cube b) 0 = f64_of_int (attr_hi b)"
  "UR_COORD ce (rtree_box_to_cube b) (Suc 0) = f64_of_int (upper_us b)"
  by (auto simp: LL_COORD_def UR_COORD_def coord_def box_to_cube_parts box_is_point_def)

lemma llround_of_int: "\<bar>n\<bar> \<le> 2 ^ 53 \<Longrightarrow> llround ce (f64_of_int n) = n"
proof -
  assume n: "\<bar>n\<bar> \<le> 2 ^ 53"
  then have "of_int (- (2 ^ 53)) \<le> (of_int n :: rat)" "(of_int n :: rat) \<le> of_int (2 ^ 53)"
    by (simp_all only: of_int_le_iff)
  then show ?thesis
    using f64_of_int_exact [OF n] time_round(1) [of "of_int n" ce] by simp
qed

text \<open>A box whose times are finite and within the exact range of a double.\<close>

definition storable_box :: "RTreeTemporalBox \<Rightarrow> bool" where
  "storable_box b \<longleftrightarrow> attr_lo b \<in> int_range 32 \<and> attr_hi b \<in> int_range 32 \<and>
     \<bar>lower_us b\<bar> \<le> 2 ^ 53 \<and> \<bar>upper_us b\<bar> \<le> 2 ^ 53 \<and> dims b = 2 \<and> box_flags b = 0"

lemma storable_attr: "a \<in> int_range 32 \<Longrightarrow> llround ce (f64_of_int a) = a"
  by (rule llround_of_int) (auto simp: int_range_32)

text \<open>C14. A box stored in an index tuple as a cube and read back is the same box, when its bounds
  are finite whole numbers within the exact range of a double.\<close>

theorem box_cube_roundtrip:
  assumes "storable_box b"
  shows "rtree_cube_to_box ce (rtree_box_to_cube b) = b"
proof -
  have L: "llround ce (f64_of_int (attr_lo b)) = attr_lo b"
    "llround ce (f64_of_int (attr_hi b)) = attr_hi b"
    "llround ce (f64_of_int (lower_us b)) = lower_us b"
    "llround ce (f64_of_int (upper_us b)) = upper_us b"
    using assms by (auto simp: storable_box_def storable_attr llround_of_int)
  have N: "\<not> f_isinf (f64_of_int (lower_us b))" "\<not> f_isinf (f64_of_int (upper_us b))"
    "lower_us b \<noteq> PG_INT64_MIN" "upper_us b \<noteq> PG_INT64_MAX"
    using assms by (auto simp: storable_box_def f64_of_int_exact f_isinf_def PG_INT64_MIN_def
        PG_INT64_MAX_def)
  show ?thesis
    using assms L N
    by (simp add: rtree_cube_to_box_ur coords_of_box box_to_cube_parts(1) storable_box_def)
qed

text \<open>The upper bound of a stored box of current rows, \<^verbatim>\<open>PG_INT64_MAX\<close>, is the double \<open>2\<^sup>6\<^sup>3\<close>, which \<^verbatim>\<open>llround\<close> cannot
  represent.\<close>

lemma current_box_stored:
  assumes "upper_us b = PG_INT64_MAX"
  shows "upper_us (rtree_cube_to_box ce (rtree_box_to_cube b)) = wrap64 (oor_llround ce (F_Fin (2 ^ 63)))
    \<and> (box_upper_inf (rtree_cube_to_box ce (rtree_box_to_cube b)) \<longleftrightarrow>
        wrap64 (oor_llround ce (F_Fin (2 ^ 63))) = PG_INT64_MAX)"
proof -
  have "round_away (2 ^ 63) = 2 ^ 63"
    using round_away_of_int [of "2 ^ 63"] by simp
  then have "llround ce (F_Fin (2 ^ 63)) = wrap64 (oor_llround ce (F_Fin (2 ^ 63)))"
    by (simp add: llround_def int_range_def)
  then have "upper_us (rtree_cube_to_box ce (rtree_box_to_cube b)) =
      wrap64 (oor_llround ce (F_Fin (2 ^ 63)))"
    using assms
    by (simp add: rtree_cube_to_box_ur coords_of_box box_to_cube_parts(1)
        f64_of_int64_max f_isinf_def)
  then show ?thesis by (simp add: rtree_cube_to_box_flags)
qed

text \<open>C34. On x86-64, where an out-of-range \<^verbatim>\<open>llround\<close> gives the smallest 64-bit integer, the bounding box of current rows does not
  survive being stored: the box that is read back ends at the smallest time instead of the largest, is not flagged as current, differs from
  the stored box and does not contain it. (Only a platform whose \<^verbatim>\<open>llround\<close> gives the largest integer there reads the bound back.)\<close>

theorem current_box_not_preserved:
  assumes "upper_us b = PG_INT64_MAX" "oor_llround ce (F_Fin (2 ^ 63)) = PG_INT64_MIN"
  shows "upper_us (rtree_cube_to_box ce (rtree_box_to_cube b)) = PG_INT64_MIN \<and>
    \<not> box_upper_inf (rtree_cube_to_box ce (rtree_box_to_cube b)) \<and>
    rtree_cube_to_box ce (rtree_box_to_cube b) \<noteq> b \<and> \<not> rtree_box_contains (rtree_cube_to_box ce (rtree_box_to_cube b)) b"
proof -
  have w: "wrap64 PG_INT64_MIN = PG_INT64_MIN" "PG_INT64_MIN < PG_INT64_MAX"
    by (simp_all add: int_range_64 PG_INT64_MIN_def PG_INT64_MAX_def)
  then have u: "upper_us (rtree_cube_to_box ce (rtree_box_to_cube b)) = PG_INT64_MIN"
      "\<not> box_upper_inf (rtree_cube_to_box ce (rtree_box_to_cube b))"
    using current_box_stored [OF assms(1), of ce] assms(2) by simp_all
  moreover have "rtree_cube_to_box ce (rtree_box_to_cube b) \<noteq> b" using u(1) assms(1) w(2) by auto
  ultimately show ?thesis using assms(1) w(2) by (auto simp: rtree_box_contains_def)
qed

section \<open>The SQL constructors\<close>

text \<open>
  \<^verbatim>\<open>temporalbox--1.0.sql\<close>. A \<^verbatim>\<open>tsrange\<close> is empty or has two bounds, given by their epoch seconds, where \<open>None\<close> is an infinite
  bound; whether a bound is inclusive plays no part. Timestamps are finite.
\<close>

datatype RangeType = EmptyRange | BoundedRange "rat option" "rat option"

fun range_lower :: "RangeType \<Rightarrow> rat option" where
  "range_lower EmptyRange = None"
| "range_lower (BoundedRange lo hi) = lo"

fun range_upper :: "RangeType \<Rightarrow> rat option" where
  "range_upper EmptyRange = None"
| "range_upper (BoundedRange lo hi) = hi"

fun range_upper_inf :: "RangeType \<Rightarrow> bool" where
  "range_upper_inf EmptyRange = False"
| "range_upper_inf (BoundedRange lo hi) = (hi = None)"

definition temporalbox :: "int \<Rightarrow> RangeType \<Rightarrow> cube_error + NDBOX" where
  "temporalbox attr period =
     cube_a_f8_f8 [Some (f64_of_int attr), map_option f64_of_rat (range_lower period)]
       [Some (f64_of_int attr), if range_upper_inf period then Some F_PInf else map_option f64_of_rat (range_upper period)]"

definition temporalbox_point :: "int \<Rightarrow> rat \<Rightarrow> cube_error + NDBOX" where
  "temporalbox_point attr t = cube_a_f8 [Some (f64_of_int attr), Some (f64_of_rat t)]"

definition temporalbox_range :: "int \<Rightarrow> rat \<Rightarrow> rat \<Rightarrow> cube_error + NDBOX" where
  "temporalbox_range attr t1 t2 =
     cube_a_f8_f8 [Some (f64_of_int attr), Some (f64_of_rat t1)] [Some (f64_of_int attr), Some (f64_of_rat t2)]"

lemma dim2_header:
  "(0 AND NOT DIM_MASK) OR of_nat 2 = (2 :: 32 word)"
  "unat ((2 :: 32 word) AND DIM_MASK) = 2" "(2 :: 32 word) AND POINT_BIT = 0"
  "unat (((2 :: 32 word) OR POINT_BIT) AND DIM_MASK) = 2"
  "((2 :: 32 word) OR POINT_BIT) AND POINT_BIT \<noteq> 0" "POINT_BIT \<noteq> 0"
  using header_dim [of 2] by (simp_all add: POINT_BIT_def)

lemma f_eq_eq: "a \<noteq> F_NaN \<Longrightarrow> f_eq a b \<longleftrightarrow> a = b"
  by (auto simp: f_eq_def)

lemma cube2_cases:
  assumes "a \<noteq> F_NaN" "b \<noteq> F_NaN" "l \<noteq> F_NaN" "u \<noteq> F_NaN"
  obtains c where "cube_a_f8_f8 [Some a, Some l] [Some b, Some u] = Inr c"
    "DIM c = 2" "length (ndx c) = (if IS_POINT c then 2 else 4)"
    "cube_ll c 0 = a" "cube_ll c (Suc 0) = l" "cube_ur c 0 = b" "cube_ur c (Suc 0) = u"
    "vl_len c = (if IS_POINT c then 24 else 40)"
proof (cases "a = b \<and> l = u")
  case True
  have "POINT_BIT \<noteq> 0" by (simp add: POINT_BIT_def)
  with True show thesis
    using assms
    by (intro that [of "\<lparr>vl_len = 24, ndheader = 2 OR POINT_BIT, ndx = [a, l]\<rparr>"])
      (auto simp: cube_a_f8_f8_def array_contains_nulls_def Let_def upt_0_2 f_eq_def CUBE_MAX_DIM_def SET_DIM_def
        SET_VARSIZE_def SET_POINT_BIT_def palloc0_NDBOX_def POINT_SIZE_def dim2_header DIM_def
        IS_POINT_def cube_ll_def cube_ur_def)
next
  case False
  then show thesis
    using assms
    by (intro that [of "\<lparr>vl_len = 40, ndheader = 2, ndx = [a, l, b, u]\<rparr>"])
      (auto simp: cube_a_f8_f8_def array_contains_nulls_def Let_def upt_0_2 f_eq_def CUBE_MAX_DIM_def SET_DIM_def
        SET_VARSIZE_def SET_POINT_BIT_def palloc0_NDBOX_def CUBE_SIZE_def dim2_header DIM_def
        IS_POINT_def cube_ll_def cube_ur_def)
qed

lemma f64_time:
  assumes "\<bar>t\<bar> \<le> 2 ^ 53"
  obtains v where "f64_of_rat t = F_Fin v" "- (2 ^ 53) \<le> v" "v \<le> 2 ^ 53"
proof -
  have r: "representable (2 ^ 53)" using representable_int [of "2 ^ 53"] by simp
  have t: "- (2 ^ 53) \<le> t" "t \<le> 2 ^ 53" using assms by (simp_all add: abs_le_iff)
  show thesis
    by (rule f64_of_rat_bounded [OF representable_uminus [OF r] r t _ _ that]) simp_all
qed

lemma f64_attr:
  assumes "a \<in> int_range 32"
  shows "f64_of_int a = F_Fin (of_int a)" "attr_coord (f64_of_int a)"
proof -
  show *: "f64_of_int a = F_Fin (of_int a)"
    using assms by (intro f64_of_int_exact) (auto simp: int_range_32)
  have "of_int (- 2147483648) \<le> (of_int a :: rat)" "(of_int a :: rat) \<le> of_int 2147483647"
    using assms by (simp_all only: int_range_32 of_int_le_iff)
  then show "attr_coord (f64_of_int a)"
    unfolding * by (simp add: attr_coord_def)
qed

text \<open>A cube from an attribute and two times in the exact range has these times as its corners, and is temporal if they are in order.\<close>

lemma attr_cube:
  assumes "attr \<in> int_range 32" "lower_coord l" "upper_coord u"
  obtains c where "cube_a_f8_f8 [Some (f64_of_int attr), Some l] [Some (f64_of_int attr), Some u] = Inr c"
    "temporal_cube c \<longleftrightarrow> f_le l u" "cube_ur c 1 = u"
proof -
  note A = f64_attr [OF assms(1)]
  have nan: "f64_of_int attr \<noteq> F_NaN" "l \<noteq> F_NaN" "u \<noteq> F_NaN" using A(1) assms(2,3) by (auto simp: lower_coord_def upper_coord_def)
  obtain c where c: "cube_a_f8_f8 [Some (f64_of_int attr), Some l] [Some (f64_of_int attr), Some u] = Inr c"
    "DIM c = 2" "length (ndx c) = (if IS_POINT c then 2 else 4)"
    "cube_ll c 0 = f64_of_int attr" "cube_ll c (Suc 0) = l" "cube_ur c 0 = f64_of_int attr" "cube_ur c (Suc 0) = u"
    by (rule cube2_cases [OF nan(1) nan(1) nan(2,3)])
  moreover have "temporal_cube c \<longleftrightarrow> f_le l u" using A assms c(2-7) by (simp add: temporal_cube_def f_le_def)
  ultimately show thesis using that by simp
qed

lemma f64_time_coord:
  assumes "\<bar>t\<bar> \<le> 2 ^ 53"
  shows "lower_coord (f64_of_rat t)" "upper_coord (f64_of_rat t)" "f64_of_rat t \<noteq> F_PInf"
  by (rule f64_time [OF assms], simp add: lower_coord_def upper_coord_def)+

lemma temporalbox_cases:
  assumes "attr \<in> int_range 32" "\<And>t. range_lower period = Some t \<or> range_upper period = Some t \<Longrightarrow> \<bar>t\<bar> \<le> 2 ^ 53"
    and "\<And>lo hi. range_lower period = Some lo \<Longrightarrow> range_upper period = Some hi \<Longrightarrow> lo \<le> hi"
  shows "case range_lower period of None \<Rightarrow> temporalbox attr period = Inl CubeNulls
    | Some lo \<Rightarrow> \<exists>c. temporalbox attr period = Inr c \<and> temporal_cube c \<and> (cube_ur c 1 = F_PInf \<longleftrightarrow> range_upper_inf period)"
proof (cases "range_lower period")
  case None
  then show ?thesis by (simp add: temporalbox_def cube_a_f8_f8_def array_contains_nulls_def)
next
  case (Some lo)
  then obtain hi where p: "period = BoundedRange (Some lo) hi" by (cases period) auto
  define u where "u = (case hi of None \<Rightarrow> F_PInf | Some h \<Rightarrow> f64_of_rat h)"
  have l: "lower_coord (f64_of_rat lo)" using f64_time_coord(1) [of lo] assms(2) Some by blast
  have u: "upper_coord u \<and> f_le (f64_of_rat lo) u \<and> (u = F_PInf \<longleftrightarrow> hi = None)"
  proof (cases hi)
    case None
    obtain v where "f64_of_rat lo = F_Fin v" using f64_time [of lo] assms(2) Some by blast
    then show ?thesis using None by (simp add: u_def upper_coord_def f_le_def)
  next
    case (Some h)
    then show ?thesis using f64_time_coord [of h] f64_of_rat_mono [of lo h] assms(2,3) p by (simp add: u_def)
  qed
  have box: "temporalbox attr period = cube_a_f8_f8 [Some (f64_of_int attr), Some (f64_of_rat lo)] [Some (f64_of_int attr), Some u]"
    by (simp add: temporalbox_def p u_def split: option.split)
  obtain c where "cube_a_f8_f8 [Some (f64_of_int attr), Some (f64_of_rat lo)] [Some (f64_of_int attr), Some u] = Inr c"
      "temporal_cube c \<longleftrightarrow> f_le (f64_of_rat lo) u" "cube_ur c 1 = u"
    by (rule attr_cube [OF assms(1) l conjunct1 [OF u]])
  then show ?thesis using box u p by simp
qed

lemma temporalbox_point_temporal:
  assumes "attr \<in> int_range 32" "\<bar>t\<bar> \<le> 2 ^ 53"
  shows "\<exists>c. temporalbox_point attr t = Inr c \<and> temporal_cube c"
proof -
  let ?c = "\<lparr>vl_len = 24, ndheader = 2 OR POINT_BIT, ndx = [f64_of_int attr, f64_of_rat t]\<rparr>"
  have "temporalbox_point attr t = Inr ?c"
    by (simp add: temporalbox_point_def cube_a_f8_def array_contains_nulls_def Let_def CUBE_MAX_DIM_def
        SET_DIM_def SET_VARSIZE_def SET_POINT_BIT_def palloc0_NDBOX_def POINT_SIZE_def dim2_header)
  moreover obtain v where "f64_of_rat t = F_Fin v" "- (2 ^ 53) \<le> v" "v \<le> 2 ^ 53" using f64_time [OF assms(2)] .
  then have "temporal_cube ?c"
    using f64_attr [OF assms(1)] by (simp add: temporal_cube_def DIM_def IS_POINT_def dim2_header cube_ll_def cube_ur_def
        lower_coord_def upper_coord_def f_le_def)
  ultimately show ?thesis by blast
qed

text \<open>C32. What the three SQL constructors build from a 32-bit attribute and finite times within \<open>2\<^sup>5\<^sup>3\<close> seconds of the epoch.
  \<^verbatim>\<open>temporalbox\<close> of a range with a lower bound (which a range keeps below its upper one) is a temporal cube, whose upper time is
  infinite exactly when the range is unbounded above; for a range that is empty or unbounded below it fails on a null. \<^verbatim>\<open>temporalbox_point\<close>
  is always a temporal cube. \<^verbatim>\<open>temporalbox_range\<close> builds a cube for any two times, which is temporal exactly when they are in order.\<close>

theorem temporalbox_is_temporal:
  assumes "attr \<in> int_range 32" "\<bar>t1\<bar> \<le> 2 ^ 53" "\<bar>t2\<bar> \<le> 2 ^ 53"
    and "\<And>t. range_lower period = Some t \<or> range_upper period = Some t \<Longrightarrow> \<bar>t\<bar> \<le> 2 ^ 53"
    and "\<And>lo hi. range_lower period = Some lo \<Longrightarrow> range_upper period = Some hi \<Longrightarrow> lo \<le> hi"
  shows "(case range_lower period of None \<Rightarrow> temporalbox attr period = Inl CubeNulls
      | Some lo \<Rightarrow> \<exists>c. temporalbox attr period = Inr c \<and> temporal_cube c \<and> (cube_ur c 1 = F_PInf \<longleftrightarrow> range_upper_inf period)) \<and>
    (\<exists>c. temporalbox_point attr t1 = Inr c \<and> temporal_cube c) \<and>
    (\<exists>c. temporalbox_range attr t1 t2 = Inr c \<and> (temporal_cube c \<longleftrightarrow> f_le (f64_of_rat t1) (f64_of_rat t2)))"
proof (intro conjI)
  show "case range_lower period of None \<Rightarrow> temporalbox attr period = Inl CubeNulls
      | Some lo \<Rightarrow> \<exists>c. temporalbox attr period = Inr c \<and> temporal_cube c \<and> (cube_ur c 1 = F_PInf \<longleftrightarrow> range_upper_inf period)"
    using temporalbox_cases [OF assms(1,4,5)] .
  show "\<exists>c. temporalbox_point attr t1 = Inr c \<and> temporal_cube c" by (rule temporalbox_point_temporal [OF assms(1,2)])
  show "\<exists>c. temporalbox_range attr t1 t2 = Inr c \<and> (temporal_cube c \<longleftrightarrow> f_le (f64_of_rat t1) (f64_of_rat t2))"
    by (rule attr_cube [OF assms(1) f64_time_coord(1) [OF assms(2)] f64_time_coord(2) [OF assms(3)]])
      (auto simp: temporalbox_range_def)
qed

lemmas strategy_defs = sql_operator_def rtree_box_matches_strategy_def rtree_box_contained_def
  cube_contained_def TRTREE_STRATEGY_OVERLAP_def TRTREE_STRATEGY_CONTAINS_def
  TRTREE_STRATEGY_CONTAINED_def

lemma strategy_box:
  assumes "temporal_cube key" "temporal_cube query" "st \<in> {1, 2, 3}"
  shows "sql_operator ce st key query \<Longrightarrow> rtree_box_matches_strategy (rtree_cube_to_box ce key) (rtree_cube_to_box ce query) st"
    and "whole_cube key \<Longrightarrow> whole_cube query \<Longrightarrow>
      rtree_box_matches_strategy (rtree_cube_to_box ce key) (rtree_cube_to_box ce query) st = sql_operator ce st key query"
  using assms sql_overlap_box [OF assms(1,2)] sql_contains_box [OF assms(1,2)] sql_contains_box [OF assms(2,1)]
  by (auto simp: strategy_defs cube_contains_def)

text \<open>C16. On temporal cubes (two dimensions, corners in order, times within \<open>2\<^sup>5\<^sup>3\<close> or infinite) the index never misses a match:
  whenever the SQL operator of one of the three strategies holds between an indexed cube and a query cube, the index's own box test holds on
  the rounded boxes. The order of the corners is needed, see \<open>reversed_range_missed\<close>.\<close>

theorem strategy_complete:
  assumes "temporal_cube key" "temporal_cube query" "st \<in> {1, 2, 3}" "sql_operator ce st key query"
  shows "rtree_box_matches_strategy (rtree_cube_to_box ce key) (rtree_cube_to_box ce query) st"
  by (rule strategy_box(1) [OF assms])

text \<open>On cubes whose coordinates are whole numbers or infinities (periods that start and end on
  whole seconds) the index's box test is exactly the SQL operator.\<close>

lemma strategy_exact_on_whole_seconds:
  assumes "temporal_cube key" "temporal_cube query" "whole_cube key" "whole_cube query"
    "st \<in> {1, 2, 3}"
  shows "rtree_box_matches_strategy (rtree_cube_to_box ce key) (rtree_cube_to_box ce query) st
    = sql_operator ce st key query"
  by (rule strategy_box(2) [OF assms(1,2,5,3,4)])

text \<open>The union of two nonempty boxes is the least bounding box: it contains both, and every box
  that contains both contains it.\<close>

lemma tr_union_least:
  assumes "nonempty_box a" "nonempty_box b"
  shows "rtree_box_contains (tr_union a b) a \<and> rtree_box_contains (tr_union a b) b \<and>
    (\<forall>c. rtree_box_contains c a \<and> rtree_box_contains c b \<longrightarrow> rtree_box_contains c (tr_union a b))"
  using assms tbox.un_upper1 tbox.un_upper2 tbox.un_least by blast

section \<open>Instances\<close>

text \<open>The C environment of the shipped build: x86-64, where an out-of-range \<^verbatim>\<open>llround\<close> yields
  \<^verbatim>\<open>INT64_MIN\<close> and the compiler folds an out-of-range constant cast to \<^verbatim>\<open>INT64_MAX\<close>.\<close>

definition x86_env :: cenv where
  "x86_env = \<lparr>oor_llround = (\<lambda>_. PG_INT64_MIN), oor_cast64 = (\<lambda>_. PG_INT64_MAX),
     oob_coord = (\<lambda>_. F_NaN)\<rparr>"

definition row_box :: RTreeTemporalBox where
  "row_box = \<lparr>lower_us = 10, upper_us = 20, attr_lo = 7, attr_hi = 7, dims = 2, box_flags = 0\<rparr>"

definition current_box :: RTreeTemporalBox where
  "current_box = \<lparr>lower_us = 10, upper_us = PG_INT64_MAX, attr_lo = 7, attr_hi = 7, dims = 2,
     box_flags = TRTREE_FLAG_UPPER_INF\<rparr>"

definition row_cube :: NDBOX where
  "row_cube = \<lparr>vl_len = 40, ndheader = 2, ndx = [F_Fin 7, F_Fin 10, F_Fin 7, F_Fin 20]\<rparr>"

definition point_cube :: NDBOX where
  "point_cube = \<lparr>vl_len = 24, ndheader = 2 OR POINT_BIT, ndx = [F_Fin 7, F_Fin 15]\<rparr>"

lemma row_box_wf: "storable_box row_box" "nonempty_box row_box" "ordered_box row_box"
  by (simp_all add: row_box_def storable_box_def int_range_32 box_empty_def ordered_box_def)

lemma row_cube_wf: "temporal_cube row_cube" "whole_cube row_cube"
  by (simp_all add: row_cube_def temporal_cube_def DIM_def IS_POINT_def dim2_header cube_ll_def
      cube_ur_def attr_coord_def lower_coord_def upper_coord_def f_le_def whole_cube_def whole_def)

lemma point_cube_wf: "temporal_cube point_cube" "whole_cube point_cube"
  by (simp_all add: point_cube_def temporal_cube_def DIM_def IS_POINT_def dim2_header cube_ll_def
      cube_ur_def attr_coord_def lower_coord_def upper_coord_def f_le_def whole_cube_def whole_def)

lemma row_contains_point: "sql_operator ce 2 row_cube point_cube"
  unfolding strategy_defs
  by (simp add: cube_contains_temporal row_cube_wf point_cube_wf)
    (simp add: row_cube_def point_cube_def cube_ll_def cube_ur_def IS_POINT_def dim2_header f_le_def)

theorem box_cube_roundtrip_witness:
  "storable_box row_box \<and> rtree_cube_to_box x86_env (rtree_box_to_cube row_box) = row_box"
  using box_cube_roundtrip [OF row_box_wf(1), of x86_env] row_box_wf by blast

theorem current_box_not_preserved_witness:
  "upper_us current_box = PG_INT64_MAX \<and> box_upper_inf current_box \<and>
   \<not> box_upper_inf (rtree_cube_to_box x86_env (rtree_box_to_cube current_box)) \<and>
   \<not> rtree_box_contains (rtree_cube_to_box x86_env (rtree_box_to_cube current_box)) current_box"
proof -
  have u: "upper_us current_box = PG_INT64_MAX" "box_upper_inf current_box"
    by (simp_all add: current_box_def box_upper_inf_def TRTREE_FLAG_UPPER_INF_def)
  have "oor_llround x86_env (F_Fin (2 ^ 63)) = PG_INT64_MIN" by (simp add: x86_env_def)
  then show ?thesis using u current_box_not_preserved [OF u(1)] by blast
qed

theorem temporalbox_is_temporal_witness:
  "(\<exists>c. temporalbox 7 (BoundedRange (Some 10) None) = Inr c \<and> temporal_cube c \<and> cube_ur c 1 = F_PInf) \<and>
   (\<exists>c. temporalbox_range 7 20 10 = Inr c \<and> \<not> temporal_cube c)"
proof -
  have a: "(7 :: int) \<in> int_range 32" by (simp add: int_range_32)
  have "f64_of_rat 10 = F_Fin 10" "f64_of_rat 20 = F_Fin 20"
    using f64_of_int_exact [of 10] f64_of_int_exact [of 20] by (simp_all add: f64_of_int_def)
  then show ?thesis using temporalbox_is_temporal [OF a, of 20 10 "BoundedRange (Some 10) None"] by (auto simp: f_le_def)
qed

theorem strategy_complete_witness:
  "sql_operator x86_env 2 row_cube point_cube \<and>
   rtree_box_matches_strategy (rtree_cube_to_box x86_env row_cube)
     (rtree_cube_to_box x86_env point_cube) 2"
  using strategy_complete [OF row_cube_wf(1) point_cube_wf(1) _ row_contains_point, of x86_env]
    row_contains_point by simp

lemma strategy_exact_on_whole_seconds_example:
  "rtree_box_matches_strategy (rtree_cube_to_box x86_env row_cube)
     (rtree_cube_to_box x86_env point_cube) 2 = sql_operator x86_env 2 row_cube point_cube
   \<and> sql_operator x86_env 2 row_cube point_cube"
  using strategy_exact_on_whole_seconds [OF row_cube_wf(1) point_cube_wf(1) row_cube_wf(2)
      point_cube_wf(2), of 2 x86_env] row_contains_point by simp

lemma tr_union_least_example:
  "nonempty_box row_box \<and> rtree_box_contains (tr_union row_box row_box) row_box"
  using tr_union_least [OF row_box_wf(2) row_box_wf(2)] row_box_wf by blast

text \<open>\<^verbatim>\<open>temporalbox_range\<close> accepts times in the wrong order. The SQL operators look at the smaller and the larger coordinate, the index takes
  the first corner as the lower bound: such a row overlaps a query by the operator and not by the index.\<close>

lemma reversed_range_missed:
  "\<exists>key query. temporalbox_range 7 20 10 = Inr key \<and> temporalbox_range 7 12 15 = Inr query \<and>
     sql_operator ce TRTREE_STRATEGY_OVERLAP key query \<and>
     \<not> rtree_box_matches_strategy (rtree_cube_to_box ce key) (rtree_cube_to_box ce query) TRTREE_STRATEGY_OVERLAP"
proof -
  let ?c = "\<lambda>t u. \<lparr>vl_len = 40, ndheader = 2, ndx = [F_Fin 7, F_Fin t, F_Fin 7, F_Fin u]\<rparr>"
  have f: "f64_of_int 7 = F_Fin 7" "f64_of_rat 10 = F_Fin 10" "f64_of_rat 20 = F_Fin 20" "f64_of_rat 12 = F_Fin 12" "f64_of_rat 15 = F_Fin 15"
    using f64_of_int_exact [of 7] f64_of_int_exact [of 10] f64_of_int_exact [of 20] f64_of_int_exact [of 12] f64_of_int_exact [of 15]
    by (simp_all add: f64_of_int_def)
  have c: "temporalbox_range 7 20 10 = Inr (?c 20 10)" "temporalbox_range 7 12 15 = Inr (?c 12 15)"
    by (simp_all add: temporalbox_range_def f cube_a_f8_f8_def array_contains_nulls_def Let_def upt_0_2 f_eq_def CUBE_MAX_DIM_def
        SET_DIM_def SET_VARSIZE_def palloc0_NDBOX_def CUBE_SIZE_def dim2_header)
  have "sql_operator ce 1 (?c 20 10) (?c 12 15)"
    by (simp add: strategy_defs cube_overlap_def cube_overlap_v0_def cube_lo_def cube_hi_def coord_def LL_COORD_def UR_COORD_def DIM_def IS_POINT_def
        dim2_header upt_0_2 Let_def f_Min_def f_Max_def)
  moreover have "upper_us (rtree_cube_to_box ce (?c 20 10)) = 10" "lower_us (rtree_cube_to_box ce (?c 12 15)) = 12"
    using round_away_of_int [of 10] round_away_of_int [of 12]
    by (simp_all add: rtree_cube_to_box_def LL_COORD_def UR_COORD_def coord_def DIM_def IS_POINT_def dim2_header Let_def f_isinf_def llround_def int_range_64
        PG_INT64_MIN_def PG_INT64_MAX_def)
  ultimately show ?thesis using c
    by (intro exI [of _ "?c 20 10"] exI [of _ "?c 12 15"]) (simp add: TRTREE_STRATEGY_OVERLAP_def rtree_box_matches_strategy_def rtree_box_overlaps_def)
qed

text \<open>C35. The index's test is not exact in general: the rows valid at 10.25 s and at 10 s have disjoint
  cubes, yet their boxes overlap, because the times are rounded to whole seconds. Returning such
  a tuple without a recheck is a false positive.\<close>

theorem recheck_needed:
  "\<exists>key query. temporalbox_point 7 (41 / 4) = Inr key \<and> temporalbox_point 7 10 = Inr query \<and>
     rtree_box_matches_strategy (rtree_cube_to_box ce key) (rtree_cube_to_box ce query)
       TRTREE_STRATEGY_OVERLAP \<and>
     \<not> sql_operator ce TRTREE_STRATEGY_OVERLAP key query"
proof -
  let ?p = "\<lambda>t. \<lparr>vl_len = 24, ndheader = 2 OR POINT_BIT, ndx = [F_Fin 7, F_Fin t]\<rparr>"
  have r: "f64_of_int 7 = F_Fin 7" "f64_of_rat 10 = F_Fin 10"
    using f64_of_int_exact [of 7] f64_of_int_exact [of 10] by (simp_all add: f64_of_int_def)
  have "representable (41 / 4)"
    unfolding representable_def by (rule exI [of _ 41], rule exI [of _ "- 2"]) (simp add: pow2_def)
  then have q: "f64_of_rat (41 / 4) = F_Fin (41 / 4)" by (rule f64_of_rat_exact) simp
  have c: "temporalbox_point 7 (41 / 4) = Inr (?p (41 / 4))" "temporalbox_point 7 10 = Inr (?p 10)"
    by (simp_all add: temporalbox_point_def r q cube_a_f8_def array_contains_nulls_def Let_def CUBE_MAX_DIM_def
        SET_DIM_def SET_VARSIZE_def SET_POINT_BIT_def palloc0_NDBOX_def POINT_SIZE_def dim2_header)
  have t: "temporal_cube (?p (41 / 4))" "temporal_cube (?p 10)"
    by (simp_all add: temporal_cube_def DIM_def IS_POINT_def dim2_header cube_ll_def cube_ur_def
        attr_coord_def lower_coord_def upper_coord_def f_le_def)
  have "\<lfloor>43 / 4 :: rat\<rfloor> = 10" by (rule floor_unique) simp_all
  then have ra: "round_away (41 / 4) = 10" "round_away 10 = 10" "round_away 7 = 7"
    using round_away_of_int [of 10] round_away_of_int [of 7] by (simp_all add: round_away_def)
  have "\<not> sql_operator ce 1 (?p (41 / 4)) (?p 10)"
    unfolding strategy_defs
    by (simp add: cube_overlap_temporal t)
      (simp add: cube_ll_def cube_ur_def IS_POINT_def dim2_header f_le_def)
  moreover have "rtree_box_matches_strategy (rtree_cube_to_box ce (?p (41 / 4)))
      (rtree_cube_to_box ce (?p 10)) 1"
    unfolding strategy_defs
    by (simp add: rtree_box_overlaps_def box_sides t)
      (simp add: us_lower_def us_upper_def cube_ll_def cube_ur_def IS_POINT_def dim2_header ra)
  ultimately show ?thesis
    using c by (auto simp: TRTREE_STRATEGY_OVERLAP_def)
qed

end
