(* ===== verification/TR_Bufpage.thy ===== *)
theory TR_Bufpage
  imports TR_Prelude
begin

text \<open>
  PostgreSQL's slotted page (\<^verbatim>\<open>bufpage.c\<close>, \<^verbatim>\<open>bufpage.h\<close>, \<^verbatim>\<open>itemid.h\<close>, \<^verbatim>\<open>off.h\<close>), the routines an index
  uses. A page is its header, the line pointer array, the tuple space as a memory of cells
  addressed from the start of the page, and the content of the special space. The cell type and
  the content of the special space are parameters. Copying inside the page is written as the
  \<^verbatim>\<open>memmove\<close> or \<^verbatim>\<open>memcpy\<close> of the code. The lemmas show that every routine keeps a page well formed
  and does to the list of items on the page what its contract says.
\<close>

section \<open>Line pointers and header\<close>

record ItemIdData =
  lp_off :: nat
  lp_flags :: nat
  lp_len :: nat

definition LP_UNUSED :: nat where "LP_UNUSED = 0"
definition LP_NORMAL :: nat where "LP_NORMAL = 1"

definition ItemIdIsUsed :: "ItemIdData \<Rightarrow> bool" where
  "ItemIdIsUsed i \<longleftrightarrow> lp_flags i \<noteq> LP_UNUSED"

definition ItemIdHasStorage :: "ItemIdData \<Rightarrow> bool" where
  "ItemIdHasStorage i \<longleftrightarrow> lp_len i \<noteq> 0"

text \<open>The offset and the length are bit fields of 15 bits.\<close>

definition ItemIdSetNormal :: "nat \<Rightarrow> nat \<Rightarrow> ItemIdData" where
  "ItemIdSetNormal off len = \<lparr>lp_off = off mod 2 ^ 15, lp_flags = LP_NORMAL, lp_len = len mod 2 ^ 15\<rparr>"

definition ItemIdSetUnused :: ItemIdData where
  "ItemIdSetUnused = \<lparr>lp_off = 0, lp_flags = LP_UNUSED, lp_len = 0\<rparr>"

record ('b, 's) PageData =
  pd_flags :: "16 word"
  pd_lower :: nat
  pd_upper :: nat
  pd_special :: nat
  pd_pagesize_version :: nat
  pd_linp :: "nat \<Rightarrow> ItemIdData"
  pd_cells :: "nat \<Rightarrow> 'b"
  pd_opaque :: 's

definition BLCKSZ :: nat where "BLCKSZ = 8192"
definition SizeOfPageHeaderData :: nat where "SizeOfPageHeaderData = 24"
definition sizeof_ItemIdData :: nat where "sizeof_ItemIdData = 4"
definition MaxHeapTuplesPerPage :: nat where "MaxHeapTuplesPerPage = 291"
definition PD_HAS_FREE_LINES :: "16 word" where "PD_HAS_FREE_LINES = 0x0001"
definition PG_PAGE_LAYOUT_VERSION :: nat where "PG_PAGE_LAYOUT_VERSION = 4"

definition InvalidOffsetNumber :: nat where "InvalidOffsetNumber = 0"
definition FirstOffsetNumber :: nat where "FirstOffsetNumber = 1"
definition MaxOffsetNumber :: nat where "MaxOffsetNumber = 2048"

definition OffsetNumberIsValid :: "nat \<Rightarrow> bool" where
  "OffsetNumberIsValid off \<longleftrightarrow> off \<noteq> InvalidOffsetNumber \<and> off \<le> MaxOffsetNumber"

definition MAXALIGN :: "nat \<Rightarrow> nat" where
  "MAXALIGN n = (n + 7) div 8 * 8"

definition PageIsEmpty :: "('b, 's) PageData \<Rightarrow> bool" where
  "PageIsEmpty p \<longleftrightarrow> pd_lower p \<le> SizeOfPageHeaderData"

definition PageIsNew :: "('b, 's) PageData \<Rightarrow> bool" where
  "PageIsNew p \<longleftrightarrow> pd_upper p = 0"

definition PageGetItemId :: "('b, 's) PageData \<Rightarrow> nat \<Rightarrow> ItemIdData" where
  "PageGetItemId p off = pd_linp p (off - 1)"

definition PageGetMaxOffsetNumber :: "('b, 's) PageData \<Rightarrow> nat" where
  "PageGetMaxOffsetNumber p =
     (if pd_lower p \<le> SizeOfPageHeaderData then 0
      else (pd_lower p - SizeOfPageHeaderData) div sizeof_ItemIdData)"

definition PageHasFreeLinePointers :: "('b, 's) PageData \<Rightarrow> bool" where
  "PageHasFreeLinePointers p \<longleftrightarrow> pd_flags p AND PD_HAS_FREE_LINES \<noteq> 0"

definition PageClearHasFreeLinePointers :: "('b, 's) PageData \<Rightarrow> ('b, 's) PageData" where
  "PageClearHasFreeLinePointers p = p\<lparr>pd_flags := pd_flags p AND NOT PD_HAS_FREE_LINES\<rparr>"

text \<open>The bytes an item pointer designates.\<close>

definition PageGetItem :: "('b, 's) PageData \<Rightarrow> ItemIdData \<Rightarrow> 'b list" where
  "PageGetItem p i = map (pd_cells p) [lp_off i..<lp_off i + lp_len i]"

section \<open>Copying\<close>

definition memmove :: "(nat \<Rightarrow> 'a) \<Rightarrow> nat \<Rightarrow> nat \<Rightarrow> nat \<Rightarrow> nat \<Rightarrow> 'a" where
  "memmove m dst src n = (\<lambda>a. if dst \<le> a \<and> a < dst + n then m (src + (a - dst)) else m a)"

definition memcpy :: "(nat \<Rightarrow> 'a) \<Rightarrow> nat \<Rightarrow> 'a list \<Rightarrow> nat \<Rightarrow> 'a" where
  "memcpy m dst bs = (\<lambda>a. if dst \<le> a \<and> a < dst + length bs then bs ! (a - dst) else m a)"

section \<open>Page routines\<close>

definition zero_linp :: "nat \<Rightarrow> ItemIdData" where
  "zero_linp = (\<lambda>_. ItemIdSetUnused)"

definition PageInit :: "nat \<Rightarrow> nat \<Rightarrow> ('b::zero, 's::zero) PageData" where
  "PageInit pageSize specialSize =
     (let specialSize = MAXALIGN specialSize in
      \<lparr>pd_flags = 0, pd_lower = SizeOfPageHeaderData, pd_upper = pageSize - specialSize,
       pd_special = pageSize - specialSize,
       pd_pagesize_version = pageSize + PG_PAGE_LAYOUT_VERSION,
       pd_linp = zero_linp, pd_cells = (\<lambda>_. 0), pd_opaque = 0\<rparr>)"

text \<open>A page of zeroes, as \<^verbatim>\<open>RBM_ZERO_AND_LOCK\<close> returns.\<close>

definition zero_page :: "('b::zero, 's::zero) PageData" where
  "zero_page = \<lparr>pd_flags = 0, pd_lower = 0, pd_upper = 0, pd_special = 0, pd_pagesize_version = 0,
     pd_linp = zero_linp, pd_cells = (\<lambda>_. 0), pd_opaque = 0\<rparr>"

text \<open>The loop over the line pointers in \<^verbatim>\<open>PageAddItemExtended\<close>: the first recyclable one, or
  \<open>limit\<close>.\<close>

fun find_free :: "(nat \<Rightarrow> ItemIdData) \<Rightarrow> nat list \<Rightarrow> nat \<Rightarrow> nat" where
  "find_free linp [] limit = limit"
| "find_free linp (off # offs) limit =
     (let itemId = linp (off - 1) in
      if \<not> ItemIdIsUsed itemId \<and> \<not> ItemIdHasStorage itemId then off else find_free linp offs limit)"

text \<open>The selection of the slot: \<open>None\<close> when the page routine refuses to overwrite a used slot;
  otherwise the slot, whether line pointers have to be shifted, and the page with its hint
  corrected.\<close>

definition select_slot ::
  "('b, 's) PageData \<Rightarrow> nat \<Rightarrow> bool \<Rightarrow> (nat \<times> bool \<times> ('b, 's) PageData) option" where
  "select_slot p offsetNumber overwrite =
     (let limit = PageGetMaxOffsetNumber p + 1 in
      if OffsetNumberIsValid offsetNumber then
        if overwrite then
          (let itemId = PageGetItemId p offsetNumber in
           if offsetNumber < limit \<and> (ItemIdIsUsed itemId \<or> ItemIdHasStorage itemId) then None
           else Some (offsetNumber, False, p))
        else Some (offsetNumber, offsetNumber < limit, p)
      else if PageHasFreeLinePointers p then
        (let off = find_free (pd_linp p) [FirstOffsetNumber..<limit] limit in
         Some (off, False, if limit \<le> off then PageClearHasFreeLinePointers p else p))
      else Some (limit, False, p))"

definition PageAddItemExtended ::
  "('b, 's) PageData \<Rightarrow> 'b list \<Rightarrow> nat \<Rightarrow> bool \<Rightarrow> bool \<Rightarrow> pg_error + nat \<times> ('b, 's) PageData" where
  "PageAddItemExtended p item offsetNumber overwrite is_heap =
     (if pd_lower p < SizeOfPageHeaderData \<or> pd_lower p > pd_upper p \<or> pd_upper p > pd_special p \<or>
         pd_special p > BLCKSZ then Inl PagePanic
      else
        let limit = PageGetMaxOffsetNumber p + 1; size = length item in
        case select_slot p offsetNumber overwrite of
          None \<Rightarrow> Inr (InvalidOffsetNumber, p)
        | Some (off, needshuffle, p) \<Rightarrow>
            if off > limit then Inr (InvalidOffsetNumber, p)
            else if is_heap \<and> off > MaxHeapTuplesPerPage then Inr (InvalidOffsetNumber, p)
            else
              let lower = (if off = limit \<or> needshuffle then pd_lower p + sizeof_ItemIdData
                           else pd_lower p);
                  upper = int (pd_upper p) - int (MAXALIGN size)
              in if int lower > upper then Inr (InvalidOffsetNumber, p)
                 else
                   let linp = (if needshuffle then memmove (pd_linp p) off (off - 1) (limit - off)
                               else pd_linp p)
                   in Inr (off, p\<lparr>pd_linp := linp(off - 1 := ItemIdSetNormal (nat upper) size),
                                 pd_cells := memcpy (pd_cells p) (nat upper) item,
                                 pd_lower := lower, pd_upper := nat upper\<rparr>))"

definition PageAddItem ::
  "('b, 's) PageData \<Rightarrow> 'b list \<Rightarrow> nat \<Rightarrow> bool \<Rightarrow> bool \<Rightarrow> pg_error + nat \<times> ('b, 's) PageData" where
  "PageAddItem p item off overwrite is_heap = PageAddItemExtended p item off overwrite is_heap"

definition PageGetFreeSpace :: "('b, 's) PageData \<Rightarrow> nat" where
  "PageGetFreeSpace p =
     (let space = int (pd_upper p) - int (pd_lower p) in
      if space < int sizeof_ItemIdData then 0 else nat (space - int sizeof_ItemIdData))"

definition PageGetFreeSpaceForMultipleTuples :: "('b, 's) PageData \<Rightarrow> nat \<Rightarrow> nat" where
  "PageGetFreeSpaceForMultipleTuples p ntups =
     (let space = int (pd_upper p) - int (pd_lower p) in
      if space < int (ntups * sizeof_ItemIdData) then 0 else nat (space - int (ntups * sizeof_ItemIdData)))"

definition PageGetExactFreeSpace :: "('b, 's) PageData \<Rightarrow> nat" where
  "PageGetExactFreeSpace p =
     (let space = int (pd_upper p) - int (pd_lower p) in if space < 0 then 0 else nat space)"

definition corrupted_page_pointers :: "('b, 's) PageData \<Rightarrow> bool" where
  "corrupted_page_pointers p \<longleftrightarrow>
     pd_lower p < SizeOfPageHeaderData \<or> pd_lower p > pd_upper p \<or> pd_upper p > pd_special p \<or>
     pd_special p > BLCKSZ \<or> pd_special p \<noteq> MAXALIGN (pd_special p)"

definition PageIndexTupleDelete ::
  "('b, 's) PageData \<Rightarrow> nat \<Rightarrow> pg_error + ('b, 's) PageData" where
  "PageIndexTupleDelete p offnum =
     (if corrupted_page_pointers p then Inl CorruptPagePointers
      else
        let nline = PageGetMaxOffsetNumber p in
        if offnum = 0 \<or> offnum > nline then Inl (InvalidIndexOffnum offnum)
        else
          let offidx = offnum - 1; tup = PageGetItemId p offnum; size = lp_len tup; offset = lp_off tup in
          if offset < pd_upper p \<or> offset + size > pd_special p \<or> offset \<noteq> MAXALIGN offset
          then Inl CorruptLinePointer
          else
            let size = MAXALIGN size;
                nbytes = int (pd_lower p) -
                  int (SizeOfPageHeaderData + sizeof_ItemIdData * (offidx + 1));
                linp = (if nbytes > 0
                        then memmove (pd_linp p) offidx (offidx + 1) (nat nbytes div sizeof_ItemIdData)
                        else pd_linp p);
                cells = (if offset > pd_upper p
                         then memmove (pd_cells p) (pd_upper p + size) (pd_upper p) (offset - pd_upper p)
                         else pd_cells p);
                p = p\<lparr>pd_linp := linp, pd_cells := cells, pd_upper := pd_upper p + size,
                      pd_lower := pd_lower p - sizeof_ItemIdData\<rparr>
            in Inr (if PageIsEmpty p then p
                    else p\<lparr>pd_linp := (\<lambda>i. if i < nline - 1 \<and> lp_off (pd_linp p i) \<le> offset
                            then (pd_linp p i)\<lparr>lp_off := (lp_off (pd_linp p i) + size) mod 2 ^ 15\<rparr>
                            else pd_linp p i)\<rparr>))"

section \<open>Well-formed pages\<close>

definition line_pointers :: "('b, 's) PageData \<Rightarrow> ItemIdData list" where
  "line_pointers p = map (pd_linp p) [0..<PageGetMaxOffsetNumber p]"

definition page_items :: "('b, 's) PageData \<Rightarrow> 'b list list" where
  "page_items p = map (PageGetItem p) (line_pointers p)"

definition item_ok :: "nat \<Rightarrow> nat \<Rightarrow> ItemIdData \<Rightarrow> bool" where
  "item_ok upper special i \<longleftrightarrow> lp_flags i = LP_NORMAL \<and> 0 < lp_len i \<and> 8 dvd lp_off i \<and>
     upper \<le> lp_off i \<and> lp_off i + MAXALIGN (lp_len i) \<le> special"

definition apart :: "ItemIdData \<Rightarrow> ItemIdData \<Rightarrow> bool" where
  "apart i j \<longleftrightarrow> lp_off i + MAXALIGN (lp_len i) \<le> lp_off j \<or> lp_off j + MAXALIGN (lp_len j) \<le> lp_off i"

definition page_ok :: "('b, 's) PageData \<Rightarrow> bool" where
  "page_ok p \<longleftrightarrow>
     pd_lower p = SizeOfPageHeaderData + sizeof_ItemIdData * PageGetMaxOffsetNumber p \<and>
     pd_lower p \<le> pd_upper p \<and> pd_upper p \<le> pd_special p \<and> pd_special p \<le> BLCKSZ \<and>
     8 dvd pd_upper p \<and> 8 dvd pd_special p \<and> \<not> PageHasFreeLinePointers p \<and>
     list_all (item_ok (pd_upper p) (pd_special p)) (line_pointers p) \<and>
     sorted_wrt apart (line_pointers p) \<and>
     pd_upper p + sum_list (map (\<lambda>i. MAXALIGN (lp_len i)) (line_pointers p)) = pd_special p"

text \<open>The space an item takes: its aligned length and its line pointer.\<close>

definition item_space :: "'b list \<Rightarrow> nat" where
  "item_space x = MAXALIGN (length x) + sizeof_ItemIdData"

lemmas page_consts = BLCKSZ_def SizeOfPageHeaderData_def sizeof_ItemIdData_def
  InvalidOffsetNumber_def FirstOffsetNumber_def MaxOffsetNumber_def

lemma MAXALIGN_ge: "n \<le> MAXALIGN n"
  unfolding MAXALIGN_def by linarith

lemma MAXALIGN_dvd: "8 dvd MAXALIGN n"
  by (simp add: MAXALIGN_def)

lemma MAXALIGN_id: "8 dvd n \<Longrightarrow> MAXALIGN n = n"
  unfolding MAXALIGN_def by (elim dvdE) simp

lemma MAXALIGN_pos: "0 < n \<Longrightarrow> 8 \<le> MAXALIGN n"
  using MAXALIGN_ge [of n] MAXALIGN_dvd [of n] dvd_imp_le [of 8 "MAXALIGN n"] by simp

lemma apart_sym: "apart i j \<longleftrightarrow> apart j i"
  by (auto simp: apart_def)

lemma length_line_pointers [simp]: "length (line_pointers p) = PageGetMaxOffsetNumber p"
  by (simp add: line_pointers_def)

lemma length_page_items [simp]: "length (page_items p) = PageGetMaxOffsetNumber p"
  by (simp add: page_items_def)

lemma nth_line_pointers [simp]: "k < PageGetMaxOffsetNumber p \<Longrightarrow> line_pointers p ! k = pd_linp p k"
  by (simp add: line_pointers_def)

lemma page_okD:
  assumes "page_ok p" "k < PageGetMaxOffsetNumber p"
  shows "item_ok (pd_upper p) (pd_special p) (pd_linp p k)"
  using assms by (auto simp: page_ok_def list_all_length)

lemma page_items_nonempty: "page_ok p \<Longrightarrow> x \<in> set (page_items p) \<Longrightarrow> x \<noteq> []"
  by (auto simp: page_ok_def page_items_def PageGetItem_def list_all_iff item_ok_def)

lemma length_PageGetItem [simp]: "length (PageGetItem p i) = lp_len i"
  by (simp add: PageGetItem_def)

lemma page_space:
  assumes "page_ok p"
  shows "pd_upper p - pd_lower p + sum_list (map item_space (page_items p)) =
    pd_special p - SizeOfPageHeaderData"
proof -
  have "sum_list (map item_space (page_items p)) =
      sum_list (map (\<lambda>i. MAXALIGN (lp_len i) + sizeof_ItemIdData) (line_pointers p))"
    by (simp add: page_items_def item_space_def comp_def)
  also have "\<dots> = sum_list (map (\<lambda>i. MAXALIGN (lp_len i)) (line_pointers p)) +
      sizeof_ItemIdData * PageGetMaxOffsetNumber p"
    by (simp add: sum_list_addf map_replicate_const sum_list_replicate)
  finally show ?thesis using assms by (auto simp: page_ok_def)
qed

section \<open>Initialisation\<close>

lemma PageInit_ok:
  assumes "MAXALIGN s + SizeOfPageHeaderData \<le> BLCKSZ"
  shows "page_ok (PageInit BLCKSZ s)" "page_items (PageInit BLCKSZ s) = []"
    "pd_special (PageInit BLCKSZ s) = BLCKSZ - MAXALIGN s"
  using assms MAXALIGN_dvd [of s]
  by (auto simp: page_ok_def page_items_def line_pointers_def PageInit_def Let_def PageGetMaxOffsetNumber_def
      page_consts PageHasFreeLinePointers_def intro: dvd_diff_nat)

section \<open>Adding an item\<close>

lemma insert_linp:
  assumes "k \<le> n" "\<And>i. i \<le> n \<Longrightarrow> L i = (if i < k then l i else if i = k then x else l (i - 1))"
  shows "map L [0..<Suc n] = take k (map l [0..<n]) @ x # drop k (map l [0..<n])"
proof (rule nth_equalityI)
  show "length (map L [0..<Suc n]) = length (take k (map l [0..<n]) @ x # drop k (map l [0..<n]))"
    using assms(1) by simp
next
  fix i assume "i < length (map L [0..<Suc n])"
  then have i: "i \<le> n" by simp
  then show "map L [0..<Suc n] ! i = (take k (map l [0..<n]) @ x # drop k (map l [0..<n])) ! i"
    using assms(2) [OF i] assms(1) i
    by (auto simp: nth_append nth_Cons' simp del: upt_Suc)
qed

lemma PageGetItem_cong:
  assumes "\<And>a. lp_off i \<le> a \<Longrightarrow> a < lp_off i + lp_len i \<Longrightarrow> pd_cells p a = pd_cells q a"
  shows "PageGetItem p i = PageGetItem q i"
  using assms by (auto simp: PageGetItem_def)

lemma PageGetItem_shift:
  assumes "lp_len j = lp_len i"
    "\<And>t. t < lp_len i \<Longrightarrow> pd_cells q (lp_off j + t) = pd_cells p (lp_off i + t)"
  shows "PageGetItem q j = PageGetItem p i"
  unfolding PageGetItem_def by (rule nth_equalityI) (use assms in simp_all)

lemma insert_page:
  fixes p :: "('b, 's) PageData"
  defines "n \<equiv> PageGetMaxOffsetNumber p"
  assumes ok: "page_ok p" and k: "k \<le> n" and x: "x \<noteq> []"
    and fits: "pd_lower p + item_space x \<le> pd_upper p"
    and L: "\<And>i. i \<le> n \<Longrightarrow> L i = (if i < k then pd_linp p i
        else if i = k then ItemIdSetNormal (pd_upper p - MAXALIGN (length x)) (length x)
        else pd_linp p (i - 1))"
    and p': "p' = p\<lparr>pd_linp := L, pd_cells := memcpy (pd_cells p) (pd_upper p - MAXALIGN (length x)) x,
        pd_lower := pd_lower p + sizeof_ItemIdData, pd_upper := pd_upper p - MAXALIGN (length x)\<rparr>"
  shows "page_ok p'" "page_items p' = take k (page_items p) @ x # drop k (page_items p)"
proof -
  let ?s = "MAXALIGN (length x)" and ?u = "pd_upper p - MAXALIGN (length x)"
  let ?new = "ItemIdSetNormal ?u (length x)"
  have sx: "length x \<le> ?s" "8 dvd ?s" by (simp_all add: MAXALIGN_ge MAXALIGN_dvd)
  have b: "pd_lower p + ?s + sizeof_ItemIdData \<le> pd_upper p" "pd_upper p \<le> pd_special p"
      "pd_special p \<le> 8192" "8 dvd pd_upper p" "8 dvd pd_special p"
      "pd_lower p = SizeOfPageHeaderData + sizeof_ItemIdData * n"
    using ok fits by (auto simp: page_ok_def item_space_def n_def page_consts)
  have new: "lp_off ?new = ?u" "lp_len ?new = length x" "lp_flags ?new = LP_NORMAL"
    using b sx by (auto simp: ItemIdSetNormal_def)
  have n': "PageGetMaxOffsetNumber p' = Suc n"
    unfolding p' using b(6) by (simp add: PageGetMaxOffsetNumber_def page_consts)
  have lps: "line_pointers p' = take k (line_pointers p) @ ?new # drop k (line_pointers p)"
    using insert_linp [of k n L "pd_linp p" ?new] k L unfolding line_pointers_def n' n_def [symmetric]
    by (simp add: p')
  have split: "line_pointers p = take k (line_pointers p) @ drop k (line_pointers p)" by simp
  have iok: "item_ok (pd_upper p) (pd_special p) i" if "i \<in> set (line_pointers p)" for i
    using ok that by (auto simp: page_ok_def list_all_iff)
  have ap: "apart i ?new" "apart ?new i" if "i \<in> set (line_pointers p)" for i
    using iok [OF that] new b by (auto simp: apart_def item_ok_def)
  have "sorted_wrt apart (take k (line_pointers p) @ drop k (line_pointers p))"
    using ok split by (simp add: page_ok_def)
  then have srt: "sorted_wrt apart (line_pointers p')"
    unfolding lps unfolding sorted_wrt_append
    by (auto dest: in_set_takeD in_set_dropD intro: ap)
  have "sum_list (map (\<lambda>i. MAXALIGN (lp_len i)) (line_pointers p)) =
      sum_list (map (\<lambda>i. MAXALIGN (lp_len i)) (take k (line_pointers p))) +
      sum_list (map (\<lambda>i. MAXALIGN (lp_len i)) (drop k (line_pointers p)))"
    by (subst split) (simp only: map_append sum_list_append)
  then have sum: "sum_list (map (\<lambda>i. MAXALIGN (lp_len i)) (line_pointers p')) = pd_special p - pd_upper p + ?s"
    unfolding lps using ok by (auto simp: new page_ok_def)
  have "list_all (item_ok (pd_upper p') (pd_special p')) (line_pointers p')"
    unfolding lps using iok new b sx x
    by (auto simp: p' list_all_iff item_ok_def dest!: in_set_takeD in_set_dropD iok)
  then show "page_ok p'"
    using srt sum b sx ok n' by (auto simp: page_ok_def p' PageHasFreeLinePointers_def)
  have old: "PageGetItem p' i = PageGetItem p i" if "i \<in> set (line_pointers p)" for i
    by (rule PageGetItem_cong) (use iok [OF that] b sx in \<open>auto simp: p' memcpy_def item_ok_def\<close>)
  have "PageGetItem p' ?new = x"
    unfolding PageGetItem_def new by (rule nth_equalityI) (auto simp: p' memcpy_def)
  then show "page_items p' = take k (page_items p) @ x # drop k (page_items p)"
    unfolding page_items_def lps using old
    by (auto simp: take_map drop_map dest!: in_set_takeD in_set_dropD)
qed

text \<open>Appending: the offset is \<^verbatim>\<open>InvalidOffsetNumber\<close>.\<close>

lemma page_not_corrupted: "page_ok p \<Longrightarrow> \<not> corrupted_page_pointers p"
  by (auto simp: page_ok_def corrupted_page_pointers_def page_consts MAXALIGN_id)

lemma select_append:
  "page_ok p \<Longrightarrow> select_slot p InvalidOffsetNumber ow = Some (PageGetMaxOffsetNumber p + 1, False, p)"
  by (simp add: select_slot_def OffsetNumberIsValid_def page_ok_def Let_def)

lemma select_insert:
  "1 \<le> off \<Longrightarrow> off \<le> MaxOffsetNumber \<Longrightarrow>
   select_slot p off False = Some (off, off < PageGetMaxOffsetNumber p + 1, p)"
  by (simp add: select_slot_def OffsetNumberIsValid_def page_consts)

lemma PageAddItem_full:
  assumes ok: "page_ok p" and full: "pd_upper p < pd_lower p + item_space x"
  shows "PageAddItem p x InvalidOffsetNumber False False = Inr (InvalidOffsetNumber, p)"
  using page_not_corrupted [OF ok] full
  by (auto simp: PageAddItem_def PageAddItemExtended_def select_append [OF ok] Let_def
      corrupted_page_pointers_def item_space_def)

lemma PageAddItem_insert:
  assumes ok: "page_ok p" and x: "x \<noteq> []" and fits: "pd_lower p + item_space x \<le> pd_upper p"
    and off: "off = InvalidOffsetNumber \<and> k = PageGetMaxOffsetNumber p \<or>
      off = Suc k \<and> k \<le> PageGetMaxOffsetNumber p"
  shows "\<exists>p'. PageAddItem p x off False False = Inr (Suc k, p') \<and> page_ok p' \<and>
    page_items p' = take k (page_items p) @ x # drop k (page_items p) \<and>
    pd_special p' = pd_special p \<and> pd_opaque p' = pd_opaque p"
proof -
  let ?n = "PageGetMaxOffsetNumber p"
  have k: "k \<le> ?n" using off by auto
  have n: "?n \<le> 2042"
    using ok by (auto simp: page_ok_def page_consts)
  have sel: "select_slot p off False = Some (Suc k, k < ?n, p)"
    using off n ok select_append [OF ok, of False] by (auto simp: select_insert page_consts)
  have le: "int (pd_lower p + sizeof_ItemIdData) \<le> int (pd_upper p) - int (MAXALIGN (length x))"
    "nat (int (pd_upper p) - int (MAXALIGN (length x))) = pd_upper p - MAXALIGN (length x)"
    using fits by (auto simp: item_space_def)
  let ?u = "pd_upper p - MAXALIGN (length x)"
  let ?L = "(if k < ?n then memmove (pd_linp p) (Suc k) k (?n - k) else pd_linp p)
      (k := ItemIdSetNormal ?u (length x))"
  let ?p = "p\<lparr>pd_linp := ?L, pd_cells := memcpy (pd_cells p) ?u x,
        pd_lower := pd_lower p + sizeof_ItemIdData, pd_upper := ?u\<rparr>"
  have add: "PageAddItem p x off False False = Inr (Suc k, ?p)"
    using page_not_corrupted [OF ok] k le sel
    by (auto simp: PageAddItem_def PageAddItemExtended_def Let_def corrupted_page_pointers_def)
  have L: "?L i = (if i < k then pd_linp p i else if i = k then ItemIdSetNormal ?u (length x)
      else pd_linp p (i - 1))" if "i \<le> ?n" for i
    using that k by (auto simp: memmove_def)
  have "page_ok ?p" "page_items ?p = take k (page_items p) @ x # drop k (page_items p)"
    by (rule insert_page [where L = ?L, OF ok k x fits L refl]; assumption)+
  with add show ?thesis by (intro exI [of _ ?p]) simp
qed

section \<open>Deleting an item\<close>

definition shift_lp :: "nat \<Rightarrow> nat \<Rightarrow> ItemIdData \<Rightarrow> ItemIdData" where
  "shift_lp offset sz i = (if lp_off i \<le> offset then i\<lparr>lp_off := (lp_off i + sz) mod 2 ^ 15\<rparr> else i)"

lemma lp_len_shift [simp]: "lp_len (shift_lp off sz i) = lp_len i"
  by (simp add: shift_lp_def)

lemma delete_linp:
  assumes "k < n" "\<And>i. i < n - 1 \<Longrightarrow> L i = (if i < k then l i else l (Suc i))"
  shows "map L [0..<n - 1] = take k (map l [0..<n]) @ drop (Suc k) (map l [0..<n])"
proof (rule nth_equalityI)
  show "length (map L [0..<n - 1]) = length (take k (map l [0..<n]) @ drop (Suc k) (map l [0..<n]))"
    using assms(1) by simp
next
  fix i assume "i < length (map L [0..<n - 1])"
  then have i: "i < n - 1" by simp
  then show "map L [0..<n - 1] ! i = (take k (map l [0..<n]) @ drop (Suc k) (map l [0..<n])) ! i"
    using assms(2) [OF i] assms(1) i by (auto simp: nth_append)
qed

lemma delete_page:
  fixes p :: "('b, 's) PageData"
  defines "n \<equiv> PageGetMaxOffsetNumber p"
  assumes ok: "page_ok p" and k: "k < n"
    and os: "lp_off (pd_linp p k) = off" "MAXALIGN (lp_len (pd_linp p k)) = sz"
    and M: "\<And>i. i < n - 1 \<Longrightarrow> M i = shift_lp off sz (if i < k then pd_linp p i else pd_linp p (Suc i))"
    and C: "\<And>a. C a = (if pd_upper p + sz \<le> a \<and> a < off + sz then pd_cells p (a - sz) else pd_cells p a)"
    and p': "p' = p\<lparr>pd_linp := M, pd_cells := C, pd_upper := pd_upper p + sz,
        pd_lower := pd_lower p - sizeof_ItemIdData\<rparr>"
  shows "page_ok p'" "page_items p' = take k (page_items p) @ drop (Suc k) (page_items p)"
proof -
  define lps where "lps = take k (line_pointers p) @ drop (Suc k) (line_pointers p)"
  have d: "item_ok (pd_upper p) (pd_special p) (pd_linp p k)" using page_okD [OF ok] k n_def by simp
  have b: "pd_upper p \<le> off" "off + sz \<le> pd_special p" "pd_special p \<le> 8192" "8 dvd off" "0 < sz"
      "pd_lower p = 24 + 4 * n" "pd_lower p \<le> pd_upper p" "8 dvd sz" "8 dvd pd_upper p"
    using ok d MAXALIGN_pos [of "lp_len (pd_linp p k)"] MAXALIGN_dvd [of "lp_len (pd_linp p k)"] os
    by (auto simp: page_ok_def item_ok_def page_consts n_def)
  have split: "line_pointers p = take k (line_pointers p) @ pd_linp p k # drop (Suc k) (line_pointers p)"
    using k id_take_nth_drop [of k "line_pointers p"] by (simp add: n_def)
  have sub: "set lps \<subseteq> set (line_pointers p)"
    unfolding lps_def using set_take_subset set_drop_subset by fastforce
  have iok: "item_ok (pd_upper p) (pd_special p) i" if "i \<in> set lps" for i
    using ok that sub by (auto simp: page_ok_def list_all_iff)
  have "sorted_wrt apart (take k (line_pointers p) @ pd_linp p k # drop (Suc k) (line_pointers p))"
    using ok split by (simp add: page_ok_def)
  then have srt: "sorted_wrt apart lps" and ap: "\<And>i. i \<in> set lps \<Longrightarrow> apart (pd_linp p k) i"
    unfolding lps_def sorted_wrt_append by (auto simp: apart_sym)
  have cases: "lp_off i + MAXALIGN (lp_len i) \<le> off \<and> shift_lp off sz i = i\<lparr>lp_off := lp_off i + sz\<rparr> \<or>
      off + sz \<le> lp_off i \<and> shift_lp off sz i = i" if "i \<in> set lps" for i
    using ap [OF that] iok [OF that] b MAXALIGN_pos [of "lp_len i"] os
    by (auto simp: apart_def item_ok_def shift_lp_def)
  have n': "PageGetMaxOffsetNumber p' = n - 1"
  proof -
    have "pd_lower p - 4 = 24 + 4 * (n - 1)" using b(6) k by simp
    then show ?thesis by (simp add: p' PageGetMaxOffsetNumber_def page_consts)
  qed
  have "line_pointers p' = map (shift_lp off sz) (map (\<lambda>i. if i < k then pd_linp p i else pd_linp p (Suc i)) [0..<n - 1])"
    unfolding line_pointers_def n' using M by (simp add: p')
  also have "map (\<lambda>i. if i < k then pd_linp p i else pd_linp p (Suc i)) [0..<n - 1] = lps"
    unfolding lps_def line_pointers_def n_def [symmetric] by (rule delete_linp [OF k]) simp
  finally have lps': "line_pointers p' = map (shift_lp off sz) lps" .
  have get: "PageGetItem p' (shift_lp off sz i) = PageGetItem p i" if "i \<in> set lps" for i
    using cases [OF that]
  proof (elim disjE conjE)
    assume lo: "lp_off i + MAXALIGN (lp_len i) \<le> off" and sh: "shift_lp off sz i = i\<lparr>lp_off := lp_off i + sz\<rparr>"
    show ?thesis unfolding sh
      by (rule PageGetItem_shift)
        (use lo iok [OF that] MAXALIGN_ge [of "lp_len i"] in \<open>auto simp: p' item_ok_def C\<close>)
  next
    assume hi: "off + sz \<le> lp_off i" and sh: "shift_lp off sz i = i"
    show ?thesis unfolding sh by (rule PageGetItem_cong) (use hi in \<open>auto simp: p' C\<close>)
  qed
  show "page_items p' = take k (page_items p) @ drop (Suc k) (page_items p)"
    unfolding page_items_def lps' using get by (simp add: lps_def take_map drop_map)
  have lall: "item_ok (pd_upper p + sz) (pd_special p) (shift_lp off sz i)" if "i \<in> set lps" for i
    using cases [OF that] iok [OF that] b by (auto simp: item_ok_def)
  have "sorted_wrt apart (line_pointers p')"
    unfolding lps' sorted_wrt_map
  proof (rule sorted_wrt_mono_rel [OF _ srt])
    fix i j assume ij: "i \<in> set lps" "j \<in> set lps" "apart i j"
    show "apart (shift_lp off sz i) (shift_lp off sz j)"
      using cases [OF ij(1)] cases [OF ij(2)] ij(3) by (auto simp: apart_def)
  qed
  moreover have "sum_list (map (\<lambda>i. MAXALIGN (lp_len i)) (line_pointers p')) + sz =
      sum_list (map (\<lambda>i. MAXALIGN (lp_len i)) (line_pointers p))"
  proof -
    have "sum_list (map (\<lambda>i. MAXALIGN (lp_len i)) (line_pointers p')) = sum_list (map (\<lambda>i. MAXALIGN (lp_len i)) lps)"
      unfolding lps' map_map comp_def by simp
    moreover have "sum_list (map (\<lambda>i. MAXALIGN (lp_len i)) (line_pointers p)) =
        sum_list (map (\<lambda>i. MAXALIGN (lp_len i)) lps) + sz"
      by (subst split) (simp add: lps_def os)
    ultimately show ?thesis by simp
  qed
  ultimately show "page_ok p'"
    using ok lall b n' lps' k by (auto simp: page_ok_def page_consts PageHasFreeLinePointers_def p' list_all_iff)
qed

lemma PageIndexTupleDelete_ok:
  assumes ok: "page_ok p" and k: "k < PageGetMaxOffsetNumber p"
  shows "\<exists>p'. PageIndexTupleDelete p (Suc k) = Inr p' \<and> page_ok p' \<and>
    page_items p' = take k (page_items p) @ drop (Suc k) (page_items p) \<and>
    pd_special p' = pd_special p \<and> pd_opaque p' = pd_opaque p"
proof -
  define n where "n = PageGetMaxOffsetNumber p"
  define off where "off = lp_off (pd_linp p k)"
  define sz where "sz = MAXALIGN (lp_len (pd_linp p k))"
  define L where "L = (if 0 < int (pd_lower p) - int (SizeOfPageHeaderData + sizeof_ItemIdData * (k + 1))
    then memmove (pd_linp p) k (k + 1)
      (nat (int (pd_lower p) - int (SizeOfPageHeaderData + sizeof_ItemIdData * (k + 1))) div sizeof_ItemIdData)
    else pd_linp p)"
  define C where "C = (if pd_upper p < off then memmove (pd_cells p) (pd_upper p + sz) (pd_upper p) (off - pd_upper p)
    else pd_cells p)"
  define q where "q = p\<lparr>pd_linp := L, pd_cells := C, pd_upper := pd_upper p + sz,
    pd_lower := pd_lower p - sizeof_ItemIdData\<rparr>"
  define M where "M = (if PageIsEmpty q then L
      else (\<lambda>i. if i < n - 1 \<and> lp_off (L i) \<le> off then (L i)\<lparr>lp_off := (lp_off (L i) + sz) mod 2 ^ 15\<rparr> else L i))"
  have d: "item_ok (pd_upper p) (pd_special p) (pd_linp p k)" by (rule page_okD [OF ok k])
  have b: "pd_lower p = 24 + 4 * n" "pd_upper p \<le> off" "8 dvd off" "lp_len (pd_linp p k) \<le> sz" "off + sz \<le> pd_special p"
    using ok d by (auto simp: page_ok_def page_consts n_def off_def sz_def item_ok_def MAXALIGN_ge)
  have L: "L i = (if i < k then pd_linp p i else pd_linp p (Suc i))" if "i < n - 1" for i
    using that k b(1) by (auto simp: L_def n_def memmove_def page_consts)
  have M: "M i = shift_lp off sz (if i < k then pd_linp p i else pd_linp p (Suc i))" if "i < n - 1" for i
    using that b(1) L by (auto simp: M_def q_def PageIsEmpty_def shift_lp_def page_consts)
  have C: "C a = (if pd_upper p + sz \<le> a \<and> a < off + sz then pd_cells p (a - sz) else pd_cells p a)" for a
    using b(2) by (auto simp: C_def memmove_def)
  have g: "\<not> (Suc k = 0 \<or> n < Suc k)"
    "\<not> (off < pd_upper p \<or> pd_special p < off + lp_len (pd_linp p k) \<or> off \<noteq> MAXALIGN off)"
    using k b by (auto simp: n_def MAXALIGN_id)
  have lq: "pd_linp q = L" "q\<lparr>pd_linp := L\<rparr> = q" by (simp_all add: q_def)
  have "PageIndexTupleDelete p (Suc k) = Inr (if PageIsEmpty q then q
      else q\<lparr>pd_linp := (\<lambda>i. if i < n - 1 \<and> lp_off (pd_linp q i) \<le> off
        then (pd_linp q i)\<lparr>lp_off := (lp_off (pd_linp q i) + sz) mod 2 ^ 15\<rparr> else pd_linp q i)\<rparr>)"
    unfolding PageIndexTupleDelete_def Let_def PageGetItemId_def diff_Suc_1
      n_def [symmetric] off_def [symmetric] sz_def [symmetric] L_def [symmetric] C_def [symmetric] q_def [symmetric]
    using page_not_corrupted [OF ok] g by (simp only: if_False)
  then have "PageIndexTupleDelete p (Suc k) = Inr (q\<lparr>pd_linp := M\<rparr>)"
    by (cases "PageIsEmpty q") (simp_all only: M_def lq if_True if_False)
  moreover have q: "q\<lparr>pd_linp := M\<rparr> = p\<lparr>pd_linp := M, pd_cells := C, pd_upper := pd_upper p + sz,
    pd_lower := pd_lower p - sizeof_ItemIdData\<rparr>" by (simp add: q_def)
  moreover have "page_ok (q\<lparr>pd_linp := M\<rparr>)"
    "page_items (q\<lparr>pd_linp := M\<rparr>) = take k (page_items p) @ drop (Suc k) (page_items p)"
    by (rule delete_page [OF ok k off_def [symmetric] sz_def [symmetric] _ C q];
        use M n_def in simp)+
  ultimately show ?thesis by (intro exI [of _ "q\<lparr>pd_linp := M\<rparr>"]) (simp add: q_def)
qed


section \<open>The page as an interface\<close>

text \<open>
  What the index code relies on: a page holds a list of items within a fixed room, an item is
  appended or inserted when there is room for it and refused otherwise, and deletion removes
  exactly one item. The client lemmas are about the loops that fill a page and about the
  replacement of an item.
\<close>

locale slotted_page =
  fixes ok :: "'p \<Rightarrow> bool"
    and contents :: "'p \<Rightarrow> 'i list"
    and room :: "'p \<Rightarrow> nat"
    and tag :: "'p \<Rightarrow> 't"
    and good :: "'i \<Rightarrow> bool"
    and space :: "'i \<Rightarrow> nat"
    and add :: "'p \<Rightarrow> 'i \<Rightarrow> nat \<Rightarrow> 'e + nat \<times> 'p"
    and delete :: "'p \<Rightarrow> nat \<Rightarrow> 'e + 'p"
  assumes add_fits: "ok p \<Longrightarrow> good x \<Longrightarrow> sum_list (map space (contents p)) + space x \<le> room p \<Longrightarrow>
      off = 0 \<and> k = length (contents p) \<or> off = Suc k \<and> k \<le> length (contents p) \<Longrightarrow>
      \<exists>p'. add p x off = Inr (Suc k, p') \<and> ok p' \<and>
        contents p' = take k (contents p) @ x # drop k (contents p) \<and> room p' = room p \<and> tag p' = tag p"
    and add_full: "ok p \<Longrightarrow> room p < sum_list (map space (contents p)) + space x \<Longrightarrow> add p x 0 = Inr (0, p)"
    and delete_ok: "ok p \<Longrightarrow> k < length (contents p) \<Longrightarrow>
      \<exists>p'. delete p (Suc k) = Inr p' \<and> ok p' \<and>
        contents p' = take k (contents p) @ drop (Suc k) (contents p) \<and> room p' = room p \<and> tag p' = tag p"
begin

lemma append_ok:
  assumes "ok p" "good x" "sum_list (map space (contents p)) + space x \<le> room p"
  obtains p' where "add p x 0 = Inr (Suc (length (contents p)), p')" "ok p'"
    "contents p' = contents p @ [x]" "room p' = room p" "tag p' = tag p"
  using add_fits [OF assms, of 0 "length (contents p)"] by auto

lemma fill_ok:
  assumes "ok p" "list_all good xs" "sum_list (map space (contents p)) + sum_list (map space xs) \<le> room p"
    "\<And>q x off q'. f q x = (case add q x 0 of Inl e \<Rightarrow> Inl e | Inr (off, q') \<Rightarrow> if off = 0 then g q' else Inr q')"
  shows "\<exists>p'. foldE f p xs = Inr p' \<and> ok p' \<and> contents p' = contents p @ xs \<and> room p' = room p \<and> tag p' = tag p"
  using assms(1-3)
proof (induction xs arbitrary: p)
  case Nil
  then show ?case by simp
next
  case (Cons x xs)
  obtain q where q: "add p x 0 = Inr (Suc (length (contents p)), q)" "ok q"
      "contents q = contents p @ [x]" "room q = room p" "tag q = tag p"
    using append_ok [of p x] Cons.prems by auto
  from Cons.IH [of q] q Cons.prems show ?case by (auto simp: assms(4) [of p x])
qed

lemma replace_ok:
  assumes "ok p" "good x" "k < length (contents p)"
    "sum_list (map space (contents p)) + space x \<le> room p + space (contents p ! k)"
  shows "\<exists>q p'. delete p (Suc k) = Inr q \<and> add q x (Suc k) = Inr (Suc k, p') \<and> ok p' \<and>
    contents p' = (contents p)[k := x] \<and> room p' = room p \<and> tag p' = tag p"
proof -
  obtain q where q: "delete p (Suc k) = Inr q" "ok q"
      "contents q = take k (contents p) @ drop (Suc k) (contents p)" "room q = room p" "tag q = tag p"
    using delete_ok [OF assms(1,3)] by auto
  have "sum_list (map space (contents p)) =
      sum_list (map space (take k (contents p) @ contents p ! k # drop (Suc k) (contents p)))"
    using id_take_nth_drop [OF assms(3)] by simp
  then have "sum_list (map space (contents q)) + space x \<le> room q"
    using assms(4) q by simp
  moreover have "k \<le> length (contents q)" using assms(3) q(3) by simp
  ultimately obtain p' where "add q x (Suc k) = Inr (Suc k, p')" "ok p'"
      "contents p' = take k (contents q) @ x # drop k (contents q)" "room p' = room q" "tag p' = tag q"
    using add_fits [OF q(2) assms(2), of "Suc k" k] by auto
  then show ?thesis using q assms(3) by (auto simp: upd_conv_take_nth_drop)
qed

end

definition page_room :: "('b, 's) PageData \<Rightarrow> nat" where
  "page_room p = pd_special p - SizeOfPageHeaderData"

lemma page_fits_iff:
  assumes "page_ok p"
  shows "sum_list (map item_space (page_items p)) + sp \<le> page_room p \<longleftrightarrow> pd_lower p + sp \<le> pd_upper p"
  using page_space [OF assms] assms by (auto simp: page_room_def page_ok_def)

interpretation bufpage: slotted_page page_ok page_items page_room pd_opaque "\<lambda>x. x \<noteq> []" item_space
  "\<lambda>p x off. PageAddItem p x off False False" PageIndexTupleDelete
proof
  show "\<exists>p'. PageAddItem p x off False False = Inr (Suc k, p') \<and> page_ok p' \<and>
      page_items p' = take k (page_items p) @ x # drop k (page_items p) \<and>
      page_room p' = page_room p \<and> pd_opaque p' = pd_opaque p"
    if "page_ok p" "x \<noteq> []" "sum_list (map item_space (page_items p)) + item_space x \<le> page_room p"
      "off = 0 \<and> k = length (page_items p) \<or> off = Suc k \<and> k \<le> length (page_items p)"
    for p :: "('a, 'b) PageData" and x off k
  proof -
    have "pd_lower p + item_space x \<le> pd_upper p" using that page_fits_iff by blast
    from PageAddItem_insert [OF that(1,2) this, of off k] that(4) show ?thesis
      by (auto simp: page_room_def page_consts)
  qed
  show "PageAddItem p x 0 False False = Inr (0, p)"
    if "page_ok p" "page_room p < sum_list (map item_space (page_items p)) + item_space x"
    for p :: "('a, 'b) PageData" and x
    using PageAddItem_full [of p x] page_fits_iff [of p "item_space x"] that by (auto simp: page_consts not_le)
  show "\<exists>p'. PageIndexTupleDelete p (Suc k) = Inr p' \<and> page_ok p' \<and>
      page_items p' = take k (page_items p) @ drop (Suc k) (page_items p) \<and>
      page_room p' = page_room p \<and> pd_opaque p' = pd_opaque p"
    if "page_ok p" "k < length (page_items p)" for p :: "('a, 'b) PageData" and k
    using PageIndexTupleDelete_ok [of p k] that by (auto simp: page_room_def)
qed

text \<open>C18. Adding an item to a well-formed page, at the end or at a given position, when it fits:
  the offset returned is the position of the item, the other items are unchanged and in order.
  When it does not fit, the page is unchanged and \<^verbatim>\<open>InvalidOffsetNumber\<close> is returned.\<close>

theorem page_add_correct:
  assumes "page_ok p" "x \<noteq> []" "k \<le> PageGetMaxOffsetNumber p"
    "off = InvalidOffsetNumber \<and> k = PageGetMaxOffsetNumber p \<or> off = Suc k"
  shows "if item_space x \<le> pd_upper p - pd_lower p
    then \<exists>p'. PageAddItem p x off False False = Inr (Suc k, p') \<and> page_ok p' \<and>
      page_items p' = take k (page_items p) @ x # drop k (page_items p)
    else off = InvalidOffsetNumber \<longrightarrow> PageAddItem p x off False False = Inr (InvalidOffsetNumber, p)"
proof -
  have "pd_lower p \<le> pd_upper p" using assms(1) by (simp add: page_ok_def)
  show ?thesis
  proof (cases "item_space x \<le> pd_upper p - pd_lower p")
    case True
    with \<open>pd_lower p \<le> pd_upper p\<close> have "pd_lower p + item_space x \<le> pd_upper p" by linarith
    from PageAddItem_insert [OF assms(1,2) this, of off k] assms True show ?thesis by auto
  next
    case False
    then show ?thesis using PageAddItem_full [OF assms(1), of x] by auto
  qed
qed

text \<open>C17. Deleting an item of a well-formed page removes exactly that item, although both the line
  pointers and the tuple data behind it are moved; the space it took is free again.\<close>

theorem page_delete_correct:
  assumes "page_ok p" "k < PageGetMaxOffsetNumber p"
  shows "\<exists>p'. PageIndexTupleDelete p (Suc k) = Inr p' \<and> page_ok p' \<and>
    page_items p' = take k (page_items p) @ drop (Suc k) (page_items p) \<and>
    pd_upper p' - pd_lower p' = pd_upper p - pd_lower p + item_space (page_items p ! k)"
proof -
  obtain p' where p': "PageIndexTupleDelete p (Suc k) = Inr p'" "page_ok p'"
      "page_items p' = take k (page_items p) @ drop (Suc k) (page_items p)" "pd_special p' = pd_special p"
    using PageIndexTupleDelete_ok [OF assms] by auto
  have "sum_list (map item_space (page_items p)) =
      sum_list (map item_space (take k (page_items p) @ page_items p ! k # drop (Suc k) (page_items p)))"
    using id_take_nth_drop [of k "page_items p"] assms(2) by simp
  then show ?thesis
    using p' page_space [OF assms(1)] page_space [OF p'(2)] by auto
qed

definition sample_page :: "(nat, nat) PageData" where
  "sample_page = PageInit BLCKSZ 16"

lemma sample_page_ok: "page_ok sample_page" "page_items sample_page = []"
  "pd_upper sample_page - pd_lower sample_page = 8152" "PageGetMaxOffsetNumber sample_page = 0"
  using PageInit_ok [of 16]
  by (simp_all add: sample_page_def MAXALIGN_def page_consts PageInit_def PageGetMaxOffsetNumber_def)

theorem page_add_correct_witness:
  "\<exists>p'. PageAddItem sample_page [7, 8, 9] InvalidOffsetNumber False False = Inr (1, p') \<and> page_ok p' \<and>
     page_items p' = [[7, 8, 9]]"
  using page_add_correct [of sample_page "[7, 8, 9]" 0 InvalidOffsetNumber] sample_page_ok
  by (simp add: item_space_def MAXALIGN_def page_consts)

theorem page_delete_correct_witness:
  "\<exists>p p'. page_items p = [[7, 8, 9 :: nat]] \<and> PageIndexTupleDelete p (Suc 0) = Inr p' \<and>
     page_items (p' :: (nat, nat) PageData) = []"
proof -
  have "pd_lower sample_page + item_space [7, 8, 9 :: nat] \<le> pd_upper sample_page"
    using sample_page_ok(3) by (simp add: item_space_def MAXALIGN_def page_consts)
  then obtain p where p: "page_ok p" "page_items p = [[7, 8, 9 :: nat]]" and "pd_opaque p = pd_opaque sample_page"
    using PageAddItem_insert [of sample_page "[7, 8, 9]" 0 0] sample_page_ok by (auto simp: page_consts)
  then have "0 < PageGetMaxOffsetNumber p" by (metis length_page_items length_greater_0_conv list.distinct(1))
  from page_delete_correct [OF p(1) this] p(2) show ?thesis by auto
qed

end
