(* ===== verification/TR_Page.thy ===== *)
theory TR_Page
  imports TR_Box TR_Bufpage
begin

text \<open>
  Index tuples (\<^verbatim>\<open>itup.h\<close>, \<^verbatim>\<open>indextuple.c\<close>) for an index on one column of type \<^verbatim>\<open>cube\<close>, the special space of
  the pages of the index, and the page functions of \<^verbatim>\<open>temporal_rtree_page.c\<close>. The lemmas relate
  the pages to the lists of tuples on them and show that the bounding box of a page is the least
  box that contains the boxes of its tuples.
\<close>

section \<open>Index tuples\<close>

record ItemPointerData =
  ip_blkid :: nat
  ip_posid :: nat

record IndexTupleData =
  t_tid :: ItemPointerData
  t_info :: "16 word"
  t_key :: "NDBOX option"

definition INDEX_SIZE_MASK :: "16 word" where "INDEX_SIZE_MASK = 0x1FFF"
definition INDEX_VAR_MASK :: "16 word" where "INDEX_VAR_MASK = 0x4000"
definition INDEX_NULL_MASK :: "16 word" where "INDEX_NULL_MASK = 0x8000"

definition IndexTupleSize :: "IndexTupleData \<Rightarrow> nat" where
  "IndexTupleSize it = unat (t_info it AND INDEX_SIZE_MASK)"

text \<open>\<^verbatim>\<open>sizeof (IndexTupleData)\<close> is 8, the null bitmap takes 4 bytes.\<close>

definition IndexInfoFindDataOffset :: "16 word \<Rightarrow> nat" where
  "IndexInfoFindDataOffset info = (if info AND INDEX_NULL_MASK = 0 then MAXALIGN 8 else MAXALIGN (8 + 4))"

text \<open>
  The value \<open>None\<close> is the SQL null. The type \<^verbatim>\<open>cube\<close> has plain storage and double alignment: the
  datum is stored as it is, at an aligned offset.
\<close>

definition index_form_tuple :: "NDBOX option \<Rightarrow> pg_error + IndexTupleData" where
  "index_form_tuple v =
     (let infomask = (if v = None then INDEX_NULL_MASK else 0);
          hoff = IndexInfoFindDataOffset infomask;
          data_size = (case v of None \<Rightarrow> 0 | Some c \<Rightarrow> vl_len c);
          sz = MAXALIGN (hoff + data_size);
          infomask = (if v = None then infomask else infomask OR INDEX_VAR_MASK)
      in if sz > unat INDEX_SIZE_MASK then Inl (RowTooBig sz)
         else Inr \<lparr>t_tid = \<lparr>ip_blkid = 0, ip_posid = 0\<rparr>, t_info = infomask OR of_nat sz, t_key = v\<rparr>)"

definition index_getattr :: "IndexTupleData \<Rightarrow> NDBOX option" where
  "index_getattr it = t_key it"

definition CopyIndexTuple :: "IndexTupleData \<Rightarrow> IndexTupleData" where
  "CopyIndexTuple it = it"

section \<open>Cells and the special space\<close>

text \<open>A cell of the tuple space is a zero byte or the \<open>k\<close>-th byte of an index tuple.\<close>

datatype cell = ZeroByte | TupByte IndexTupleData nat

instantiation cell :: zero
begin

definition zero_cell :: cell where "zero_cell = ZeroByte"

instance ..

end

definition itup_bytes :: "IndexTupleData \<Rightarrow> cell list" where
  "itup_bytes it = map (TupByte it) [0..<IndexTupleSize it]"

text \<open>
  The sixteen bytes of the special space: two words of 32 bits and one of 64 bits. The two
  structures the code lays over it are views of these words (little-endian).
\<close>

datatype special_area = Special (sp0: nat) (sp1: nat) (sp2: nat)

instantiation special_area :: zero
begin

definition zero_special_area :: special_area where "zero_special_area = Special 0 0 0"

instance ..

end

record RTreeMetaPageData =
  magic :: nat
  meta_root :: nat
  root_level :: nat
  meta_flags :: "16 word"

record RTreePageOpaqueData =
  rightlink :: nat
  op_flags :: "16 word"
  op_level :: nat
  nsn :: nat

definition meta_view :: "special_area \<Rightarrow> RTreeMetaPageData" where
  "meta_view sp = \<lparr>magic = sp0 sp, meta_root = sp1 sp, root_level = sp2 sp mod 2 ^ 16,
     meta_flags = of_nat (sp2 sp div 2 ^ 16 mod 2 ^ 16)\<rparr>"

definition opaque_view :: "special_area \<Rightarrow> RTreePageOpaqueData" where
  "opaque_view sp = \<lparr>rightlink = sp0 sp, op_flags = of_nat (sp1 sp mod 2 ^ 16),
     op_level = sp1 sp div 2 ^ 16 mod 2 ^ 16, nsn = sp2 sp\<rparr>"

definition put_meta :: "RTreeMetaPageData \<Rightarrow> special_area \<Rightarrow> special_area" where
  "put_meta m sp = Special (magic m mod 2 ^ 32) (meta_root m mod 2 ^ 32)
     (root_level m mod 2 ^ 16 + 2 ^ 16 * unat (meta_flags m) + 2 ^ 32 * (sp2 sp div 2 ^ 32))"

definition put_opaque :: "RTreePageOpaqueData \<Rightarrow> special_area" where
  "put_opaque op = Special (rightlink op mod 2 ^ 32)
     (unat (op_flags op) + 2 ^ 16 * (op_level op mod 2 ^ 16)) (nsn op mod 2 ^ 64)"

type_synonym rpage = "(cell, special_area) PageData"

definition page_meta :: "rpage \<Rightarrow> RTreeMetaPageData" where
  "page_meta p = meta_view (pd_opaque p)"

definition page_opaque :: "rpage \<Rightarrow> RTreePageOpaqueData" where
  "page_opaque p = opaque_view (pd_opaque p)"

definition set_meta :: "RTreeMetaPageData \<Rightarrow> rpage \<Rightarrow> rpage" where
  "set_meta m p = p\<lparr>pd_opaque := put_meta m (pd_opaque p)\<rparr>"

definition set_opaque :: "RTreePageOpaqueData \<Rightarrow> rpage \<Rightarrow> rpage" where
  "set_opaque op p = p\<lparr>pd_opaque := put_opaque op\<rparr>"

definition TRTREE_META_MAGIC :: nat where "TRTREE_META_MAGIC = 0x54525452"
definition TRTREE_PAGE_LEAF :: "16 word" where "TRTREE_PAGE_LEAF = 0x01"
definition TRTREE_PAGE_ROOT :: "16 word" where "TRTREE_PAGE_ROOT = 0x02"
definition TRTREE_PAGE_META :: "16 word" where "TRTREE_PAGE_META = 0x04"

definition InvalidBlockNumber :: nat where "InvalidBlockNumber = 0xFFFFFFFF"

definition BlockNumberIsValid :: "nat \<Rightarrow> bool" where
  "BlockNumberIsValid b \<longleftrightarrow> b \<noteq> InvalidBlockNumber"

section \<open>The functions of temporal\_rtree\_page.c\<close>

text \<open>
  The open index: the C environment, what reading a tuple header from bytes that are not a tuple
  yields, and whether the relation is WAL-logged.
\<close>

record Relation =
  rd_cenv :: cenv
  rd_overlay :: "cell list \<Rightarrow> IndexTupleData"
  RelationNeedsWAL :: bool

definition rtree_init_metapage :: "nat \<Rightarrow> nat \<Rightarrow> rpage" where
  "rtree_init_metapage rootblk rootlevel =
     (let page = PageInit BLCKSZ 12 in
      set_meta \<lparr>magic = TRTREE_META_MAGIC, meta_root = rootblk, root_level = rootlevel,
        meta_flags = TRTREE_PAGE_META\<rparr> page)"

definition rtree_init_datapage :: "16 word \<Rightarrow> nat \<Rightarrow> rpage" where
  "rtree_init_datapage flags lvl =
     (let page = PageInit BLCKSZ 16 in
      set_opaque \<lparr>rightlink = InvalidBlockNumber, op_flags = flags, op_level = lvl, nsn = 0\<rparr> page)"

definition rtree_index_tuple_box :: "Relation \<Rightarrow> IndexTupleData \<Rightarrow> RTreeTemporalBox option" where
  "rtree_index_tuple_box rel it = map_option (rtree_cube_to_box (rd_cenv rel)) (index_getattr it)"

definition rtree_form_tuple ::
  "RTreeTemporalBox \<Rightarrow> ItemPointerData \<Rightarrow> pg_error + IndexTupleData" where
  "rtree_form_tuple box heap_tid =
     (let cube = rtree_box_to_cube box in
      case index_form_tuple (Some cube) of
        Inl e \<Rightarrow> Inl e
      | Inr it \<Rightarrow> Inr (it\<lparr>t_tid := heap_tid\<rparr>))"

text \<open>The tuple a line pointer designates.\<close>

definition item_itup :: "Relation \<Rightarrow> cell list \<Rightarrow> IndexTupleData" where
  "item_itup rel bs = (case bs of TupByte it 0 # _ \<Rightarrow> it | _ \<Rightarrow> rd_overlay rel bs)"

definition page_itup :: "Relation \<Rightarrow> rpage \<Rightarrow> nat \<Rightarrow> IndexTupleData" where
  "page_itup rel p off = item_itup rel (PageGetItem p (PageGetItemId p off))"

text \<open>The loop over the used line pointers from \<open>from\<close> on, which every function of the index
  has: the offsets with their tuples.\<close>

definition used_tuples_from :: "Relation \<Rightarrow> rpage \<Rightarrow> nat \<Rightarrow> (nat \<times> IndexTupleData) list" where
  "used_tuples_from rel p from =
     map (\<lambda>off. (off, page_itup rel p off))
       (filter (\<lambda>off. ItemIdIsUsed (PageGetItemId p off)) [from..<PageGetMaxOffsetNumber p + 1])"

abbreviation used_tuples :: "Relation \<Rightarrow> rpage \<Rightarrow> (nat \<times> IndexTupleData) list" where
  "used_tuples rel p \<equiv> used_tuples_from rel p FirstOffsetNumber"

definition empty_box :: RTreeTemporalBox where
  "empty_box = zero_box\<lparr>box_flags := TRTREE_FLAG_EMPTY\<rparr>"

definition rtree_page_mbr :: "Relation \<Rightarrow> rpage \<Rightarrow> bool \<Rightarrow> RTreeTemporalBox" where
  "rtree_page_mbr rel p leaf =
     fst (foldl (\<lambda>(mbr, first) (off, it).
       case rtree_index_tuple_box rel it of
         None \<Rightarrow> (mbr, first)
       | Some box \<Rightarrow> if first then (box, False) else (tr_union mbr box, first))
       (empty_box, True) (used_tuples rel p))"

section \<open>Views of the special space\<close>

lemma unat16: "unat (f :: 16 word) < 65536"
  using unsigned_less [of f] by simp

lemma opaque_put [simp]:
  "opaque_view (put_opaque op) = \<lparr>rightlink = rightlink op mod 2 ^ 32, op_flags = op_flags op,
     op_level = op_level op mod 2 ^ 16, nsn = nsn op mod 2 ^ 64\<rparr>"
  using unat16 [of "op_flags op"] by (simp add: opaque_view_def put_opaque_def)

lemma meta_put [simp]:
  "meta_view (put_meta m sp) = \<lparr>magic = magic m mod 2 ^ 32, meta_root = meta_root m mod 2 ^ 32,
     root_level = root_level m mod 2 ^ 16, meta_flags = meta_flags m\<rparr>"
proof -
  let ?a = "root_level m mod 65536" and ?f = "unat (meta_flags m)" and ?h = "sp2 sp div 4294967296"
  have "?a + 65536 * ?f + 4294967296 * ?h = ?a + 65536 * (?f + 65536 * ?h)" by simp
  then have "(?a + 65536 * ?f + 4294967296 * ?h) mod 65536 = ?a"
    "(?a + 65536 * ?f + 4294967296 * ?h) div 65536 = ?f + 65536 * ?h"
    by (simp_all only: mod_mult_self2 div_mult_self2) simp_all
  then show ?thesis using unat16 [of "meta_flags m"] by (simp add: meta_view_def put_meta_def)
qed

section \<open>Forming tuples\<close>

lemma size_mask: "sz \<le> 0x1FFF \<Longrightarrow> unat ((INDEX_VAR_MASK OR of_nat sz) AND INDEX_SIZE_MASK) = sz"
proof -
  assume sz: "sz \<le> 0x1FFF"
  have m: "INDEX_SIZE_MASK = mask 13" by (simp add: INDEX_SIZE_MASK_def mask_eq_exp_minus_1)
  have "(INDEX_VAR_MASK OR of_nat sz) AND INDEX_SIZE_MASK =
      take_bit 13 INDEX_VAR_MASK OR take_bit 13 (of_nat sz)"
    unfolding m by (simp only: take_bit_eq_mask [symmetric] take_bit_or and.commute)
  also have "take_bit 13 INDEX_VAR_MASK = 0" by (simp add: INDEX_VAR_MASK_def)
  also have "take_bit 13 (of_nat sz) = (of_nat sz :: 16 word)"
    using sz by (simp add: take_bit_of_nat take_bit_nat_eq_self)
  finally show ?thesis using sz by (simp add: unat_of_nat take_bit_nat_eq_self)
qed

lemma index_form_tuple_cube:
  assumes "vl_len c \<le> 8000"
  shows "\<exists>it. index_form_tuple (Some c) = Inr it \<and> t_key it = Some c \<and>
    IndexTupleSize it = MAXALIGN (8 + vl_len c)"
proof -
  have h: "IndexInfoFindDataOffset 0 = 8" by (simp add: IndexInfoFindDataOffset_def MAXALIGN_def)
  have "MAXALIGN (8 + vl_len c) \<le> 0x1FFF" using assms by (simp add: MAXALIGN_def)
  then show ?thesis
    using size_mask [of "MAXALIGN (8 + vl_len c)"]
    by (simp add: index_form_tuple_def h Let_def IndexTupleSize_def INDEX_SIZE_MASK_def or.commute)
qed

lemma rtree_form_tuple_ok:
  "\<exists>it. rtree_form_tuple box tid = Inr it \<and> t_tid it = tid \<and> t_key it = Some (rtree_box_to_cube box) \<and>
     IndexTupleSize it = (if box_is_point box then 32 else 48)"
proof -
  obtain it where "index_form_tuple (Some (rtree_box_to_cube box)) = Inr it"
      "t_key it = Some (rtree_box_to_cube box)"
      "IndexTupleSize it = MAXALIGN (8 + vl_len (rtree_box_to_cube box))"
    using index_form_tuple_cube [of "rtree_box_to_cube box"] box_to_cube_parts(3) [of box]
    by (auto split: if_splits)
  then show ?thesis
    by (auto simp: rtree_form_tuple_def Let_def box_to_cube_parts MAXALIGN_def IndexTupleSize_def)
qed

section \<open>Pages as lists of tuples\<close>

definition tuple_of :: "cell list \<Rightarrow> IndexTupleData" where
  "tuple_of bs = (case bs of TupByte it k # _ \<Rightarrow> it
     | _ \<Rightarrow> \<lparr>t_tid = \<lparr>ip_blkid = 0, ip_posid = 0\<rparr>, t_info = 0, t_key = None\<rparr>)"

definition tuples :: "rpage \<Rightarrow> IndexTupleData list" where
  "tuples p = map tuple_of (page_items p)"

abbreviation real_itup :: "IndexTupleData \<Rightarrow> bool" where
  "real_itup it \<equiv> 0 < IndexTupleSize it"

definition rpage_ok :: "rpage \<Rightarrow> bool" where
  "rpage_ok p \<longleftrightarrow> page_ok p \<and> pd_special p = 8176 \<and> page_items p = map itup_bytes (tuples p) \<and>
     list_all real_itup (tuples p)"

definition tuple_space :: "IndexTupleData \<Rightarrow> nat" where
  "tuple_space it = MAXALIGN (IndexTupleSize it) + sizeof_ItemIdData"

lemma itup_bytes_length [simp]: "length (itup_bytes it) = IndexTupleSize it"
  by (simp add: itup_bytes_def)

lemma itup_bytes_Cons: "real_itup it \<Longrightarrow> itup_bytes it = TupByte it 0 # map (TupByte it) [1..<IndexTupleSize it]"
  by (simp add: itup_bytes_def upt_conv_Cons)

lemma tuple_of_bytes [simp]: "real_itup it \<Longrightarrow> tuple_of (itup_bytes it) = it"
  by (simp add: tuple_of_def itup_bytes_Cons)

lemma item_itup_bytes [simp]: "real_itup it \<Longrightarrow> item_itup rel (itup_bytes it) = it"
  by (simp add: item_itup_def itup_bytes_Cons)

lemma item_space_bytes [simp]: "item_space (itup_bytes it) = tuple_space it"
  by (simp add: item_space_def tuple_space_def)

lemma length_tuples [simp]: "length (tuples p) = PageGetMaxOffsetNumber p"
  by (simp add: tuples_def)

lemma tuples_space: "rpage_ok p \<Longrightarrow> sum_list (map item_space (page_items p)) = sum_list (map tuple_space (tuples p))"
proof -
  assume "rpage_ok p"
  then have "map item_space (page_items p) = map item_space (map itup_bytes (tuples p))"
    by (simp add: rpage_ok_def)
  then show ?thesis by (simp add: comp_def)
qed

lemma rpage_okI:
  "page_ok p \<Longrightarrow> pd_special p = 8176 \<Longrightarrow> page_items p = map itup_bytes ts \<Longrightarrow> list_all real_itup ts \<Longrightarrow>
   rpage_ok p \<and> tuples p = ts"
proof -
  assume a: "page_ok p" "pd_special p = 8176" "page_items p = map itup_bytes ts" "list_all real_itup ts"
  then have "tuples p = ts"
    by (auto simp: tuples_def list_all_iff intro: map_idI)
  with a show ?thesis by (simp add: rpage_ok_def)
qed

lemma page_room_ok: "rpage_ok p \<Longrightarrow> page_room p = 8152"
  by (simp add: rpage_ok_def page_room_def page_consts)

lemma rpage_okI_room:
  "page_ok p \<Longrightarrow> page_room p = 8152 \<Longrightarrow> page_items p = map itup_bytes ts \<Longrightarrow> list_all real_itup ts \<Longrightarrow>
   rpage_ok p \<and> tuples p = ts"
  by (rule rpage_okI) (auto simp: page_room_def page_consts)

text \<open>The page interface at the level of tuples.\<close>

interpretation rpg: slotted_page rpage_ok tuples page_room pd_opaque real_itup tuple_space
  "\<lambda>p it off. PageAddItem p (itup_bytes it) off False False" PageIndexTupleDelete
proof
  fix p it off k
  assume a: "rpage_ok p" "real_itup it" "sum_list (map tuple_space (tuples p)) + tuple_space it \<le> page_room p"
      "off = 0 \<and> k = length (tuples p) \<or> off = Suc k \<and> k \<le> length (tuples p)"
  have ok: "page_ok p" and it: "page_items p = map itup_bytes (tuples p)" "list_all real_itup (tuples p)"
    using a(1) by (auto simp: rpage_ok_def)
  have "sum_list (map item_space (page_items p)) + item_space (itup_bytes it) \<le> page_room p"
    using a(3) by (simp add: tuples_space [OF a(1)])
  moreover have "itup_bytes it \<noteq> []" using a(2) by (simp add: itup_bytes_def)
  ultimately obtain p' where p': "PageAddItem p (itup_bytes it) off False False = Inr (Suc k, p')" "page_ok p'"
      "page_items p' = take k (page_items p) @ itup_bytes it # drop k (page_items p)"
      "page_room p' = page_room p" "pd_opaque p' = pd_opaque p"
    using bufpage.add_fits [OF ok, of "itup_bytes it" off k] a(4) by auto
  have "rpage_ok p' \<and> tuples p' = take k (tuples p) @ it # drop k (tuples p)"
    using p' it a(1,2) page_room_ok [OF a(1)]
    by (intro rpage_okI_room) (auto simp: take_map drop_map list_all_iff dest: in_set_takeD in_set_dropD)
  with p' show "\<exists>p'. PageAddItem p (itup_bytes it) off False False = Inr (Suc k, p') \<and> rpage_ok p' \<and>
      tuples p' = take k (tuples p) @ it # drop k (tuples p) \<and> page_room p' = page_room p \<and>
      pd_opaque p' = pd_opaque p" by auto
next
  fix p it
  assume "rpage_ok p" "page_room p < sum_list (map tuple_space (tuples p)) + tuple_space it"
  then show "PageAddItem p (itup_bytes it) 0 False False = Inr (0, p)"
    using tuples_space [of p] by (intro bufpage.add_full) (auto simp: rpage_ok_def)
next
  fix p k
  assume a: "rpage_ok p" "k < length (tuples p)"
  have ok: "page_ok p" and it: "page_items p = map itup_bytes (tuples p)" "list_all real_itup (tuples p)"
    using a(1) by (auto simp: rpage_ok_def)
  obtain p' where p': "PageIndexTupleDelete p (Suc k) = Inr p'" "page_ok p'"
      "page_items p' = take k (page_items p) @ drop (Suc k) (page_items p)"
      "page_room p' = page_room p" "pd_opaque p' = pd_opaque p"
    using bufpage.delete_ok [OF ok, of k] a(2) by auto
  have "rpage_ok p' \<and> tuples p' = take k (tuples p) @ drop (Suc k) (tuples p)"
    using p' it a(1) page_room_ok [OF a(1)]
    by (intro rpage_okI_room) (auto simp: take_map drop_map list_all_iff dest: in_set_takeD in_set_dropD)
  with p' show "\<exists>p'. PageIndexTupleDelete p (Suc k) = Inr p' \<and> rpage_ok p' \<and>
      tuples p' = take k (tuples p) @ drop (Suc k) (tuples p) \<and> page_room p' = page_room p \<and>
      pd_opaque p' = pd_opaque p" by auto
qed

section \<open>Initialised pages\<close>

lemma opaque_upd [simp]:
  "PageGetItem (p\<lparr>pd_opaque := x\<rparr>) = PageGetItem p"
  "PageGetMaxOffsetNumber (p\<lparr>pd_opaque := x\<rparr>) = PageGetMaxOffsetNumber p"
  "line_pointers (p\<lparr>pd_opaque := x\<rparr>) = line_pointers p"
  "page_items (p\<lparr>pd_opaque := x\<rparr>) = page_items p"
  "page_ok (p\<lparr>pd_opaque := x\<rparr>) = page_ok p"
  "page_room (p\<lparr>pd_opaque := x\<rparr>) = page_room p"
proof -
  show 1: "PageGetItem (p\<lparr>pd_opaque := x\<rparr>) = PageGetItem p" by (simp add: PageGetItem_def fun_eq_iff)
  show 2: "PageGetMaxOffsetNumber (p\<lparr>pd_opaque := x\<rparr>) = PageGetMaxOffsetNumber p"
    by (simp add: PageGetMaxOffsetNumber_def)
  show 3: "line_pointers (p\<lparr>pd_opaque := x\<rparr>) = line_pointers p" by (simp add: line_pointers_def 2)
  show "page_items (p\<lparr>pd_opaque := x\<rparr>) = page_items p" by (simp add: page_items_def 1 3)
  show "page_ok (p\<lparr>pd_opaque := x\<rparr>) = page_ok p" by (simp add: page_ok_def 2 3 PageHasFreeLinePointers_def)
  show "page_room (p\<lparr>pd_opaque := x\<rparr>) = page_room p" by (simp add: page_room_def)
qed

lemma init_datapage_ok:
  "rpage_ok (rtree_init_datapage flags lvl)" "tuples (rtree_init_datapage flags lvl) = []"
  "page_room (rtree_init_datapage flags lvl) = 8152"
  "page_opaque (rtree_init_datapage flags lvl) =
     \<lparr>rightlink = InvalidBlockNumber, op_flags = flags, op_level = lvl mod 2 ^ 16, nsn = 0\<rparr>"
proof -
  let ?p = "rtree_init_datapage flags lvl"
  have fields: "page_items ?p = page_items (PageInit BLCKSZ 16 :: rpage)" "page_ok ?p = page_ok (PageInit BLCKSZ 16 :: rpage)"
    "pd_special ?p = pd_special (PageInit BLCKSZ 16 :: rpage)"
    by (simp_all add: rtree_init_datapage_def set_opaque_def Let_def)
  have m: "MAXALIGN 16 = 16" by (simp add: MAXALIGN_def)
  have "rpage_ok ?p \<and> tuples ?p = []"
    using PageInit_ok [of 16] fields by (intro rpage_okI) (simp_all add: m page_consts)
  then show "rpage_ok ?p" "tuples ?p = []" "page_room ?p = 8152"
    using page_room_ok by auto
  show "page_opaque ?p = \<lparr>rightlink = InvalidBlockNumber, op_flags = flags, op_level = lvl mod 2 ^ 16, nsn = 0\<rparr>"
    by (simp add: rtree_init_datapage_def set_opaque_def page_opaque_def Let_def InvalidBlockNumber_def)
qed

lemma set_opaque_ok [simp]:
  "rpage_ok (set_opaque op p) = rpage_ok p" "tuples (set_opaque op p) = tuples p"
  "page_room (set_opaque op p) = page_room p"
  "page_opaque (set_opaque op p) = \<lparr>rightlink = rightlink op mod 2 ^ 32, op_flags = op_flags op,
     op_level = op_level op mod 2 ^ 16, nsn = nsn op mod 2 ^ 64\<rparr>"
  by (simp_all add: set_opaque_def tuples_def rpage_ok_def page_opaque_def)

lemma init_metapage_meta:
  "page_meta (rtree_init_metapage rootblk lvl) = \<lparr>magic = TRTREE_META_MAGIC, meta_root = rootblk mod 2 ^ 32,
     root_level = lvl mod 2 ^ 16, meta_flags = TRTREE_PAGE_META\<rparr>"
  by (simp add: rtree_init_metapage_def set_meta_def page_meta_def Let_def TRTREE_META_MAGIC_def)

lemma set_meta_meta [simp]:
  "page_meta (set_meta m p) = \<lparr>magic = magic m mod 2 ^ 32, meta_root = meta_root m mod 2 ^ 32,
     root_level = root_level m mod 2 ^ 16, meta_flags = meta_flags m\<rparr>"
  by (simp add: set_meta_def page_meta_def)

section \<open>Traversal of a page\<close>

lemma page_itup_nth:
  assumes "rpage_ok p" "k < PageGetMaxOffsetNumber p"
  shows "page_itup rel p (Suc k) = tuples p ! k" "ItemIdIsUsed (PageGetItemId p (Suc k))"
proof -
  have "page_items p ! k = itup_bytes (tuples p ! k)" "real_itup (tuples p ! k)"
    using assms by (auto simp: rpage_ok_def list_all_length)
  moreover have "page_items p ! k = PageGetItem p (pd_linp p k)"
    using assms(2) by (simp add: page_items_def)
  ultimately show "page_itup rel p (Suc k) = tuples p ! k"
    by (simp add: page_itup_def PageGetItemId_def)
  show "ItemIdIsUsed (PageGetItemId p (Suc k))"
    using page_okD [of p k] assms by (simp add: rpage_ok_def PageGetItemId_def ItemIdIsUsed_def item_ok_def
        LP_NORMAL_def LP_UNUSED_def)
qed

lemma used_tuples_from_ok:
  assumes "rpage_ok p"
  shows "used_tuples_from rel p (Suc k) = zip [Suc k..<Suc (PageGetMaxOffsetNumber p)] (drop k (tuples p))"
proof -
  let ?n = "PageGetMaxOffsetNumber p"
  have "filter (\<lambda>off. ItemIdIsUsed (PageGetItemId p off)) [Suc k..<?n + 1] = [Suc k..<?n + 1]"
  proof (rule filter_True, rule ballI)
    fix off assume "off \<in> set [Suc k..<?n + 1]"
    then have "Suc k \<le> off" "off \<le> ?n" by auto
    then obtain j where "off = Suc j" "j < ?n" by (cases off) auto
    then show "ItemIdIsUsed (PageGetItemId p off)" using page_itup_nth(2) [OF assms] by simp
  qed
  then have "used_tuples_from rel p (Suc k) = map (\<lambda>off. (off, page_itup rel p off)) [Suc k..<Suc ?n]"
    by (simp add: used_tuples_from_def)
  also have "\<dots> = zip [Suc k..<Suc ?n] (drop k (tuples p))"
    by (rule nth_equalityI) (auto simp: page_itup_nth(1) [OF assms] simp del: upt_Suc)
  finally show ?thesis .
qed

lemma used_tuples_ok: "rpage_ok p \<Longrightarrow> map snd (used_tuples rel p) = tuples p"
  using used_tuples_from_ok [of p rel 0] by (simp add: page_consts del: upt_Suc)

section \<open>The bounding box of a page\<close>

definition tuple_boxes :: "Relation \<Rightarrow> IndexTupleData list \<Rightarrow> RTreeTemporalBox list" where
  "tuple_boxes rel ts = List.map_filter (rtree_index_tuple_box rel) ts"

lemma mbr_fold:
  "foldl (\<lambda>(mbr, first) (off, it). case rtree_index_tuple_box rel it of
         None \<Rightarrow> (mbr, first)
       | Some box \<Rightarrow> if first then (box, False) else (tr_union mbr box, first)) (m, f) xs =
   (case tuple_boxes rel (map snd xs) of
      [] \<Rightarrow> (m, f)
    | b # bs \<Rightarrow> (if f then foldl tr_union b bs else foldl tr_union m (b # bs), False))"
proof (induction xs arbitrary: m f)
  case Nil
  then show ?case by (simp add: tuple_boxes_def map_filter_simps)
next
  case (Cons x xs)
  obtain off it where x: "x = (off, it)" by (cases x)
  show ?case
    using Cons.IH
    by (auto simp: x tuple_boxes_def map_filter_simps split: option.splits list.splits)
qed

lemma rtree_page_mbr_eq:
  assumes "rpage_ok p"
  shows "rtree_page_mbr rel p leaf =
    (case tuple_boxes rel (tuples p) of [] \<Rightarrow> empty_box | b # bs \<Rightarrow> foldl tr_union b bs)"
  unfolding rtree_page_mbr_def mbr_fold used_tuples_ok [OF assms]
  by (auto split: list.splits)

lemma tuple_box_nonempty: "rtree_index_tuple_box rel it = Some b \<Longrightarrow> nonempty_box b"
  by (auto simp: rtree_index_tuple_box_def rtree_cube_to_box_flags)

lemma set_tuple_boxes: "set (tuple_boxes rel ts) = {b. \<exists>it \<in> set ts. rtree_index_tuple_box rel it = Some b}"
  by (force simp: tuple_boxes_def List.map_filter_def)

text \<open>The bounding box computed for a page contains the box of every tuple on it, and any box
  that contains them all contains the bounding box.\<close>

lemma page_mbr_least:
  assumes "rpage_ok p" "it \<in> set (tuples p)" "rtree_index_tuple_box rel it = Some b"
  shows "rtree_box_contains (rtree_page_mbr rel p leaf) b \<and>
    (\<forall>c. (\<forall>b' \<in> set (tuple_boxes rel (tuples p)). rtree_box_contains c b') \<longrightarrow>
      rtree_box_contains c (rtree_page_mbr rel p leaf))"
proof -
  have b: "b \<in> set (tuple_boxes rel (tuples p))" using assms by (auto simp: set_tuple_boxes)
  then obtain b0 bs where bs: "tuple_boxes rel (tuples p) = b0 # bs" by (cases "tuple_boxes rel (tuples p)") auto
  have ne: "nonempty_box b0" "list_all nonempty_box bs"
    using bs set_tuple_boxes [of rel "tuples p"] tuple_box_nonempty by (fastforce simp: list_all_iff)+
  have mbr: "rtree_page_mbr rel p leaf = foldl tr_union b0 bs"
    using rtree_page_mbr_eq [OF assms(1)] bs by simp
  have "rtree_box_contains (foldl tr_union b0 bs) b"
    using b bs tbox.fold_covers [OF ne, of b] tbox.fold_covers_acc [OF ne] by auto
  moreover have "rtree_box_contains c (foldl tr_union b0 bs)"
    if "\<forall>b' \<in> set (tuple_boxes rel (tuples p)). rtree_box_contains c b'" for c
    using that bs by (intro tbox.fold_least [OF ne]) (auto simp: list_all_iff)
  ultimately show ?thesis by (simp add: mbr)
qed

section \<open>Instances\<close>

definition demo_rel :: Relation where
  "demo_rel = \<lparr>rd_cenv = x86_env, rd_overlay = (\<lambda>_. \<lparr>t_tid = \<lparr>ip_blkid = 0, ip_posid = 0\<rparr>, t_info = 0, t_key = None\<rparr>),
     RelationNeedsWAL = True\<rparr>"

definition demo_itup :: "nat \<Rightarrow> IndexTupleData" where
  "demo_itup n = \<lparr>t_tid = \<lparr>ip_blkid = n, ip_posid = 1\<rparr>, t_info = 48, t_key = Some row_cube\<rparr>"

lemma demo_itup_size: "IndexTupleSize (demo_itup n) = 48"
  by (simp add: IndexTupleSize_def demo_itup_def INDEX_SIZE_MASK_def)

lemma demo_page:
  obtains p where "PageAddItem (rtree_init_datapage TRTREE_PAGE_LEAF 0) (itup_bytes (demo_itup 5)) 0 False False = Inr (1, p)"
    "rpage_ok p" "tuples p = [demo_itup 5]"
proof -
  let ?p = "rtree_init_datapage TRTREE_PAGE_LEAF 0"
  have "sum_list (map tuple_space (tuples ?p)) + tuple_space (demo_itup 5) \<le> page_room ?p"
    by (simp add: init_datapage_ok tuple_space_def demo_itup_size MAXALIGN_def page_consts)
  then show thesis
    using rpg.append_ok [of ?p "demo_itup 5"] that by (auto simp: init_datapage_ok demo_itup_size)
qed

lemma page_mbr_least_example:
  "\<exists>p. tuples p = [demo_itup 5] \<and>
     rtree_box_contains (rtree_page_mbr demo_rel p True) (rtree_cube_to_box x86_env row_cube)"
proof -
  obtain p where p: "rpage_ok p" "tuples p = [demo_itup 5]" by (rule demo_page)
  have "rtree_index_tuple_box demo_rel (demo_itup 5) = Some (rtree_cube_to_box x86_env row_cube)"
    by (simp add: rtree_index_tuple_box_def index_getattr_def demo_itup_def demo_rel_def)
  with page_mbr_least [OF p(1), of "demo_itup 5" demo_rel] p(2) show ?thesis by auto
qed

end
