(* ===== verification/TR_Storage.thy ===== *)
theory TR_Storage
  imports TR_Page
begin

text \<open>
  The buffer manager as the index sees it, and the WAL wrappers of \<^verbatim>\<open>temporal_rtree_wal.c\<close> over
  \<^verbatim>\<open>generic_xlog.c\<close>. The state holds the blocks of the index, the content locks and pins this backend
  holds, the set of dirty buffers and the log. A buffer is identified with its block number. A lock request that
  conflicts with a lock the backend already holds would wait for ever: it is an error of the model.
\<close>

section \<open>State\<close>

record istate =
  blocks :: "rpage list"
  held :: "(nat \<times> bool) list"
  pins :: "nat list"
  dirty :: "nat set"
  wal :: "(nat \<times> rpage) list list"

type_synonym 'a op = "(istate, 'a) comp"

text \<open>The largest number of blocks of a relation.\<close>

definition MaxBlockNumber :: nat where "MaxBlockNumber = 0xFFFFFFFE"

section \<open>Buffers and locks\<close>

definition ReadBuffer :: "nat \<Rightarrow> nat op" where
  "ReadBuffer blk = (\<lambda>s. if blk < length (blocks s) then (Inr blk, s\<lparr>pins := blk # pins s\<rparr>)
     else (Inl (ReadPastEnd blk), s))"

definition lock_conflict :: "(nat \<times> bool) list \<Rightarrow> nat \<Rightarrow> bool \<Rightarrow> bool" where
  "lock_conflict hs blk ex \<longleftrightarrow> (blk, True) \<in> set hs \<or> ex \<and> (blk, False) \<in> set hs"

text \<open>\<^verbatim>\<open>LockBuffer\<close> in share mode (\<open>False\<close>) or exclusive mode (\<open>True\<close>).\<close>

definition LockBuffer :: "nat \<Rightarrow> bool \<Rightarrow> unit op" where
  "LockBuffer blk ex = (\<lambda>s. if lock_conflict (held s) blk ex then (Inl (SelfDeadlock blk), s)
     else (Inr (), s\<lparr>held := (blk, ex) # held s\<rparr>))"

fun drop_lock :: "nat \<Rightarrow> (nat \<times> bool) list \<Rightarrow> (nat \<times> bool) list" where
  "drop_lock blk [] = []"
| "drop_lock blk ((b, ex) # hs) = (if b = blk then hs else (b, ex) # drop_lock blk hs)"

definition UnlockBuffer :: "nat \<Rightarrow> unit op" where
  "UnlockBuffer blk = modifyC (\<lambda>s. s\<lparr>held := drop_lock blk (held s)\<rparr>)"

definition ReleaseBuffer :: "nat \<Rightarrow> unit op" where
  "ReleaseBuffer blk = modifyC (\<lambda>s. s\<lparr>pins := remove1 blk (pins s)\<rparr>)"

definition UnlockReleaseBuffer :: "nat \<Rightarrow> unit op" where
  "UnlockReleaseBuffer blk = bindC (UnlockBuffer blk) (\<lambda>_. ReleaseBuffer blk)"

text \<open>\<^verbatim>\<open>ReadBufferExtended\<close> with \<^verbatim>\<open>P_NEW\<close> and \<^verbatim>\<open>RBM_ZERO_AND_LOCK\<close>.\<close>

definition ReadBufferNew :: "nat op" where
  "ReadBufferNew = (\<lambda>s. let blk = length (blocks s) in
     if blk + 1 \<ge> MaxBlockNumber then (Inl ExtendLimit, s)
     else (Inr blk, s\<lparr>blocks := blocks s @ [zero_page], pins := blk # pins s,
                      held := (blk, True) # held s\<rparr>))"

definition BufferGetPage :: "nat \<Rightarrow> rpage op" where
  "BufferGetPage blk = gets (\<lambda>s. blocks s ! blk)"

text \<open>Writing through the page pointer of a buffer.\<close>

definition put_page :: "nat \<Rightarrow> rpage \<Rightarrow> unit op" where
  "put_page blk p = modifyC (\<lambda>s. s\<lparr>blocks := (blocks s)[blk := p]\<rparr>)"

definition MarkBufferDirty :: "nat \<Rightarrow> unit op" where
  "MarkBufferDirty blk = modifyC (\<lambda>s. s\<lparr>dirty := insert blk (dirty s)\<rparr>)"

definition RelationGetNumberOfBlocks :: "nat op" where
  "RelationGetNumberOfBlocks = gets (\<lambda>s. length (blocks s))"

text \<open>\<^verbatim>\<open>PageAddItem\<close> on the page of a buffer.\<close>

definition BufferAddItem :: "nat \<Rightarrow> IndexTupleData \<Rightarrow> nat \<Rightarrow> nat op" where
  "BufferAddItem blk it off = bindC (BufferGetPage blk) (\<lambda>page.
     bindC (liftE (PageAddItem page (itup_bytes it) off False False)) (\<lambda>(offnum, page').
     bindC (put_page blk page') (\<lambda>_. ret offnum)))"

section \<open>Generic WAL records\<close>

text \<open>The hole between \<^verbatim>\<open>pd_lower\<close> and \<^verbatim>\<open>pd_upper\<close>, and the line pointers past \<^verbatim>\<open>pd_lower\<close>, are zeroed.\<close>

definition zero_hole :: "('b::zero, 's) PageData \<Rightarrow> ('b, 's) PageData" where
  "zero_hole p = p\<lparr>
     pd_linp := (\<lambda>i. if SizeOfPageHeaderData + sizeof_ItemIdData * i \<ge> pd_lower p then ItemIdSetUnused
                     else pd_linp p i),
     pd_cells := (\<lambda>a. if pd_lower p \<le> a \<and> a < pd_upper p then 0 else pd_cells p a)\<rparr>"

text \<open>
  \<^verbatim>\<open>GenericXLogStart\<close>, the registration of the buffers with \<^verbatim>\<open>GENERIC_XLOG_FULL_IMAGE\<close> and
  \<^verbatim>\<open>GenericXLogFinish\<close>: the images taken at registration are written back, with the hole zeroed when
  the relation is logged, the buffers are marked dirty, and a record with the full images is added
  to the log.
\<close>

definition GenericXLogFinish :: "bool \<Rightarrow> (nat \<times> rpage) list \<Rightarrow> unit op" where
  "GenericXLogFinish isLogged images =
     bindC (foldC (\<lambda>_ (blk, img). bindC (put_page blk (if isLogged then zero_hole img else img))
              (\<lambda>_. MarkBufferDirty blk)) () images)
       (\<lambda>_. if isLogged
            then modifyC (\<lambda>s. s\<lparr>wal := wal s @ [map (\<lambda>(blk, img). (blk, zero_hole img)) images]\<rparr>)
            else ret ())"

definition generic_xlog :: "Relation \<Rightarrow> nat list \<Rightarrow> unit op" where
  "generic_xlog rel bufs =
     bindC (gets (\<lambda>s. map (\<lambda>b. (b, blocks s ! b)) (remdups bufs)))
       (GenericXLogFinish (RelationNeedsWAL rel))"

definition rtree_wal_insert :: "Relation \<Rightarrow> nat \<Rightarrow> unit op" where
  "rtree_wal_insert rel buf = generic_xlog rel [buf]"

definition rtree_wal_split :: "Relation \<Rightarrow> nat \<Rightarrow> nat \<Rightarrow> unit op" where
  "rtree_wal_split rel left_buf right_buf = generic_xlog rel [left_buf, right_buf]"

definition rtree_wal_vacuum :: "Relation \<Rightarrow> nat \<Rightarrow> unit op" where
  "rtree_wal_vacuum rel buf = generic_xlog rel [buf]"

text \<open>Redo of the log: every image replaces its block, extending the relation when needed.\<close>

definition redo_image :: "rpage list \<Rightarrow> nat \<times> rpage \<Rightarrow> rpage list" where
  "redo_image bs x = (case x of (blk, img) \<Rightarrow>
     (let bs = bs @ replicate (Suc blk - length bs) zero_page in bs[blk := img]))"

definition wal_redo :: "rpage list \<Rightarrow> (nat \<times> rpage) list list \<Rightarrow> rpage list" where
  "wal_redo bs records = foldl redo_image bs (concat records)"

section \<open>Running the storage operations\<close>

lemma ReadBuffer_run [comp_simps]:
  "blk < length (blocks s) \<Longrightarrow> ReadBuffer blk s = (Inr blk, s\<lparr>pins := blk # pins s\<rparr>)"
  by (simp add: ReadBuffer_def)

lemma LockBuffer_run [comp_simps]:
  "\<not> lock_conflict (held s) blk ex \<Longrightarrow> LockBuffer blk ex s = (Inr (), s\<lparr>held := (blk, ex) # held s\<rparr>)"
  by (simp add: LockBuffer_def)

lemma unlocked_no_conflict: "blk \<notin> fst ` set hs \<Longrightarrow> \<not> lock_conflict hs blk ex"
  by (force simp: lock_conflict_def)

lemma UnlockReleaseBuffer_run [comp_simps]:
  "UnlockReleaseBuffer blk s = (Inr (), s\<lparr>held := drop_lock blk (held s), pins := remove1 blk (pins s)\<rparr>)"
  by (simp add: UnlockReleaseBuffer_def UnlockBuffer_def ReleaseBuffer_def bindC_def)

lemma UnlockBuffer_run [comp_simps]:
  "UnlockBuffer blk s = (Inr (), s\<lparr>held := drop_lock blk (held s)\<rparr>)"
  by (simp add: UnlockBuffer_def)

lemma ReleaseBuffer_run [comp_simps]:
  "ReleaseBuffer blk s = (Inr (), s\<lparr>pins := remove1 blk (pins s)\<rparr>)"
  by (simp add: ReleaseBuffer_def)

lemma ReadBufferNew_run [comp_simps]:
  "length (blocks s) + 1 < MaxBlockNumber \<Longrightarrow>
   ReadBufferNew s = (Inr (length (blocks s)), s\<lparr>blocks := blocks s @ [zero_page],
     pins := length (blocks s) # pins s, held := (length (blocks s), True) # held s\<rparr>)"
  by (simp add: ReadBufferNew_def Let_def)

lemma BufferGetPage_run [comp_simps]: "BufferGetPage blk s = (Inr (blocks s ! blk), s)"
  by (simp add: BufferGetPage_def)

lemma put_page_run [comp_simps]: "put_page blk p s = (Inr (), s\<lparr>blocks := (blocks s)[blk := p]\<rparr>)"
  by (simp add: put_page_def)

lemma MarkBufferDirty_run [comp_simps]: "MarkBufferDirty blk s = (Inr (), s\<lparr>dirty := insert blk (dirty s)\<rparr>)"
  by (simp add: MarkBufferDirty_def)

lemma RelationGetNumberOfBlocks_run [comp_simps]: "RelationGetNumberOfBlocks s = (Inr (length (blocks s)), s)"
  by (simp add: RelationGetNumberOfBlocks_def)

text \<open>Adding a tuple that fits, and adding a list of tuples that fit.\<close>

lemma BufferAddItem_fits:
  assumes "blk < length (blocks s)" "rpage_ok (blocks s ! blk)" "real_itup it"
    "sum_list (map tuple_space (tuples (blocks s ! blk))) + tuple_space it \<le> 8152"
  obtains p where "BufferAddItem blk it InvalidOffsetNumber s =
      (Inr (Suc (length (tuples (blocks s ! blk)))), s\<lparr>blocks := (blocks s)[blk := p]\<rparr>)"
    "rpage_ok p" "tuples p = tuples (blocks s ! blk) @ [it]" "pd_opaque p = pd_opaque (blocks s ! blk)"
proof -
  obtain p where "PageAddItem (blocks s ! blk) (itup_bytes it) 0 False False =
      Inr (Suc (length (tuples (blocks s ! blk))), p)" "rpage_ok p"
      "tuples p = tuples (blocks s ! blk) @ [it]" "pd_opaque p = pd_opaque (blocks s ! blk)"
    using rpg.append_ok [of "blocks s ! blk" it] assms by (auto simp: page_room_ok)
  then show thesis
    by (intro that [of p]) (simp_all add: BufferAddItem_def page_consts comp_simps)
qed

section \<open>Logging\<close>

lemma zero_hole_items:
  assumes "page_ok p"
  shows "page_ok (zero_hole p)" "page_items (zero_hole p) = page_items p"
proof -
  have n: "PageGetMaxOffsetNumber (zero_hole p) = PageGetMaxOffsetNumber p"
    by (simp add: zero_hole_def PageGetMaxOffsetNumber_def)
  have lp: "line_pointers (zero_hole p) = line_pointers p"
    unfolding line_pointers_def n using assms by (auto simp: zero_hole_def page_ok_def page_consts)
  show "page_ok (zero_hole p)"
    using assms unfolding page_ok_def lp n by (auto simp: zero_hole_def PageHasFreeLinePointers_def)
  have "PageGetItem (zero_hole p) i = PageGetItem p i" if "i \<in> set (line_pointers p)" for i
    by (rule PageGetItem_cong)
      (use assms that in \<open>auto simp: zero_hole_def page_ok_def list_all_iff item_ok_def\<close>)
  then show "page_items (zero_hole p) = page_items p" unfolding page_items_def lp by simp
qed

definition logged :: "Relation \<Rightarrow> rpage \<Rightarrow> rpage" where
  "logged rel p = (if RelationNeedsWAL rel then zero_hole p else p)"

lemma logged_ok [simp]:
  assumes "rpage_ok p"
  shows "rpage_ok (logged rel p)" "tuples (logged rel p) = tuples p" "pd_opaque (logged rel p) = pd_opaque p"
proof -
  have ok: "page_ok p" using assms by (simp add: rpage_ok_def)
  have "tuples (zero_hole p) = tuples p" by (simp add: tuples_def zero_hole_items [OF ok])
  moreover have "pd_special (zero_hole p) = pd_special p" "pd_opaque (zero_hole p) = pd_opaque p"
    by (simp_all add: zero_hole_def)
  ultimately show "rpage_ok (logged rel p)" "tuples (logged rel p) = tuples p"
      "pd_opaque (logged rel p) = pd_opaque p"
    using assms by (auto simp: logged_def rpage_ok_def zero_hole_items)
qed

lemma page_opaque_logged [simp]: "rpage_ok p \<Longrightarrow> page_opaque (logged rel p) = page_opaque p"
  by (simp add: page_opaque_def)

lemma wal_one:
  "(if RelationNeedsWAL rel then generic_xlog rel [b] else ret ()) s =
     (Inr (), if RelationNeedsWAL rel
       then s\<lparr>blocks := (blocks s)[b := zero_hole (blocks s ! b)], dirty := insert b (dirty s),
              wal := wal s @ [[(b, zero_hole (blocks s ! b))]]\<rparr>
       else s)"
  by (simp add: generic_xlog_def GenericXLogFinish_def bindC_def put_page_run MarkBufferDirty_run)

lemma wal_two:
  "a \<noteq> b \<Longrightarrow> (if RelationNeedsWAL rel then rtree_wal_split rel a b else ret ()) s =
     (Inr (), if RelationNeedsWAL rel
       then s\<lparr>blocks := (blocks s)[a := zero_hole (blocks s ! a), b := zero_hole (blocks s ! b)],
              dirty := insert b (insert a (dirty s)),
              wal := wal s @ [[(a, zero_hole (blocks s ! a)), (b, zero_hole (blocks s ! b))]]\<rparr>
       else s)"
  by (simp add: rtree_wal_split_def generic_xlog_def GenericXLogFinish_def bindC_def put_page_run
      MarkBufferDirty_run)

lemma wal_one_fields:
  "\<exists>s'. (if RelationNeedsWAL rel then generic_xlog rel [b] else ret ()) s = (Inr (), s') \<and>
    blocks s' = (blocks s)[b := logged rel (blocks s ! b)] \<and> held s' = held s \<and> pins s' = pins s"
  unfolding wal_one by (simp add: logged_def)

lemma wal_two_fields:
  "a \<noteq> b \<Longrightarrow> \<exists>s'. (if RelationNeedsWAL rel then rtree_wal_split rel a b else ret ()) s = (Inr (), s') \<and>
    blocks s' = (blocks s)[a := logged rel (blocks s ! a), b := logged rel (blocks s ! b)] \<and>
    held s' = held s \<and> pins s' = pins s"
  using wal_two [of a b rel s] by (simp add: logged_def)

end
