(* ===== verification/TR_Tree.thy ===== *)
theory TR_Tree
  imports TR_Storage
begin

text \<open>
  The tree a set of blocks represents: the index tuples at its leaves, the blocks it is made of,
  and when it is well formed. The lemmas are the frame rules the operations use: a tree
  depends on its own blocks only.
\<close>

section \<open>Boxes that keep downlinks at one size\<close>

text \<open>
  A downlink takes 48 bytes unless its box is a point. A box is spread when its lower bound is in the exact range of a
  double and below its upper bound; \<^verbatim>\<open>PG_INT64_MIN\<close> as an upper bound is what a stored
  \<^verbatim>\<open>PG_INT64_MAX\<close> is read back as on hardware that returns it for an out-of-range
  \<^verbatim>\<open>llround\<close>. Spread boxes are closed under union and under storing.
\<close>

definition spread_box :: "RTreeTemporalBox \<Rightarrow> bool" where
  "spread_box b \<longleftrightarrow> nonempty_box b \<and> \<bar>lower_us b\<bar> \<le> 2 ^ 53 \<and>
     (lower_us b < upper_us b \<or> upper_us b = PG_INT64_MIN) \<and>
     (upper_us b \<le> 2 ^ 53 \<or> upper_us b = PG_INT64_MAX)"

text \<open>What the code relies on of the C environment: an out-of-range \<^verbatim>\<open>llround\<close> of \<open>2\<^sup>6\<^sup>3\<close> gives the
  smallest integer (x86-64) or the largest one (a saturating conversion).\<close>

definition llround_env :: "cenv \<Rightarrow> bool" where
  "llround_env ce \<longleftrightarrow> wrap64 (oor_llround ce (F_Fin (2 ^ 63))) \<in> {PG_INT64_MIN, PG_INT64_MAX}"

lemma spread_not_point: "spread_box b \<Longrightarrow> \<not> box_is_point b"
  by (auto simp: spread_box_def box_is_point_def PG_INT64_MIN_def)

lemma spread_union: "spread_box a \<Longrightarrow> spread_box b \<Longrightarrow> spread_box (tr_union a b)"
  by (auto simp: spread_box_def tr_union_fields PG_INT64_MIN_def PG_INT64_MAX_def min_def max_def)

lemma spread_fold: "spread_box b \<Longrightarrow> list_all spread_box bs \<Longrightarrow> spread_box (foldl tr_union b bs)"
  by (induction bs arbitrary: b) (auto intro: spread_union)

lemma llround_int64_min: "llround ce (f64_of_int PG_INT64_MIN) = PG_INT64_MIN"
proof -
  have "representable (- (2 ^ 63))"
    using representable_uminus [OF representable_pow2 [of 63]] by (simp add: pow2_def)
  then have "f64_of_int PG_INT64_MIN = F_Fin (- (2 ^ 63))"
    using f64_of_rat_exact [of "- (2 ^ 63)"] by (simp add: f64_of_int_def PG_INT64_MIN_def)
  moreover have "round_away (- (2 ^ 63)) = PG_INT64_MIN"
    using round_away_of_int [of "- (2 ^ 63)"] by (simp add: PG_INT64_MIN_def)
  ultimately show ?thesis by (simp add: llround_def int_range_64 PG_INT64_MIN_def PG_INT64_MAX_def)
qed

lemma spread_stored:
  assumes "spread_box b" "llround_env ce"
  shows "spread_box (rtree_cube_to_box ce (rtree_box_to_cube b))"
proof -
  let ?u = "upper_us b"
  have lo: "llround ce (f64_of_int (lower_us b)) = lower_us b"
    using assms(1) by (simp add: spread_box_def llround_of_int)
  have max: "llround ce (f64_of_int PG_INT64_MAX) = wrap64 (oor_llround ce (F_Fin (2 ^ 63)))"
  proof -
    have "round_away (2 ^ 63) = 2 ^ 63" using round_away_of_int [of "2 ^ 63"] by simp
    then show ?thesis by (simp add: f64_of_int64_max llround_def int_range_def)
  qed
  have inf: "\<not> f_isinf (f64_of_int (lower_us b))" "\<not> f_isinf (f64_of_int ?u)"
  proof -
    show "\<not> f_isinf (f64_of_int (lower_us b))"
      using assms(1) by (simp add: spread_box_def f64_of_int_exact f_isinf_def)
    have "?u = PG_INT64_MIN \<or> ?u = PG_INT64_MAX \<or> \<bar>?u\<bar> \<le> 2 ^ 53"
      using assms(1) by (auto simp: spread_box_def)
    then show "\<not> f_isinf (f64_of_int ?u)"
    proof (elim disjE)
      assume "?u = PG_INT64_MIN"
      then show ?thesis
        using f64_of_rat_exact [of "- (2 ^ 63)"] representable_uminus [OF representable_pow2 [of 63]]
        by (simp add: f64_of_int_def PG_INT64_MIN_def pow2_def f_isinf_def)
    qed (auto simp: f64_of_int64_max f_isinf_def f64_of_int_exact)
  qed
  have fields: "lower_us (rtree_cube_to_box ce (rtree_box_to_cube b)) = lower_us b"
    "upper_us (rtree_cube_to_box ce (rtree_box_to_cube b)) = llround ce (f64_of_int ?u)"
    using lo inf by (simp_all add: rtree_cube_to_box_ur coords_of_box box_to_cube_parts(1))
  consider "?u = PG_INT64_MIN" | "?u = PG_INT64_MAX" | "\<bar>?u\<bar> \<le> 2 ^ 53" "lower_us b < ?u"
    using assms(1) by (auto simp: spread_box_def)
  then show ?thesis
  proof cases
    case 1
    then show ?thesis using assms(1) fields llround_int64_min
      by (auto simp: spread_box_def rtree_cube_to_box_flags PG_INT64_MIN_def)
  next
    case 2
    then show ?thesis using assms fields max
      by (auto simp: spread_box_def rtree_cube_to_box_flags llround_env_def PG_INT64_MIN_def PG_INT64_MAX_def)
  next
    case 3
    then show ?thesis using assms(1) fields llround_of_int [of ?u ce]
      by (auto simp: spread_box_def rtree_cube_to_box_flags)
  qed
qed

section \<open>Trees in a list of blocks\<close>

definition child :: "IndexTupleData \<Rightarrow> nat" where
  "child it = ip_blkid (t_tid it)"

fun leaves :: "rpage list \<Rightarrow> nat \<Rightarrow> nat \<Rightarrow> IndexTupleData list" where
  "leaves bs 0 blk = tuples (bs ! blk)"
| "leaves bs (Suc l) blk = concat (map (\<lambda>it. leaves bs l (child it)) (tuples (bs ! blk)))"

fun nodes :: "rpage list \<Rightarrow> nat \<Rightarrow> nat \<Rightarrow> nat list" where
  "nodes bs 0 blk = [blk]"
| "nodes bs (Suc l) blk = blk # concat (map (\<lambda>it. nodes bs l (child it)) (tuples (bs ! blk)))"

text \<open>The page of a node at a level: \<open>sz\<close> is the size of the tuples at the leaves.\<close>

definition leaf_page :: "rpage \<Rightarrow> bool" where
  "leaf_page p \<longleftrightarrow> op_flags (page_opaque p) AND TRTREE_PAGE_LEAF \<noteq> 0"

definition entry_ok :: "Relation \<Rightarrow> nat \<Rightarrow> IndexTupleData \<Rightarrow> bool" where
  "entry_ok rel sz it \<longleftrightarrow> IndexTupleSize it = sz \<and>
     (\<exists>b. rtree_index_tuple_box rel it = Some b \<and> spread_box b)"

definition entry_size :: "nat \<Rightarrow> nat \<Rightarrow> nat" where
  "entry_size sz l = (if l = 0 then sz else 48)"

definition node_page :: "Relation \<Rightarrow> nat \<Rightarrow> nat \<Rightarrow> rpage \<Rightarrow> bool" where
  "node_page rel sz l p \<longleftrightarrow> rpage_ok p \<and> (leaf_page p \<longleftrightarrow> l = 0) \<and> op_level (page_opaque p) = l \<and>
     list_all (entry_ok rel (entry_size sz l)) (tuples p)"

fun wf_tree :: "Relation \<Rightarrow> nat \<Rightarrow> rpage list \<Rightarrow> nat \<Rightarrow> nat \<Rightarrow> bool" where
  "wf_tree rel sz bs 0 blk \<longleftrightarrow> blk < length bs \<and> node_page rel sz 0 (bs ! blk)"
| "wf_tree rel sz bs (Suc l) blk \<longleftrightarrow> blk < length bs \<and> node_page rel sz (Suc l) (bs ! blk) \<and>
     tuples (bs ! blk) \<noteq> [] \<and> list_all (\<lambda>it. wf_tree rel sz bs l (child it)) (tuples (bs ! blk))"

lemma wf_tree_page: "wf_tree rel sz bs l blk \<Longrightarrow> blk < length bs \<and> node_page rel sz l (bs ! blk)"
  by (cases l) auto

lemma root_in_nodes: "blk \<in> set (nodes bs l blk)"
  by (cases l) auto

lemma wf_tree_nodes: "wf_tree rel sz bs l blk \<Longrightarrow> b \<in> set (nodes bs l blk) \<Longrightarrow> b < length bs"
  by (induction l arbitrary: blk) (auto simp: list_all_iff)

text \<open>A tree depends on the tuples of its own pages only, and its well-formedness on nothing else
  but that these pages stay pages of their level.\<close>

lemma tree_frame_tuples:
  assumes "\<forall>b \<in> set (nodes bs l blk). tuples (bs' ! b) = tuples (bs ! b)"
  shows "nodes bs' l blk = nodes bs l blk \<and> leaves bs' l blk = leaves bs l blk"
  using assms
proof (induction l arbitrary: blk)
  case 0
  then show ?case by simp
next
  case (Suc l)
  have blk: "tuples (bs' ! blk) = tuples (bs ! blk)" using Suc.prems by simp
  have "nodes bs' l (child it) = nodes bs l (child it) \<and> leaves bs' l (child it) = leaves bs l (child it)"
    if it: "it \<in> set (tuples (bs ! blk))" for it
  proof (rule Suc.IH)
    have "set (nodes bs l (child it)) \<subseteq> set (nodes bs (Suc l) blk)" using it by auto
    then show "\<forall>b \<in> set (nodes bs l (child it)). tuples (bs' ! b) = tuples (bs ! b)"
      using Suc.prems by blast
  qed
  then show ?case by (simp add: blk cong: map_cong)
qed

lemma wf_tree_frame_pages:
  assumes "wf_tree rel sz bs l blk"
    "\<forall>b \<in> set (nodes bs l blk). \<forall>k. node_page rel sz k (bs ! b) \<longrightarrow>
       b < length bs' \<and> node_page rel sz k (bs' ! b) \<and> tuples (bs' ! b) = tuples (bs ! b)"
  shows "wf_tree rel sz bs' l blk"
  using assms
proof (induction l arbitrary: blk)
  case 0
  have "node_page rel sz 0 (bs ! blk)" using 0(1) by simp
  then show ?case using bspec [OF 0(2), of blk] by simp
next
  case (Suc l)
  have wf: "node_page rel sz (Suc l) (bs ! blk)" "tuples (bs ! blk) \<noteq> []"
      "list_all (\<lambda>it. wf_tree rel sz bs l (child it)) (tuples (bs ! blk))"
    using Suc.prems(1) by simp_all
  have blk: "node_page rel sz (Suc l) (bs' ! blk)" "tuples (bs' ! blk) = tuples (bs ! blk)" "blk < length bs'"
    using bspec [OF Suc.prems(2) root_in_nodes] wf(1) by blast+
  have "wf_tree rel sz bs' l (child it)" if it: "it \<in> set (tuples (bs ! blk))" for it
  proof (rule Suc.IH)
    show "wf_tree rel sz bs l (child it)" using it wf(3) by (simp add: list_all_iff)
    have "set (nodes bs l (child it)) \<subseteq> set (nodes bs (Suc l) blk)" using it by auto
    then show "\<forall>b \<in> set (nodes bs l (child it)). \<forall>k. node_page rel sz k (bs ! b) \<longrightarrow>
        b < length bs' \<and> node_page rel sz k (bs' ! b) \<and> tuples (bs' ! b) = tuples (bs ! b)"
      using Suc.prems(2) by blast
  qed
  then show ?case using wf(2) by (simp add: blk list_all_iff)
qed

lemma tree_frame:
  assumes "\<And>b. b \<in> set (nodes bs l blk) \<Longrightarrow> bs' ! b = bs ! b"
  shows "nodes bs' l blk = nodes bs l blk \<and> leaves bs' l blk = leaves bs l blk"
  by (rule tree_frame_tuples) (simp add: assms)

lemma wf_tree_frame:
  assumes "wf_tree rel sz bs l blk" "\<And>b. b \<in> set (nodes bs l blk) \<Longrightarrow> b < length bs' \<and> bs' ! b = bs ! b"
  shows "wf_tree rel sz bs' l blk"
proof (rule wf_tree_frame_pages [OF assms(1)], intro ballI allI impI)
  fix b k assume "b \<in> set (nodes bs l blk)" "node_page rel sz k (bs ! b)"
  with assms(2) [of b] show "b < length bs' \<and> node_page rel sz k (bs' ! b) \<and> tuples (bs' ! b) = tuples (bs ! b)"
    by simp
qed

section \<open>Children as collections\<close>

definition kid_nodes :: "rpage list \<Rightarrow> nat \<Rightarrow> IndexTupleData list \<Rightarrow> nat list" where
  "kid_nodes bs l ts = concat (map (\<lambda>it. nodes bs l (child it)) ts)"

definition kid_leaves :: "rpage list \<Rightarrow> nat \<Rightarrow> IndexTupleData list \<Rightarrow> IndexTupleData list" where
  "kid_leaves bs l ts = concat (map (\<lambda>it. leaves bs l (child it)) ts)"

lemma mset_concat_map: "mset (concat (map f xs)) = (\<Sum>x\<in>#mset xs. mset (f x))"
  by (induction xs) auto

lemma kid_nodes_mset: "mset ts = mset ts' \<Longrightarrow> mset (kid_nodes bs l ts) = mset (kid_nodes bs l ts')"
  by (simp add: kid_nodes_def mset_concat_map)

lemma kid_leaves_mset: "mset ts = mset ts' \<Longrightarrow> mset (kid_leaves bs l ts) = mset (kid_leaves bs l ts')"
  by (simp add: kid_leaves_def mset_concat_map)

lemma kid_simps [simp]:
  "kid_nodes bs l [] = []" "kid_nodes bs l (t # ts) = nodes bs l (child t) @ kid_nodes bs l ts"
  "kid_nodes bs l (ts @ us) = kid_nodes bs l ts @ kid_nodes bs l us"
  "kid_leaves bs l [] = []" "kid_leaves bs l (t # ts) = leaves bs l (child t) @ kid_leaves bs l ts"
  "kid_leaves bs l (ts @ us) = kid_leaves bs l ts @ kid_leaves bs l us"
  by (simp_all add: kid_nodes_def kid_leaves_def)

lemma node_kids:
  "nodes bs (Suc l) blk = blk # kid_nodes bs l (tuples (bs ! blk))"
  "leaves bs (Suc l) blk = kid_leaves bs l (tuples (bs ! blk))"
  by (simp_all add: kid_nodes_def kid_leaves_def)

lemma set_kid_nodes: "set (kid_nodes bs l ts) = (\<Union>it \<in> set ts. set (nodes bs l (child it)))"
  by (simp add: kid_nodes_def)

lemma kid_frame:
  assumes "\<And>b. b \<in> set (kid_nodes bs l ts) \<Longrightarrow> bs' ! b = bs ! b"
  shows "kid_nodes bs' l ts = kid_nodes bs l ts" "kid_leaves bs' l ts = kid_leaves bs l ts"
proof -
  have "nodes bs' l (child it) = nodes bs l (child it) \<and> leaves bs' l (child it) = leaves bs l (child it)"
    if "it \<in> set ts" for it
    using that assms by (intro tree_frame) (auto simp: set_kid_nodes)
  then show "kid_nodes bs' l ts = kid_nodes bs l ts" "kid_leaves bs' l ts = kid_leaves bs l ts"
    by (auto simp: kid_nodes_def kid_leaves_def cong: map_cong)
qed

section \<open>Entries of a node\<close>

lemma entry_real: "entry_ok rel sz it \<Longrightarrow> 0 < sz \<Longrightarrow> real_itup it"
  by (simp add: entry_ok_def)

lemma entries_space:
  "list_all (entry_ok rel sz) ts \<Longrightarrow> sum_list (map tuple_space ts) = length ts * (MAXALIGN sz + 4)"
  by (induction ts) (auto simp: entry_ok_def tuple_space_def page_consts)

lemma rpage_space:
  "rpage_ok p \<Longrightarrow> sum_list (map tuple_space (tuples p)) + (pd_upper p - pd_lower p) = 8152"
  using page_space [of p] tuples_space [of p] by (simp add: rpage_ok_def page_consts)

lemma mbr_spread:
  assumes "rpage_ok p" "list_all (entry_ok rel sz) (tuples p)" "tuples p \<noteq> []"
  shows "spread_box (rtree_page_mbr rel p leaf)"
proof -
  have all: "list_all spread_box (tuple_boxes rel (tuples p))"
    using assms(2) by (auto simp: list_all_iff set_tuple_boxes entry_ok_def)
  obtain t where t: "t \<in> set (tuples p)" using assms(3) by (cases "tuples p") auto
  then obtain b where "rtree_index_tuple_box rel t = Some b"
    using assms(2) by (auto simp: list_all_iff entry_ok_def)
  with t have "b \<in> set (tuple_boxes rel (tuples p))" by (auto simp: set_tuple_boxes)
  then obtain c cs where "tuple_boxes rel (tuples p) = c # cs" by (cases "tuple_boxes rel (tuples p)") auto
  then show ?thesis using all rtree_page_mbr_eq [OF assms(1)] spread_fold [of c cs] by auto
qed

text \<open>A downlink for a spread box.\<close>

lemma downlink_ok:
  assumes "spread_box b" "llround_env (rd_cenv rel)"
  obtains it where "rtree_form_tuple b tid = Inr it" "t_tid it = tid" "entry_ok rel 48 it"
proof -
  obtain it where it: "rtree_form_tuple b tid = Inr it" "t_tid it = tid"
      "t_key it = Some (rtree_box_to_cube b)" "IndexTupleSize it = 48"
    using rtree_form_tuple_ok [of b tid] spread_not_point [OF assms(1)] by auto
  then have "entry_ok rel 48 it"
    using spread_stored [OF assms] by (simp add: entry_ok_def rtree_index_tuple_box_def index_getattr_def)
  with it that show thesis by blast
qed

end
