(* ===== verification/TR_Split.thy ===== *)
theory TR_Split
  imports TR_Box
begin

text \<open>
  \<^verbatim>\<open>temporal_rtree_split.c\<close>: the normalised penalty, the classification of a page and the two split
  algorithms. The lemmas show that a split always partitions the items of the page, with both
  sides inhabited as soon as there are two items, whatever the penalties are, and that the
  penalty of a well-formed box is a number that is never negative.
\<close>

section \<open>Normalised widths and areas\<close>

definition RTREE_COORD_NORM_TIME_MAX :: f64 where
  "RTREE_COORD_NORM_TIME_MAX = f64_of_int 9223372036854775807"

definition RTREE_COORD_NORM_ATTR_MIN :: f64 where "RTREE_COORD_NORM_ATTR_MIN = F_Fin 1"
definition RTREE_COORD_NORM_ATTR_MAX :: f64 where "RTREE_COORD_NORM_ATTR_MAX = F_Fin 100"

definition normalize_time :: "cenv \<Rightarrow> int \<Rightarrow> f64" where
  "normalize_time ce t =
     (if t < 0 then F_Fin 0
      else if cast_int64 ce RTREE_COORD_NORM_TIME_MAX < t then F_Fin 1
      else f_div (f64_of_int t) RTREE_COORD_NORM_TIME_MAX)"

definition normalize_attr :: "int \<Rightarrow> f64" where
  "normalize_attr a =
     (if a \<le> 1 then F_Fin 0
      else if 100 \<le> a then F_Fin 1
      else f_div (f_sub (f64_of_int a) RTREE_COORD_NORM_ATTR_MIN)
             (f_sub RTREE_COORD_NORM_ATTR_MAX RTREE_COORD_NORM_ATTR_MIN))"

definition width_time_normalized :: "cenv \<Rightarrow> RTreeTemporalBox \<Rightarrow> f64" where
  "width_time_normalized ce b =
     (if box_empty b then F_Fin 0
      else if box_upper_inf b then
        let eff = cast_int64 ce (f_mul RTREE_COORD_NORM_TIME_MAX (f64_lit 9 10));
            eff = (if eff < lower_us b then wrap64 (lower_us b + 1) else eff)
        in normalize_time ce (wrap64 (eff - lower_us b))
      else normalize_time ce (wrap64 (upper_us b - lower_us b)))"

text \<open>
  The argument of \<^verbatim>\<open>normalize_attr\<close> goes through \<^verbatim>\<open>double\<close> and back to \<^verbatim>\<open>int32\<close>, which every
  \<^verbatim>\<open>int32\<close> survives.
\<close>

definition width_attr_normalized :: "RTreeTemporalBox \<Rightarrow> f64" where
  "width_attr_normalized b =
     (if dims b < 2 then F_Fin 0 else normalize_attr (wrap32 (attr_hi b - attr_lo b)))"

definition area_normalized :: "cenv \<Rightarrow> RTreeTemporalBox \<Rightarrow> f64" where
  "area_normalized ce b =
     (let tw = width_time_normalized ce b; aw = width_attr_normalized b in f_mul tw aw)"

record CachedBoxMetadata =
  cached_box :: RTreeTemporalBox
  norm_time_width :: f64
  norm_attr_width :: f64
  norm_area :: f64
  is_current :: bool

definition cache_boxes_metadata :: "cenv \<Rightarrow> RTreeTemporalBox list \<Rightarrow> CachedBoxMetadata list" where
  "cache_boxes_metadata ce items =
     map (\<lambda>b. \<lparr>cached_box = b,
               norm_time_width = width_time_normalized ce b,
               norm_attr_width = width_attr_normalized b,
               norm_area = f_mul (width_time_normalized ce b) (width_attr_normalized b),
               is_current = box_upper_inf b\<rparr>) items"

section \<open>Penalty\<close>

definition tr_penalty_normalized :: "cenv \<Rightarrow> RTreeTemporalBox \<Rightarrow> RTreeTemporalBox \<Rightarrow> f64" where
  "tr_penalty_normalized ce child newb =
     (let ext = tr_union child newb;
          child_area = area_normalized ce child;
          ext_area = area_normalized ce ext;
          area_increase = f_sub ext_area child_area;
          child_current = box_upper_inf child;
          new_current = box_upper_inf newb
      in if child_current \<and> new_current then f_mul area_increase (f64_lit 1 2)
         else if child_current \<noteq> new_current then f_mul area_increase (F_Fin 2)
         else area_increase)"

definition tr_penalty ::
  "cenv \<Rightarrow> RTreeTemporalBox \<Rightarrow> RTreeTemporalBox \<Rightarrow> f64 \<Rightarrow> f64 \<Rightarrow> f64" where
  "tr_penalty ce child newb w_attr w_current = tr_penalty_normalized ce child newb"

section \<open>Page classification\<close>

definition PAGE_TYPE_CURRENT_ONLY :: nat where "PAGE_TYPE_CURRENT_ONLY = 1"
definition PAGE_TYPE_HISTORY_ONLY :: nat where "PAGE_TYPE_HISTORY_ONLY = 2"
definition PAGE_TYPE_MIXED :: nat where "PAGE_TYPE_MIXED = 3"

definition classify_page_type :: "RTreeTemporalBox list \<Rightarrow> nat" where
  "classify_page_type items =
     (let (current_count, history_count) =
        foldl (\<lambda>(c, h) b. if box_upper_inf b then (c + 1, h) else (c, h + 1)) (0 :: nat, 0 :: nat) items
      in if current_count = length items then PAGE_TYPE_CURRENT_ONLY
         else if history_count = length items then PAGE_TYPE_HISTORY_ONLY
         else PAGE_TYPE_MIXED)"

section \<open>The split of a page of current rows\<close>

text \<open>C division: the quotient is truncated towards zero.\<close>

definition cdiv :: "int \<Rightarrow> int \<Rightarrow> int" where
  "cdiv a b = sgn a * sgn b * (\<bar>a\<bar> div \<bar>b\<bar>)"

text \<open>The index lists stand for the two output arrays and their counts.\<close>

definition tr_split_current_only :: "RTreeTemporalBox list \<Rightarrow> nat list \<times> nat list" where
  "tr_split_current_only items =
     (let n = length items;
          l0 = lower_us (items ! 0);
          (min_lower, max_lower, min_idx) =
            foldl (\<lambda>(mn, mx, mi) i.
              let l = lower_us (items ! i);
                  (mn', mi') = (if l < mn then (l, i) else (mn, mi));
                  mx' = (if l > mx then l else mx)
              in (mn', mx', mi')) (l0, l0, 0) [1..<n];
          median = cdiv (wrap64 (min_lower + max_lower)) 2;
          (left, right) =
            foldl (\<lambda>(l, r) i. if lower_us (items ! i) \<le> median then (l @ [i], r) else (l, r @ [i]))
              ([], []) [0..<n]
      in if left = [] then ([min_idx], filter (\<lambda>i. i \<noteq> min_idx) [0..<n])
         else if right = [] then (butlast left, [last left])
         else (left, right))"

section \<open>The linear split\<close>

text \<open>Seed candidates: the positions of the smallest and of the largest key.\<close>

definition time_seeds :: "RTreeTemporalBox list \<Rightarrow> int \<times> int \<times> nat \<times> nat" where
  "time_seeds items =
     foldl (\<lambda>(mn, mx, mi, xi) i.
        let l = lower_us (items ! i);
            (mn', mi') = (if l < mn then (l, i) else (mn, mi));
            (mx', xi') = (if l > mx then (l, i) else (mx, xi))
        in (mn', mx', mi', xi'))
       (lower_us (items ! 0), lower_us (items ! 0), 0, 0) [1..<length items]"

definition attr_seeds :: "RTreeTemporalBox list \<Rightarrow> int \<times> int \<times> nat \<times> nat" where
  "attr_seeds items =
     foldl (\<lambda>(mn, mx, mi, xi) i.
        let (mn', mi') = (if attr_lo (items ! i) < mn then (attr_lo (items ! i), i) else (mn, mi));
            (mx', xi') = (if attr_hi (items ! i) > mx then (attr_hi (items ! i), i) else (mx, xi))
        in (mn', mx', mi', xi'))
       (attr_lo (items ! 0), attr_lo (items ! 0), 0, 0) [1..<length items]"

definition pick_seeds :: "RTreeTemporalBox list \<Rightarrow> nat \<times> nat" where
  "pick_seeds items =
     (let seed1 = 0; seed2 = 1; max_separation = F_Fin 0;
          (min_time, max_time, min_time_idx, max_time_idx) = time_seeds items;
          time_distance = f64_of_int (wrap64 (max_time - min_time));
          (max_separation, seed1, seed2) =
            (if f_gt time_distance max_separation then (time_distance, min_time_idx, max_time_idx)
             else (max_separation, seed1, seed2));
          (min_attr, max_attr, min_attr_idx, max_attr_idx) = attr_seeds items;
          attr_distance = f64_of_int (wrap32 (max_attr - min_attr));
          (seed1, seed2) =
            (if f_gt attr_distance max_separation then (min_attr_idx, max_attr_idx)
             else (seed1, seed2))
      in (seed1, if seed1 = seed2 then (seed1 + 1) mod length items else seed2))"

definition split_step ::
  "cenv \<Rightarrow> RTreeTemporalBox list \<Rightarrow> nat \<Rightarrow> nat \<Rightarrow>
   (nat list \<times> nat list \<times> RTreeTemporalBox \<times> RTreeTemporalBox) \<Rightarrow> nat \<Rightarrow>
   (nat list \<times> nat list \<times> RTreeTemporalBox \<times> RTreeTemporalBox)" where
  "split_step ce items seed1 seed2 st i =
     (case st of (left, right, left_union, right_union) \<Rightarrow>
        if i = seed1 \<or> i = seed2 then st
        else
          let pen_left = tr_penalty_normalized ce left_union (items ! i);
              pen_right = tr_penalty_normalized ce right_union (items ! i)
          in if f_lt pen_left pen_right
             then (left @ [i], right, tr_union left_union (items ! i), right_union)
             else (left, right @ [i], left_union, tr_union right_union (items ! i)))"

definition tr_picksplit :: "cenv \<Rightarrow> RTreeTemporalBox list \<Rightarrow> nat list \<times> nat list" where
  "tr_picksplit ce items =
     (let nitems = length items in
      if nitems = 0 then ([], [])
      else if nitems = 1 then ([0], [])
      else if classify_page_type items = PAGE_TYPE_CURRENT_ONLY then tr_split_current_only items
      else
        let (seed1, seed2) = pick_seeds items;
            (left, right, _, _) =
              foldl (split_step ce items seed1 seed2)
                ([seed1], [seed2], items ! seed1, items ! seed2) [0..<nitems]
        in (left, right))"

section \<open>A split is a partition\<close>

text \<open>What every caller of a split relies on: each index of the page is on exactly one side.\<close>

definition partitions :: "nat \<Rightarrow> nat list \<times> nat list \<Rightarrow> bool" where
  "partitions n lr \<longleftrightarrow> mset (fst lr) + mset (snd lr) = mset [0..<n]"

lemma partitions_set: "partitions n (l, r) \<Longrightarrow> set l \<union> set r = {0..<n}"
  unfolding partitions_def by (drule arg_cong [where f = set_mset]) simp

lemma partitions_distinct: "partitions n (l, r) \<Longrightarrow> distinct l \<and> distinct r \<and> set l \<inter> set r = {}"
proof -
  assume "partitions n (l, r)"
  then have "mset (l @ r) = mset [0..<n]" by (simp add: partitions_def)
  then have "distinct (l @ r)" using mset_eq_imp_distinct_iff [of "l @ r" "[0..<n]"] by simp
  then show ?thesis by simp
qed

lemma partitions_length: "partitions n (l, r) \<Longrightarrow> length l + length r = n"
  unfolding partitions_def by (drule arg_cong [where f = size]) simp

text \<open>Splitting the values of a list by a partition of its indices loses nothing.\<close>

lemma partitions_nth:
  assumes "partitions (length xs) (l, r)"
  shows "mset (map ((!) xs) l) + mset (map ((!) xs) r) = mset xs"
proof -
  have "mset (map ((!) xs) l) + mset (map ((!) xs) r) = image_mset ((!) xs) (mset [0..<length xs])"
    using assms by (simp add: partitions_def flip: image_mset_union)
  also have "\<dots> = mset (map ((!) xs) [0..<length xs])" by simp
  finally show ?thesis unfolding map_nth .
qed

lemma split_fold:
  "mset (fst (foldl (\<lambda>(l, r) i. if P i then (l @ [i], r) else (l, r @ [i])) (l0, r0) xs)) +
   mset (snd (foldl (\<lambda>(l, r) i. if P i then (l @ [i], r) else (l, r @ [i])) (l0, r0) xs)) =
   mset l0 + mset r0 + mset xs"
  by (induction xs arbitrary: l0 r0) auto

lemma min_fold_idx:
  assumes "\<forall>i \<in> set xs. i < n" "mi < n"
  shows "snd (snd (foldl (\<lambda>(mn, mx, mi) i.
              let l = lower_us (items ! i);
                  (mn', mi') = (if l < mn then (l, i) else (mn, mi));
                  mx' = (if l > mx then l else mx)
              in (mn', mx', mi')) (mn, mx, mi) xs)) < n"
  using assms by (induction xs arbitrary: mn mx mi) (auto simp: Let_def)

lemma filter_neq_mset: "i < n \<Longrightarrow> add_mset i (mset (filter (\<lambda>j. j \<noteq> i) [0..<n])) = mset [0..<n]"
proof -
  assume "i < n"
  moreover have "filter (\<lambda>j. j \<noteq> i) [0..<n] = remove1 i [0..<n]"
    by (subst distinct_remove1_removeAll) (auto simp: removeAll_filter_not_eq intro: filter_cong)
  ultimately show ?thesis by simp
qed

lemma tr_split_current_only_partition:
  assumes n: "2 \<le> length items"
  shows "partitions (length items) (tr_split_current_only items)"
    and "fst (tr_split_current_only items) \<noteq> []"
    and "snd (tr_split_current_only items) \<noteq> []"
proof -
  let ?n = "length items"
  obtain mn mx mi where m: "foldl (\<lambda>(mn, mx, mi) i.
              let l = lower_us (items ! i);
                  (mn', mi') = (if l < mn then (l, i) else (mn, mi));
                  mx' = (if l > mx then l else mx)
              in (mn', mx', mi')) (lower_us (items ! 0), lower_us (items ! 0), 0) [1..<?n] = (mn, mx, mi)"
    by (rule prod_cases3)
  have mi: "mi < ?n"
    using min_fold_idx [of "[1..<?n]" ?n 0 items "lower_us (items ! 0)" "lower_us (items ! 0)"] n
    unfolding m by fastforce
  let ?P = "\<lambda>i. lower_us (items ! i) \<le> cdiv (wrap64 (mn + mx)) 2"
  obtain l r where lr: "foldl (\<lambda>(l, r) i. if ?P i then (l @ [i], r) else (l, r @ [i])) ([], []) [0..<?n] = (l, r)"
    by (rule prod.exhaust)
  have part: "mset l + mset r = mset [0..<?n]"
    using split_fold [of ?P "[]" "[]" "[0..<?n]"] lr by simp
  have eq: "tr_split_current_only items =
      (if l = [] then ([mi], filter (\<lambda>i. i \<noteq> mi) [0..<?n])
       else if r = [] then (butlast l, [last l]) else (l, r))"
    unfolding tr_split_current_only_def Let_def m [unfolded Let_def] prod.case lr by simp
  have len: "length l + length r = ?n" using partitions_length [of ?n l r] part by (simp add: partitions_def)
  have bl: "l \<noteq> [] \<Longrightarrow> add_mset (last l) (mset (butlast l)) = mset l"
    by (cases l rule: rev_cases) auto
  have ne: "filter (\<lambda>i. i \<noteq> mi) [0..<?n] \<noteq> []"
  proof -
    have "(if mi = 0 then 1 else 0) \<in> set (filter (\<lambda>i. i \<noteq> mi) [0..<?n])" using n by auto
    then show ?thesis by (metis empty_iff list.set(1))
  qed
  show "partitions ?n (tr_split_current_only items)"
    unfolding eq partitions_def using part bl filter_neq_mset [OF mi]
    by (cases "l = []"; cases "r = []") simp_all
  show "fst (tr_split_current_only items) \<noteq> []"
    unfolding eq using len n by (auto simp: butlast_conv_take)
  show "snd (tr_split_current_only items) \<noteq> []"
    unfolding eq using ne by auto
qed


lemma seed_fold_idx:
  assumes "\<forall>i \<in> set xs. i < n" "mi < n" "xi < n"
  shows "case foldl (\<lambda>(mn, mx, mi, xi) i.
        let (mn', mi') = (if (f i :: int) < mn then (f i, i) else (mn, mi));
            (mx', xi') = (if (g i :: int) > mx then (g i, i) else (mx, xi))
        in (mn', mx', mi', xi')) (mn, mx, mi, xi) xs of (_, _, mi', xi') \<Rightarrow> mi' < n \<and> xi' < n"
  using assms by (induction xs arbitrary: mn mx mi xi) (simp_all add: Let_def)

lemma seeds_idx:
  assumes "0 < length items"
  shows "case time_seeds items of (_, _, mi, xi) \<Rightarrow> mi < length items \<and> xi < length items"
    and "case attr_seeds items of (_, _, mi, xi) \<Rightarrow> mi < length items \<and> xi < length items"
  unfolding time_seeds_def attr_seeds_def Let_def
  using assms by (rule_tac seed_fold_idx [unfolded Let_def]; simp)+

lemma pick_seeds_idx:
  assumes "2 \<le> length items"
  shows "case pick_seeds items of (s1, s2) \<Rightarrow> s1 < length items \<and> s2 < length items \<and> s1 \<noteq> s2"
proof -
  obtain a b c d where t: "time_seeds items = (a, b, c, d)" by (rule prod_cases4)
  obtain a' b' c' d' where t': "attr_seeds items = (a', b', c', d')" by (rule prod_cases4)
  have i: "c < length items" "d < length items" "c' < length items" "d' < length items"
    using seeds_idx [of items] assms unfolding t t' by fastforce+
  have items: "items \<noteq> []" using assms by auto
  have m: "Suc s mod length items < length items \<and> s \<noteq> Suc s mod length items"
    if "s < length items" for s
    using that assms by (cases "Suc s = length items") auto
  show ?thesis
    unfolding pick_seeds_def Let_def t t' prod.case using i m assms items by (simp add: prod.case_eq_if)
qed

lemma split_step_fold:
  assumes "foldl (split_step ce items s1 s2) (l0, r0, ul, ur) xs = (l, r, ul', ur')"
  shows "mset l + mset r = mset l0 + mset r0 + mset (filter (\<lambda>i. i \<noteq> s1 \<and> i \<noteq> s2) xs) \<and>
         (l0 \<noteq> [] \<longrightarrow> l \<noteq> []) \<and> (r0 \<noteq> [] \<longrightarrow> r \<noteq> [])"
  using assms
proof (induction xs arbitrary: l0 r0 ul ur)
  case (Cons x xs)
  obtain l1 r1 ul1 ur1 where st: "split_step ce items s1 s2 (l0, r0, ul, ur) x = (l1, r1, ul1, ur1)"
    by (rule prod_cases4)
  have step: "mset l1 + mset r1 = mset l0 + mset r0 + mset (filter (\<lambda>i. i \<noteq> s1 \<and> i \<noteq> s2) [x])"
    "l0 \<noteq> [] \<Longrightarrow> l1 \<noteq> []" "r0 \<noteq> [] \<Longrightarrow> r1 \<noteq> []"
    using st by (auto simp: split_step_def Let_def split: if_splits)
  have "foldl (split_step ce items s1 s2) (l1, r1, ul1, ur1) xs = (l, r, ul', ur')"
    using Cons.prems st by simp
  from Cons.IH [OF this] show ?case using step by (simp add: ac_simps)
qed simp

lemma filter_neq2_mset:
  assumes "i < n" "j < n" "i \<noteq> j"
  shows "add_mset i (add_mset j (mset (filter (\<lambda>k. k \<noteq> i \<and> k \<noteq> j) [0..<n]))) = mset [0..<n]"
proof -
  have "add_mset j (filter_mset (\<lambda>k. k \<noteq> i \<and> k \<noteq> j) (mset [0..<n])) =
      filter_mset (\<lambda>k. k \<noteq> i) (add_mset j (filter_mset (\<lambda>k. k \<noteq> j) (mset [0..<n])))"
    using assms(3) by (simp add: filter_filter_mset conj_commute conj_left_commute)
  also have "\<dots> = filter_mset (\<lambda>k. k \<noteq> i) (mset [0..<n])"
    using filter_neq_mset [OF assms(2)] by simp
  finally show ?thesis using filter_neq_mset [OF assms(1)] by simp
qed

lemma tr_picksplit_partition:
  "partitions (length items) (tr_picksplit ce items) \<and>
   (2 \<le> length items \<longrightarrow> fst (tr_picksplit ce items) \<noteq> [] \<and> snd (tr_picksplit ce items) \<noteq> [])"
proof (cases "2 \<le> length items \<and> classify_page_type items \<noteq> PAGE_TYPE_CURRENT_ONLY")
  case True
  obtain s1 s2 where s: "pick_seeds items = (s1, s2)" by (rule prod.exhaust)
  have s12: "s1 < length items" "s2 < length items" "s1 \<noteq> s2"
    using pick_seeds_idx [of items] True s by auto
  obtain l r ul ur where f: "foldl (split_step ce items s1 s2) ([s1], [s2], items ! s1, items ! s2)
      [0..<length items] = (l, r, ul, ur)" by (rule prod_cases4)
  have "tr_picksplit ce items = (l, r)" using True s f by (auto simp: tr_picksplit_def Let_def)
  then show ?thesis
    using split_step_fold [OF f] filter_neq2_mset [OF s12] by (simp add: partitions_def add_mset_commute)
next
  case False
  then consider "length items = 0" | "length items = 1"
    | "2 \<le> length items" "classify_page_type items = PAGE_TYPE_CURRENT_ONLY"
    by (cases "length items = 0"; cases "length items = 1") auto
  then show ?thesis
    by cases (use tr_split_current_only_partition [of items] in
      \<open>auto simp: tr_picksplit_def partitions_def Let_def\<close>)
qed

section \<open>The penalty is a number\<close>

text \<open>Two doubles of the unit interval in order.\<close>

definition unit_le :: "f64 \<Rightarrow> f64 \<Rightarrow> bool" where
  "unit_le x y \<longleftrightarrow> (\<exists>a b. x = F_Fin a \<and> y = F_Fin b \<and> 0 \<le> a \<and> a \<le> b \<and> b \<le> 1)"

lemma unit_le_rat: "0 \<le> x \<Longrightarrow> x \<le> y \<Longrightarrow> y \<le> 1 \<Longrightarrow> unit_le (f64_of_rat x) (f64_of_rat y)"
proof -
  assume a: "0 \<le> x" "x \<le> y" "y \<le> 1"
  then have b: "0 \<le> round64 x" "round64 x \<le> round64 y" "round64 y \<le> 1"
    by (auto intro: round64_ge round64_le round64_mono)
  then have r: "f64_of_rat z = F_Fin (round64 z)" if "0 \<le> round64 z" "round64 z \<le> 1" for z
    using that by (auto simp: f64_of_rat_def Let_def)
  show ?thesis using b r [of x] r [of y] by (auto simp: unit_le_def)
qed

lemma unit_le_trivial: "unit_le (F_Fin 0) (F_Fin 0)" "unit_le (F_Fin 0) (F_Fin 1)" "unit_le (F_Fin 1) (F_Fin 1)"
  by (auto simp: unit_le_def)

lemma unit_le_0: "unit_le x y \<Longrightarrow> unit_le (F_Fin 0) y"
  by (auto simp: unit_le_def)

lemma unit_le_1: "unit_le x y \<Longrightarrow> unit_le x (F_Fin 1)"
  by (auto simp: unit_le_def)

lemma unit_le_mul: "unit_le a a' \<Longrightarrow> unit_le b b' \<Longrightarrow> unit_le (f_mul a b) (f_mul a' b')"
  unfolding unit_le_def [of a] unit_le_def [of b]
  by (elim exE conjE) (auto intro!: unit_le_rat mult_mono mult_le_one)

lemma time_quotient:
  assumes "0 \<le> t" "t \<le> t'" "t' \<le> PG_INT64_MAX"
  shows "unit_le (f_div (f64_of_int t) RTREE_COORD_NORM_TIME_MAX)
     (f_div (f64_of_int t') RTREE_COORD_NORM_TIME_MAX)"
proof -
  have M: "round64 (of_int PG_INT64_MAX) = 2 ^ 63"
    using f64_of_int64_max by (auto simp: f64_of_int_def f64_of_rat_def Let_def split: if_splits)
  have r: "0 \<le> round64 (of_int t)" "round64 (of_int t) \<le> round64 (of_int t')"
    "round64 (of_int t') \<le> 2 ^ 63"
    using assms M round64_mono [of "of_int t'" "of_int PG_INT64_MAX"]
    by (auto intro: round64_ge round64_mono)
  then have i: "f64_of_int t = F_Fin (round64 (of_int t))" "f64_of_int t' = F_Fin (round64 (of_int t'))"
    by (auto simp: f64_of_int_def f64_of_rat_def Let_def)
  have N: "RTREE_COORD_NORM_TIME_MAX = F_Fin (2 ^ 63)"
    using f64_of_int64_max by (simp add: RTREE_COORD_NORM_TIME_MAX_def PG_INT64_MAX_def)
  show ?thesis unfolding i N using r by (auto intro!: unit_le_rat divide_right_mono)
qed

lemma normalize_time_unit:
  assumes "t \<le> t'" "t' \<le> PG_INT64_MAX"
  shows "unit_le (normalize_time ce t) (normalize_time ce t')"
proof -
  note q = time_quotient
  show ?thesis
    using assms q [of t t'] q [of t' t'] q [of t t]
    by (auto simp: normalize_time_def unit_le_trivial intro: unit_le_0 unit_le_1)
qed

lemma normalize_attr_unit: "a \<le> a' \<Longrightarrow> unit_le (normalize_attr a) (normalize_attr a')"
proof -
  assume aa: "a \<le> a'"
  have n: "f_div (f_sub (f64_of_int c) RTREE_COORD_NORM_ATTR_MIN)
       (f_sub RTREE_COORD_NORM_ATTR_MAX RTREE_COORD_NORM_ATTR_MIN) = f64_of_rat ((of_int c - 1) / 99)"
    if "1 < c" "c < 100" for c
  proof -
    have "f_sub (f64_of_int c) (F_Fin 1) = F_Fin (of_int c - 1)"
      using that f64_of_int_exact [of c] f64_of_int_exact [of "c - 1"]
      by (simp add: f_sub_def f64_of_int_def)
    moreover have "f_sub (F_Fin 100) (F_Fin 1) = F_Fin 99"
      using f64_of_int_exact [of 99] by (simp add: f_sub_def f64_of_int_def)
    ultimately show ?thesis by (simp add: RTREE_COORD_NORM_ATTR_MIN_def RTREE_COORD_NORM_ATTR_MAX_def)
  qed
  have q: "unit_le (f64_of_rat ((of_int c - 1) / 99)) (f64_of_rat ((of_int c' - 1) / 99))"
    if "1 < c" "c \<le> c'" "c' < 100" for c c'
    using that by (auto intro!: unit_le_rat divide_right_mono)
  show ?thesis
    using aa q [of a a'] q [of a a] q [of a' a']
    by (auto simp: normalize_attr_def n unit_le_trivial intro: unit_le_0 unit_le_1)
qed

text \<open>The bound that stands for \<open>\<infinity>\<close> in the width of a current row.\<close>

lemma effective_upper:
  "2 ^ 62 \<le> cast_int64 ce (f_mul RTREE_COORD_NORM_TIME_MAX (f64_lit 9 10))"
  "cast_int64 ce (f_mul RTREE_COORD_NORM_TIME_MAX (f64_lit 9 10)) \<le> 15 * 2 ^ 59"
proof -
  have N: "RTREE_COORD_NORM_TIME_MAX = F_Fin (2 ^ 63)"
    using f64_of_int64_max by (simp add: RTREE_COORD_NORM_TIME_MAX_def PG_INT64_MAX_def)
  have half: "representable (1 / 2)" "representable (15 / 16)"
    unfolding representable_def
    by (rule exI [of _ 1], rule exI [of _ "-1"], simp add: pow2_def)
      (rule exI [of _ 15], rule exI [of _ "-4"], simp add: pow2_def)
  obtain v where v: "f64_lit 9 10 = F_Fin v" "1 / 2 \<le> v" "v \<le> 15 / 16"
    unfolding f64_lit_def by (rule f64_of_rat_bounded [OF half, of "of_int 9 / of_int 10"]) auto
  have big: "representable (2 ^ 62)" "representable (15 * 2 ^ 59)"
    unfolding representable_def
    by (rule exI [of _ 1], rule exI [of _ 62], simp add: pow2_def)
      (rule exI [of _ 15], rule exI [of _ 59], simp add: pow2_def)
  obtain w where w: "f64_of_rat (2 ^ 63 * v) = F_Fin w" "2 ^ 62 \<le> w" "w \<le> 15 * 2 ^ 59"
    by (rule f64_of_rat_bounded [OF big, of "2 ^ 63 * v"]) (use v in auto)
  have f: "2 ^ 62 \<le> \<lfloor>w\<rfloor>" "\<lfloor>w\<rfloor> \<le> 15 * 2 ^ 59"
    using w(2,3) by (simp_all add: le_floor_iff floor_le_iff)
  then have "cast_int64 ce (F_Fin w) = \<lfloor>w\<rfloor>"
    using w(2) by (simp add: cast_int64_def trunc_rat_def int_range_64 PG_INT64_MIN_def PG_INT64_MAX_def)
  then show "2 ^ 62 \<le> cast_int64 ce (f_mul RTREE_COORD_NORM_TIME_MAX (f64_lit 9 10))"
    "cast_int64 ce (f_mul RTREE_COORD_NORM_TIME_MAX (f64_lit 9 10)) \<le> 15 * 2 ^ 59"
    unfolding N v(1) f_mul.simps w(1) using f by simp_all
qed

text \<open>A box whose measures stay clear of 64-bit overflow.\<close>

definition measured_box :: "RTreeTemporalBox \<Rightarrow> bool" where
  "measured_box b \<longleftrightarrow> nonempty_box b \<and> dims b = 2 \<and> lower_us b \<le> upper_us b \<and>
     \<bar>lower_us b\<bar> \<le> 2 ^ 53 \<and> (box_upper_inf b \<or> upper_us b \<le> 2 ^ 53) \<and>
     - (2 ^ 30) \<le> attr_lo b \<and> attr_lo b \<le> attr_hi b \<and> attr_hi b < 2 ^ 30"

lemma measured_union: "measured_box a \<Longrightarrow> measured_box b \<Longrightarrow> measured_box (tr_union a b)"
  by (auto simp: measured_box_def tr_union_fields)

lemma area_mono:
  assumes "measured_box a" "measured_box b" "rtree_box_contains b a"
    "box_upper_inf a \<longrightarrow> box_upper_inf b"
  shows "unit_le (area_normalized ce a) (area_normalized ce b)"
proof -
  let ?e = "cast_int64 ce (f_mul RTREE_COORD_NORM_TIME_MAX (f64_lit 9 10))"
  note e = effective_upper [of ce]
  have w: "wrap64 (?e - lower_us x) = ?e - lower_us x" "\<not> ?e < lower_us x"
      "\<not> box_upper_inf x \<Longrightarrow> wrap64 (upper_us x - lower_us x) = upper_us x - lower_us x"
      "wrap32 (attr_hi x - attr_lo x) = attr_hi x - attr_lo x"
    if "measured_box x" for x
    using that e by (auto simp: measured_box_def int_range_64 int_range_32 PG_INT64_MIN_def
        PG_INT64_MAX_def intro!: wrap64_id wrap32_id)
  have t: "unit_le (width_time_normalized ce a) (width_time_normalized ce b)"
    using assms w [of a] w [of b] e
    by (auto simp: width_time_normalized_def Let_def measured_box_def rtree_box_contains_def
        PG_INT64_MAX_def intro!: normalize_time_unit)
  have "unit_le (width_attr_normalized a) (width_attr_normalized b)"
    using assms w(4) [of a] w(4) [of b]
    by (auto simp: width_attr_normalized_def measured_box_def rtree_box_contains_def
        intro!: normalize_attr_unit)
  with t show ?thesis unfolding area_normalized_def Let_def by (rule unit_le_mul)
qed

lemma area_union_contained:
  assumes "measured_box a" "measured_box b" "rtree_box_contains a b" "box_upper_inf b \<longrightarrow> box_upper_inf a"
  shows "area_normalized ce (tr_union a b) = area_normalized ce a"
proof -
  have "lower_us (tr_union a b) = lower_us a" "attr_lo (tr_union a b) = attr_lo a"
    "attr_hi (tr_union a b) = attr_hi a" "dims (tr_union a b) = dims a"
    "\<not> box_empty (tr_union a b)" "\<not> box_empty a"
    "box_upper_inf (tr_union a b) = box_upper_inf a" "upper_us (tr_union a b) = upper_us a"
    using assms by (auto simp: measured_box_def rtree_box_contains_def tr_union_fields)
  then show ?thesis
    unfolding area_normalized_def width_time_normalized_def width_attr_normalized_def Let_def by simp
qed

lemma f_half: "f64_lit 1 2 = F_Fin (1 / 2)"
proof -
  have "representable (1 / 2)" using representable_pow2 [of "- 1"] by (simp add: pow2_def)
  then show ?thesis unfolding f64_lit_def by (simp add: f64_of_rat_exact)
qed

lemma f_zero: "f64_of_rat 0 = F_Fin 0"
  by (rule f64_of_rat_exact) simp_all

lemma f64_unit:
  assumes "0 \<le> x" "x \<le> 1"
  obtains v where "f64_of_rat x = F_Fin v" "0 \<le> v" "v \<le> 1" "x = 0 \<Longrightarrow> v = 0"
proof -
  obtain v where v: "f64_of_rat x = F_Fin v" "0 \<le> v" "v \<le> 1"
    using unit_le_rat [of x x] assms by (auto simp: unit_le_def)
  then show thesis using that f_zero by (cases "x = 0") auto
qed

text \<open>The penalty of adding a measured box to a measured box is a finite number between 0 and
  2, whatever the C environment does with the out-of-range cast, and it is 0 when the
  box already contains the new one and does not become a box of current rows.\<close>

lemma penalty_bounds:
  assumes "measured_box child" "measured_box newb"
  shows "\<exists>p. tr_penalty ce child newb w_attr w_current = F_Fin p \<and> 0 \<le> p \<and> p \<le> 2 \<and>
    (rtree_box_contains child newb \<and> (box_upper_inf newb \<longrightarrow> box_upper_inf child) \<longrightarrow> p = 0)"
proof -
  let ?ext = "tr_union child newb"
  have ne: "nonempty_box child" "nonempty_box newb" using assms by (auto simp: measured_box_def)
  have "unit_le (area_normalized ce child) (area_normalized ce ?ext)"
    using assms ne measured_union tbox.un_upper1 [OF ne] by (intro area_mono) (auto simp: tr_union_fields)
  then obtain c e where ce: "area_normalized ce child = F_Fin c" "area_normalized ce ?ext = F_Fin e"
      "0 \<le> c" "c \<le> e" "e \<le> 1"
    by (auto simp: unit_le_def)
  obtain d where d: "f_sub (F_Fin e) (F_Fin c) = F_Fin d" "0 \<le> d" "d \<le> 1" "e = c \<Longrightarrow> d = 0"
    by (rule f64_unit [of "e - c"]) (use ce(3-5) in \<open>auto simp: f_sub_def\<close>)
  obtain h where h: "f64_of_rat (d * (1 / 2)) = F_Fin h" "0 \<le> h" "h \<le> 2" "d = 0 \<Longrightarrow> h = 0"
    by (rule f64_unit [of "d * (1 / 2)"]) (use d in auto)
  have two: "representable 2" using representable_int [of 2] by simp
  obtain m where m: "f64_of_rat (d * 2) = F_Fin m" "0 \<le> m" "m \<le> 2"
    by (rule f64_of_rat_bounded [OF representable_0 two, of "d * 2"]) (use d in auto)
  have m0: "d = 0 \<Longrightarrow> m = 0" using m f_zero by auto
  have "rtree_box_contains child newb \<Longrightarrow> box_upper_inf newb \<longrightarrow> box_upper_inf child \<Longrightarrow> e = c"
    using area_union_contained [OF assms, of ce] ce by simp
  then show ?thesis
    using d h m m0 by (auto simp: tr_penalty_def tr_penalty_normalized_def Let_def ce f_half)
qed

text \<open>C15. A split always partitions the positions of the page, and puts at least one item on each
  side as soon as there are two: no penalty, overflow or rounding can lose or duplicate one.\<close>

theorem picksplit_is_partition:
  "case tr_picksplit ce items of (left, right) \<Rightarrow>
     distinct (left @ right) \<and> set (left @ right) = {0..<length items} \<and>
     (2 \<le> length items \<longrightarrow> left \<noteq> [] \<and> right \<noteq> [])"
proof -
  obtain l r where lr: "tr_picksplit ce items = (l, r)" by (rule prod.exhaust)
  then show ?thesis
    using tr_picksplit_partition [of items ce] partitions_set [of "length items" l r]
      partitions_distinct [of "length items" l r] by auto
qed

lemma penalty_bounds_example:
  "\<exists>p. tr_penalty x86_env current_box row_box (F_Fin 1) (F_Fin 1) = F_Fin p \<and> 0 \<le> p \<and> p \<le> 2 \<and> p = 0"
proof -
  have "measured_box current_box" "measured_box row_box" "rtree_box_contains current_box row_box"
    "\<not> box_upper_inf row_box"
    by (simp_all add: measured_box_def current_box_def row_box_def box_flag_bits rtree_box_contains_def
        PG_INT64_MAX_def)
  then show ?thesis
    using penalty_bounds [of current_box row_box x86_env "F_Fin 1" "F_Fin 1"] by auto
qed

theorem picksplit_is_partition_witness:
  "case tr_picksplit x86_env [row_box, current_box, row_box] of (left, right) \<Rightarrow>
     distinct (left @ right) \<and> set (left @ right) = {0, 1, 2} \<and> left \<noteq> [] \<and> right \<noteq> []"
  using picksplit_is_partition [of "[row_box, current_box, row_box]" x86_env]
  by (auto split: prod.splits)

end
