(* ===== verification/TR_Insert.thy ===== *)
theory TR_Insert
  imports TR_Tree TR_Split
begin

text \<open>
  \<^verbatim>\<open>temporal_rtree_build.c\<close> (creation of the meta page and the root) and \<^verbatim>\<open>temporal_rtree_insert.c\<close>:
  choice of the subtree, insertion into a leaf, page split, propagation to the parent and
  promotion of the root.
\<close>

section \<open>Creation of an empty index\<close>

definition rtree_meta_and_root_init :: "Relation \<Rightarrow> unit op" where
  "rtree_meta_and_root_init rel =
     bindC ReadBufferNew (\<lambda>metabuf.
     bindC ReadBufferNew (\<lambda>rootbuf.
     bindC (put_page metabuf (rtree_init_metapage rootbuf 0)) (\<lambda>_.
     bindC (put_page rootbuf (rtree_init_datapage (TRTREE_PAGE_LEAF OR TRTREE_PAGE_ROOT) 0)) (\<lambda>_.
     bindC (MarkBufferDirty metabuf) (\<lambda>_.
     bindC (MarkBufferDirty rootbuf) (\<lambda>_.
     bindC (UnlockReleaseBuffer rootbuf) (\<lambda>_.
     UnlockReleaseBuffer metabuf)))))))"

definition temporal_rtree_buildempty :: "Relation \<Rightarrow> unit op" where
  "temporal_rtree_buildempty rel = rtree_meta_and_root_init rel"

section \<open>Choice of the subtree\<close>

definition DBL_MAX :: f64 where "DBL_MAX = F_Fin ((2 ^ 53 - 1) * 2 ^ 971)"

definition choose_step ::
  "Relation \<Rightarrow> RTreeTemporalBox \<Rightarrow> nat \<times> f64 \<Rightarrow> nat \<times> IndexTupleData \<Rightarrow> nat \<times> f64" where
  "choose_step rel newbox best ent =
     (case best of (best_child, best_penalty) \<Rightarrow> case ent of (off, it) \<Rightarrow>
        let child_blkno = ip_blkid (t_tid it) in
        case rtree_index_tuple_box rel it of
          None \<Rightarrow> (best_child, best_penalty)
        | Some child_box \<Rightarrow>
            let penalty = tr_penalty_normalized (rd_cenv rel) child_box newbox;
                penalty = (if box_upper_inf child_box = box_upper_inf newbox
                           then f_mul penalty (f64_lit 8 10) else f_mul penalty (f64_lit 12 10))
            in if f_lt penalty best_penalty then (child_blkno, penalty) else (best_child, best_penalty))"

definition choose_subtree_insert :: "Relation \<Rightarrow> rpage \<Rightarrow> RTreeTemporalBox \<Rightarrow> nat" where
  "choose_subtree_insert rel page newbox =
     (let best_child = fst (foldl (choose_step rel newbox) (InvalidBlockNumber, DBL_MAX)
            (used_tuples rel page))
      in if best_child = InvalidBlockNumber \<and> PageGetMaxOffsetNumber page \<ge> FirstOffsetNumber
         then ip_blkid (t_tid (page_itup rel page FirstOffsetNumber))
         else best_child)"

section \<open>Page helpers\<close>

record RTreeInsertResult =
  res_split :: bool
  right_blkno :: nat
  left_box :: RTreeTemporalBox
  right_box :: RTreeTemporalBox

text \<open>A result without a split: the code leaves the right-hand fields uninitialised and no caller
  reads them.\<close>

definition no_split :: "RTreeTemporalBox \<Rightarrow> RTreeInsertResult" where
  "no_split b = \<lparr>res_split = False, right_blkno = 0, left_box = b, right_box = zero_box\<rparr>"

definition rtree_page_tuple_box :: "Relation \<Rightarrow> rpage \<Rightarrow> nat \<Rightarrow> RTreeTemporalBox" where
  "rtree_page_tuple_box rel page offnum =
     (case rtree_index_tuple_box rel (page_itup rel page offnum) of None \<Rightarrow> zero_box | Some b \<Rightarrow> b)"

definition rtree_replace_tuple :: "nat \<Rightarrow> nat \<Rightarrow> IndexTupleData \<Rightarrow> unit op" where
  "rtree_replace_tuple buf offnum it =
     bindC (BufferGetPage buf) (\<lambda>page.
     bindC (liftE (PageIndexTupleDelete page offnum)) (\<lambda>page.
     bindC (put_page buf page) (\<lambda>_.
     bindC (BufferAddItem buf it offnum) (\<lambda>off.
     if off = InvalidOffsetNumber then raise ReplaceFailed else ret ()))))"

definition rtree_page_collect :: "Relation \<Rightarrow> rpage \<Rightarrow> (IndexTupleData \<times> RTreeTemporalBox) list" where
  "rtree_page_collect rel page =
     map (\<lambda>(off, it). (CopyIndexTuple it, rtree_page_tuple_box rel page off)) (used_tuples rel page)"

section \<open>Page split\<close>

text \<open>The loops that fill the two pages do not look at the result of \<^verbatim>\<open>PageAddItem\<close>.\<close>

definition add_all :: "nat \<Rightarrow> IndexTupleData list \<Rightarrow> unit op" where
  "add_all buf its = foldC (\<lambda>_ it. bindC (BufferAddItem buf it InvalidOffsetNumber) (\<lambda>_. ret ())) () its"

text \<open>The local arrays have \<^verbatim>\<open>MaxHeapTuplesPerPage + 1\<close> entries: writing beyond them is an error of
  the model.\<close>

definition rtree_split_page ::
  "Relation \<Rightarrow> nat \<Rightarrow> IndexTupleData \<Rightarrow> RTreeTemporalBox \<Rightarrow> nat \<Rightarrow> 16 word \<Rightarrow> RTreeInsertResult op" where
  "rtree_split_page rel buf newitup newbox lvl flags =
     bindC (BufferGetPage buf) (\<lambda>page.
     let opaque = page_opaque page;
         old_rightlink = rightlink opaque;
         was_root = op_flags opaque AND TRTREE_PAGE_ROOT \<noteq> 0;
         child_flags = flags AND NOT TRTREE_PAGE_ROOT;
         entries = rtree_page_collect rel page @ [(newitup, newbox)];
         items = map fst entries;
         (left_idxs, right_idxs) = tr_picksplit (rd_cenv rel) (map snd entries)
     in if length entries > MaxHeapTuplesPerPage + 1 then raise ArrayOverrun
     else
     bindC ReadBufferNew (\<lambda>rightbuf.
     let lpage = rtree_init_datapage child_flags lvl;
         rpage = rtree_init_datapage child_flags lvl;
         rpage = set_opaque ((page_opaque rpage)\<lparr>rightlink := old_rightlink\<rparr>) rpage;
         lopaque = (page_opaque lpage)\<lparr>rightlink := rightbuf\<rparr>;
         lopaque = (if was_root then lopaque\<lparr>op_flags := op_flags lopaque AND NOT TRTREE_PAGE_ROOT\<rparr>
                    else lopaque)
     in
     bindC (put_page buf (set_opaque lopaque lpage)) (\<lambda>_.
     bindC (put_page rightbuf rpage) (\<lambda>_.
     bindC (add_all buf (map ((!) items) left_idxs)) (\<lambda>_.
     bindC (add_all rightbuf (map ((!) items) right_idxs)) (\<lambda>_.
     bindC (MarkBufferDirty buf) (\<lambda>_.
     bindC (MarkBufferDirty rightbuf) (\<lambda>_.
     bindC (if RelationNeedsWAL rel then rtree_wal_split rel buf rightbuf else ret ()) (\<lambda>_.
     bindC (BufferGetPage buf) (\<lambda>lpage.
     bindC (BufferGetPage rightbuf) (\<lambda>rpage.
     bindC (UnlockReleaseBuffer rightbuf) (\<lambda>_.
     ret \<lparr>res_split = True, right_blkno = rightbuf,
          left_box = rtree_page_mbr rel lpage (lvl = 0),
          right_box = rtree_page_mbr rel rpage (lvl = 0)\<rparr>))))))))))))"

section \<open>Insertion\<close>

definition rtree_insert_leaf ::
  "Relation \<Rightarrow> nat \<Rightarrow> IndexTupleData \<Rightarrow> RTreeTemporalBox \<Rightarrow> RTreeInsertResult op" where
  "rtree_insert_leaf rel buf itup box =
     bindC (BufferGetPage buf) (\<lambda>page.
     let opaque = page_opaque page in
     if PageGetFreeSpace page \<ge> MAXALIGN (IndexTupleSize itup) + sizeof_ItemIdData then
       bindC (BufferAddItem buf itup InvalidOffsetNumber) (\<lambda>offnum.
       if offnum = InvalidOffsetNumber
       then rtree_split_page rel buf itup box (op_level opaque) (op_flags opaque)
       else
       bindC (MarkBufferDirty buf) (\<lambda>_.
       bindC (if RelationNeedsWAL rel then rtree_wal_insert rel buf else ret ()) (\<lambda>_.
       bindC (BufferGetPage buf) (\<lambda>page.
       ret (no_split (rtree_page_mbr rel page True))))))
     else rtree_split_page rel buf itup box (op_level opaque) (op_flags opaque))"

text \<open>The offset of the first downlink to a block.\<close>

definition find_child :: "Relation \<Rightarrow> rpage \<Rightarrow> nat \<Rightarrow> nat" where
  "find_child rel page childblk =
     (case find (\<lambda>(off, it). ip_blkid (t_tid it) = childblk) (used_tuples rel page) of
        None \<Rightarrow> InvalidOffsetNumber | Some (off, it) \<Rightarrow> off)"

text \<open>The end of \<^verbatim>\<open>rtree_insert_page\<close> when the inner page is not split, and the part of it after the
  recursive call.\<close>

definition insert_finish :: "Relation \<Rightarrow> nat \<Rightarrow> RTreeInsertResult op" where
  "insert_finish rel buf =
     bindC (MarkBufferDirty buf) (\<lambda>_.
     bindC (if RelationNeedsWAL rel then rtree_wal_insert rel buf else ret ()) (\<lambda>_.
     bindC (BufferGetPage buf) (\<lambda>page.
     bindC (UnlockReleaseBuffer buf) (\<lambda>_.
     ret (no_split (rtree_page_mbr rel page False))))))"

definition insert_right ::
  "Relation \<Rightarrow> nat \<Rightarrow> nat \<Rightarrow> RTreeTemporalBox \<Rightarrow> IndexTupleData \<Rightarrow> RTreeInsertResult op" where
  "insert_right rel buf lvl rbox righttuple =
     bindC (BufferGetPage buf) (\<lambda>page.
     if PageGetFreeSpace page < MAXALIGN (IndexTupleSize righttuple) + sizeof_ItemIdData then
       bindC (rtree_split_page rel buf righttuple rbox lvl (op_flags (page_opaque page))) (\<lambda>result.
       bindC (UnlockReleaseBuffer buf) (\<lambda>_. ret result))
     else bindC (BufferAddItem buf righttuple InvalidOffsetNumber) (\<lambda>_. insert_finish rel buf))"

definition insert_after_child ::
  "Relation \<Rightarrow> nat \<Rightarrow> nat \<Rightarrow> nat \<Rightarrow> RTreeInsertResult \<Rightarrow> RTreeInsertResult op" where
  "insert_after_child rel buf lvl bestoff childres =
     bindC (BufferGetPage buf) (\<lambda>page.
     bindC (liftE (rtree_form_tuple (left_box childres) (t_tid (page_itup rel page bestoff)))) (\<lambda>updated.
     bindC (rtree_replace_tuple buf bestoff updated) (\<lambda>_.
     if res_split childres then
       bindC (liftE (rtree_form_tuple (right_box childres)
                \<lparr>ip_blkid = right_blkno childres, ip_posid = FirstOffsetNumber\<rparr>)) (\<lambda>righttuple.
       insert_right rel buf lvl (right_box childres) righttuple)
     else insert_finish rel buf)))"

fun rtree_insert_page ::
  "Relation \<Rightarrow> nat \<Rightarrow> nat \<Rightarrow> IndexTupleData \<Rightarrow> RTreeTemporalBox \<Rightarrow> RTreeInsertResult op" where
  "rtree_insert_page rel 0 blkno itup box =
     bindC (ReadBuffer blkno) (\<lambda>buf.
     bindC (LockBuffer buf True) (\<lambda>_.
     bindC (rtree_insert_leaf rel buf itup box) (\<lambda>result.
     bindC (UnlockReleaseBuffer buf) (\<lambda>_. ret result))))"
| "rtree_insert_page rel (Suc l) blkno itup box =
     bindC (ReadBuffer blkno) (\<lambda>buf.
     bindC (LockBuffer buf True) (\<lambda>_.
     bindC (BufferGetPage buf) (\<lambda>page.
     if op_flags (page_opaque page) AND TRTREE_PAGE_LEAF \<noteq> 0 then
       bindC (rtree_insert_leaf rel buf itup box) (\<lambda>result.
       bindC (UnlockReleaseBuffer buf) (\<lambda>_. ret result))
     else
       let childblk = choose_subtree_insert rel page box in
       if \<not> BlockNumberIsValid childblk then
         bindC (UnlockReleaseBuffer buf) (\<lambda>_. raise NoDownlinks)
       else
         let bestoff = find_child rel page childblk in
         if bestoff = InvalidOffsetNumber then
           bindC (UnlockReleaseBuffer buf) (\<lambda>_. raise ChildNotOnPage)
         else
           bindC (rtree_insert_page rel l childblk itup box) (\<lambda>childres.
           insert_after_child rel buf (Suc l) bestoff childres))))"

definition rtree_root_promote :: "Relation \<Rightarrow> nat \<Rightarrow> RTreeInsertResult \<Rightarrow> nat \<Rightarrow> nat op" where
  "rtree_root_promote rel leftblk split old_level =
     bindC (ReadBuffer leftblk) (\<lambda>leftbuf.
     bindC (LockBuffer leftbuf True) (\<lambda>_.
     bindC ReadBufferNew (\<lambda>rootbuf.
     bindC (liftE (rtree_form_tuple (left_box split)
              \<lparr>ip_blkid = leftbuf, ip_posid = FirstOffsetNumber\<rparr>)) (\<lambda>lefttuple.
     bindC (liftE (rtree_form_tuple (right_box split)
              \<lparr>ip_blkid = right_blkno split, ip_posid = FirstOffsetNumber\<rparr>)) (\<lambda>righttuple.
     bindC (put_page rootbuf (rtree_init_datapage TRTREE_PAGE_ROOT (old_level + 1))) (\<lambda>_.
     bindC (BufferAddItem rootbuf lefttuple InvalidOffsetNumber) (\<lambda>_.
     bindC (BufferAddItem rootbuf righttuple InvalidOffsetNumber) (\<lambda>_.
     bindC (MarkBufferDirty rootbuf) (\<lambda>_.
     bindC (BufferGetPage leftbuf) (\<lambda>leftpage.
     bindC (put_page leftbuf (set_opaque ((page_opaque leftpage)\<lparr>op_flags :=
              op_flags (page_opaque leftpage) AND NOT TRTREE_PAGE_ROOT\<rparr>) leftpage)) (\<lambda>_.
     bindC (MarkBufferDirty leftbuf) (\<lambda>_.
     bindC (UnlockReleaseBuffer rootbuf) (\<lambda>_.
     bindC (UnlockReleaseBuffer leftbuf) (\<lambda>_.
     ret rootbuf))))))))))))))"

text \<open>The end of \<^verbatim>\<open>temporal_rtree_insert\<close> when the root was split.\<close>

definition insert_promote :: "Relation \<Rightarrow> nat \<Rightarrow> nat \<Rightarrow> RTreeInsertResult \<Rightarrow> bool op" where
  "insert_promote rel rootblk rootlevel result =
     bindC (rtree_root_promote rel rootblk result rootlevel) (\<lambda>new_rootblk.
     bindC (ReadBuffer 0) (\<lambda>metabuf.
     bindC (LockBuffer metabuf True) (\<lambda>_.
     bindC (BufferGetPage metabuf) (\<lambda>metapage.
     bindC (put_page metabuf (set_meta ((page_meta metapage)\<lparr>meta_root := new_rootblk,
              root_level := rootlevel + 1\<rparr>) metapage)) (\<lambda>_.
     bindC (MarkBufferDirty metabuf) (\<lambda>_.
     bindC (UnlockReleaseBuffer metabuf) (\<lambda>_.
     ret True)))))))"

definition temporal_rtree_insert :: "Relation \<Rightarrow> NDBOX option \<Rightarrow> ItemPointerData \<Rightarrow> bool op" where
  "temporal_rtree_insert rel value ht_ctid =
     bindC RelationGetNumberOfBlocks (\<lambda>nblocks.
     bindC (if nblocks < 2 then temporal_rtree_buildempty rel else ret ()) (\<lambda>_.
     bindC (liftE (index_form_tuple value)) (\<lambda>itup.
     let itup = itup\<lparr>t_tid := ht_ctid\<rparr> in
     case rtree_index_tuple_box rel itup of
       None \<Rightarrow> ret True
     | Some box \<Rightarrow>
       bindC (ReadBuffer 0) (\<lambda>metabuf.
       bindC (LockBuffer metabuf False) (\<lambda>_.
       bindC (BufferGetPage metabuf) (\<lambda>metapage.
       let meta = page_meta metapage in
       if magic meta \<noteq> TRTREE_META_MAGIC then raise MissingMetaPage
       else
       let rootblk = meta_root meta; rootlevel = root_level meta in
       bindC (UnlockBuffer metabuf) (\<lambda>_.
       bindC (ReleaseBuffer metabuf) (\<lambda>_.
       bindC (rtree_insert_page rel rootlevel rootblk itup box) (\<lambda>result.
       if res_split result then insert_promote rel rootblk rootlevel result
       else ret True)))))))))"

section \<open>Filling a page\<close>

lemma add_all_ok:
  assumes "blk < length (blocks s)" "rpage_ok (blocks s ! blk)" "list_all real_itup its"
    "sum_list (map tuple_space (tuples (blocks s ! blk))) + sum_list (map tuple_space its) \<le> 8152"
  shows "\<exists>p. add_all blk its s = (Inr (), s\<lparr>blocks := (blocks s)[blk := p]\<rparr>) \<and> rpage_ok p \<and>
    tuples p = tuples (blocks s ! blk) @ its \<and> pd_opaque p = pd_opaque (blocks s ! blk)"
  using assms
proof (induction its arbitrary: s)
  case Nil
  then show ?case by (intro exI [of _ "blocks s ! blk"]) (simp add: add_all_def)
next
  case (Cons it its)
  obtain p where p: "BufferAddItem blk it InvalidOffsetNumber s =
      (Inr (Suc (length (tuples (blocks s ! blk)))), s\<lparr>blocks := (blocks s)[blk := p]\<rparr>)"
      "rpage_ok p" "tuples p = tuples (blocks s ! blk) @ [it]" "pd_opaque p = pd_opaque (blocks s ! blk)"
    using BufferAddItem_fits [of blk s it] Cons.prems by auto
  let ?s = "s\<lparr>blocks := (blocks s)[blk := p]\<rparr>"
  have "\<exists>q. add_all blk its ?s = (Inr (), ?s\<lparr>blocks := (blocks ?s)[blk := q]\<rparr>) \<and> rpage_ok q \<and>
      tuples q = tuples (blocks ?s ! blk) @ its \<and> pd_opaque q = pd_opaque (blocks ?s ! blk)"
    using Cons.prems p by (intro Cons.IH) simp_all
  then obtain q where "add_all blk its ?s = (Inr (), ?s\<lparr>blocks := (blocks ?s)[blk := q]\<rparr>)" "rpage_ok q"
      "tuples q = tuples p @ its" "pd_opaque q = pd_opaque p"
    using Cons.prems(1) by auto
  then show ?case
    using p by (intro exI [of _ q]) (simp add: add_all_def bindC_def)
qed

section \<open>Page split\<close>

text \<open>
  A split distributes the tuples of the page and the new one over the old block and a new block at the end
  of the relation.
\<close>

lemma collect_ok:
  assumes "rpage_ok p" "list_all (entry_ok rel sz) (tuples p)"
  shows "map fst (rtree_page_collect rel p) = tuples p" "length (rtree_page_collect rel p) = length (tuples p)"
proof -
  have "map fst (rtree_page_collect rel p) = map snd (used_tuples rel p)"
    by (simp add: rtree_page_collect_def CopyIndexTuple_def comp_def case_prod_unfold)
  then show 1: "map fst (rtree_page_collect rel p) = tuples p" using used_tuples_ok [OF assms(1)] by simp
  show "length (rtree_page_collect rel p) = length (tuples p)" by (metis 1 length_map)
qed

lemma split_entries:
  assumes pg: "rpage_ok p" "list_all (entry_ok rel sz) (tuples p)" "tuples p \<noteq> []"
    and new: "entry_ok rel sz it" and sz: "24 \<le> sz"
    and lr: "tr_picksplit ce (map snd (rtree_page_collect rel p @ [(it, box)])) = (li, ri)"
    and lts: "lts = map ((!) (map fst (rtree_page_collect rel p @ [(it, box)]))) li"
    and rts: "rts = map ((!) (map fst (rtree_page_collect rel p @ [(it, box)]))) ri"
  shows "mset lts + mset rts = add_mset it (mset (tuples p))" "lts \<noteq> []" "rts \<noteq> []"
    "list_all (entry_ok rel sz) lts" "list_all (entry_ok rel sz) rts"
    "sum_list (map tuple_space lts) \<le> 8152" "sum_list (map tuple_space rts) \<le> 8152"
    "length (rtree_page_collect rel p @ [(it, box)]) \<le> MaxHeapTuplesPerPage + 1"
proof -
  let ?ent = "rtree_page_collect rel p @ [(it, box)]" and ?ts = "tuples p @ [it]"
  have items: "map fst ?ent = ?ts" and n: "length ?ent = length ?ts"
    using collect_ok [OF pg(1,2)] by simp_all
  have n2: "2 \<le> length (map snd ?ent)" using n pg(3) by (cases "tuples p") auto
  have part: "partitions (length ?ts) (li, ri)" "li \<noteq> []" "ri \<noteq> []"
    using tr_picksplit_partition [of "map snd ?ent" ce] lr n n2 by auto
  have ms: "mset lts + mset rts = mset ?ts"
    unfolding lts rts items by (rule partitions_nth) (use part in simp)
  show 1: "mset lts + mset rts = add_mset it (mset (tuples p))" using ms by simp
  show ne: "lts \<noteq> []" "rts \<noteq> []" using part by (simp_all add: lts rts)
  have "set lts \<subseteq> set ?ts" "set rts \<subseteq> set ?ts"
    using ms by (metis Un_upper1 Un_upper2 set_mset_mset set_mset_union)+
  then show all: "list_all (entry_ok rel sz) lts" "list_all (entry_ok rel sz) rts"
    using pg(2) new by (auto simp: list_all_iff)
  have len: "length lts + length rts = Suc (length (tuples p))"
    using arg_cong [OF 1, of size] by simp
  have room: "length (tuples p) * (MAXALIGN sz + 4) \<le> 8152"
    using rpage_space [OF pg(1)] entries_space [OF pg(2)] by linarith
  have "28 \<le> MAXALIGN sz + 4" using sz MAXALIGN_ge [of sz] by linarith
  then have "length (tuples p) * 28 \<le> length (tuples p) * (MAXALIGN sz + 4)" by (rule mult_le_mono2)
  then have "length (tuples p) * 28 \<le> 8152" using room by linarith
  then show "length ?ent \<le> MaxHeapTuplesPerPage + 1" using n by (simp add: MaxHeapTuplesPerPage_def)
  have "length lts \<le> length (tuples p)" "length rts \<le> length (tuples p)"
    using len ne by (auto simp: neq_Nil_conv)
  then have "length lts * (MAXALIGN sz + 4) \<le> 8152" "length rts * (MAXALIGN sz + 4) \<le> 8152"
    using room mult_le_mono1 [of _ "length (tuples p)" "MAXALIGN sz + 4"] by (meson order_trans)+
  then show "sum_list (map tuple_space lts) \<le> 8152" "sum_list (map tuple_space rts) \<le> 8152"
    using entries_space [OF all(1)] entries_space [OF all(2)] by simp_all
qed

text \<open>The last steps of a split: filling the two initialised pages, logging and unlocking.\<close>

definition split_fill :: "Relation \<Rightarrow> nat \<Rightarrow> nat \<Rightarrow> IndexTupleData list \<Rightarrow> IndexTupleData list \<Rightarrow> nat \<Rightarrow> RTreeInsertResult op" where
  "split_fill rel buf rightbuf lts rts lvl =
     bindC (add_all buf lts) (\<lambda>_.
     bindC (add_all rightbuf rts) (\<lambda>_.
     bindC (MarkBufferDirty buf) (\<lambda>_.
     bindC (MarkBufferDirty rightbuf) (\<lambda>_.
     bindC (if RelationNeedsWAL rel then rtree_wal_split rel buf rightbuf else ret ()) (\<lambda>_.
     bindC (BufferGetPage buf) (\<lambda>lpage.
     bindC (BufferGetPage rightbuf) (\<lambda>rpage.
     bindC (UnlockReleaseBuffer rightbuf) (\<lambda>_.
     ret \<lparr>res_split = True, right_blkno = rightbuf,
          left_box = rtree_page_mbr rel lpage (lvl = 0),
          right_box = rtree_page_mbr rel rpage (lvl = 0)\<rparr>))))))))"

lemma split_fill_ok:
  assumes b: "blocks s = bs @ [R0]" "rb = length bs" "buf < length bs"
    and pg: "rpage_ok (bs ! buf)" "tuples (bs ! buf) = []" "rpage_ok R0" "tuples R0 = []"
    and ts: "lts \<noteq> []" "rts \<noteq> []" "list_all (entry_ok rel sz) lts" "list_all (entry_ok rel sz) rts"
      "sum_list (map tuple_space lts) \<le> 8152" "sum_list (map tuple_space rts) \<le> 8152" "0 < sz"
  shows "\<exists>res s' L R. split_fill rel buf rb lts rts lvl s = (Inr res, s') \<and>
    blocks s' = bs[buf := L] @ [R] \<and> held s' = drop_lock rb (held s) \<and> pins s' = remove1 rb (pins s) \<and>
    res_split res \<and> right_blkno res = rb \<and> spread_box (left_box res) \<and> spread_box (right_box res) \<and>
    rpage_ok L \<and> rpage_ok R \<and> tuples L = lts \<and> tuples R = rts \<and>
    pd_opaque L = pd_opaque (bs ! buf) \<and> pd_opaque R = pd_opaque R0"
proof -
  have real: "list_all real_itup lts" "list_all real_itup rts"
    using ts by (auto simp: list_all_iff entry_ok_def)
  obtain L where L: "add_all buf lts s = (Inr (), s\<lparr>blocks := (blocks s)[buf := L]\<rparr>)" "rpage_ok L"
      "tuples L = lts" "pd_opaque L = pd_opaque (bs ! buf)"
    using add_all_ok [of buf s lts] b pg ts real by (auto simp: nth_append)
  let ?s1 = "s\<lparr>blocks := (blocks s)[buf := L]\<rparr>"
  have bs1: "blocks ?s1 = bs[buf := L] @ [R0]" using b by (simp add: list_update_append)
  obtain R where R: "add_all rb rts ?s1 = (Inr (), ?s1\<lparr>blocks := (blocks ?s1)[rb := R]\<rparr>)" "rpage_ok R"
      "tuples R = rts" "pd_opaque R = pd_opaque R0"
    using add_all_ok [of rb ?s1 rts] b pg ts real by (auto simp: nth_append list_update_append)
  let ?s2 = "s\<lparr>blocks := bs[buf := L] @ [R], dirty := insert rb (insert buf (dirty s))\<rparr>"
  have bs2: "bs[buf := L] ! buf = L" using b(3) by simp
  obtain s3 where s3: "(if RelationNeedsWAL rel then rtree_wal_split rel buf rb else ret ()) ?s2 = (Inr (), s3)"
      "blocks s3 = bs[buf := logged rel L] @ [logged rel R]" "held s3 = held s" "pins s3 = pins s"
    using wal_two_fields [of buf rb rel ?s2] b(2,3) by (auto simp: nth_append list_update_append)
  have s12: "?s1\<lparr>blocks := (blocks ?s1)[rb := R]\<rparr> = s\<lparr>blocks := bs[buf := L] @ [R]\<rparr>"
    using bs1 b(2) by (simp add: list_update_append)
  let ?res = "\<lparr>res_split = True, right_blkno = rb, left_box = rtree_page_mbr rel (logged rel L) (lvl = 0),
          right_box = rtree_page_mbr rel (logged rel R) (lvl = 0)\<rparr>"
  have g: "blocks s3 ! buf = logged rel L" "blocks s3 ! rb = logged rel R"
    using s3(2) b(2,3) by (auto simp: nth_append)
  have "split_fill rel buf rb lts rts lvl s =
      (Inr ?res, s3\<lparr>held := drop_lock rb (held s3), pins := remove1 rb (pins s3)\<rparr>)"
    using L(1) R(1) [unfolded s12] s3(1) g
    by (simp add: split_fill_def MarkBufferDirty_run BufferGetPage_run UnlockReleaseBuffer_run bindC_def)
  moreover have "spread_box (left_box ?res)" "spread_box (right_box ?res)"
    using L R ts by (auto intro!: mbr_spread)
  ultimately show ?thesis using s3 L R by auto
qed

lemma split_page_ok:
  assumes buf: "buf < length (blocks s)" "length (blocks s) + 1 < MaxBlockNumber"
    and pg: "rpage_ok (blocks s ! buf)" "list_all (entry_ok rel sz) (tuples (blocks s ! buf))"
      "tuples (blocks s ! buf) \<noteq> []"
    and new: "entry_ok rel sz it" and sz: "24 \<le> sz"
  shows "\<exists>res s' L R. rtree_split_page rel buf it box lvl flags s = (Inr res, s') \<and>
    blocks s' = (blocks s)[buf := L] @ [R] \<and> held s' = held s \<and> pins s' = pins s \<and>
    res_split res \<and> right_blkno res = length (blocks s) \<and> spread_box (left_box res) \<and> spread_box (right_box res) \<and>
    rpage_ok L \<and> rpage_ok R \<and> tuples L \<noteq> [] \<and> tuples R \<noteq> [] \<and>
    mset (tuples L @ tuples R) = add_mset it (mset (tuples (blocks s ! buf))) \<and>
    op_flags (page_opaque L) = flags AND NOT TRTREE_PAGE_ROOT \<and>
    op_flags (page_opaque R) = flags AND NOT TRTREE_PAGE_ROOT \<and>
    op_level (page_opaque L) = lvl mod 2 ^ 16 \<and> op_level (page_opaque R) = lvl mod 2 ^ 16"
proof -
  let ?p = "blocks s ! buf" and ?r = "length (blocks s)"
  let ?ent = "rtree_page_collect rel ?p @ [(it, box)]"
  obtain li ri where lr: "tr_picksplit (rd_cenv rel) (map snd ?ent) = (li, ri)" by (rule prod.exhaust)
  define lts where "lts = map ((!) (map fst ?ent)) li"
  define rts where "rts = map ((!) (map fst ?ent)) ri"
  note e = split_entries [OF pg new sz lr lts_def rts_def]
  define cf where "cf = flags AND NOT TRTREE_PAGE_ROOT"
  define R0 where "R0 = set_opaque ((page_opaque (rtree_init_datapage cf lvl))\<lparr>rightlink := rightlink (page_opaque ?p)\<rparr>)
    (rtree_init_datapage cf lvl)"
  define lop where "lop = (if op_flags (page_opaque ?p) AND TRTREE_PAGE_ROOT \<noteq> 0
    then (page_opaque (rtree_init_datapage cf lvl))\<lparr>rightlink := ?r,
      op_flags := op_flags (page_opaque (rtree_init_datapage cf lvl)) AND NOT TRTREE_PAGE_ROOT\<rparr>
    else (page_opaque (rtree_init_datapage cf lvl))\<lparr>rightlink := ?r\<rparr>)"
  define L0 where "L0 = set_opaque lop (rtree_init_datapage cf lvl)"
  have L0: "rpage_ok L0" "tuples L0 = []" "op_flags (page_opaque L0) = cf" "op_level (page_opaque L0) = lvl mod 2 ^ 16"
    by (simp_all add: L0_def lop_def init_datapage_ok cf_def and.assoc)
  have R0: "rpage_ok R0" "tuples R0 = []" "op_flags (page_opaque R0) = cf" "op_level (page_opaque R0) = lvl mod 2 ^ 16"
    by (simp_all add: R0_def init_datapage_ok)
  define s1 where "s1 = s\<lparr>pins := ?r # pins s, held := (?r, True) # held s, blocks := (blocks s)[buf := L0] @ [R0]\<rparr>"
  have run: "rtree_split_page rel buf it box lvl flags s = split_fill rel buf ?r lts rts lvl s1"
    using lr e(8) buf
    by (simp add: rtree_split_page_def split_fill_def Let_def BufferGetPage_run ReadBufferNew_run put_page_run
        bindC_def s1_def lts_def rts_def L0_def R0_def lop_def cf_def list_update_append)
  have b: "blocks s1 = (blocks s)[buf := L0] @ [R0]" "?r = length ((blocks s)[buf := L0])"
      "buf < length ((blocks s)[buf := L0])" "rpage_ok ((blocks s)[buf := L0] ! buf)"
      "tuples ((blocks s)[buf := L0] ! buf) = []" "0 < sz"
    using buf L0 sz by (simp_all add: s1_def)
  from split_fill_ok [OF b(1-5) R0(1,2) e(2-7) b(6), of lvl]
  obtain res s' L R where f: "split_fill rel buf ?r lts rts lvl s1 = (Inr res, s')"
      "blocks s' = (blocks s)[buf := L0, buf := L] @ [R]" "held s' = drop_lock ?r (held s1)" "pins s' = remove1 ?r (pins s1)"
      "res_split res" "right_blkno res = ?r" "spread_box (left_box res)" "spread_box (right_box res)"
      "rpage_ok L" "rpage_ok R" "tuples L = lts" "tuples R = rts"
      "pd_opaque L = pd_opaque ((blocks s)[buf := L0] ! buf)" "pd_opaque R = pd_opaque R0"
    by (elim exE conjE)
  have o: "page_opaque L = page_opaque L0" "page_opaque R = page_opaque R0"
    using f(13,14) buf by (simp_all add: page_opaque_def)
  show ?thesis
    unfolding run
    by (rule exI [of _ res], rule exI [of _ s'], rule exI [of _ L], rule exI [of _ R])
      (use f e(1-3) o L0 R0 in \<open>simp add: s1_def cf_def\<close>)
qed

section \<open>Changes to one node\<close>

text \<open>
  What an insertion does to the page of one node at level \<open>l\<close>: either the page is replaced by one
  with the entries \<open>M\<close>, or the entries are distributed over the page and a new block at the end.
\<close>

definition page_step ::
  "Relation \<Rightarrow> nat \<Rightarrow> nat \<Rightarrow> rpage list \<Rightarrow> rpage list \<Rightarrow> nat \<Rightarrow> RTreeInsertResult \<Rightarrow> IndexTupleData multiset \<Rightarrow> bool" where
  "page_step rel sz l bs bs' buf res M \<longleftrightarrow> spread_box (left_box res) \<and>
     (if res_split res
      then spread_box (right_box res) \<and> right_blkno res = length bs \<and>
        (\<exists>L R. bs' = bs[buf := L] @ [R] \<and> node_page rel sz l L \<and> node_page rel sz l R \<and>
           tuples L \<noteq> [] \<and> tuples R \<noteq> [] \<and> mset (tuples L) + mset (tuples R) = M)
      else \<exists>P. bs' = bs[buf := P] \<and> node_page rel sz l P \<and> tuples P \<noteq> [] \<and> mset (tuples P) = M)"

lemma leaf_flag_cleared:
  "op_flags (page_opaque q) = op_flags (page_opaque p) AND NOT TRTREE_PAGE_ROOT \<Longrightarrow> leaf_page q = leaf_page p"
  unfolding leaf_page_def TRTREE_PAGE_LEAF_def TRTREE_PAGE_ROOT_def and_flag0
  by (simp add: bit_and_iff bit_not_iff)

lemma node_pageI:
  assumes "rpage_ok q" "leaf_page q = (l = 0)" "op_level (page_opaque q) = l"
    "list_all (entry_ok rel (entry_size sz l)) ts" "set (tuples q) \<subseteq> set ts"
  shows "node_page rel sz l q"
  using assms by (auto simp: node_page_def list_all_iff)

lemma op_level_small: "op_level (page_opaque p) < 2 ^ 16"
  by (simp add: page_opaque_def opaque_view_def)

lemma split_step:
  assumes buf: "buf < length (blocks s)" "length (blocks s) + 1 < MaxBlockNumber"
    and pg: "node_page rel sz l (blocks s ! buf)" "tuples (blocks s ! buf) \<noteq> []"
    and new: "entry_ok rel (entry_size sz l) it" and sz: "24 \<le> sz"
  shows "\<exists>res s'. rtree_split_page rel buf it box l (op_flags (page_opaque (blocks s ! buf))) s = (Inr res, s') \<and>
    held s' = held s \<and> pins s' = pins s \<and>
    page_step rel sz l (blocks s) (blocks s') buf res (add_mset it (mset (tuples (blocks s ! buf))))"
proof -
  let ?p = "blocks s ! buf"
  have p: "rpage_ok ?p" "list_all (entry_ok rel (entry_size sz l)) (tuples ?p)" "leaf_page ?p = (l = 0)"
      "op_level (page_opaque ?p) = l"
    using pg by (auto simp: node_page_def)
  have sz': "24 \<le> entry_size sz l" using sz by (simp add: entry_size_def)
  from split_page_ok [OF buf p(1,2) pg(2) new sz', of box l "op_flags (page_opaque ?p)"]
  obtain res s' L R where r: "rtree_split_page rel buf it box l (op_flags (page_opaque ?p)) s = (Inr res, s')"
      "blocks s' = (blocks s)[buf := L] @ [R]" "held s' = held s" "pins s' = pins s" "res_split res"
      "right_blkno res = length (blocks s)" "spread_box (left_box res)" "spread_box (right_box res)"
      "rpage_ok L" "rpage_ok R" "tuples L \<noteq> []" "tuples R \<noteq> []"
      "mset (tuples L @ tuples R) = add_mset it (mset (tuples ?p))"
      "op_flags (page_opaque L) = op_flags (page_opaque ?p) AND NOT TRTREE_PAGE_ROOT"
      "op_flags (page_opaque R) = op_flags (page_opaque ?p) AND NOT TRTREE_PAGE_ROOT"
      "op_level (page_opaque L) = l mod 2 ^ 16" "op_level (page_opaque R) = l mod 2 ^ 16"
    by (elim exE conjE)
  have "set (tuples L @ tuples R) = set (it # tuples ?p)"
    using r(13) by (metis mset.simps(2) set_mset_mset)
  then have sub: "set (tuples L) \<subseteq> set (it # tuples ?p)" "set (tuples R) \<subseteq> set (it # tuples ?p)" by auto
  have lv: "l mod 2 ^ 16 = l" using op_level_small [of ?p] p(4) by simp
  have "node_page rel sz l L" "node_page rel sz l R"
    using r(9,10,16,17) lv p(2,3) new sub leaf_flag_cleared [OF r(14)] leaf_flag_cleared [OF r(15)]
    by (auto intro!: node_pageI [where ts = "it # tuples ?p"])
  with r show ?thesis
    by (intro exI [of _ res] exI [of _ s']) (auto simp: page_step_def)
qed

lemma node_page_logged: "node_page rel sz l p \<Longrightarrow> node_page rel sz l (logged rel p)"
  by (auto simp: node_page_def leaf_page_def)

lemma leaf_room:
  assumes "rpage_ok p" "real_itup it" "PageGetFreeSpace p \<ge> MAXALIGN (IndexTupleSize it) + sizeof_ItemIdData"
  shows "sum_list (map tuple_space (tuples p)) + tuple_space it \<le> 8152"
proof -
  have "tuple_space it \<le> pd_upper p - pd_lower p"
    using assms(3) by (simp add: PageGetFreeSpace_def Let_def tuple_space_def page_consts split: if_splits)
  then show ?thesis using rpage_space [OF assms(1)] by linarith
qed

lemma empty_page_room:
  assumes "rpage_ok p" "tuples p = []" "MAXALIGN n \<le> 8000"
  shows "PageGetFreeSpace p \<ge> MAXALIGN n + sizeof_ItemIdData"
proof -
  have "pd_upper p - pd_lower p = 8152" using rpage_space [OF assms(1)] assms(2) by simp
  then show ?thesis using assms(3) by (auto simp: PageGetFreeSpace_def Let_def page_consts)
qed

lemma insert_leaf_step:
  assumes buf: "buf < length (blocks s)" "length (blocks s) + 1 < MaxBlockNumber"
    and pg: "node_page rel sz 0 (blocks s ! buf)" and new: "entry_ok rel sz it"
    and sz: "24 \<le> sz" "MAXALIGN sz \<le> 8000"
  shows "\<exists>res s'. rtree_insert_leaf rel buf it box s = (Inr res, s') \<and> held s' = held s \<and> pins s' = pins s \<and>
    page_step rel sz 0 (blocks s) (blocks s') buf res (add_mset it (mset (tuples (blocks s ! buf))))"
proof -
  let ?p = "blocks s ! buf"
  have p: "rpage_ok ?p" "list_all (entry_ok rel sz) (tuples ?p)" "leaf_page ?p" "op_level (page_opaque ?p) = 0"
    using pg by (auto simp: node_page_def entry_size_def)
  have real: "real_itup it" "IndexTupleSize it = sz" using new sz by (auto simp: entry_ok_def)
  show ?thesis
  proof (cases "PageGetFreeSpace ?p \<ge> MAXALIGN (IndexTupleSize it) + sizeof_ItemIdData")
    case False
    then have ne: "tuples ?p \<noteq> []" using empty_page_room [OF p(1), of sz] sz real by auto
    have "rtree_insert_leaf rel buf it box s =
        rtree_split_page rel buf it box 0 (op_flags (page_opaque ?p)) s"
      using False p(4) by (simp add: rtree_insert_leaf_def BufferGetPage_run bindC_def Let_def)
    then show ?thesis
      using split_step [OF buf pg ne _ sz(1), of it box] new by (simp add: entry_size_def)
  next
    case True
    obtain q where q: "BufferAddItem buf it InvalidOffsetNumber s =
        (Inr (Suc (length (tuples ?p))), s\<lparr>blocks := (blocks s)[buf := q]\<rparr>)"
        "rpage_ok q" "tuples q = tuples ?p @ [it]" "pd_opaque q = pd_opaque ?p"
      by (rule BufferAddItem_fits [OF buf(1) p(1) real(1) leaf_room [OF p(1) real(1) True]])
    let ?s1 = "s\<lparr>blocks := (blocks s)[buf := q], dirty := insert buf (dirty s)\<rparr>"
    obtain s2 where s2: "(if RelationNeedsWAL rel then rtree_wal_insert rel buf else ret ()) ?s1 = (Inr (), s2)"
        "blocks s2 = (blocks s)[buf := logged rel q]" "held s2 = held s" "pins s2 = pins s"
      using wal_one_fields [of rel buf ?s1] buf(1) unfolding rtree_wal_insert_def by auto
    have g: "blocks s2 ! buf = logged rel q" using s2(2) buf(1) by simp
    have run: "rtree_insert_leaf rel buf it box s = (Inr (no_split (rtree_page_mbr rel (logged rel q) True)), s2)"
      using True q(1) s2(1) g
      by (simp add: rtree_insert_leaf_def BufferGetPage_run bindC_def Let_def MarkBufferDirty_run page_consts)
    have node: "node_page rel sz 0 (logged rel q)"
      using q p new by (intro node_page_logged node_pageI [where ts = "tuples q"])
        (auto simp: leaf_page_def page_opaque_def entry_size_def)
    then have "spread_box (rtree_page_mbr rel (logged rel q) True)"
      using q(2,3) by (intro mbr_spread) (auto simp: node_page_def)
    with run s2 q node show ?thesis
      by (auto simp: page_step_def no_split_def)
  qed
qed

section \<open>Changes to a tree\<close>

definition roots :: "nat \<Rightarrow> RTreeInsertResult \<Rightarrow> nat list" where
  "roots blk res = blk # (if res_split res then [right_blkno res] else [])"

abbreviation forest_nodes :: "rpage list \<Rightarrow> nat \<Rightarrow> nat list \<Rightarrow> nat list" where
  "forest_nodes bs l rs \<equiv> concat (map (nodes bs l) rs)"

abbreviation forest_leaves :: "rpage list \<Rightarrow> nat \<Rightarrow> nat list \<Rightarrow> IndexTupleData list" where
  "forest_leaves bs l rs \<equiv> concat (map (leaves bs l) rs)"

text \<open>
  What an insertion does to the tree at \<open>blk\<close>: the tree, or the two trees after a split, hold one more tuple,
  use blocks of the old tree and new blocks only, and every other block is as before.
\<close>

definition ins_post ::
  "Relation \<Rightarrow> nat \<Rightarrow> nat \<Rightarrow> rpage list \<Rightarrow> rpage list \<Rightarrow> nat \<Rightarrow> RTreeInsertResult \<Rightarrow> IndexTupleData \<Rightarrow> bool" where
  "ins_post rel sz l bs bs' blk res it \<longleftrightarrow>
     length bs \<le> length bs' \<and> length bs' \<le> length bs + Suc l \<and>
     (\<forall>b < length bs. b \<notin> set (nodes bs l blk) \<longrightarrow> bs' ! b = bs ! b) \<and>
     list_all (wf_tree rel sz bs' l) (roots blk res) \<and>
     distinct (forest_nodes bs' l (roots blk res)) \<and>
     set (forest_nodes bs' l (roots blk res)) \<subseteq> set (nodes bs l blk) \<union> {length bs..<length bs'} \<and>
     mset (forest_leaves bs' l (roots blk res)) = add_mset it (mset (leaves bs l blk)) \<and>
     spread_box (left_box res) \<and> (res_split res \<longrightarrow> spread_box (right_box res))"

lemma ins_post_leaf:
  assumes "page_step rel sz 0 bs bs' blk res (add_mset it (mset (tuples (bs ! blk))))" "blk < length bs"
  shows "ins_post rel sz 0 bs bs' blk res it"
  using assms
  by (auto simp: page_step_def ins_post_def roots_def nth_append nth_list_update split: if_splits)

text \<open>The pages at the top after a change to one node.\<close>

lemma page_step_tops:
  assumes "page_step rel sz (Suc l) bs bs' blk res (mset kt)" "blk < length bs"
    "\<And>b. b \<in> set (kid_nodes bs l kt) \<Longrightarrow> b < length bs \<and> b \<noteq> blk"
  shows "length bs \<le> length bs'" "length bs' \<le> Suc (length bs)"
    "\<And>b. b < length bs \<Longrightarrow> b \<noteq> blk \<Longrightarrow> bs' ! b = bs ! b"
    "set (roots blk res) \<subseteq> insert blk {length bs..<length bs'}" "distinct (roots blk res)"
    "mset (forest_nodes bs' (Suc l) (roots blk res)) = mset (roots blk res @ kid_nodes bs l kt)"
    "mset (forest_leaves bs' (Suc l) (roots blk res)) = mset (kid_leaves bs l kt)"
    "\<And>b. b \<in> set (roots blk res) \<Longrightarrow> b < length bs' \<and> node_page rel sz (Suc l) (bs' ! b) \<and>
       tuples (bs' ! b) \<noteq> [] \<and> set (tuples (bs' ! b)) \<subseteq> set kt"
proof -
  show len: "length bs \<le> length bs'" "length bs' \<le> Suc (length bs)"
    and fr: "\<And>b. b < length bs \<Longrightarrow> b \<noteq> blk \<Longrightarrow> bs' ! b = bs ! b"
    and "set (roots blk res) \<subseteq> insert blk {length bs..<length bs'}" "distinct (roots blk res)"
    using assms(1,2) by (auto simp: page_step_def roots_def nth_append split: if_splits)
  have kf: "kid_nodes bs' l kt = kid_nodes bs l kt" "kid_leaves bs' l kt = kid_leaves bs l kt"
    using assms(3) fr by (intro kid_frame; blast)+
  have tops: "(\<Sum>b\<leftarrow>roots blk res. mset (tuples (bs' ! b))) = mset kt"
    and pg: "\<And>b. b \<in> set (roots blk res) \<Longrightarrow> b < length bs' \<and> node_page rel sz (Suc l) (bs' ! b) \<and>
       tuples (bs' ! b) \<noteq> []"
    using assms(1,2) by (auto simp: page_step_def roots_def nth_append split: if_splits)
  have cat: "mset (concat (map (\<lambda>b. tuples (bs' ! b)) (roots blk res))) = mset kt"
    using tops by (simp add: roots_def split: if_splits)
  have kids: "mset (kid_nodes bs' l (concat (map (\<lambda>b. tuples (bs' ! b)) (roots blk res)))) = mset (kid_nodes bs l kt)"
    "mset (kid_leaves bs' l (concat (map (\<lambda>b. tuples (bs' ! b)) (roots blk res)))) = mset (kid_leaves bs l kt)"
    using kid_nodes_mset [OF cat] kid_leaves_mset [OF cat] kf by metis+
  show "mset (forest_nodes bs' (Suc l) (roots blk res)) = mset (roots blk res @ kid_nodes bs l kt)"
    using kids(1) by (auto simp: roots_def node_kids simp del: nodes.simps split: if_splits)
  show "mset (forest_leaves bs' (Suc l) (roots blk res)) = mset (kid_leaves bs l kt)"
    using kids(2) by (auto simp: roots_def node_kids simp del: leaves.simps split: if_splits)
  have "set (tuples (bs' ! b)) \<subseteq> set kt" if "b \<in> set (roots blk res)" for b
    using that arg_cong [OF cat, of set_mset] by auto
  then show "\<And>b. b \<in> set (roots blk res) \<Longrightarrow> b < length bs' \<and> node_page rel sz (Suc l) (bs' ! b) \<and>
       tuples (bs' ! b) \<noteq> [] \<and> set (tuples (bs' ! b)) \<subseteq> set kt"
    using pg by blast
qed

text \<open>The downlinks of the trees a child has become.\<close>

definition downlinks :: "IndexTupleData list \<Rightarrow> nat list \<Rightarrow> bool" where
  "downlinks us rs \<longleftrightarrow> map child us = rs"

lemma downlinks_kids:
  "downlinks us rs \<Longrightarrow> kid_nodes bs l us = forest_nodes bs l rs"
  "downlinks us rs \<Longrightarrow> kid_leaves bs l us = forest_leaves bs l rs"
  by (auto simp: downlinks_def kid_nodes_def kid_leaves_def comp_def)

text \<open>The children of a node after an insertion into one of them.\<close>

lemma kids_after_insert:
  assumes wf: "wf_tree rel sz bs (Suc l) blk" "distinct (nodes bs (Suc l) blk)"
    and ts: "tuples (bs ! blk) = xs @ t # ys"
    and ch: "ins_post rel sz l bs bs1 (child t) cres it"
    and us: "downlinks us (roots (child t) cres)"
  shows "kid_nodes bs1 l ((xs @ ys) @ us) = kid_nodes bs l (xs @ ys) @ forest_nodes bs1 l (roots (child t) cres)"
    "kid_leaves bs1 l ((xs @ ys) @ us) = kid_leaves bs l (xs @ ys) @ forest_leaves bs1 l (roots (child t) cres)"
    "\<And>b. b \<in> set (kid_nodes bs1 l ((xs @ ys) @ us)) \<Longrightarrow> b < length bs1 \<and> b \<noteq> blk"
    "distinct (kid_nodes bs1 l ((xs @ ys) @ us))"
    "set (kid_nodes bs1 l ((xs @ ys) @ us)) \<subseteq> set (nodes bs (Suc l) blk) \<union> {length bs..<length bs1}"
    "\<And>i. i \<in> set ((xs @ ys) @ us) \<Longrightarrow> wf_tree rel sz bs1 l (child i)"
proof -
  let ?sib = "xs @ ys" and ?c = "child t"
  have c: "length bs \<le> length bs1"
      "\<And>b. b < length bs \<Longrightarrow> b \<notin> set (nodes bs l ?c) \<Longrightarrow> bs1 ! b = bs ! b"
      "list_all (wf_tree rel sz bs1 l) (roots ?c cres)" "distinct (forest_nodes bs1 l (roots ?c cres))"
      "set (forest_nodes bs1 l (roots ?c cres)) \<subseteq> set (nodes bs l ?c) \<union> {length bs..<length bs1}"
    using ch by (auto simp: ins_post_def)
  have dist: "distinct (blk # kid_nodes bs l xs @ nodes bs l ?c @ kid_nodes bs l ys)"
    and ns: "set (nodes bs (Suc l) blk) = insert blk (set (kid_nodes bs l ?sib) \<union> set (nodes bs l ?c))"
    using wf(2) ts by (auto simp: node_kids simp del: nodes.simps)
  have wfk: "wf_tree rel sz bs l (child i)" if "i \<in> set ?sib \<or> i = t" for i
    using wf(1) that ts by (auto simp: list_all_iff)
  have sib_in: "b < length bs \<and> b \<notin> set (nodes bs l ?c) \<and> b \<noteq> blk" if "b \<in> set (kid_nodes bs l ?sib)" for b
    using that dist wf_tree_nodes [OF wfk] by (auto simp: set_kid_nodes)
  have c_in: "b < length bs1 \<and> b \<noteq> blk" if "b \<in> set (forest_nodes bs1 l (roots ?c cres))" for b
    using that c(5) wf_tree_nodes [OF wfk, of t] c(1) dist wf(1) by fastforce
  have sibf: "kid_nodes bs1 l ?sib = kid_nodes bs l ?sib" "kid_leaves bs1 l ?sib = kid_leaves bs l ?sib"
    by (rule kid_frame; use sib_in c(2) in blast)+
  show kn: "kid_nodes bs1 l (?sib @ us) = kid_nodes bs l ?sib @ forest_nodes bs1 l (roots ?c cres)"
    "kid_leaves bs1 l (?sib @ us) = kid_leaves bs l ?sib @ forest_leaves bs1 l (roots ?c cres)"
    unfolding kid_simps(3,6) [of _ _ ?sib us] downlinks_kids [OF us] sibf by (rule refl)+
  show "b < length bs1 \<and> b \<noteq> blk" if "b \<in> set (kid_nodes bs1 l (?sib @ us))" for b
    using that sib_in c_in c(1) unfolding kn by fastforce
  show "distinct (kid_nodes bs1 l (?sib @ us))"
    unfolding kn distinct_append using dist c(4,5) sib_in by fastforce
  show "set (kid_nodes bs1 l (?sib @ us)) \<subseteq> set (nodes bs (Suc l) blk) \<union> {length bs..<length bs1}"
    unfolding kn ns using c(5) by auto
  show "wf_tree rel sz bs1 l (child i)" if "i \<in> set (?sib @ us)" for i
  proof (cases "i \<in> set us")
    case True
    then have "child i \<in> set (map child us)" by simp
    then have "child i \<in> set (roots ?c cres)" using us by (simp only: downlinks_def)
    then show ?thesis using c(3) by (simp add: list_all_iff)
  next
    case False
    then have i: "i \<in> set ?sib" using that by simp
    show ?thesis
    proof (rule wf_tree_frame)
      show "wf_tree rel sz bs l (child i)" using wfk i by blast
      fix b assume "b \<in> set (nodes bs l (child i))"
      then have "b \<in> set (kid_nodes bs l ?sib)" using i unfolding set_kid_nodes by blast
      then show "b < length bs1 \<and> bs1 ! b = bs ! b" using sib_in [of b] c(1,2) by auto
    qed
  qed
qed

lemma ins_post_node:
  assumes wf: "wf_tree rel sz bs (Suc l) blk" "distinct (nodes bs (Suc l) blk)"
    and ts: "tuples (bs ! blk) = xs @ t # ys"
    and ch: "ins_post rel sz l bs bs1 (child t) cres it"
    and us: "downlinks us (roots (child t) cres)"
    and st: "page_step rel sz (Suc l) bs1 bs2 blk res (mset ((xs @ ys) @ us))"
  shows "ins_post rel sz (Suc l) bs bs2 blk res it"
proof -
  let ?kt = "(xs @ ys) @ us" and ?c = "child t"
  note k = kids_after_insert [OF wf ts ch us]
  have blk: "blk < length bs" using wf(1) by simp
  have c: "length bs \<le> length bs1" "length bs1 \<le> length bs + Suc l"
      "\<And>b. b < length bs \<Longrightarrow> b \<notin> set (nodes bs l ?c) \<Longrightarrow> bs1 ! b = bs ! b"
      "mset (forest_leaves bs1 l (roots ?c cres)) = add_mset it (mset (leaves bs l ?c))"
    using ch by (auto simp: ins_post_def)
  have blk1: "blk < length bs1" using blk c(1) by simp
  note top = page_step_tops [OF st blk1 k(3)]
  have frame: "\<forall>b < length bs. b \<notin> set (nodes bs (Suc l) blk) \<longrightarrow> bs2 ! b = bs ! b"
    using top(3) c ts by (auto simp: node_kids simp del: nodes.simps)
  have wf2: "wf_tree rel sz bs2 l (child i)" if "i \<in> set ?kt" for i
  proof (rule wf_tree_frame [OF k(6) [OF that]])
    fix b assume "b \<in> set (nodes bs1 l (child i))"
    then have "b \<in> set (kid_nodes bs1 l ?kt)" using that unfolding set_kid_nodes by blast
    then show "b < length bs2 \<and> bs2 ! b = bs1 ! b" using k(3) top(1,3) by fastforce
  qed
  have wfr: "list_all (wf_tree rel sz bs2 (Suc l)) (roots blk res)"
    unfolding list_all_iff using top(8) wf2 by (fastforce simp: list_all_iff)
  have "distinct (roots blk res @ kid_nodes bs1 l ?kt)"
    using top(4,5) k(3,4) by fastforce
  then have dist: "distinct (forest_nodes bs2 (Suc l) (roots blk res))"
    using mset_eq_imp_distinct_iff [OF top(6)] by blast
  have "set (forest_nodes bs2 (Suc l) (roots blk res)) = set (roots blk res @ kid_nodes bs1 l ?kt)"
    using arg_cong [OF top(6), of set_mset] unfolding set_mset_mset .
  also have "\<dots> \<subseteq> set (nodes bs (Suc l) blk) \<union> {length bs..<length bs2}"
    using top(1,4) k(5) c(1) root_in_nodes [of blk bs "Suc l"] by fastforce
  finally have sub: "set (forest_nodes bs2 (Suc l) (roots blk res)) \<subseteq> set (nodes bs (Suc l) blk) \<union> {length bs..<length bs2}" .
  have "mset (forest_leaves bs2 (Suc l) (roots blk res)) = mset (kid_leaves bs1 l ?kt)" by (rule top(7))
  also have "\<dots> = mset (kid_leaves bs l (xs @ ys)) + add_mset it (mset (leaves bs l ?c))"
    by (simp only: k(2) mset_append c(4))
  finally have lv: "mset (forest_leaves bs2 (Suc l) (roots blk res)) = add_mset it (mset (leaves bs (Suc l) blk))"
    by (simp add: node_kids ts del: leaves.simps)
  have sp: "spread_box (left_box res) \<and> (res_split res \<longrightarrow> spread_box (right_box res))"
    using st by (auto simp: page_step_def)
  show ?thesis
    unfolding ins_post_def using top(1,2) c(1,2) frame wfr dist sub lv sp by auto
qed

section \<open>Choice of the child\<close>

lemma choose_fold:
  "fst (foldl (choose_step rel box) (c, p) es) \<in> insert c (child ` snd ` set es)"
proof (induction es arbitrary: c p)
  case (Cons e es)
  obtain c' p' where st: "choose_step rel box (c, p) e = (c', p')" by (rule prod.exhaust)
  have "c' \<in> insert c (child ` snd ` set [e])"
    using st by (cases e) (auto simp: choose_step_def Let_def child_def split: option.splits if_splits)
  with Cons.IH [of c' p'] st show ?case by auto
qed simp

lemma choose_ok:
  assumes "rpage_ok p" "tuples p \<noteq> []"
  shows "choose_subtree_insert rel p box \<in> child ` set (tuples p)"
proof -
  have ent: "snd ` set (used_tuples rel p) = set (tuples p)"
    using used_tuples_ok [OF assms(1), of rel] by (metis list.set_map)
  let ?b = "fst (foldl (choose_step rel box) (InvalidBlockNumber, DBL_MAX) (used_tuples rel p))"
  have b: "?b = InvalidBlockNumber \<or> ?b \<in> child ` set (tuples p)"
    using choose_fold [of rel box InvalidBlockNumber DBL_MAX "used_tuples rel p"] ent by auto
  have n: "0 < PageGetMaxOffsetNumber p" using assms(2) by (metis length_tuples length_greater_0_conv)
  then have "page_itup rel p FirstOffsetNumber = tuples p ! 0"
    using page_itup_nth(1) [OF assms(1), of 0] by (simp add: page_consts)
  moreover have "tuples p ! 0 \<in> set (tuples p)" using n by (intro nth_mem) simp
  ultimately have "child (page_itup rel p FirstOffsetNumber) \<in> child ` set (tuples p)" by simp
  then show ?thesis
    using b n unfolding choose_subtree_insert_def Let_def child_def by (auto simp: page_consts)
qed

lemma find_child_ok:
  assumes "rpage_ok p" "c \<in> child ` set (tuples p)"
  obtains j where "find_child rel p c = Suc j" "j < length (tuples p)" "child (tuples p ! j) = c"
proof -
  let ?z = "zip [Suc 0..<Suc (PageGetMaxOffsetNumber p)] (tuples p)"
  have z: "used_tuples rel p = ?z"
    using used_tuples_from_ok [OF assms(1), of rel 0] by (simp add: page_consts del: upt_Suc)
  obtain t where "t \<in> set (tuples p)" "child t = c" using assms(2) by auto
  then have "\<exists>x \<in> set ?z. (\<lambda>(off, it). ip_blkid (t_tid it) = c) x"
    by (auto simp: set_zip in_set_conv_nth child_def simp del: upt_Suc intro!: bexI)
  then obtain x where f: "find (\<lambda>(off, it). ip_blkid (t_tid it) = c) ?z = Some x"
    by (cases "find (\<lambda>(off, it). ip_blkid (t_tid it) = c) ?z") (auto simp: find_None_iff)
  then obtain j where j: "j < length ?z" "?z ! j = x" "(\<lambda>(off, it). ip_blkid (t_tid it) = c) x"
    by (auto simp: find_Some_iff simp del: upt_Suc)
  then have "x = (Suc j, tuples p ! j)" by (auto simp del: upt_Suc)
  with f j show thesis
    by (intro that [of j]) (auto simp: find_child_def z child_def simp del: upt_Suc)
qed

section \<open>Updating the downlinks\<close>

lemma replace_tuple_ok:
  assumes "buf < length (blocks s)" "rpage_ok (blocks s ! buf)" "j < length (tuples (blocks s ! buf))"
    "real_itup u" "tuple_space u = tuple_space (tuples (blocks s ! buf) ! j)"
  obtains q where "rtree_replace_tuple buf (Suc j) u s = (Inr (), s\<lparr>blocks := (blocks s)[buf := q]\<rparr>)" "rpage_ok q"
    "tuples q = (tuples (blocks s ! buf))[j := u]" "pd_opaque q = pd_opaque (blocks s ! buf)"
proof -
  let ?p = "blocks s ! buf"
  have "sum_list (map tuple_space (tuples ?p)) + tuple_space u \<le> page_room ?p + tuple_space (tuples ?p ! j)"
    using rpage_space [OF assms(2)] page_room_ok [OF assms(2)] assms(5) by simp
  from rpg.replace_ok [OF assms(2,4,3) this]
  obtain d q where q: "PageIndexTupleDelete ?p (Suc j) = Inr d"
      "PageAddItem d (itup_bytes u) (Suc j) False False = Inr (Suc j, q)" "rpage_ok q"
      "tuples q = (tuples ?p)[j := u]" "pd_opaque q = pd_opaque ?p"
    by (elim exE conjE)
  have "rtree_replace_tuple buf (Suc j) u s = (Inr (), s\<lparr>blocks := (blocks s)[buf := q]\<rparr>)"
    using q(1,2) assms(1)
    by (simp add: rtree_replace_tuple_def BufferAddItem_def bindC_def BufferGetPage_run put_page_run page_consts)
  with q that show thesis by blast
qed

lemma mset_update_append: "j < length ts \<Longrightarrow> mset (ts[j := u]) = mset ((take j ts @ drop (Suc j) ts) @ [u])"
  by (simp add: upd_conv_take_nth_drop)

lemma finish_ok:
  assumes "buf < length (blocks s)" "held s = (buf, True) # h" "pins s = buf # pn"
    "node_page rel sz l (blocks s ! buf)" "tuples (blocks s ! buf) \<noteq> []" "mset (tuples (blocks s ! buf)) = M"
  shows "\<exists>res s'. insert_finish rel buf s = (Inr res, s') \<and> held s' = h \<and> pins s' = pn \<and>
    page_step rel sz l (blocks s) (blocks s') buf res M"
proof -
  let ?s1 = "s\<lparr>dirty := insert buf (dirty s)\<rparr>" and ?q = "logged rel (blocks s ! buf)"
  obtain s2 where s2: "(if RelationNeedsWAL rel then rtree_wal_insert rel buf else ret ()) ?s1 = (Inr (), s2)"
      "blocks s2 = (blocks s)[buf := ?q]" "held s2 = held s" "pins s2 = pins s"
    using wal_one_fields [of rel buf ?s1] unfolding rtree_wal_insert_def by auto
  have g: "blocks s2 ! buf = ?q" using s2(2) assms(1) by simp
  have run: "insert_finish rel buf s = (Inr (no_split (rtree_page_mbr rel ?q False)),
      s2\<lparr>held := drop_lock buf (held s2), pins := remove1 buf (pins s2)\<rparr>)"
    using s2(1) g
    by (simp add: insert_finish_def bindC_def MarkBufferDirty_run BufferGetPage_run UnlockReleaseBuffer_run)
  have n: "node_page rel sz l ?q" "tuples ?q = tuples (blocks s ! buf)" "rpage_ok ?q"
    using node_page_logged [OF assms(4)] assms(4) by (simp_all add: node_page_def)
  have "spread_box (rtree_page_mbr rel ?q False)"
    using n assms(5) by (intro mbr_spread) (auto simp: node_page_def)
  then show ?thesis unfolding run using n s2 assms by (auto simp: page_step_def no_split_def)
qed

lemma node_page_update:
  assumes "node_page rel sz l p" "rpage_ok q" "pd_opaque q = pd_opaque p"
    "list_all (entry_ok rel (entry_size sz l)) ts" "set (tuples q) \<subseteq> set (tuples p) \<union> set ts"
  shows "node_page rel sz l q"
  using assms by (auto simp: node_page_def leaf_page_def page_opaque_def list_all_iff)

lemma page_step_update [simp]:
  "page_step rel sz l (bs[buf := q]) bs' buf res M = page_step rel sz l bs bs' buf res M"
  by (simp add: page_step_def)

text \<open>Adding the downlink of the new sibling, with or without a split of this page.\<close>

lemma add_right_ok:
  assumes buf: "buf < length (blocks s)" "length (blocks s) + 1 < MaxBlockNumber"
    and hp: "held s = (buf, True) # h" "pins s = buf # pn"
    and pg: "node_page rel sz (Suc l) (blocks s ! buf)" "tuples (blocks s ! buf) \<noteq> []" "24 \<le> sz"
    and r: "entry_ok rel 48 r"
  shows "\<exists>res s'. insert_right rel buf (Suc l) rbox r s = (Inr res, s') \<and>
     held s' = h \<and> pins s' = pn \<and>
     page_step rel sz (Suc l) (blocks s) (blocks s') buf res (add_mset r (mset (tuples (blocks s ! buf))))"
proof (cases "PageGetFreeSpace (blocks s ! buf) < MAXALIGN (IndexTupleSize r) + sizeof_ItemIdData")
  case True
  have "entry_ok rel (entry_size sz (Suc l)) r" using r by (simp add: entry_size_def)
  from split_step [OF buf pg(1,2) this pg(3), of rbox]
  obtain res s2 where "rtree_split_page rel buf r rbox (Suc l) (op_flags (page_opaque (blocks s ! buf))) s = (Inr res, s2)"
      "held s2 = held s" "pins s2 = pins s"
      "page_step rel sz (Suc l) (blocks s) (blocks s2) buf res (add_mset r (mset (tuples (blocks s ! buf))))"
    by (elim exE conjE)
  then show ?thesis
    using True hp by (simp add: insert_right_def bindC_def BufferGetPage_run UnlockReleaseBuffer_run)
next
  case False
  have p: "rpage_ok (blocks s ! buf)" and real: "real_itup r"
    using pg r by (auto simp: node_page_def entry_ok_def)
  have "sum_list (map tuple_space (tuples (blocks s ! buf))) + tuple_space r \<le> 8152"
    using leaf_room [OF p real] False by simp
  from BufferAddItem_fits [OF buf(1) p real this]
  obtain q where q: "BufferAddItem buf r InvalidOffsetNumber s =
        (Inr (Suc (length (tuples (blocks s ! buf)))), s\<lparr>blocks := (blocks s)[buf := q]\<rparr>)"
      "rpage_ok q" "tuples q = tuples (blocks s ! buf) @ [r]" "pd_opaque q = pd_opaque (blocks s ! buf)" .
  let ?s1 = "s\<lparr>blocks := (blocks s)[buf := q]\<rparr>"
  have "node_page rel sz (Suc l) q"
    by (rule node_page_update [OF pg(1) q(2,4), of "[r]"]) (use q(3) r in \<open>auto simp: entry_size_def\<close>)
  then show ?thesis
    using finish_ok [of buf ?s1 h pn rel sz "Suc l" "mset (tuples q)"] buf hp q False
    by (simp add: insert_right_def bindC_def BufferGetPage_run)
qed

lemma insert_after_child_ok:
  assumes buf: "buf < length (blocks s)" "length (blocks s) + 1 < MaxBlockNumber"
    and pg: "node_page rel sz (Suc l) (blocks s ! buf)" "tuples (blocks s ! buf) = ts" "j < length ts" "24 \<le> sz"
    and env: "llround_env (rd_cenv rel)"
    and res: "spread_box (left_box cres)" "res_split cres \<Longrightarrow> spread_box (right_box cres)"
    and hp: "held s = (buf, True) # h" "pins s = buf # pn"
  shows "\<exists>res s' us. insert_after_child rel buf (Suc l) (Suc j) cres s = (Inr res, s') \<and> held s' = h \<and> pins s' = pn \<and>
    downlinks us (roots (child (ts ! j)) cres) \<and>
    page_step rel sz (Suc l) (blocks s) (blocks s') buf res (mset ((take j ts @ drop (Suc j) ts) @ us))"
proof -
  let ?p = "blocks s ! buf"
  have p: "rpage_ok ?p" "list_all (entry_ok rel 48) ts" using pg by (auto simp: node_page_def entry_size_def)
  have j: "j < length (tuples ?p)" using pg by simp
  have pj: "page_itup rel ?p (Suc j) = ts ! j" using page_itup_nth(1) [OF p(1) j [unfolded length_tuples]] pg(2) by simp
  obtain u where u: "rtree_form_tuple (left_box cres) (t_tid (ts ! j)) = Inr u" "t_tid u = t_tid (ts ! j)"
      "entry_ok rel 48 u"
    by (rule downlink_ok [OF res(1) env])
  have "tuple_space u = tuple_space (tuples ?p ! j)" "real_itup u"
    using u(3) p(2) pg(2,3) by (auto simp: list_all_length entry_ok_def tuple_space_def)
  then obtain q where q: "rtree_replace_tuple buf (Suc j) u s = (Inr (), s\<lparr>blocks := (blocks s)[buf := q]\<rparr>)" "rpage_ok q"
      "tuples q = ts[j := u]" "pd_opaque q = pd_opaque ?p"
    using replace_tuple_ok [OF buf(1) p(1) j] pg(2) by auto
  let ?s1 = "s\<lparr>blocks := (blocks s)[buf := q]\<rparr>"
  have nq: "node_page rel sz (Suc l) q"
    by (rule node_page_update [OF pg(1) q(2,4), of "[u]"])
      (use q(3) pg(2) u(3) set_update_subset_insert [of ts j u] in \<open>auto simp: entry_size_def\<close>)
  have qne: "tuples q \<noteq> []" using q(3) pg(3) by auto
  have mq: "mset (tuples q) = mset ((take j ts @ drop (Suc j) ts) @ [u])"
    using q(3) mset_update_append [OF pg(3)] by simp
  have uc: "child u = child (ts ! j)" using u(2) by (simp add: child_def)
  note run = insert_after_child_def BufferGetPage_run bindC_def pj u(1) q(1)
  have s1: "buf < length (blocks ?s1)" "length (blocks ?s1) + 1 < MaxBlockNumber" "blocks ?s1 ! buf = q"
      "held ?s1 = (buf, True) # h" "pins ?s1 = buf # pn"
    using buf hp by simp_all
  show ?thesis
  proof (cases "res_split cres")
    case False
    have "\<exists>res s'. insert_finish rel buf ?s1 = (Inr res, s') \<and> held s' = h \<and> pins s' = pn \<and>
        page_step rel sz (Suc l) (blocks ?s1) (blocks s') buf res (mset ((take j ts @ drop (Suc j) ts) @ [u]))"
      by (rule finish_ok) (use s1 nq qne mq in simp_all)
    then obtain res s' where f: "insert_finish rel buf ?s1 = (Inr res, s')" "held s' = h" "pins s' = pn"
        "page_step rel sz (Suc l) (blocks s) (blocks s') buf res (mset ((take j ts @ drop (Suc j) ts) @ [u]))"
      by (auto simp del: mset_append)
    have "downlinks [u] (roots (child (ts ! j)) cres)" using uc False by (simp add: downlinks_def roots_def)
    with f False show ?thesis
      by (intro exI [of _ res] exI [of _ s'] exI [of _ "[u]"]) (simp add: run)
  next
    case True
    obtain r where r: "rtree_form_tuple (right_box cres) \<lparr>ip_blkid = right_blkno cres, ip_posid = FirstOffsetNumber\<rparr> = Inr r"
        "t_tid r = \<lparr>ip_blkid = right_blkno cres, ip_posid = FirstOffsetNumber\<rparr>" "entry_ok rel 48 r"
      by (rule downlink_ok [OF res(2) [OF True] env])
    have d: "downlinks [u, r] (roots (child (ts ! j)) cres)"
      using uc r(2) True by (simp add: downlinks_def roots_def child_def)
    have m2: "add_mset r (mset (tuples q)) = mset ((take j ts @ drop (Suc j) ts) @ [u, r])" using mq by simp
    have "\<exists>res s'. insert_right rel buf (Suc l) (right_box cres) r ?s1 = (Inr res, s') \<and> held s' = h \<and> pins s' = pn \<and>
        page_step rel sz (Suc l) (blocks ?s1) (blocks s') buf res (add_mset r (mset (tuples (blocks ?s1 ! buf))))"
      by (rule add_right_ok) (use s1 nq qne pg(4) r in simp_all)
    then obtain res s' where f: "insert_right rel buf (Suc l) (right_box cres) r ?s1 = (Inr res, s')" "held s' = h"
        "pins s' = pn" "page_step rel sz (Suc l) (blocks s) (blocks s') buf res (mset ((take j ts @ drop (Suc j) ts) @ [u, r]))"
      unfolding s1(3) m2 by (auto simp del: mset_append)
    with d r(1) True show ?thesis
      by (intro exI [of _ res] exI [of _ s'] exI [of _ "[u, r]"]) (simp add: run)
  qed
qed

section \<open>Insertion into a tree\<close>

lemma insert_page_ok:
  assumes "wf_tree rel sz (blocks s) l blk" "distinct (nodes (blocks s) l blk)" "entry_ok rel sz it"
    "24 \<le> sz" "MAXALIGN sz \<le> 8000" "llround_env (rd_cenv rel)"
    "\<And>b. b \<in> set (nodes (blocks s) l blk) \<Longrightarrow> b \<notin> fst ` set (held s)"
    "length (blocks s) + l + 1 < MaxBlockNumber"
  shows "\<exists>res s'. rtree_insert_page rel l blk it box s = (Inr res, s') \<and> held s' = held s \<and> pins s' = pins s \<and>
    ins_post rel sz l (blocks s) (blocks s') blk res it"
  using assms
proof (induction l arbitrary: blk s)
  case 0
  let ?s1 = "s\<lparr>pins := blk # pins s, held := (blk, True) # held s\<rparr>"
  have blk: "blk < length (blocks s)" "node_page rel sz 0 (blocks s ! blk)" using 0 by auto
  have nl: "\<not> lock_conflict (held s) blk True" using 0 by (intro unlocked_no_conflict) simp
  obtain res s2 where r: "rtree_insert_leaf rel blk it box ?s1 = (Inr res, s2)" "held s2 = held ?s1" "pins s2 = pins ?s1"
      "page_step rel sz 0 (blocks s) (blocks s2) blk res (add_mset it (mset (tuples (blocks s ! blk))))"
    using insert_leaf_step [of blk ?s1 rel sz it box] blk 0 by auto
  have "rtree_insert_page rel 0 blk it box s =
      (Inr res, s2\<lparr>held := drop_lock blk (held s2), pins := remove1 blk (pins s2)\<rparr>)"
    using r(1) blk(1) nl by (simp add: bindC_def ReadBuffer_run LockBuffer_run UnlockReleaseBuffer_run)
  then show ?case using r ins_post_leaf [OF r(4) blk(1)] by auto
next
  case (Suc l)
  let ?p = "blocks s ! blk" and ?s1 = "s\<lparr>pins := blk # pins s, held := (blk, True) # held s\<rparr>"
  have blk: "blk < length (blocks s)" "node_page rel sz (Suc l) ?p" "tuples ?p \<noteq> []"
      "list_all (\<lambda>it. wf_tree rel sz (blocks s) l (child it)) (tuples ?p)"
    using Suc.prems(1) by auto
  have nl: "\<not> lock_conflict (held s) blk True" using Suc.prems(7) by (intro unlocked_no_conflict) simp
  have p: "rpage_ok ?p" "\<not> leaf_page ?p" using blk(2) by (auto simp: node_page_def)
  define c where "c = choose_subtree_insert rel ?p box"
  have c: "c \<in> child ` set (tuples ?p)" unfolding c_def by (rule choose_ok [OF p(1) blk(3)])
  obtain j where j: "find_child rel ?p c = Suc j" "j < length (tuples ?p)" "child (tuples ?p ! j) = c"
    by (rule find_child_ok [OF p(1) c])
  let ?xs = "take j (tuples ?p)" and ?ys = "drop (Suc j) (tuples ?p)"
  have ts: "tuples ?p = ?xs @ (tuples ?p ! j) # ?ys" using id_take_nth_drop [OF j(2)] .
  have wfc: "wf_tree rel sz (blocks s) l c" using blk(4) j(2,3) by (auto simp: list_all_length)
  have nc: "set (nodes (blocks s) l c) \<subseteq> set (nodes (blocks s) (Suc l) blk)"
    using j by (auto simp: set_kid_nodes node_kids simp del: nodes.simps intro!: bexI [OF _ nth_mem])
  have dist: "distinct (blk # kid_nodes (blocks s) l ?xs @ nodes (blocks s) l c @ kid_nodes (blocks s) l ?ys)"
    using Suc.prems(2) unfolding node_kids by (subst (asm) ts) (simp add: j(3))
  have "\<exists>res s'. rtree_insert_page rel l c it box ?s1 = (Inr res, s') \<and> held s' = held ?s1 \<and> pins s' = pins ?s1 \<and>
      ins_post rel sz l (blocks ?s1) (blocks s') c res it"
    using wfc dist nc Suc.prems by (intro Suc.IH) auto
  then obtain cres s2 where r: "rtree_insert_page rel l c it box ?s1 = (Inr cres, s2)"
      "held s2 = (blk, True) # held s" "pins s2 = blk # pins s" "ins_post rel sz l (blocks s) (blocks s2) c cres it"
    by auto
  have c2: "length (blocks s) \<le> length (blocks s2)" "length (blocks s2) \<le> length (blocks s) + Suc l"
      "spread_box (left_box cres)" "res_split cres \<Longrightarrow> spread_box (right_box cres)" "blocks s2 ! blk = ?p"
    using r(4) dist blk(1) by (auto simp: ins_post_def)
  have "c < length (blocks s)" using wf_tree_page [OF wfc] by simp
  then have valid: "BlockNumberIsValid c"
    using Suc.prems(8) by (simp add: BlockNumberIsValid_def InvalidBlockNumber_def MaxBlockNumber_def)
  have "\<exists>res s' us. insert_after_child rel blk (Suc l) (Suc j) cres s2 = (Inr res, s') \<and> held s' = held s \<and> pins s' = pins s \<and>
    downlinks us (roots (child (tuples ?p ! j)) cres) \<and>
    page_step rel sz (Suc l) (blocks s2) (blocks s') blk res (mset ((?xs @ ?ys) @ us))"
    by (rule insert_after_child_ok) (use c2 blk j r Suc.prems in simp_all)
  then obtain res s3 us where f: "insert_after_child rel blk (Suc l) (Suc j) cres s2 = (Inr res, s3)" "held s3 = held s"
      "pins s3 = pins s" "downlinks us (roots (child (tuples ?p ! j)) cres)"
      "page_step rel sz (Suc l) (blocks s2) (blocks s3) blk res (mset ((?xs @ ?ys) @ us))"
    by (elim exE conjE)
  have "rtree_insert_page rel (Suc l) blk it box s = (Inr res, s3)"
    using r(1) f(1) blk(1) nl p(2) j(1) valid
    by (simp add: bindC_def ReadBuffer_run LockBuffer_run BufferGetPage_run Let_def leaf_page_def page_consts
        flip: c_def)
  moreover have "ins_post rel sz (Suc l) (blocks s) (blocks s3) blk res it"
    by (rule ins_post_node [OF Suc.prems(1,2) ts _ f(4,5)]) (use r(4) j(3) in simp)
  ultimately show ?case using f by auto
qed

end
