(* ===== verification/TR_Index.thy ===== *)
theory TR_Index
  imports TR_Insert
begin

text \<open>
  The index relation as a whole: the meta page names the root of a tree. Root promotion, creation of
  an empty index, insertion (\<^verbatim>\<open>temporal_rtree_insert\<close>) and the initial build
  (\<^verbatim>\<open>temporal_rtree_build\<close>) keep the index well formed and change its contents as they should.
\<close>

section \<open>Promotion of the root\<close>

definition root_page :: "Relation \<Rightarrow> nat \<Rightarrow> nat \<Rightarrow> nat list \<Rightarrow> rpage \<Rightarrow> bool" where
  "root_page rel sz l kids p \<longleftrightarrow> node_page rel sz (Suc l) p \<and> map child (tuples p) = kids"

lemma new_root_page:
  assumes blk: "blk < length (blocks s)" "blocks s ! blk = rtree_init_datapage TRTREE_PAGE_ROOT (l + 1)" "Suc l < 65536"
    and ents: "entry_ok rel 48 a" "entry_ok rel 48 b"
  shows "\<exists>q s1 k1 k2. BufferAddItem blk a InvalidOffsetNumber s = (Inr k1, s1) \<and>
    BufferAddItem blk b InvalidOffsetNumber s1 = (Inr k2, s\<lparr>blocks := (blocks s)[blk := q]\<rparr>) \<and>
    root_page rel sz l [child a, child b] q"
proof -
  note init = init_datapage_ok [of TRTREE_PAGE_ROOT "l + 1"]
  have sp: "tuple_space a = 52" "tuple_space b = 52" and real: "real_itup a" "real_itup b"
    using ents by (auto simp: entry_ok_def tuple_space_def MAXALIGN_def page_consts)
  obtain p where p: "BufferAddItem blk a InvalidOffsetNumber s =
      (Inr (Suc (length (tuples (blocks s ! blk)))), s\<lparr>blocks := (blocks s)[blk := p]\<rparr>)" "rpage_ok p"
      "tuples p = tuples (blocks s ! blk) @ [a]" "pd_opaque p = pd_opaque (blocks s ! blk)"
    by (rule BufferAddItem_fits [of blk s a]) (use blk init real sp in auto)
  let ?s1 = "s\<lparr>blocks := (blocks s)[blk := p]\<rparr>"
  have b1: "blk < length (blocks ?s1)" "blocks ?s1 ! blk = p" using blk by simp_all
  obtain q where q: "BufferAddItem blk b InvalidOffsetNumber ?s1 =
      (Inr (Suc (length (tuples (blocks ?s1 ! blk)))), ?s1\<lparr>blocks := (blocks ?s1)[blk := q]\<rparr>)" "rpage_ok q"
      "tuples q = tuples (blocks ?s1 ! blk) @ [b]" "pd_opaque q = pd_opaque (blocks ?s1 ! blk)"
    by (rule BufferAddItem_fits [of blk ?s1 b]) (use b1 blk init real sp p in auto)
  have tq: "tuples q = [a, b]" and oq: "pd_opaque q = pd_opaque (rtree_init_datapage TRTREE_PAGE_ROOT (l + 1))"
    using q(3,4) p(3,4) b1(2) blk init(2) by simp_all
  have "page_opaque q = page_opaque (rtree_init_datapage TRTREE_PAGE_ROOT (l + 1))"
    using oq by (simp add: page_opaque_def)
  then have "root_page rel sz l [child a, child b] q"
    using tq q(2) ents blk(3) init(4)
    by (simp add: root_page_def node_page_def leaf_page_def entry_size_def TRTREE_PAGE_ROOT_def TRTREE_PAGE_LEAF_def)
  with p(1) q(1) show ?thesis by (intro exI [of _ q] exI [of _ ?s1]) simp
qed

text \<open>Clearing the root flag of a page keeps its tuples and its level.\<close>

definition clear_root :: "rpage \<Rightarrow> rpage" where
  "clear_root p = set_opaque ((page_opaque p)\<lparr>op_flags := op_flags (page_opaque p) AND NOT TRTREE_PAGE_ROOT\<rparr>) p"

lemma clear_root_ok:
  "tuples (clear_root p) = tuples p" "node_page rel sz l p \<Longrightarrow> node_page rel sz l (clear_root p)"
proof -
  show t: "tuples (clear_root p) = tuples p" by (simp add: clear_root_def)
  assume n: "node_page rel sz l p"
  have "op_level (page_opaque p) < 65536" by (simp add: page_opaque_def opaque_view_def)
  moreover have "leaf_page (clear_root p) = leaf_page p"
    by (rule leaf_flag_cleared) (simp add: clear_root_def)
  moreover have "rpage_ok (clear_root p) = rpage_ok p"
    "op_level (page_opaque (clear_root p)) = op_level (page_opaque p) mod 65536"
    by (simp_all add: clear_root_def)
  ultimately show "node_page rel sz l (clear_root p)" using n t by (simp add: node_page_def)
qed

lemma root_promote_run:
  assumes blks: "a < length (blocks s)" "length (blocks s) + 1 < MaxBlockNumber" "Suc l < 65536" "a \<notin> fst ` set (held s)"
    and res: "spread_box (left_box res)" "spread_box (right_box res)" and env: "llround_env (rd_cenv rel)"
  shows "\<exists>s' q. rtree_root_promote rel a res l s = (Inr (length (blocks s)), s') \<and> held s' = held s \<and> pins s' = pins s \<and>
    blocks s' = (blocks s)[a := clear_root (blocks s ! a)] @ [q] \<and> root_page rel sz l [a, right_blkno res] q"
proof -
  let ?n = "length (blocks s)" and ?tid = "\<lambda>b. \<lparr>ip_blkid = b, ip_posid = FirstOffsetNumber\<rparr>"
  obtain lt where lt: "rtree_form_tuple (left_box res) (?tid a) = Inr lt" "t_tid lt = ?tid a" "entry_ok rel 48 lt"
    by (rule downlink_ok [OF res(1) env])
  obtain rt where rt: "rtree_form_tuple (right_box res) (?tid (right_blkno res)) = Inr rt"
      "t_tid rt = ?tid (right_blkno res)" "entry_ok rel 48 rt"
    by (rule downlink_ok [OF res(2) env])
  have kids: "[child lt, child rt] = [a, right_blkno res]" using lt(2) rt(2) by (simp add: child_def)
  let ?s0 = "s\<lparr>pins := ?n # a # pins s, held := (?n, True) # (a, True) # held s,
     blocks := blocks s @ [rtree_init_datapage TRTREE_PAGE_ROOT (l + 1)]\<rparr>"
  have nl: "\<not> lock_conflict (held s) a True" using blks(4) by (rule unlocked_no_conflict)
  have "\<exists>q s1 k1 k2. BufferAddItem ?n lt InvalidOffsetNumber ?s0 = (Inr k1, s1) \<and>
      BufferAddItem ?n rt InvalidOffsetNumber s1 = (Inr k2, ?s0\<lparr>blocks := (blocks ?s0)[?n := q]\<rparr>) \<and>
      root_page rel sz l [child lt, child rt] q"
    by (rule new_root_page) (use blks(3) lt(3) rt(3) in simp_all)
  then obtain q s1 k1 k2 where q: "BufferAddItem ?n lt InvalidOffsetNumber ?s0 = (Inr k1, s1)"
      "BufferAddItem ?n rt InvalidOffsetNumber s1 = (Inr k2, ?s0\<lparr>blocks := (blocks ?s0)[?n := q]\<rparr>)"
      "root_page rel sz l [a, right_blkno res] q"
    unfolding kids by (elim exE conjE)
  show ?thesis
    using blks(1,2) nl lt(1) rt(1) q
    by (simp add: rtree_root_promote_def bindC_def ReadBuffer_run LockBuffer_run ReadBufferNew_run put_page_run
        BufferGetPage_run MarkBufferDirty_run UnlockReleaseBuffer_run clear_root_def list_update_append nth_append)
qed

lemma root_promote_tree:
  assumes wf: "wf_tree rel sz bs l a" "wf_tree rel sz bs l b"
    and q: "root_page rel sz l [a, b] q" and bs': "bs' = bs[a := clear_root (bs ! a)] @ [q]"
  shows "wf_tree rel sz bs' (Suc l) (length bs)"
    "nodes bs' (Suc l) (length bs) = length bs # nodes bs l a @ nodes bs l b"
    "leaves bs' (Suc l) (length bs) = leaves bs l a @ leaves bs l b"
proof -
  have bq: "bs' ! length bs = q" by (simp add: bs' nth_append)
  have pg: "b < length bs' \<and> node_page rel sz k (bs' ! b) \<and> tuples (bs' ! b) = tuples (bs ! b)"
    if "b < length bs" "node_page rel sz k (bs ! b)" for b k
    using that by (cases "b = a") (auto simp: bs' nth_append clear_root_ok)
  have tup: "tuples (bs' ! b) = tuples (bs ! b)" if "b < length bs" for b
    using that by (cases "b = a") (auto simp: bs' nth_append clear_root_ok)
  have fr: "wf_tree rel sz bs' l c \<and> nodes bs' l c = nodes bs l c \<and> leaves bs' l c = leaves bs l c"
    if "wf_tree rel sz bs l c" for c
  proof (intro conjI)
    show "wf_tree rel sz bs' l c"
      by (rule wf_tree_frame_pages [OF that]) (use pg wf_tree_nodes [OF that] in blast)
    have "\<forall>b \<in> set (nodes bs l c). tuples (bs' ! b) = tuples (bs ! b)" using tup wf_tree_nodes [OF that] by blast
    from tree_frame_tuples [OF this] show "nodes bs' l c = nodes bs l c" "leaves bs' l c = leaves bs l c" by simp_all
  qed
  obtain x y where xy: "tuples q = [x, y]" "child x = a" "child y = b"
    using q by (auto simp: root_page_def Cons_eq_map_conv)
  have "node_page rel sz (Suc l) q" using q by (simp add: root_page_def)
  then show "wf_tree rel sz bs' (Suc l) (length bs)" using bq xy fr wf by (simp add: bs')
  show "nodes bs' (Suc l) (length bs) = length bs # nodes bs l a @ nodes bs l b"
    "leaves bs' (Suc l) (length bs) = leaves bs l a @ leaves bs l b"
    using bq xy fr wf by simp_all
qed

section \<open>The index relation\<close>

text \<open>
  An index is well formed when block 0 is its meta page and the block it names is the root of a
  well-formed tree of the named level, no block of which is used twice and none of which is the meta
  page. Its contents are the tuples at the leaves.
\<close>

definition index_meta :: "istate \<Rightarrow> RTreeMetaPageData" where
  "index_meta s = page_meta (blocks s ! 0)"

definition index_nodes :: "istate \<Rightarrow> nat list" where
  "index_nodes s = nodes (blocks s) (root_level (index_meta s)) (meta_root (index_meta s))"

definition index_tuples :: "istate \<Rightarrow> IndexTupleData list" where
  "index_tuples s = leaves (blocks s) (root_level (index_meta s)) (meta_root (index_meta s))"

definition wf_index :: "Relation \<Rightarrow> nat \<Rightarrow> istate \<Rightarrow> bool" where
  "wf_index rel sz s \<longleftrightarrow> 2 \<le> length (blocks s) \<and> magic (index_meta s) = TRTREE_META_MAGIC \<and>
     wf_tree rel sz (blocks s) (root_level (index_meta s)) (meta_root (index_meta s)) \<and>
     distinct (index_nodes s) \<and> 0 \<notin> set (index_nodes s)"

lemma wf_indexI:
  assumes "2 \<le> length (blocks s)" "page_meta (blocks s ! 0) = m" "magic m = TRTREE_META_MAGIC"
    "wf_tree rel sz (blocks s) (root_level m) (meta_root m)"
    "distinct (nodes (blocks s) (root_level m) (meta_root m))" "0 \<notin> set (nodes (blocks s) (root_level m) (meta_root m))"
  shows "wf_index rel sz s"
  using assms by (simp add: wf_index_def index_meta_def index_nodes_def)

lemma wf_index_root:
  assumes "wf_index rel sz s"
  shows "2 \<le> length (blocks s)" "0 < length (blocks s)" "magic (index_meta s) = TRTREE_META_MAGIC"
    "wf_tree rel sz (blocks s) (root_level (index_meta s)) (meta_root (index_meta s))"
    "meta_root (index_meta s) < length (blocks s)" "meta_root (index_meta s) \<noteq> 0"
proof -
  show "2 \<le> length (blocks s)" "magic (index_meta s) = TRTREE_META_MAGIC"
    and wf: "wf_tree rel sz (blocks s) (root_level (index_meta s)) (meta_root (index_meta s))"
    using assms by (simp_all add: wf_index_def)
  then show "0 < length (blocks s)" by linarith
  show "meta_root (index_meta s) < length (blocks s)" using wf_tree_page [OF wf] by simp
  show "meta_root (index_meta s) \<noteq> 0"
    using assms root_in_nodes [of "meta_root (index_meta s)" "blocks s" "root_level (index_meta s)"]
    by (intro notI) (simp add: wf_index_def index_nodes_def)
qed

text \<open>\<^verbatim>\<open>temporal_rtree_buildempty\<close> makes an empty index of two blocks.\<close>

lemma buildempty_ok:
  assumes "blocks s = []"
  shows "\<exists>s'. temporal_rtree_buildempty rel s = (Inr (), s') \<and> wf_index rel sz s' \<and> index_tuples s' = [] \<and>
    held s' = held s \<and> pins s' = pins s \<and> length (blocks s') = 2 \<and> root_level (index_meta s') = 0"
proof -
  let ?leaf = "rtree_init_datapage (TRTREE_PAGE_LEAF OR TRTREE_PAGE_ROOT) 0"
  let ?s' = "s\<lparr>pins := pins s, held := held s, blocks := [rtree_init_metapage 1 0, ?leaf], dirty := insert 1 (insert 0 (dirty s))\<rparr>"
  have run: "temporal_rtree_buildempty rel s = (Inr (), ?s')"
    using assms by (simp add: temporal_rtree_buildempty_def rtree_meta_and_root_init_def bindC_def ReadBufferNew_def
        MaxBlockNumber_def put_page_run MarkBufferDirty_run UnlockReleaseBuffer_run Let_def)
  note init = init_datapage_ok [of "TRTREE_PAGE_LEAF OR TRTREE_PAGE_ROOT" 0]
  have "leaf_page ?leaf" unfolding leaf_page_def init by (simp add: TRTREE_PAGE_LEAF_def TRTREE_PAGE_ROOT_def)
  then have "node_page rel sz 0 ?leaf" by (simp add: node_page_def init)
  then have "wf_index rel sz ?s'"
    by (intro wf_indexI [where m = "page_meta (rtree_init_metapage 1 0)"]) (simp_all add: init_metapage_meta)
  then show ?thesis
    using run by (intro exI [of _ ?s']) (simp add: index_tuples_def index_meta_def init_metapage_meta init)
qed


section \<open>Insertion into the index\<close>

text \<open>The insertion after the meta page has been read.\<close>

lemma insert_tree_ok:
  assumes wf: "wf_index rel sz s" and m: "m = index_meta s"
    and it: "entry_ok rel sz it" "24 \<le> sz" "MAXALIGN sz \<le> 8000" and env: "llround_env (rd_cenv rel)"
    and lim: "held s = []" "length (blocks s) + root_level m + 2 < MaxBlockNumber"
  shows "\<exists>res s'. rtree_insert_page rel (root_level m) (meta_root m) it box s = (Inr res, s') \<and> held s' = [] \<and> pins s' = pins s \<and>
    ins_post rel sz (root_level m) (blocks s) (blocks s') (meta_root m) res it \<and> page_meta (blocks s' ! 0) = m \<and>
    0 \<notin> set (forest_nodes (blocks s') (root_level m) (roots (meta_root m) res))"
proof -
  let ?l = "root_level m" and ?r = "meta_root m"
  have i: "2 \<le> length (blocks s)" "wf_tree rel sz (blocks s) ?l ?r" "distinct (nodes (blocks s) ?l ?r)"
      "0 \<notin> set (nodes (blocks s) ?l ?r)"
    using wf by (simp_all add: wf_index_def index_nodes_def m)
  have "\<exists>res s'. rtree_insert_page rel ?l ?r it box s = (Inr res, s') \<and> held s' = held s \<and> pins s' = pins s \<and>
      ins_post rel sz ?l (blocks s) (blocks s') ?r res it"
    by (rule insert_page_ok) (use i it env lim in simp_all)
  then obtain res s' where r: "rtree_insert_page rel ?l ?r it box s = (Inr res, s')" "held s' = []" "pins s' = pins s"
      "ins_post rel sz ?l (blocks s) (blocks s') ?r res it"
    using lim(1) by auto
  have "0 < length (blocks s)" using i(1) by linarith
  then have "blocks s' ! 0 = blocks s ! 0" using r(4) i(4) unfolding ins_post_def by blast
  moreover have "0 \<notin> set (forest_nodes (blocks s') ?l (roots ?r res))"
    using r(4) i(1,4) by (fastforce simp: ins_post_def simp del: set_concat set_map)
  ultimately show ?thesis
    using r m by (intro exI [of _ res] exI [of _ s']) (simp add: index_meta_def)
qed

lemma insert_promote_ok:
  assumes m: "2 \<le> length (blocks s)" "page_meta (blocks s ! 0) = m" "magic m = TRTREE_META_MAGIC"
    and wf: "list_all (wf_tree rel sz (blocks s) l) (roots r res)" "distinct (forest_nodes (blocks s) l (roots r res))"
      "0 \<notin> set (forest_nodes (blocks s) l (roots r res))" "res_split res"
    and res: "spread_box (left_box res)" "spread_box (right_box res)" and env: "llround_env (rd_cenv rel)"
    and lim: "held s = []" "length (blocks s) + 1 < MaxBlockNumber" "Suc l < 65536"
  shows "\<exists>s'. insert_promote rel r l res s = (Inr True, s') \<and> held s' = [] \<and> pins s' = pins s \<and>
    length (blocks s') = Suc (length (blocks s)) \<and> wf_index rel sz s' \<and> index_tuples s' = forest_leaves (blocks s) l (roots r res) \<and>
    root_level (index_meta s') = Suc l \<and> map child (tuples (blocks s' ! meta_root (index_meta s'))) = [r, right_blkno res]"
proof -
  let ?n = "length (blocks s)" and ?b = "right_blkno res"
  have w: "wf_tree rel sz (blocks s) l r" "wf_tree rel sz (blocks s) l ?b"
    and d: "distinct (nodes (blocks s) l r @ nodes (blocks s) l ?b)" "0 \<notin> set (nodes (blocks s) l r @ nodes (blocks s) l ?b)"
    using wf by (simp_all add: roots_def)
  have r: "r < ?n" "r \<noteq> 0" using wf_tree_page [OF w(1)] d(2) root_in_nodes [of r "blocks s" l] by (auto intro: gr0I)
  from root_promote_run [OF r(1) lim(2,3) _ res env, of sz]
  obtain s1 q where s1: "rtree_root_promote rel r res l s = (Inr ?n, s1)" "held s1 = []" "pins s1 = pins s"
      "blocks s1 = (blocks s)[r := clear_root (blocks s ! r)] @ [q]" "root_page rel sz l [r, ?b] q"
    using lim(1) by auto
  let ?m = "m\<lparr>meta_root := ?n, root_level := l + 1\<rparr>" and ?p = "blocks s ! 0"
  let ?s' = "s1\<lparr>blocks := (blocks s1)[0 := set_meta ?m ?p], dirty := insert 0 (dirty s1)\<rparr>"
  have "0 < ?n" using m(1) by linarith
  then have p0: "blocks s1 ! 0 = ?p" and ne: "0 < length (blocks s1)" using r s1(4) by (simp_all add: nth_append)
  have run: "insert_promote rel r l res s = (Inr True, ?s')"
    using s1 m p0 by (simp add: insert_promote_def bindC_def ReadBuffer_run LockBuffer_run lock_conflict_def
        BufferGetPage_run put_page_run MarkBufferDirty_run UnlockReleaseBuffer_run)
  note t1 = root_promote_tree [OF w s1(5,4)]
  have fr: "b < length (blocks ?s') \<and> blocks ?s' ! b = blocks s1 ! b" if "b \<in> set (nodes (blocks s1) (Suc l) ?n)" for b
  proof -
    have "b \<noteq> 0" using that d(2) \<open>0 < ?n\<close> unfolding t1(2) by (intro notI) simp
    then show ?thesis using wf_tree_nodes [OF t1(1) that] by simp
  qed
  have t2: "wf_tree rel sz (blocks ?s') (Suc l) ?n" by (rule wf_tree_frame [OF t1(1)]) (rule fr)
  have t3: "nodes (blocks ?s') (Suc l) ?n = nodes (blocks s1) (Suc l) ?n \<and>
      leaves (blocks ?s') (Suc l) ?n = leaves (blocks s1) (Suc l) ?n"
    by (rule tree_frame) (use fr in blast)
  have lens: "length (blocks ?s') = Suc ?n" using s1(4) by simp
  have m0: "page_meta (blocks ?s' ! 0) = m\<lparr>meta_root := ?n, root_level := Suc l\<rparr>"
    using ne m(3) lim(2,3) by (cases m) (simp add: TRTREE_META_MAGIC_def MaxBlockNumber_def)
  have notn: "?n \<notin> set (nodes (blocks s) l r @ nodes (blocks s) l ?b)"
    using wf_tree_nodes [OF w(1)] wf_tree_nodes [OF w(2)] by fastforce
  have "wf_index rel sz ?s'"
  proof (rule wf_indexI [OF _ m0])
    show "2 \<le> length (blocks ?s')" using lens m(1) by simp
  qed (use m(3) t2 t3 t1(2) d notn m(1) in auto)
  moreover have "index_tuples ?s' = forest_leaves (blocks s) l (roots r res)"
    unfolding index_tuples_def index_meta_def m0 using t3 t1(3) wf(4) by (simp add: roots_def del: leaves.simps)
  moreover have "root_level (index_meta ?s') = Suc l" unfolding index_meta_def m0 by simp
  moreover have "blocks ?s' ! ?n = q" using s1(4) \<open>0 < ?n\<close> by (simp add: nth_append)
  then have "map child (tuples (blocks ?s' ! meta_root (index_meta ?s'))) = [r, ?b]"
    unfolding index_meta_def m0 using s1(5) by (simp add: root_page_def)
  ultimately show ?thesis using run s1 lens by (intro exI [of _ ?s']) simp
qed


text \<open>Insertion of a row whose box is spread: the index gains exactly the tuple of the row.\<close>

lemma insert_ok:
  assumes wf: "wf_index rel sz s"
    and it: "index_form_tuple (Some c) = Inr it0" "it = it0\<lparr>t_tid := tid\<rparr>" "entry_ok rel sz it" "24 \<le> sz" "MAXALIGN sz \<le> 8000"
    and env: "llround_env (rd_cenv rel)"
    and lim: "held s = []" "length (blocks s) + root_level (index_meta s) + 2 < MaxBlockNumber"
      "root_level (index_meta s) + 1 < 65536"
  shows "\<exists>s'. temporal_rtree_insert rel (Some c) tid s = (Inr True, s') \<and> wf_index rel sz s' \<and>
    mset (index_tuples s') = add_mset it (mset (index_tuples s)) \<and> held s' = [] \<and> pins s' = pins s \<and>
    length (blocks s') \<le> length (blocks s) + root_level (index_meta s) + 2 \<and>
    root_level (index_meta s') \<le> Suc (root_level (index_meta s))"
proof -
  define m where "m = index_meta s"
  let ?l = "root_level m" and ?r = "meta_root m"
  obtain box where box: "rtree_index_tuple_box rel it = Some box" using it(3) by (auto simp: entry_ok_def)
  have i: "2 \<le> length (blocks s)" "page_meta (blocks s ! 0) = m" "magic m = TRTREE_META_MAGIC"
      "mset (index_tuples s) = mset (leaves (blocks s) ?l ?r)"
    using wf by (simp_all add: wf_index_def m_def index_meta_def index_tuples_def)
  have lim': "length (blocks s) + ?l + 2 < MaxBlockNumber" "Suc ?l < 65536" using lim by (simp_all add: m_def)
  from insert_tree_ok [OF wf m_def it(3-5) env lim(1) lim'(1), of box]
  obtain res s1 where r: "rtree_insert_page rel ?l ?r it box s = (Inr res, s1)" "held s1 = []" "pins s1 = pins s"
      "ins_post rel sz ?l (blocks s) (blocks s1) ?r res it" "page_meta (blocks s1 ! 0) = m"
      "0 \<notin> set (forest_nodes (blocks s1) ?l (roots ?r res))"
    by (elim exE conjE)
  have post: "length (blocks s) \<le> length (blocks s1)" "length (blocks s1) \<le> length (blocks s) + Suc ?l"
      "list_all (wf_tree rel sz (blocks s1) ?l) (roots ?r res)" "distinct (forest_nodes (blocks s1) ?l (roots ?r res))"
      "mset (forest_leaves (blocks s1) ?l (roots ?r res)) = add_mset it (mset (leaves (blocks s) ?l ?r))"
      "spread_box (left_box res)" "res_split res \<Longrightarrow> spread_box (right_box res)"
    using r(4) unfolding ins_post_def by blast+
  have ne: "0 < length (blocks s)" using i(1) by linarith
  have nl: "\<not> lock_conflict (held s) 0 False" using lim(1) by (simp add: lock_conflict_def)
  have run: "temporal_rtree_insert rel (Some c) tid s =
      (if res_split res then insert_promote rel ?r ?l res else ret True) s1"
    using i(1-3) it(1) nl r(1) box ne
    by (simp add: temporal_rtree_insert_def bindC_def RelationGetNumberOfBlocks_run ReadBuffer_run LockBuffer_run
        BufferGetPage_run UnlockBuffer_run ReleaseBuffer_run Let_def flip: it(2))
  show ?thesis
  proof (cases "res_split res")
    case True
    from insert_promote_ok [OF _ r(5) i(3) post(3,4) r(6) True post(6,7) env r(2)] True
    obtain s' where "insert_promote rel ?r ?l res s1 = (Inr True, s')" "held s' = []" "pins s' = pins s"
        "wf_index rel sz s'" "index_tuples s' = forest_leaves (blocks s1) ?l (roots ?r res)"
        "length (blocks s') = Suc (length (blocks s1))" "root_level (index_meta s') = Suc ?l"
      using post(1,2) i(1) lim' r(3) by auto
    then show ?thesis using run True post(2,5) i(4) by (intro exI [of _ s']) (simp flip: m_def)
  next
    case False
    then have f: "roots ?r res = [?r]" by (simp add: roots_def)
    have "wf_index rel sz s1"
      by (rule wf_indexI [OF _ r(5) i(3)]) (use post(1,3,4) r(6) i(1) f in auto)
    moreover have "mset (index_tuples s1) = add_mset it (mset (index_tuples s))"
      using post(5) f i(4) r(5) by (simp add: index_tuples_def index_meta_def)
    ultimately show ?thesis using run False r post(2)
      by (intro exI [of _ s1]) (simp add: index_meta_def [of s1] flip: m_def)
  qed
qed

text \<open>A null is not indexed: on an existing index the insertion changes nothing.\<close>

lemma insert_null_run:
  assumes "2 \<le> length (blocks s)"
  shows "temporal_rtree_insert rel None tid s = (Inr True, s)"
  using assms by (simp add: temporal_rtree_insert_def bindC_def RelationGetNumberOfBlocks_run index_form_tuple_def
      IndexInfoFindDataOffset_def MAXALIGN_def INDEX_SIZE_MASK_def INDEX_NULL_MASK_def Let_def
      rtree_index_tuple_box_def index_getattr_def)

section \<open>Rows and their tuples\<close>

text \<open>
  The rows the theorems speak of: all index tuples have one size, which is between 24 and 8000
  bytes, and the box of the key is spread: its times are within \<open>2\<^sup>5\<^sup>3\<close> or infinite and, after the rounding to whole seconds, it
  ends later than it starts. This holds for the ranges of the constructor \<^verbatim>\<open>temporalbox\<close> whose bounds round to
  different seconds; their tuples take 48 bytes. It does not hold for instants (\<^verbatim>\<open>temporalbox_point\<close>, and ranges that round to one
  second), whose tuples are smaller than the bounding boxes that are computed for them.
\<close>

definition indexable :: "Relation \<Rightarrow> nat \<Rightarrow> NDBOX \<Rightarrow> bool" where
  "indexable rel sz c \<longleftrightarrow> spread_box (rtree_cube_to_box (rd_cenv rel) c) \<and>
     MAXALIGN (8 + vl_len c) = sz \<and> 24 \<le> sz \<and> sz \<le> 8000"

definition row_tuple :: "ItemPointerData \<Rightarrow> NDBOX \<Rightarrow> IndexTupleData" where
  "row_tuple tid c = \<lparr>t_tid = tid, t_info = INDEX_VAR_MASK OR of_nat (MAXALIGN (8 + vl_len c)), t_key = Some c\<rparr>"

lemma row_tuple_simps [simp]: "t_tid (row_tuple tid c) = tid" "t_key (row_tuple tid c) = Some c"
  by (simp_all add: row_tuple_def)

lemma indexable_tuple:
  assumes "indexable rel sz c"
  obtains it0 where "index_form_tuple (Some c) = Inr it0" "row_tuple tid c = it0\<lparr>t_tid := tid\<rparr>"
    "entry_ok rel sz (row_tuple tid c)" "24 \<le> sz" "MAXALIGN sz \<le> 8000"
proof -
  let ?n = "MAXALIGN (8 + vl_len c)"
  have n: "?n = sz" "24 \<le> sz" "sz \<le> 8000" using assms by (simp_all add: indexable_def)
  have h: "IndexInfoFindDataOffset 0 = 8" by (simp add: IndexInfoFindDataOffset_def MAXALIGN_def)
  have size: "IndexTupleSize (row_tuple tid c) = sz"
    using size_mask [of ?n] n by (simp add: IndexTupleSize_def row_tuple_def)
  have "index_form_tuple (Some c) = Inr ((row_tuple tid c)\<lparr>t_tid := \<lparr>ip_blkid = 0, ip_posid = 0\<rparr>\<rparr>)"
    using n by (simp add: index_form_tuple_def h Let_def row_tuple_def INDEX_SIZE_MASK_def or.commute)
  moreover have "entry_ok rel sz (row_tuple tid c)"
    using size assms by (simp add: entry_ok_def rtree_index_tuple_box_def index_getattr_def row_tuple_def indexable_def)
  moreover have "MAXALIGN sz \<le> 8000" using n by (simp add: MAXALIGN_def)
  moreover have "row_tuple tid c = (row_tuple tid c)\<lparr>t_tid := \<lparr>ip_blkid = 0, ip_posid = 0\<rparr>\<rparr>\<lparr>t_tid := tid\<rparr>"
    by (simp add: row_tuple_def)
  ultimately show thesis using n(2) by (intro that)
qed

text \<open>The limits of an insertion: the relation can be extended by a page for every level and two more, and the level still
  fits 16 bits.\<close>

definition room_for :: "nat \<Rightarrow> istate \<Rightarrow> bool" where
  "room_for k s \<longleftrightarrow> length (blocks s) + k * (root_level (index_meta s) + k + 1) < MaxBlockNumber \<and>
     root_level (index_meta s) + k < 65536"

lemma insert_row_ok:
  assumes "wf_index rel sz s" "indexable rel sz c" "llround_env (rd_cenv rel)" "held s = []" "room_for (Suc k) s"
  shows "\<exists>s'. temporal_rtree_insert rel (Some c) tid s = (Inr True, s') \<and> wf_index rel sz s' \<and>
    mset (index_tuples s') = add_mset (row_tuple tid c) (mset (index_tuples s)) \<and> held s' = [] \<and> pins s' = pins s \<and>
    room_for k s'"
proof -
  obtain it0 where it: "index_form_tuple (Some c) = Inr it0" "row_tuple tid c = it0\<lparr>t_tid := tid\<rparr>"
      "entry_ok rel sz (row_tuple tid c)" "24 \<le> sz" "MAXALIGN sz \<le> 8000"
    by (rule indexable_tuple [OF assms(2)])
  let ?l = "root_level (index_meta s)"
  have r: "length (blocks s) + (?l + k + 2) + k * (?l + k + 2) < MaxBlockNumber" "?l + k + 1 < 65536"
    using assms(5) by (simp_all add: room_for_def)
  then have lim: "length (blocks s) + ?l + 2 < MaxBlockNumber" "?l + 1 < 65536" by linarith+
  from insert_ok [OF assms(1) it assms(3,4) lim]
  obtain s' where s': "temporal_rtree_insert rel (Some c) tid s = (Inr True, s')" "wf_index rel sz s'"
      "mset (index_tuples s') = add_mset (row_tuple tid c) (mset (index_tuples s))" "held s' = []" "pins s' = pins s"
      "length (blocks s') \<le> length (blocks s) + ?l + 2" "root_level (index_meta s') \<le> Suc ?l"
    by (elim exE conjE)
  have "k * (root_level (index_meta s') + k + 1) \<le> k * (?l + k + 2)" using s'(7) by (intro mult_le_mono) simp_all
  then have "room_for k s'" using s'(6,7) r by (simp add: room_for_def)
  with s' show ?thesis by blast
qed

section \<open>The initial build\<close>

record IndexBuildResult =
  heap_tuples :: rat
  index_tuples_built :: rat

text \<open>
  \<^verbatim>\<open>table_index_build_scan\<close> of the heap calls the callback with the indexed value of every row and returns
  the number of rows: both are an argument here. The counter is a double that counts exactly below
  \<open>2\<^sup>5\<^sup>3\<close>, above the number of rows of any heap.
\<close>

definition rtree_build_callback :: "Relation \<Rightarrow> rat \<Rightarrow> ItemPointerData \<times> NDBOX option \<Rightarrow> rat op" where
  "rtree_build_callback rel indexTuples row =
     (case row of (tid, value) \<Rightarrow>
        bindC (temporal_rtree_insert rel value tid) (\<lambda>inserted.
        ret (if inserted then indexTuples + 1 else indexTuples)))"

definition temporal_rtree_build ::
  "Relation \<Rightarrow> (ItemPointerData \<times> NDBOX option) list \<times> rat \<Rightarrow> IndexBuildResult op" where
  "temporal_rtree_build rel heap_scan =
     bindC (rtree_meta_and_root_init rel) (\<lambda>_.
     case heap_scan of (rows, reltuples) \<Rightarrow>
     bindC (foldC (rtree_build_callback rel) 0 rows) (\<lambda>indexTuples.
     ret \<lparr>heap_tuples = reltuples, index_tuples_built = indexTuples\<rparr>))"

definition row_tuples :: "(ItemPointerData \<times> NDBOX option) list \<Rightarrow> IndexTupleData list" where
  "row_tuples rows = [row_tuple tid c. (tid, Some c) \<leftarrow> rows]"

lemma row_tuples_simps [simp]:
  "row_tuples [] = []" "row_tuples ((tid, None) # rows) = row_tuples rows"
  "row_tuples ((tid, Some c) # rows) = row_tuple tid c # row_tuples rows"
  by (simp_all add: row_tuples_def)

definition rows_indexable :: "Relation \<Rightarrow> nat \<Rightarrow> (ItemPointerData \<times> NDBOX option) list \<Rightarrow> bool" where
  "rows_indexable rel sz rows \<longleftrightarrow> list_all (\<lambda>(tid, v). case v of None \<Rightarrow> True | Some c \<Rightarrow> indexable rel sz c) rows"

lemma room_for_Suc: "room_for (Suc k) s \<Longrightarrow> room_for k s"
  by (simp add: room_for_def)

lemma build_fold_ok:
  assumes "wf_index rel sz s" "rows_indexable rel sz rows" "llround_env (rd_cenv rel)" "held s = []" "room_for (length rows + k) s"
  shows "\<exists>s'. foldC (rtree_build_callback rel) n rows s = (Inr (n + of_nat (length rows)), s') \<and> wf_index rel sz s' \<and>
    mset (index_tuples s') = mset (row_tuples rows) + mset (index_tuples s) \<and> held s' = [] \<and> pins s' = pins s \<and> room_for k s'"
  using assms
proof (induction rows arbitrary: s n)
  case Nil
  then show ?case by simp
next
  case (Cons row rows)
  obtain tid v where row: "row = (tid, v)" by fastforce
  have "\<exists>s1. temporal_rtree_insert rel v tid s = (Inr True, s1) \<and> wf_index rel sz s1 \<and> held s1 = [] \<and> pins s1 = pins s \<and>
      room_for (length rows + k) s1 \<and> mset (index_tuples s1) = mset (row_tuples [row]) + mset (index_tuples s)"
  proof (cases v)
    case None
    then show ?thesis
      using insert_null_run [of s rel tid] Cons.prems room_for_Suc [of "length rows + k" s] row by (auto simp: wf_index_def)
  next
    case (Some c)
    have "indexable rel sz c" using Cons.prems(2) row Some by (simp add: rows_indexable_def)
    from insert_row_ok [OF Cons.prems(1) this Cons.prems(3,4), of "length rows + k" tid] show ?thesis
      using Cons.prems(5) row Some by auto
  qed
  then obtain s1 where s1: "temporal_rtree_insert rel v tid s = (Inr True, s1)" "wf_index rel sz s1" "held s1 = []"
      "pins s1 = pins s" "room_for (length rows + k) s1"
      "mset (index_tuples s1) = mset (row_tuples [row]) + mset (index_tuples s)"
    by (elim exE conjE)
  have "rows_indexable rel sz rows" using Cons.prems(2) by (simp add: rows_indexable_def)
  from Cons.IH [OF s1(2) this Cons.prems(3) s1(3,5), of "n + 1"] obtain s2 where
      s2: "foldC (rtree_build_callback rel) (n + 1) rows s1 = (Inr (n + 1 + of_nat (length rows)), s2)" "wf_index rel sz s2"
      "mset (index_tuples s2) = mset (row_tuples rows) + mset (index_tuples s1)" "held s2 = []" "pins s2 = pins s1" "room_for k s2"
    by (elim exE conjE)
  have "foldC (rtree_build_callback rel) n (row # rows) s = (Inr (n + of_nat (length (row # rows))), s2)"
    using s1(1) s2(1) row by (simp add: rtree_build_callback_def ac_simps)
  moreover have "mset (row_tuples rows) + mset (row_tuples [row]) = mset (row_tuples (row # rows))"
    unfolding row by (cases v) simp_all
  ultimately show ?case using s1 s2 by (intro exI [of _ s2]) simp
qed

lemma room_for_mono: "room_for k s \<Longrightarrow> j \<le> k \<Longrightarrow> room_for j s"
  by (induction k) (auto simp: le_Suc_eq dest: room_for_Suc)

lemma build_ok:
  assumes "blocks s = []" "held s = []" "rows_indexable rel sz rows" "llround_env (rd_cenv rel)" "length rows + k \<le> 60000"
  shows "\<exists>s'. temporal_rtree_build rel (rows, reltuples) s =
      (Inr \<lparr>heap_tuples = reltuples, index_tuples_built = of_nat (length rows)\<rparr>, s') \<and> wf_index rel sz s' \<and>
    mset (index_tuples s') = mset (row_tuples rows) \<and> held s' = [] \<and> pins s' = pins s \<and> room_for k s'"
proof -
  from buildempty_ok [OF assms(1), of rel sz] obtain s1 where s1: "temporal_rtree_buildempty rel s = (Inr (), s1)"
      "wf_index rel sz s1" "index_tuples s1 = []" "held s1 = held s" "pins s1 = pins s" "length (blocks s1) = 2"
      "root_level (index_meta s1) = 0"
    by (elim exE conjE)
  let ?n = "length rows + k"
  have "?n * (?n + 1) \<le> 60000 * (60000 + 1)" using assms(5) by (intro mult_le_mono) simp_all
  then have room: "room_for ?n s1" using s1(6,7) assms(5) by (simp add: room_for_def MaxBlockNumber_def)
  have "held s1 = []" using s1(4) assms(2) by simp
  from build_fold_ok [OF s1(2) assms(3,4) this room, of 0]
  obtain s2 where s2: "foldC (rtree_build_callback rel) 0 rows s1 = (Inr (0 + of_nat (length rows)), s2)"
      "wf_index rel sz s2" "mset (index_tuples s2) = mset (row_tuples rows) + mset (index_tuples s1)" "held s2 = []"
      "pins s2 = pins s1" "room_for k s2"
    by (elim exE conjE)
  show ?thesis
    using s1 s2 by (intro exI [of _ s2]) (simp add: temporal_rtree_build_def flip: temporal_rtree_buildempty_def)
qed

section \<open>Properties\<close>

text \<open>C5. Insertion of a row into a well-formed index returns true, keeps the index well formed, adds
  exactly the tuple of the row to its contents, and gives back every lock and pin.\<close>

theorem insert_adds_row:
  assumes "wf_index rel sz s" "indexable rel sz c" "llround_env (rd_cenv rel)" "held s = []" "room_for (Suc k) s"
  shows "\<exists>s'. temporal_rtree_insert rel (Some c) tid s = (Inr True, s') \<and> wf_index rel sz s' \<and>
    mset (index_tuples s') = add_mset (row_tuple tid c) (mset (index_tuples s)) \<and> held s' = [] \<and> pins s' = pins s \<and>
    room_for k s'"
  using assms by (rule insert_row_ok)

text \<open>C7. From at most 60000 rows that are indexable (null, or tuples of one size with a spread box, see \<open>indexable\<close>), the build makes a
  well-formed index with exactly one tuple for every row whose value is not null, reports the number of all rows, and gives back every lock
  and pin. The out-of-range result of \<^verbatim>\<open>llround\<close> is taken as on x86-64 or a saturating platform (\<open>llround_env\<close>).\<close>

theorem build_contents:
  assumes "blocks s = []" "held s = []" "rows_indexable rel sz rows" "llround_env (rd_cenv rel)" "length rows \<le> 60000"
  shows "\<exists>s'. temporal_rtree_build rel (rows, reltuples) s =
      (Inr \<lparr>heap_tuples = reltuples, index_tuples_built = of_nat (length rows)\<rparr>, s') \<and> wf_index rel sz s' \<and>
    mset (index_tuples s') = mset (row_tuples rows) \<and> held s' = [] \<and> pins s' = pins s"
  using build_ok [OF assms(1-4), of 0 reltuples] assms(5) by auto

section \<open>Examples\<close>

definition empty_relation :: istate where
  "empty_relation = \<lparr>blocks = [], held = [], pins = [], dirty = {}, wal = []\<rparr>"

definition demo_tid :: "nat \<Rightarrow> ItemPointerData" where
  "demo_tid n = \<lparr>ip_blkid = n, ip_posid = 1\<rparr>"

lemma demo_env: "llround_env (rd_cenv demo_rel)"
  by (simp add: llround_env_def demo_rel_def x86_env_def int_range_64 PG_INT64_MIN_def PG_INT64_MAX_def)

lemma row_cube_spread: "spread_box (rtree_cube_to_box ce row_cube)"
proof -
  have "round_away 10 = 10" "round_away 20 = 20" using round_away_of_int [of 10] round_away_of_int [of 20] by simp_all
  then have "lower_us (rtree_cube_to_box ce row_cube) = 10" "upper_us (rtree_cube_to_box ce row_cube) = 20"
    unfolding rtree_cube_to_box_temporal [OF row_cube_wf(1)]
    by (simp_all add: row_cube_def cube_ll_def cube_ur_def IS_POINT_def dim2_header us_lower_def us_upper_def)
  then show ?thesis by (simp add: spread_box_def rtree_cube_to_box_flags)
qed

lemma demo_row: "indexable demo_rel 48 row_cube"
  using row_cube_spread by (simp add: indexable_def row_cube_def MAXALIGN_def)

lemma demo_index:
  obtains s where "wf_index demo_rel 48 s" "index_tuples s = [row_tuple (demo_tid 5) row_cube]" "held s = []" "pins s = []"
    "length (blocks s) = 2" "root_level (index_meta s) = 0"
proof -
  let ?leaf = "rtree_init_datapage (TRTREE_PAGE_LEAF OR TRTREE_PAGE_ROOT) 0" and ?it = "row_tuple (demo_tid 5) row_cube"
  let ?s = "empty_relation\<lparr>blocks := [rtree_init_metapage 1 0, ?leaf]\<rparr>"
  note init = init_datapage_ok [of "TRTREE_PAGE_LEAF OR TRTREE_PAGE_ROOT" 0]
  obtain it0 where it: "entry_ok demo_rel 48 ?it" by (rule indexable_tuple [OF demo_row])
  then have real: "real_itup ?it" "tuple_space ?it = 52"
    by (simp_all add: entry_ok_def tuple_space_def MAXALIGN_def page_consts)
  obtain p where p: "rpage_ok p" "tuples p = [?it]" "pd_opaque p = pd_opaque ?leaf"
    by (rule BufferAddItem_fits [of 1 ?s ?it]) (use init real in simp_all)
  have "page_opaque p = page_opaque ?leaf" using p(3) by (simp add: page_opaque_def)
  then have "leaf_page p" "op_level (page_opaque p) = 0"
    unfolding leaf_page_def init by (simp_all add: TRTREE_PAGE_LEAF_def TRTREE_PAGE_ROOT_def)
  then have "node_page demo_rel 48 0 p" using p it by (simp add: node_page_def entry_size_def)
  then have wf: "wf_index demo_rel 48 (empty_relation\<lparr>blocks := [rtree_init_metapage 1 0, p]\<rparr>)"
    by (intro wf_indexI [where m = "page_meta (rtree_init_metapage 1 0)"]) (simp_all add: init_metapage_meta)
  show thesis
    by (rule that [of "empty_relation\<lparr>blocks := [rtree_init_metapage 1 0, p]\<rparr>"])
      (use wf p(2) in \<open>simp_all add: index_tuples_def index_meta_def init_metapage_meta empty_relation_def\<close>)
qed

theorem insert_adds_row_witness:
  "\<exists>s s'. temporal_rtree_buildempty demo_rel empty_relation = (Inr (), s) \<and>
     temporal_rtree_insert demo_rel (Some row_cube) (demo_tid 5) s = (Inr True, s') \<and> wf_index demo_rel 48 s' \<and>
     mset (index_tuples s') = {# row_tuple (demo_tid 5) row_cube #}"
proof -
  from buildempty_ok [of empty_relation demo_rel 48] obtain s where s: "temporal_rtree_buildempty demo_rel empty_relation = (Inr (), s)"
      "wf_index demo_rel 48 s" "index_tuples s = []" "held s = []" "length (blocks s) = 2" "root_level (index_meta s) = 0"
    by (auto simp: empty_relation_def)
  have "room_for (Suc 0) s" using s by (simp add: room_for_def MaxBlockNumber_def)
  from insert_adds_row [OF s(2) demo_row demo_env s(4) this, of "demo_tid 5"] s(1,3) show ?thesis by auto
qed

theorem build_contents_witness:
  "\<exists>s'. temporal_rtree_build demo_rel ([(demo_tid 5, Some row_cube), (demo_tid 6, None)], 2) empty_relation =
      (Inr \<lparr>heap_tuples = 2, index_tuples_built = 2\<rparr>, s') \<and> wf_index demo_rel 48 s' \<and>
     mset (index_tuples s') = {# row_tuple (demo_tid 5) row_cube #} \<and> held s' = []"
  using build_contents [of empty_relation demo_rel 48 "[(demo_tid 5, Some row_cube), (demo_tid 6, None)]" 2] demo_row demo_env
  by (auto simp: empty_relation_def rows_indexable_def)

end
