(* ===== verification/TR_Search.thy ===== *)
theory TR_Search
  imports TR_Index
begin

text \<open>
  \<^verbatim>\<open>temporal_rtree_search.c\<close>: scan descriptors, the choice of the scan key, and the traversal with an explicit stack that returns one
  tuple per call. The lemmas show that the traversal ends on every state and that on a well-formed index it
  returns the matching tuples at the leaves, one after the other.
\<close>

section \<open>Scan descriptors\<close>

record ScanKeyData =
  sk_flags :: int
  sk_strategy :: nat
  sk_argument :: NDBOX

record RTreeScanFrameData =
  fr_blkno :: nat
  fr_level :: nat
  next_offset :: nat

text \<open>The stack is a list with its top first: \<^verbatim>\<open>stack_top\<close> is its length. \<open>None\<close> is \<^verbatim>\<open>InvalidBuffer\<close>.\<close>

record RTreeScanOpaqueData =
  cur_buf :: "nat option"
  cur_offset :: nat
  cur_blkno :: nat
  first_call :: bool
  query_box :: RTreeTemporalBox
  strategy :: nat
  have_query :: bool
  stack :: "RTreeScanFrameData list"
  stack_size :: nat

record IndexScanDescData =
  numberOfKeys :: nat
  keyData :: "ScanKeyData list option"
  xs_heaptid :: ItemPointerData
  xs_recheck :: bool
  scan_opaque :: "RTreeScanOpaqueData option"

datatype ScanDirection = BackwardScanDirection | NoMovementScanDirection | ForwardScanDirection

definition SK_ISNULL :: int where "SK_ISNULL = 1"

text \<open>The descriptor is allocated in memory \<open>mem\<close> and the key workspace is not filled before
  \<^verbatim>\<open>amrescan\<close>: \<open>uninit\<close> is what it holds.\<close>

definition RelationGetIndexScan :: "IndexScanDescData \<Rightarrow> ScanKeyData \<Rightarrow> nat \<Rightarrow> IndexScanDescData" where
  "RelationGetIndexScan mem uninit nkeys =
     mem\<lparr>numberOfKeys := nkeys, keyData := (if nkeys > 0 then Some (replicate nkeys uninit) else None),
       scan_opaque := None\<rparr>"

section \<open>The functions of temporal\_rtree\_search.c\<close>

definition rtree_read_meta :: "RTreeMetaPageData op" where
  "rtree_read_meta =
     bindC (ReadBuffer 0) (\<lambda>buf.
     bindC (LockBuffer buf False) (\<lambda>_.
     bindC (BufferGetPage buf) (\<lambda>page.
     let meta = page_meta page in
     bindC (UnlockBuffer buf) (\<lambda>_.
     bindC (ReleaseBuffer buf) (\<lambda>_.
     ret meta)))))"

definition rtree_parse_query ::
  "Relation \<Rightarrow> IndexScanDescData \<Rightarrow> (RTreeTemporalBox \<times> nat) option" where
  "rtree_parse_query rel scan =
     (case find (\<lambda>key. \<not> (sk_flags key AND SK_ISNULL \<noteq> 0) \<and>
                       \<not> (sk_strategy key < TRTREE_STRATEGY_OVERLAP \<or> sk_strategy key > TRTREE_STRATEGY_CONTAINED))
              (case keyData scan of None \<Rightarrow> [] | Some ks \<Rightarrow> take (numberOfKeys scan) ks) of
        None \<Rightarrow> None
      | Some key \<Rightarrow> Some (rtree_cube_to_box (rd_cenv rel) (sk_argument key), sk_strategy key))"

definition rtree_ensure_query ::
  "Relation \<Rightarrow> IndexScanDescData \<Rightarrow> RTreeScanOpaqueData \<Rightarrow> bool \<times> RTreeScanOpaqueData" where
  "rtree_ensure_query rel scan op =
     (if have_query op then (True, op)
      else case rtree_parse_query rel scan of
        None \<Rightarrow> (False, op)
      | Some (q, st) \<Rightarrow> (True, op\<lparr>query_box := q, strategy := st, have_query := True\<rparr>))"

definition rtree_release_current_page :: "RTreeScanOpaqueData \<Rightarrow> RTreeScanOpaqueData op" where
  "rtree_release_current_page op =
     (case cur_buf op of
        None \<Rightarrow> ret op
      | Some buf \<Rightarrow>
          bindC (UnlockBuffer buf) (\<lambda>_.
          bindC (ReleaseBuffer buf) (\<lambda>_.
          ret (op\<lparr>cur_buf := None, cur_blkno := InvalidBlockNumber\<rparr>))))"

definition rtree_stack_reset :: "RTreeScanOpaqueData \<Rightarrow> RTreeScanOpaqueData" where
  "rtree_stack_reset op = op\<lparr>stack := []\<rparr>"

definition rtree_stack_push :: "RTreeScanOpaqueData \<Rightarrow> nat \<Rightarrow> nat \<Rightarrow> nat \<Rightarrow> RTreeScanOpaqueData" where
  "rtree_stack_push op blk lvl next =
     (let op = (if length (stack op) \<ge> stack_size op then op\<lparr>stack_size := max (stack_size op * 2) 16\<rparr> else op)
      in op\<lparr>stack := \<lparr>fr_blkno = blk, fr_level = lvl, next_offset = next\<rparr> # stack op\<rparr>)"

definition rtree_initialize_scan ::
  "Relation \<Rightarrow> IndexScanDescData \<Rightarrow> RTreeScanOpaqueData \<Rightarrow> (bool \<times> RTreeScanOpaqueData) op" where
  "rtree_initialize_scan rel scan op =
     (case rtree_ensure_query rel scan op of (ok, op) \<Rightarrow>
      if \<not> ok then ret (False, op)
      else
      bindC rtree_read_meta (\<lambda>meta.
      if magic meta \<noteq> TRTREE_META_MAGIC then ret (False, op)
      else
      let op = rtree_stack_reset op in
      bindC (rtree_release_current_page op) (\<lambda>op.
      let op = op\<lparr>first_call := False\<rparr> in
      if meta_root meta = InvalidBlockNumber then ret (False, op)
      else ret (True, rtree_stack_push op (meta_root meta) (root_level meta) FirstOffsetNumber))))"

text \<open>
  One iteration of the loop of \<^verbatim>\<open>rtree_scan_next\<close>: it returns a tuple, ends the loop, or goes on. After the page
  is loaded \<^verbatim>\<open>cur_buf\<close> holds the block of the frame.
\<close>

datatype scan_outcome = ScanFound ItemPointerData | ScanDone | ScanContinue

definition rtree_scan_load :: "RTreeScanOpaqueData \<Rightarrow> RTreeScanFrameData \<Rightarrow> RTreeScanOpaqueData op" where
  "rtree_scan_load op frame =
     (if cur_buf op = None \<or> cur_blkno op \<noteq> fr_blkno frame then
        bindC (rtree_release_current_page op) (\<lambda>op.
        bindC (ReadBuffer (fr_blkno frame)) (\<lambda>buf.
        bindC (LockBuffer buf False) (\<lambda>_.
        ret (op\<lparr>cur_buf := Some buf, cur_blkno := fr_blkno frame\<rparr>))))
      else ret op)"

text \<open>The first tuple from \<^verbatim>\<open>next_offset\<close> on the loop over the offsets stops at: a matching one at a leaf, any
  one with a box at an inner page.\<close>

definition scan_stops ::
  "Relation \<Rightarrow> RTreeTemporalBox \<Rightarrow> nat \<Rightarrow> nat \<Rightarrow> IndexTupleData \<Rightarrow> bool" where
  "scan_stops rel query st lvl it =
     (case rtree_index_tuple_box rel it of
        None \<Rightarrow> False
      | Some box \<Rightarrow> if lvl = 0 then rtree_box_matches_strategy box query st else True)"

definition scan_find ::
  "Relation \<Rightarrow> RTreeScanOpaqueData \<Rightarrow> RTreeScanFrameData \<Rightarrow> rpage \<Rightarrow> (nat \<times> IndexTupleData) option" where
  "scan_find rel op frame page =
     find (\<lambda>(off, it). scan_stops rel (query_box op) (strategy op) (fr_level frame) it)
       (used_tuples_from rel page (next_offset frame))"

definition rtree_scan_step ::
  "Relation \<Rightarrow> RTreeScanOpaqueData \<Rightarrow> (scan_outcome \<times> RTreeScanOpaqueData) op" where
  "rtree_scan_step rel op =
     (case stack op of
        [] \<Rightarrow> ret (ScanDone, op)
      | frame # frames \<Rightarrow>
          bindC (rtree_scan_load op frame) (\<lambda>op.
          bindC (BufferGetPage (fr_blkno frame)) (\<lambda>page.
          case scan_find rel op frame page of
            Some (offset, it) \<Rightarrow>
              let op = op\<lparr>stack := frame\<lparr>next_offset := offset + 1\<rparr> # frames\<rparr> in
              if fr_level frame = 0 then ret (ScanFound (t_tid it), op\<lparr>cur_offset := offset\<rparr>)
              else
                bindC (rtree_release_current_page op) (\<lambda>op.
                ret (ScanContinue,
                     rtree_stack_push op (ip_blkid (t_tid it)) (fr_level frame - 1) FirstOffsetNumber))
          | None \<Rightarrow>
              bindC (rtree_release_current_page op) (\<lambda>op. ret (ScanContinue, op\<lparr>stack := frames\<rparr>)))))"


text \<open>The loop ends on every state, also when the blocks are not a tree: a step replaces a frame by smaller ones.\<close>

definition frame_key :: "rpage list \<Rightarrow> RTreeScanFrameData \<Rightarrow> nat \<times> nat" where
  "frame_key bs f = (fr_level f, Suc (PageGetMaxOffsetNumber (bs ! fr_blkno f)) - next_offset f)"

definition scan_order :: "((Relation \<times> RTreeScanOpaqueData \<times> istate) \<times> (Relation \<times> RTreeScanOpaqueData \<times> istate)) set" where
  "scan_order = inv_image (mult (less_than <*lex*> less_than))
     (\<lambda>(rel, op, s). mset (map (frame_key (blocks s)) (stack op)))"

lemma scan_order_wf: "wf scan_order"
  unfolding scan_order_def by (intro wf_inv_image wf_mult wf_lex_prod wf_less_than)

lemma release_run:
  "\<exists>s'. rtree_release_current_page op s = (Inr (op\<lparr>cur_buf := None,
      cur_blkno := (if cur_buf op = None then cur_blkno op else InvalidBlockNumber)\<rparr>), s') \<and> blocks s' = blocks s"
  by (auto simp: rtree_release_current_page_def bindC_def UnlockBuffer_run ReleaseBuffer_run split: option.splits)

lemma load_blocks:
  "rtree_scan_load op frame s = (Inr op', s') \<Longrightarrow> blocks s' = blocks s \<and> stack op' = stack op \<and>
     query_box op' = query_box op \<and> strategy op' = strategy op"
  using release_run [of op s]
  by (auto simp: rtree_scan_load_def bindC_def ReadBuffer_def LockBuffer_def split: if_splits)

lemma used_offsets: "(off, it) \<in> set (used_tuples_from rel p k) \<Longrightarrow> k \<le> off \<and> off \<le> PageGetMaxOffsetNumber p"
  by (auto simp: used_tuples_from_def)

lemma find_SomeD: "find P xs = Some x \<Longrightarrow> x \<in> set xs \<and> P x"
  by (auto simp: find_Some_iff)

lemma scan_find_offset:
  "scan_find rel op frame page = Some (off, it) \<Longrightarrow> next_offset frame \<le> off \<and> off \<le> PageGetMaxOffsetNumber page"
  unfolding scan_find_def by (drule find_SomeD) (blast dest: used_offsets)

lemma scan_step_order:
  assumes "rtree_scan_step rel op s = (Inr (ScanContinue, op'), s')"
  shows "((rel, op', s'), (rel, op, s)) \<in> scan_order"
proof (cases "stack op")
  case Nil
  then show ?thesis using assms by (simp add: rtree_scan_step_def)
next
  case (Cons f fs)
  obtain op1 s1 where l: "rtree_scan_load op f s = (Inr op1, s1)"
    using assms Cons by (auto simp: rtree_scan_step_def elim!: bindC_InrE)
  note lb = load_blocks [OF l]
  let ?r = "less_than <*lex*> less_than" and ?p = "blocks s ! fr_blkno f" and ?k = "frame_key (blocks s)"
  have "\<exists>gs. stack op' = gs @ fs \<and> blocks s' = blocks s \<and> (\<forall>g \<in> set gs. (?k g, ?k f) \<in> ?r)"
  proof (cases "scan_find rel op1 f ?p")
    case None
    then show ?thesis using assms Cons l lb release_run [of op1 s1]
      by (auto simp: rtree_scan_step_def bindC_def BufferGetPage_run)
  next
    case (Some x)
    obtain off it where x: "x = (off, it)" by fastforce
    let ?f' = "f\<lparr>next_offset := off + 1\<rparr>"
    let ?g = "\<lparr>fr_blkno = ip_blkid (t_tid it), fr_level = fr_level f - 1, next_offset = FirstOffsetNumber\<rparr>"
    have lvl: "fr_level f \<noteq> 0"
      using assms Cons l lb Some x
      by (intro notI) (auto simp: rtree_scan_step_def bindC_def BufferGetPage_run Let_def)
    then have "stack op' = [?g, ?f'] @ fs" "blocks s' = blocks s"
      using assms Cons l lb Some x release_run [of "op1\<lparr>stack := ?f' # fs\<rparr>" s1]
      by (auto simp: rtree_scan_step_def bindC_def BufferGetPage_run rtree_stack_push_def Let_def)
    moreover have "(?k ?f', ?k f) \<in> ?r" "(?k ?g, ?k f) \<in> ?r"
      using scan_find_offset [of rel op1 f ?p off it] Some x lvl by (auto simp: frame_key_def)
    ultimately show ?thesis by (intro exI [of _ "[?g, ?f']"]) simp
  qed
  then obtain gs where gs: "stack op' = gs @ fs" "blocks s' = blocks s" "\<forall>g \<in> set gs. (?k g, ?k f) \<in> ?r"
    by blast
  have "(mset (map ?k fs) + mset (map ?k gs), mset (map ?k fs) + {#?k f#}) \<in> mult ?r"
    using gs(3) by (intro one_step_implies_mult) auto
  then show ?thesis using gs Cons by (simp add: scan_order_def ac_simps)
qed

function (sequential) rtree_scan_loop ::
  "Relation \<Rightarrow> RTreeScanOpaqueData \<Rightarrow> istate \<Rightarrow> (pg_error + scan_outcome \<times> RTreeScanOpaqueData) \<times> istate" where
  "rtree_scan_loop rel op s =
     (case rtree_scan_step rel op s of
        (Inr (ScanContinue, op'), s') \<Rightarrow> rtree_scan_loop rel op' s'
      | r \<Rightarrow> r)"
  by pat_completeness auto
termination
  by (relation scan_order) (auto intro: scan_order_wf scan_step_order)

declare rtree_scan_loop.simps [simp del]


definition with_opaque :: "IndexScanDescData \<Rightarrow> RTreeScanOpaqueData \<Rightarrow> IndexScanDescData" where
  "with_opaque scan op = scan\<lparr>scan_opaque := Some op\<rparr>"

definition rtree_scan_next ::
  "Relation \<Rightarrow> IndexScanDescData \<Rightarrow> RTreeScanOpaqueData \<Rightarrow> (bool \<times> IndexScanDescData) op" where
  "rtree_scan_next rel scan op =
     bindC (rtree_scan_loop rel op) (\<lambda>(r, op).
     case r of
       ScanFound tid \<Rightarrow> ret (True, (with_opaque scan op)\<lparr>xs_heaptid := tid, xs_recheck := False\<rparr>)
     | _ \<Rightarrow> ret (False, with_opaque scan op))"

definition temporal_rtree_beginscan :: "IndexScanDescData \<Rightarrow> ScanKeyData \<Rightarrow> nat \<Rightarrow> IndexScanDescData" where
  "temporal_rtree_beginscan mem uninit nkeys =
     with_opaque (RelationGetIndexScan mem uninit nkeys)
       \<lparr>cur_buf = None, cur_offset = InvalidOffsetNumber, cur_blkno = InvalidBlockNumber, first_call = True,
        query_box = zero_box, strategy = 0, have_query = False, stack = [], stack_size = 16\<rparr>"

definition temporal_rtree_gettuple ::
  "Relation \<Rightarrow> IndexScanDescData \<Rightarrow> ScanDirection \<Rightarrow> (bool \<times> IndexScanDescData) op" where
  "temporal_rtree_gettuple rel scan dir =
     (case scan_opaque scan of
        None \<Rightarrow> ret (False, scan)
      | Some op \<Rightarrow>
          if dir \<noteq> ForwardScanDirection then ret (False, scan)
          else if first_call op then
            bindC (rtree_initialize_scan rel scan op) (\<lambda>(ok, op).
            if \<not> ok then ret (False, with_opaque scan op) else rtree_scan_next rel scan op)
          else rtree_scan_next rel scan op)"

text \<open>The keys are \<open>None\<close> for a null pointer. Copying more keys than the workspace has room for is an error of the
  model.\<close>

definition temporal_rtree_rescan ::
  "IndexScanDescData \<Rightarrow> ScanKeyData list option \<Rightarrow> IndexScanDescData op" where
  "temporal_rtree_rescan scan key =
     (case scan_opaque scan of
        None \<Rightarrow> ret scan
      | Some op \<Rightarrow>
          bindC (case key of
              None \<Rightarrow> ret scan
            | Some ks \<Rightarrow>
                if ks = [] then ret scan
                else (case keyData scan of
                  None \<Rightarrow> raise KeyDataNull
                | Some old \<Rightarrow>
                    if length ks > length old then raise ArrayOverrun
                    else ret (scan\<lparr>keyData := Some (ks @ drop (length ks) old), numberOfKeys := length ks\<rparr>))) (\<lambda>scan.
          bindC (rtree_release_current_page op) (\<lambda>op.
          let op = rtree_stack_reset op in
          ret (with_opaque scan (op\<lparr>first_call := True, have_query := False, cur_offset := InvalidOffsetNumber,
                 cur_blkno := InvalidBlockNumber\<rparr>)))))"

definition temporal_rtree_endscan :: "IndexScanDescData \<Rightarrow> IndexScanDescData op" where
  "temporal_rtree_endscan scan =
     (case scan_opaque scan of
        None \<Rightarrow> ret scan
      | Some op \<Rightarrow>
          bindC (rtree_release_current_page op) (\<lambda>_.
          ret (scan\<lparr>scan_opaque := None\<rparr>)))"

section \<open>What is left of a scan\<close>

text \<open>The leaf tuples below the remaining entries of a frame, and the matching ones below all frames.\<close>

definition matches :: "Relation \<Rightarrow> RTreeTemporalBox \<Rightarrow> nat \<Rightarrow> IndexTupleData \<Rightarrow> bool" where
  "matches rel q st it \<longleftrightarrow> (case rtree_index_tuple_box rel it of None \<Rightarrow> False
     | Some b \<Rightarrow> rtree_box_matches_strategy b q st)"

definition frame_leaves :: "rpage list \<Rightarrow> RTreeScanFrameData \<Rightarrow> IndexTupleData list" where
  "frame_leaves bs f = (let ts = drop (next_offset f - 1) (tuples (bs ! fr_blkno f)) in
     case fr_level f of 0 \<Rightarrow> ts | Suc l \<Rightarrow> kid_leaves bs l ts)"

definition pending :: "Relation \<Rightarrow> rpage list \<Rightarrow> RTreeScanOpaqueData \<Rightarrow> IndexTupleData list" where
  "pending rel bs op = filter (matches rel (query_box op) (strategy op)) (concat (map (frame_leaves bs) (stack op)))"

text \<open>A scan of a well-formed tree: its frames are on nodes of the tree; it holds a share lock on its current page,
  if it has one, and has changed nothing else of the state \<open>s0\<close> it began in.\<close>

definition frame_ok :: "Relation \<Rightarrow> nat \<Rightarrow> rpage list \<Rightarrow> RTreeScanFrameData \<Rightarrow> bool" where
  "frame_ok rel sz bs f \<longleftrightarrow> wf_tree rel sz bs (fr_level f) (fr_blkno f) \<and> 0 < next_offset f"

definition shared_only :: "(nat \<times> bool) list \<Rightarrow> bool" where
  "shared_only h \<longleftrightarrow> (\<forall>b. (b, True) \<notin> set h)"

definition cursor_locks :: "istate \<Rightarrow> RTreeScanOpaqueData \<Rightarrow> istate \<Rightarrow> bool" where
  "cursor_locks s0 op s \<longleftrightarrow> shared_only (held s0) \<and>
     (case cur_buf op of None \<Rightarrow> s = s0
      | Some b \<Rightarrow> cur_blkno op = b \<and> s = s0\<lparr>pins := b # pins s0, held := (b, False) # held s0\<rparr>)"

lemma scan_stops_leaf: "scan_stops rel q st 0 = matches rel q st"
  by (auto simp: scan_stops_def matches_def fun_eq_iff split: option.splits)

lemma scan_stops_inner: "entry_ok rel k it \<Longrightarrow> scan_stops rel q st (Suc l) it"
  by (auto simp: scan_stops_def entry_ok_def)

lemma release_ok:
  assumes "cursor_locks s0 op s"
  shows "\<exists>blk s'. rtree_release_current_page op s = (Inr (op\<lparr>cur_buf := None, cur_blkno := blk\<rparr>), s') \<and>
    cursor_locks s0 (op\<lparr>cur_buf := None, cur_blkno := blk\<rparr>) s' \<and> blocks s' = blocks s"
proof (cases "cur_buf op")
  case None
  then show ?thesis using assms
    by (intro exI [of _ "cur_blkno op"] exI [of _ s]) (simp add: rtree_release_current_page_def cursor_locks_def)
next
  case (Some b)
  then show ?thesis using assms
    by (intro exI [of _ InvalidBlockNumber])
      (simp add: rtree_release_current_page_def cursor_locks_def bindC_def UnlockBuffer_run ReleaseBuffer_run)
qed

lemma load_ok:
  assumes "cursor_locks s0 op s" "fr_blkno f < length (blocks s)"
  shows "\<exists>s'. rtree_scan_load op f s = (Inr (op\<lparr>cur_buf := Some (fr_blkno f), cur_blkno := fr_blkno f\<rparr>), s') \<and>
    cursor_locks s0 (op\<lparr>cur_buf := Some (fr_blkno f), cur_blkno := fr_blkno f\<rparr>) s' \<and> blocks s' = blocks s"
proof (cases "cur_buf op = None \<or> cur_blkno op \<noteq> fr_blkno f")
  case True
  from release_ok [OF assms(1)] obtain blk s1 where s1:
      "rtree_release_current_page op s = (Inr (op\<lparr>cur_buf := None, cur_blkno := blk\<rparr>), s1)"
      "cursor_locks s0 (op\<lparr>cur_buf := None, cur_blkno := blk\<rparr>) s1" "blocks s1 = blocks s"
    by blast
  have nl: "s1 = s0" "\<not> lock_conflict (held s0) (fr_blkno f) False"
    using s1(2) by (simp_all add: cursor_locks_def lock_conflict_def shared_only_def)
  show ?thesis using True s1 assms(2) nl
    by (simp add: rtree_scan_load_def bindC_def ReadBuffer_run LockBuffer_run cursor_locks_def)
next
  case False
  then show ?thesis using assms(1) by (intro exI [of _ s]) (auto simp: rtree_scan_load_def cursor_locks_def)
qed


lemma find_zip_upt:
  assumes "find (\<lambda>(i, x). P x) (zip [a..<b] xs) = Some (k, x)"
  shows "\<exists>ys zs. xs = ys @ x # zs \<and> k = a + length ys \<and> P x \<and> filter P ys = []"
  using assms
proof (induction xs arbitrary: a)
  case Nil
  then show ?case by simp
next
  case (Cons y xs)
  then have "a < b" by (cases "a < b") auto
  show ?case
  proof (cases "P y")
    case True
    then show ?thesis using Cons.prems \<open>a < b\<close> by (intro exI [of _ "[]"] exI [of _ xs]) (simp add: upt_conv_Cons)
  next
    case False
    with Cons.prems \<open>a < b\<close> Cons.IH [of "Suc a"] obtain ys zs where
        "xs = ys @ x # zs" "k = Suc a + length ys" "P x" "filter P ys = []"
      by (auto simp: upt_conv_Cons)
    with False show ?thesis by (intro exI [of _ "y # ys"] exI [of _ zs]) simp
  qed
qed

lemma find_zip_None:
  assumes "find (\<lambda>(i, x). P x) (zip [a..<b] xs) = None" "length xs \<le> b - a"
  shows "filter P xs = []"
  using assms
proof (induction xs arbitrary: a)
  case Nil
  then show ?case by simp
next
  case (Cons y xs)
  then have "a < b" by simp
  then show ?case using Cons.prems Cons.IH [of "Suc a"] by (simp add: upt_conv_Cons split: if_splits)
qed

lemma scan_find_ok:
  assumes "rpage_ok p" "0 < next_offset f"
    and P: "P = scan_stops rel (query_box op) (strategy op) (fr_level f)"
  shows "scan_find rel op f p = None \<Longrightarrow> filter P (drop (next_offset f - 1) (tuples p)) = []"
    "scan_find rel op f p = Some (off, it) \<Longrightarrow> \<exists>ys zs. drop (next_offset f - 1) (tuples p) = ys @ it # zs \<and>
       off = next_offset f + length ys \<and> P it \<and> filter P ys = []"
proof -
  let ?ts = "drop (next_offset f - 1) (tuples p)"
  have "scan_find rel op f p = find (\<lambda>(i, x). P x) (zip [next_offset f..<Suc (PageGetMaxOffsetNumber p)] ?ts)"
    using used_tuples_from_ok [OF assms(1), of rel "next_offset f - 1"] assms(2)
    by (simp add: scan_find_def P del: upt_Suc)
  then show "scan_find rel op f p = None \<Longrightarrow> filter P ?ts = []"
    "scan_find rel op f p = Some (off, it) \<Longrightarrow> \<exists>ys zs. ?ts = ys @ it # zs \<and>
       off = next_offset f + length ys \<and> P it \<and> filter P ys = []"
    using find_zip_None [of P "next_offset f" "Suc (PageGetMaxOffsetNumber p)" ?ts]
      find_zip_upt [of P "next_offset f" "Suc (PageGetMaxOffsetNumber p)" ?ts off it] by (simp_all del: upt_Suc)
qed

lemma scan_find_query:
  "scan_find rel (op\<lparr>cur_buf := b, cur_blkno := k\<rparr>) f p = scan_find rel op f p"
  by (simp add: scan_find_def)

lemma frame_leaves_root [simp]:
  "frame_leaves bs \<lparr>fr_blkno = blk, fr_level = l, next_offset = FirstOffsetNumber\<rparr> = leaves bs l blk"
  by (cases l) (simp_all add: frame_leaves_def FirstOffsetNumber_def kid_leaves_def)

lemma frame_leaves_advance:
  assumes "drop (next_offset f - 1) (tuples (bs ! fr_blkno f)) = ys @ it # zs" "0 < next_offset f"
    "off = next_offset f + length ys"
  shows "frame_leaves bs (f\<lparr>next_offset := off + 1\<rparr>) = (case fr_level f of 0 \<Rightarrow> zs | Suc l \<Rightarrow> kid_leaves bs l zs)"
proof -
  have "drop (Suc (length ys)) (drop (next_offset f - 1) (tuples (bs ! fr_blkno f))) = zs"
    unfolding assms(1) by simp
  moreover have "Suc (length ys) + (next_offset f - 1) = off" using assms(2,3) by simp
  ultimately have "drop off (tuples (bs ! fr_blkno f)) = zs" by (simp only: drop_drop)
  then show ?thesis by (simp add: frame_leaves_def)
qed


text \<open>A cursor that stands on a tuple has the page of the tuple as its current one. On an index of one leaf there are only frames of that
  leaf.\<close>

definition on_tuple :: "IndexTupleData \<Rightarrow> rpage list \<Rightarrow> RTreeScanOpaqueData \<Rightarrow> bool" where
  "on_tuple it bs op \<longleftrightarrow> (case stack op of [] \<Rightarrow> False
     | f # _ \<Rightarrow> cur_buf op = Some (fr_blkno f) \<and> it \<in> set (tuples (bs ! fr_blkno f)))"

definition only_leaf :: "nat \<Rightarrow> RTreeScanOpaqueData \<Rightarrow> bool" where
  "only_leaf r op \<longleftrightarrow> list_all (\<lambda>f. fr_level f = 0 \<and> fr_blkno f = r) (stack op)"

text \<open>One step of a scan: a leaf frame yields its next match or is done; an inner frame descends into its next child or is done.\<close>

definition step_post :: "Relation \<Rightarrow> nat \<Rightarrow> istate \<Rightarrow> RTreeScanOpaqueData \<Rightarrow> istate \<Rightarrow>
    scan_outcome \<Rightarrow> RTreeScanOpaqueData \<Rightarrow> istate \<Rightarrow> bool" where
  "step_post rel sz s0 op s out op' s' \<longleftrightarrow>
     blocks s' = blocks s \<and> cursor_locks s0 op' s' \<and> list_all (frame_ok rel sz (blocks s)) (stack op') \<and>
     query_box op' = query_box op \<and> strategy op' = strategy op \<and> first_call op' = first_call op \<and>
     (\<forall>r. only_leaf r op \<longrightarrow> only_leaf r op') \<and>
     (case out of
        ScanDone \<Rightarrow> stack op' = [] \<and> pending rel (blocks s) op = []
      | ScanFound tid \<Rightarrow> \<exists>it. pending rel (blocks s) op = it # pending rel (blocks s) op' \<and> tid = t_tid it \<and> on_tuple it (blocks s) op'
      | ScanContinue \<Rightarrow> pending rel (blocks s) op' = pending rel (blocks s) op)"

lemma scan_step_found:
  assumes inv: "cursor_locks s0 op s" "list_all (frame_ok rel sz (blocks s)) (f # fs)" and st: "stack op = f # fs"
    and page: "rpage_ok (blocks s ! fr_blkno f)" "list_all (entry_ok rel k) (tuples (blocks s ! fr_blkno f))"
    and find: "scan_find rel op f (blocks s ! fr_blkno f) = Some (off, it)"
  shows "\<exists>out op' s'. rtree_scan_step rel op s = (Inr (out, op'), s') \<and> step_post rel sz s0 op s out op' s'"
proof -
  let ?p = "blocks s ! fr_blkno f" and ?op1 = "op\<lparr>cur_buf := Some (fr_blkno f), cur_blkno := fr_blkno f\<rparr>"
  let ?f' = "f\<lparr>next_offset := off + 1\<rparr>" and ?m = "matches rel (query_box op) (strategy op)"
  have f: "wf_tree rel sz (blocks s) (fr_level f) (fr_blkno f)" "0 < next_offset f"
    using inv(2) by (simp_all add: frame_ok_def)
  from load_ok [OF inv(1), of f] wf_tree_page [OF f(1)] obtain s1 where
      s1: "rtree_scan_load op f s = (Inr ?op1, s1)" "cursor_locks s0 ?op1 s1" "blocks s1 = blocks s"
    by blast
  have f': "frame_ok rel sz (blocks s) ?f'" using f by (simp add: frame_ok_def)
  have find1: "scan_find rel ?op1 f ?p = Some (off, it)" using find by (simp add: scan_find_query)
  from scan_find_ok(2) [OF page(1) f(2) refl find] obtain ys zs where
      d: "drop (next_offset f - 1) (tuples ?p) = ys @ it # zs" "off = next_offset f + length ys"
    and box: "scan_stops rel (query_box op) (strategy op) (fr_level f) it"
      "filter (scan_stops rel (query_box op) (strategy op) (fr_level f)) ys = []"
    by blast
  note adv = frame_leaves_advance [OF d(1) f(2) d(2)]
  show ?thesis
  proof (cases "fr_level f")
    case 0
    let ?op2 = "?op1\<lparr>stack := ?f' # fs, cur_offset := off\<rparr>"
    have run: "rtree_scan_step rel op s = (Inr (ScanFound (t_tid it), ?op2), s1)"
      using s1 st find1 0 by (simp add: rtree_scan_step_def bindC_def BufferGetPage_run)
    have "?m it" "filter ?m ys = []" using box 0 by (simp_all add: scan_stops_leaf)
    then have "pending rel (blocks s) op = it # pending rel (blocks s) ?op2"
      using 0 st d(1) adv by (simp add: pending_def frame_leaves_def)
    moreover have "it \<in> set (drop (next_offset f - 1) (tuples ?p))" unfolding d(1) by simp
    then have "on_tuple it (blocks s) ?op2" "\<forall>r. only_leaf r op \<longrightarrow> only_leaf r ?op2"
      using st by (auto simp: on_tuple_def only_leaf_def dest: in_set_dropD)
    ultimately show ?thesis using run s1 f' inv(2)
      by (intro exI [of _ "ScanFound (t_tid it)"] exI [of _ ?op2] exI [of _ s1]) (simp add: step_post_def cursor_locks_def)
  next
    case (Suc l)
    let ?op2 = "?op1\<lparr>stack := ?f' # fs\<rparr>"
    have "cursor_locks s0 ?op2 s1" using s1(2) by (simp add: cursor_locks_def)
    from release_ok [OF this] obtain blk s2 where s2:
        "rtree_release_current_page ?op2 s1 = (Inr (?op2\<lparr>cur_buf := None, cur_blkno := blk\<rparr>), s2)"
        "cursor_locks s0 (?op2\<lparr>cur_buf := None, cur_blkno := blk\<rparr>) s2" "blocks s2 = blocks s1"
      by blast
    let ?op3 = "rtree_stack_push (?op2\<lparr>cur_buf := None, cur_blkno := blk\<rparr>) (child it) l FirstOffsetNumber"
    have run: "rtree_scan_step rel op s = (Inr (ScanContinue, ?op3), s2)"
      using s1 s2(1) st find1 Suc by (simp add: rtree_scan_step_def bindC_def BufferGetPage_run child_def)
    have "set (ys @ it # zs) \<subseteq> set (tuples ?p)" unfolding d(1) [symmetric] by (rule set_drop_subset)
    then have all: "\<forall>t \<in> set (ys @ it # zs). entry_ok rel k t" "it \<in> set (tuples ?p)" using page(2) by (auto simp: list_all_iff)
    have "ys = []" using box(2) all(1) Suc by (cases ys) (auto simp: scan_stops_inner)
    have "wf_tree rel sz (blocks s) l (child it)" using f(1) Suc all(2) by (simp add: list_all_iff)
    then have "frame_ok rel sz (blocks s) \<lparr>fr_blkno = child it, fr_level = l, next_offset = FirstOffsetNumber\<rparr>"
      by (simp add: frame_ok_def FirstOffsetNumber_def)
    moreover have "frame_leaves (blocks s) f = leaves (blocks s) l (child it) @ kid_leaves (blocks s) l zs"
      using Suc d(1) \<open>ys = []\<close> by (simp add: frame_leaves_def)
    then have "pending rel (blocks s) ?op3 = pending rel (blocks s) op"
      using Suc st adv by (simp add: pending_def rtree_stack_push_def Let_def)
    moreover have "\<forall>r. only_leaf r op \<longrightarrow> only_leaf r ?op3" using Suc st by (simp add: only_leaf_def)
    ultimately have "step_post rel sz s0 op s ScanContinue ?op3 s2"
      using s1(3) s2 f' inv(2) by (simp add: step_post_def cursor_locks_def rtree_stack_push_def Let_def)
    with run show ?thesis by blast
  qed
qed


lemma scan_step_exhausted:
  assumes inv: "cursor_locks s0 op s" "list_all (frame_ok rel sz (blocks s)) (f # fs)" and st: "stack op = f # fs"
    and page: "rpage_ok (blocks s ! fr_blkno f)" "list_all (entry_ok rel k) (tuples (blocks s ! fr_blkno f))"
    and find: "scan_find rel op f (blocks s ! fr_blkno f) = None"
  shows "\<exists>out op' s'. rtree_scan_step rel op s = (Inr (out, op'), s') \<and> step_post rel sz s0 op s out op' s'"
proof -
  let ?p = "blocks s ! fr_blkno f" and ?op1 = "op\<lparr>cur_buf := Some (fr_blkno f), cur_blkno := fr_blkno f\<rparr>"
  let ?ts = "drop (next_offset f - 1) (tuples ?p)"
  have f: "wf_tree rel sz (blocks s) (fr_level f) (fr_blkno f)" "0 < next_offset f"
    using inv(2) by (simp_all add: frame_ok_def)
  from load_ok [OF inv(1), of f] wf_tree_page [OF f(1)] obtain s1 where
      s1: "rtree_scan_load op f s = (Inr ?op1, s1)" "cursor_locks s0 ?op1 s1" "blocks s1 = blocks s"
    by blast
  from release_ok [OF s1(2)] obtain blk s2 where s2:
      "rtree_release_current_page ?op1 s1 = (Inr (?op1\<lparr>cur_buf := None, cur_blkno := blk\<rparr>), s2)"
      "cursor_locks s0 (?op1\<lparr>cur_buf := None, cur_blkno := blk\<rparr>) s2" "blocks s2 = blocks s1"
    by blast
  let ?op2 = "op\<lparr>cur_buf := None, cur_blkno := blk, stack := fs\<rparr>"
  have run: "rtree_scan_step rel op s = (Inr (ScanContinue, ?op2), s2)"
    using s1 s2(1) st find by (simp add: rtree_scan_step_def bindC_def BufferGetPage_run scan_find_query)
  have none: "filter (scan_stops rel (query_box op) (strategy op) (fr_level f)) ?ts = []"
    by (rule scan_find_ok(1) [OF page(1) f(2) refl find])
  have "set ?ts \<subseteq> set (tuples ?p)" by (rule set_drop_subset)
  then have all: "\<forall>t \<in> set ?ts. entry_ok rel k t" using page(2) by (auto simp: list_all_iff)
  have "filter (matches rel (query_box op) (strategy op)) (frame_leaves (blocks s) f) = []"
  proof (cases "fr_level f")
    case 0
    then show ?thesis using none by (simp add: frame_leaves_def scan_stops_leaf)
  next
    case (Suc l)
    then have "?ts = []" using none all by (cases ?ts) (auto simp: scan_stops_inner)
    then show ?thesis using Suc by (simp add: frame_leaves_def)
  qed
  then have "step_post rel sz s0 op s ScanContinue ?op2 s2"
    using s1(3) s2 inv(2) st by (simp add: step_post_def cursor_locks_def pending_def only_leaf_def)
  with run show ?thesis by blast
qed

lemma scan_step_ok:
  assumes inv: "cursor_locks s0 op s" "list_all (frame_ok rel sz (blocks s)) (stack op)"
  shows "\<exists>out op' s'. rtree_scan_step rel op s = (Inr (out, op'), s') \<and> step_post rel sz s0 op s out op' s'"
proof (cases "stack op")
  case Nil
  then show ?thesis using assms by (simp add: rtree_scan_step_def step_post_def pending_def)
next
  case (Cons f fs)
  have "node_page rel sz (fr_level f) (blocks s ! fr_blkno f)"
    using inv(2) Cons wf_tree_page by (auto simp: frame_ok_def)
  then have page: "rpage_ok (blocks s ! fr_blkno f)"
      "list_all (entry_ok rel (entry_size sz (fr_level f))) (tuples (blocks s ! fr_blkno f))"
    by (simp_all add: node_page_def)
  have ok: "list_all (frame_ok rel sz (blocks s)) (f # fs)" using inv(2) Cons by simp
  show ?thesis
  proof (cases "scan_find rel op f (blocks s ! fr_blkno f)")
    case None
    then show ?thesis by (rule scan_step_exhausted [OF inv(1) ok Cons page])
  next
    case (Some x)
    moreover obtain off it where "x = (off, it)" by fastforce
    ultimately show ?thesis using scan_step_found [OF inv(1) ok Cons page] by blast
  qed
qed

lemma scan_loop_ok:
  assumes "cursor_locks s0 op s" "list_all (frame_ok rel sz (blocks s)) (stack op)"
  shows "\<exists>out op' s'. rtree_scan_loop rel op s = (Inr (out, op'), s') \<and> out \<noteq> ScanContinue \<and> step_post rel sz s0 op s out op' s'"
  using assms
proof (induction rel op s rule: rtree_scan_loop.induct)
  case (1 rel op s)
  from scan_step_ok [OF "1.prems"] obtain out op1 s1 where
      s1: "rtree_scan_step rel op s = (Inr (out, op1), s1)" "step_post rel sz s0 op s out op1 s1" by blast
  show ?case
  proof (cases "out = ScanContinue")
    case False
    then have "rtree_scan_loop rel op s = (Inr (out, op1), s1)" using s1(1) by (cases out) (simp_all add: rtree_scan_loop.simps [of rel op s])
    with s1(2) False show ?thesis by blast
  next
    case True
    have "cursor_locks s0 op1 s1" "list_all (frame_ok rel sz (blocks s1)) (stack op1)"
      using s1(2) by (simp_all add: step_post_def)
    from "1.IH" [OF s1(1) [symmetric] refl refl True this] obtain out' op' s' where
        r: "rtree_scan_loop rel op1 s1 = (Inr (out', op'), s')" "out' \<noteq> ScanContinue" "step_post rel sz s0 op1 s1 out' op' s'"
      by blast
    have "rtree_scan_loop rel op s = (Inr (out', op'), s')" using s1(1) True r(1) by (simp add: rtree_scan_loop.simps [of rel op s])
    moreover have "step_post rel sz s0 op s out' op' s'"
      using s1(2) r(2,3) True by (cases out') (simp_all add: step_post_def)
    ultimately show ?thesis using r(2) by blast
  qed
qed


section \<open>Cursors\<close>

text \<open>
  What a client relies on: a cursor that is in order yields the entries that are left, one after
  the other, and then nothing. A client that asks often enough gets all of them.
\<close>

fun fetch :: "('c \<Rightarrow> ('s, 'a option \<times> 'c) comp) \<Rightarrow> nat \<Rightarrow> 'c \<Rightarrow> ('s, 'a list \<times> 'c) comp" where
  "fetch nxt 0 c = ret ([], c)"
| "fetch nxt (Suc n) c = bindC (nxt c) (\<lambda>(r, c').
     case r of None \<Rightarrow> ret ([], c')
     | Some x \<Rightarrow> bindC (fetch nxt n c') (\<lambda>(xs, c''). ret (x # xs, c'')))"

locale cursor =
  fixes nxt :: "'c \<Rightarrow> ('s, 'a option \<times> 'c) comp"
    and ok :: "'c \<Rightarrow> 's \<Rightarrow> bool"
    and rest :: "'c \<Rightarrow> 's \<Rightarrow> 'a list"
  assumes next_none: "ok c s \<Longrightarrow> rest c s = [] \<Longrightarrow>
      \<exists>c' s'. nxt c s = (Inr (None, c'), s') \<and> ok c' s' \<and> rest c' s' = []"
    and next_some: "ok c s \<Longrightarrow> rest c s = x # xs \<Longrightarrow>
      \<exists>c' s'. nxt c s = (Inr (Some x, c'), s') \<and> ok c' s' \<and> rest c' s' = xs"
begin

lemma fetch_ok:
  "ok c s \<Longrightarrow> \<exists>c' s'. fetch nxt n c s = (Inr (take n (rest c s), c'), s') \<and> ok c' s' \<and> rest c' s' = drop n (rest c s)"
proof (induction n arbitrary: c s)
  case 0
  then show ?case by simp
next
  case (Suc n)
  show ?case
  proof (cases "rest c s")
    case Nil
    from next_none [OF Suc.prems Nil] show ?thesis using Nil by auto
  next
    case (Cons x xs)
    from next_some [OF Suc.prems Cons] obtain c1 s1 where
        1: "nxt c s = (Inr (Some x, c1), s1)" "ok c1 s1" "rest c1 s1 = xs" by blast
    from Suc.IH [OF 1(2)] obtain c2 s2 where
        "fetch nxt n c1 s1 = (Inr (take n xs, c2), s2)" "ok c2 s2" "rest c2 s2 = drop n xs" using 1(3) by blast
    with 1 Cons show ?thesis by simp
  qed
qed

lemma fetch_all:
  assumes "ok c s" "length (rest c s) \<le> n"
  shows "\<exists>c' s'. fetch nxt n c s = (Inr (rest c s, c'), s') \<and> ok c' s' \<and> rest c' s' = []"
  using fetch_ok [OF assms(1), of n] assms(2) by auto

end

text \<open>The index's cursors: before the first call all matching tuples of the index are left, afterwards those of the stack.\<close>

definition next_row :: "Relation \<Rightarrow> IndexScanDescData \<Rightarrow> ((ItemPointerData \<times> bool) option \<times> IndexScanDescData) op" where
  "next_row rel scan = bindC (temporal_rtree_gettuple rel scan ForwardScanDirection) (\<lambda>(found, scan).
     ret (if found then Some (xs_heaptid scan, xs_recheck scan) else None, scan))"

definition next_tid :: "Relation \<Rightarrow> IndexScanDescData \<Rightarrow> (ItemPointerData option \<times> IndexScanDescData) op" where
  "next_tid rel scan = bindC (temporal_rtree_gettuple rel scan ForwardScanDirection) (\<lambda>(found, scan).
     ret (if found then Some (xs_heaptid scan) else None, scan))"

definition cursor_rest :: "Relation \<Rightarrow> RTreeTemporalBox \<times> nat \<Rightarrow> IndexScanDescData \<Rightarrow> istate \<Rightarrow> ItemPointerData list" where
  "cursor_rest rel q scan s = map t_tid (case scan_opaque scan of None \<Rightarrow> []
     | Some op \<Rightarrow> if first_call op then filter (matches rel (fst q) (snd q)) (index_tuples s)
                  else pending rel (blocks s) op)"

definition root_leaf :: "istate \<Rightarrow> RTreeScanOpaqueData \<Rightarrow> bool" where
  "root_leaf s0 op \<longleftrightarrow> (root_level (index_meta s0) = 0 \<longrightarrow> only_leaf (meta_root (index_meta s0)) op)"

definition cursor_ok :: "Relation \<Rightarrow> nat \<Rightarrow> istate \<Rightarrow> RTreeTemporalBox \<times> nat \<Rightarrow> IndexScanDescData \<Rightarrow> istate \<Rightarrow> bool" where
  "cursor_ok rel sz s0 q scan s \<longleftrightarrow> wf_index rel sz s0 \<and> length (blocks s0) < MaxBlockNumber \<and>
     (case scan_opaque scan of None \<Rightarrow> False
      | Some op \<Rightarrow> cursor_locks s0 op s \<and>
          (if first_call op then cur_buf op = None \<and> \<not> have_query op \<and> rtree_parse_query rel scan = Some q
           else list_all (frame_ok rel sz (blocks s0)) (stack op) \<and> query_box op = fst q \<and> strategy op = snd q \<and>
             root_leaf s0 op))"

lemma cursor_locks_blocks: "cursor_locks s0 op s \<Longrightarrow> blocks s = blocks s0"
  by (auto simp: cursor_locks_def split: option.splits)

text \<open>A cursor that stands on a tuple holds the share lock of its page, on top of the locks from before.\<close>

definition stands_on :: "IndexTupleData \<Rightarrow> istate \<Rightarrow> istate \<Rightarrow> bool" where
  "stands_on it s0 s \<longleftrightarrow> (\<exists>blk. s = s0\<lparr>pins := blk # pins s0, held := (blk, False) # held s0\<rparr> \<and>
     it \<in> set (tuples (blocks s0 ! blk)) \<and> (root_level (index_meta s0) = 0 \<longrightarrow> blk = meta_root (index_meta s0)))"

lemma scan_next_ok:
  assumes "wf_index rel sz s0" "length (blocks s0) < MaxBlockNumber" "cursor_locks s0 op s" "\<not> first_call op"
    "list_all (frame_ok rel sz (blocks s0)) (stack op)" "query_box op = fst q" "strategy op = snd q" "root_leaf s0 op"
  shows "\<exists>b scan' s'. rtree_scan_next rel scan op s = (Inr (b, scan'), s') \<and> cursor_ok rel sz s0 q scan' s' \<and>
    (case pending rel (blocks s0) op of
       [] \<Rightarrow> \<not> b \<and> cursor_rest rel q scan' s' = []
     | it # its \<Rightarrow> b \<and> xs_heaptid scan' = t_tid it \<and> \<not> xs_recheck scan' \<and> cursor_rest rel q scan' s' = map t_tid its \<and>
         stands_on it s0 s')"
proof -
  note bs = cursor_locks_blocks [OF assms(3)]
  have "list_all (frame_ok rel sz (blocks s)) (stack op)" using assms(5) bs by simp
  from scan_loop_ok [OF assms(3) this] obtain out op' s' where
      r: "rtree_scan_loop rel op s = (Inr (out, op'), s')" "out \<noteq> ScanContinue" "step_post rel sz s0 op s out op' s'"
    by (elim exE conjE)
  have post: "blocks s' = blocks s0" "cursor_locks s0 op' s'" "list_all (frame_ok rel sz (blocks s0)) (stack op')"
      "query_box op' = fst q" "strategy op' = snd q" "\<not> first_call op'" "root_leaf s0 op'"
    using r(3) assms bs by (simp_all add: step_post_def root_leaf_def)
  show ?thesis
  proof (cases out)
    case (ScanFound tid)
    let ?scan = "(with_opaque scan op')\<lparr>xs_heaptid := tid, xs_recheck := False\<rparr>"
    have "rtree_scan_next rel scan op s = (Inr (True, ?scan), s')"
      using r(1) ScanFound by (simp add: rtree_scan_next_def bindC_def)
    moreover obtain it where it: "pending rel (blocks s0) op = it # pending rel (blocks s0) op'" "tid = t_tid it" "on_tuple it (blocks s0) op'"
      using r(3) ScanFound bs by (auto simp: step_post_def)
    moreover have "stands_on it s0 s'"
      using it(3) post(2,7) by (cases "stack op'") (auto simp: on_tuple_def stands_on_def cursor_locks_def root_leaf_def only_leaf_def)
    ultimately show ?thesis using post assms(1,2)
      by (intro exI [of _ True] exI [of _ ?scan] exI [of _ s']) (simp add: cursor_ok_def cursor_rest_def with_opaque_def)
  next
    case ScanDone
    have "rtree_scan_next rel scan op s = (Inr (False, with_opaque scan op'), s')"
      using r(1) ScanDone by (simp add: rtree_scan_next_def bindC_def)
    moreover have "pending rel (blocks s0) op = []" "pending rel (blocks s') op' = []"
      using r(3) ScanDone bs by (simp_all add: step_post_def pending_def)
    ultimately show ?thesis using post assms(1,2)
      by (intro exI [of _ False] exI [of _ "with_opaque scan op'"] exI [of _ s'])
        (simp add: cursor_ok_def cursor_rest_def with_opaque_def)
  qed (use r(2) in simp)
qed


lemma read_meta_run:
  assumes "0 < length (blocks s)" "shared_only (held s)"
  shows "rtree_read_meta s = (Inr (index_meta s), s)"
proof -
  have "\<not> lock_conflict (held s) 0 False" using assms(2) by (simp add: lock_conflict_def shared_only_def)
  then show ?thesis using assms(1)
    by (simp add: rtree_read_meta_def bindC_def ReadBuffer_run LockBuffer_run BufferGetPage_run UnlockBuffer_run
        ReleaseBuffer_run index_meta_def Let_def)
qed

lemma first_offset_pos: "0 < FirstOffsetNumber"
  by (simp add: FirstOffsetNumber_def)

lemma initialize_ok:
  assumes "wf_index rel sz s" "length (blocks s) < MaxBlockNumber" "shared_only (held s)"
    "cur_buf op = None" "\<not> have_query op" "rtree_parse_query rel scan = Some (q, st)"
  shows "\<exists>op'. rtree_initialize_scan rel scan op s = (Inr (True, op'), s) \<and> cursor_locks s op' s \<and> \<not> first_call op' \<and>
    list_all (frame_ok rel sz (blocks s)) (stack op') \<and> query_box op' = q \<and> strategy op' = st \<and>
    pending rel (blocks s) op' = filter (matches rel q st) (index_tuples s) \<and> cur_buf op' = None \<and>
    stack op' = [\<lparr>fr_blkno = meta_root (index_meta s), fr_level = root_level (index_meta s), next_offset = FirstOffsetNumber\<rparr>]"
proof -
  let ?m = "index_meta s"
  note i = wf_index_root(2-4) [OF assms(1)]
  have valid: "meta_root ?m \<noteq> InvalidBlockNumber"
    using wf_tree_page [OF i(3)] assms(2) by (auto simp: MaxBlockNumber_def InvalidBlockNumber_def)
  let ?op = "rtree_stack_push (rtree_stack_reset (op\<lparr>query_box := q, strategy := st, have_query := True\<rparr>)\<lparr>first_call := False\<rparr>)
    (meta_root ?m) (root_level ?m) FirstOffsetNumber"
  have "rtree_initialize_scan rel scan op s = (Inr (True, ?op), s)"
    using assms(3-6) i(1,2) valid
    by (simp add: rtree_initialize_scan_def rtree_ensure_query_def bindC_def read_meta_run Let_def
        rtree_release_current_page_def rtree_stack_reset_def)
  then show ?thesis using assms(3,4) i(3)
    by (intro exI [of _ ?op]) (simp add: rtree_stack_push_def rtree_stack_reset_def Let_def cursor_locks_def
        frame_ok_def first_offset_pos pending_def index_tuples_def)
qed


lemma next_row_ok:
  assumes "cursor_ok rel sz s0 q scan s"
  shows "\<exists>r scan' s'. next_row rel scan s = (Inr (r, scan'), s') \<and> cursor_ok rel sz s0 q scan' s' \<and>
    (case cursor_rest rel q scan s of
       [] \<Rightarrow> r = None \<and> cursor_rest rel q scan' s' = []
     | tid # tids \<Rightarrow> r = Some (tid, False) \<and> cursor_rest rel q scan' s' = tids \<and> (\<exists>it. t_tid it = tid \<and> stands_on it s0 s'))"
proof -
  obtain op where op: "scan_opaque scan = Some op" "cursor_locks s0 op s"
    using assms by (auto simp: cursor_ok_def split: option.splits)
  have i: "wf_index rel sz s0" "length (blocks s0) < MaxBlockNumber" using assms by (simp_all add: cursor_ok_def)
  have "\<exists>op1. temporal_rtree_gettuple rel scan ForwardScanDirection s = rtree_scan_next rel scan op1 s \<and>
      cursor_locks s0 op1 s \<and> \<not> first_call op1 \<and> list_all (frame_ok rel sz (blocks s0)) (stack op1) \<and>
      query_box op1 = fst q \<and> strategy op1 = snd q \<and> root_leaf s0 op1 \<and> cursor_rest rel q scan s = map t_tid (pending rel (blocks s0) op1)"
  proof (cases "first_call op")
    case False
    then show ?thesis using assms op cursor_locks_blocks [OF op(2)]
      by (intro exI [of _ op]) (simp add: temporal_rtree_gettuple_def cursor_ok_def cursor_rest_def)
  next
    case True
    then have f: "cur_buf op = None" "\<not> have_query op" "rtree_parse_query rel scan = Some (fst q, snd q)"
      using assms op by (simp_all add: cursor_ok_def)
    then have s: "s = s0" "shared_only (held s0)" using op(2) by (simp_all add: cursor_locks_def)
    from initialize_ok [OF i s(2) f] show ?thesis
      using True op(1) s(1) by (auto simp: temporal_rtree_gettuple_def cursor_rest_def root_leaf_def only_leaf_def)
  qed
  then obtain op1 where op1: "temporal_rtree_gettuple rel scan ForwardScanDirection s = rtree_scan_next rel scan op1 s"
      "cursor_locks s0 op1 s" "\<not> first_call op1" "list_all (frame_ok rel sz (blocks s0)) (stack op1)"
      "query_box op1 = fst q" "strategy op1 = snd q" "root_leaf s0 op1" "cursor_rest rel q scan s = map t_tid (pending rel (blocks s0) op1)"
    by (elim exE conjE)
  from scan_next_ok [OF i op1(2-7), of scan] obtain b scan' s' where
      r: "rtree_scan_next rel scan op1 s = (Inr (b, scan'), s')" "cursor_ok rel sz s0 q scan' s'"
      "case pending rel (blocks s0) op1 of
         [] \<Rightarrow> \<not> b \<and> cursor_rest rel q scan' s' = []
       | it # its \<Rightarrow> b \<and> xs_heaptid scan' = t_tid it \<and> \<not> xs_recheck scan' \<and> cursor_rest rel q scan' s' = map t_tid its \<and> stands_on it s0 s'"
    by (elim exE conjE)
  have "next_row rel scan s = (Inr (if b then Some (xs_heaptid scan', xs_recheck scan') else None, scan'), s')"
    using op1(1) r(1) by (simp add: next_row_def)
  with r op1(8) show ?thesis by (cases "pending rel (blocks s0) op1") auto
qed

lemma next_tid_row:
  assumes "next_row rel scan s = (Inr (r, scan'), s')"
  shows "next_tid rel scan s = (Inr (map_option fst r, scan'), s')"
  using assms by (auto simp: next_row_def next_tid_def bindC_def ret_def split: prod.splits sum.splits if_splits)

lemma gettuple_ok:
  assumes "cursor_ok rel sz s0 q scan s"
  shows "\<exists>r scan' s'. next_tid rel scan s = (Inr (r, scan'), s') \<and> cursor_ok rel sz s0 q scan' s' \<and>
    (case cursor_rest rel q scan s of
       [] \<Rightarrow> r = None \<and> cursor_rest rel q scan' s' = []
     | tid # tids \<Rightarrow> r = Some tid \<and> cursor_rest rel q scan' s' = tids \<and> (\<exists>it. t_tid it = tid \<and> stands_on it s0 s'))"
proof -
  from next_row_ok [OF assms] obtain r scan' s' where "next_row rel scan s = (Inr (r, scan'), s')" "cursor_ok rel sz s0 q scan' s'"
      "case cursor_rest rel q scan s of
         [] \<Rightarrow> r = None \<and> cursor_rest rel q scan' s' = []
       | tid # tids \<Rightarrow> r = Some (tid, False) \<and> cursor_rest rel q scan' s' = tids \<and> (\<exists>it. t_tid it = tid \<and> stands_on it s0 s')"
    by (elim exE conjE)
  with next_tid_row [OF this(1)] show ?thesis by (cases "cursor_rest rel q scan s") auto
qed

interpretation scan: cursor "next_tid rel" "cursor_ok rel sz s0 q" "cursor_rest rel q"
  for rel sz s0 q
proof
  fix c s
  assume ok: "cursor_ok rel sz s0 q c s"
  note g = gettuple_ok [OF ok]
  show "\<exists>c' s'. next_tid rel c s = (Inr (None, c'), s') \<and> cursor_ok rel sz s0 q c' s' \<and> cursor_rest rel q c' s' = []"
    if "cursor_rest rel q c s = []"
    using g that by auto
  show "\<exists>c' s'. next_tid rel c s = (Inr (Some x, c'), s') \<and> cursor_ok rel sz s0 q c' s' \<and> cursor_rest rel q c' s' = xs"
    if "cursor_rest rel q c s = x # xs" for x xs
    using g that by auto
qed

text \<open>Seen with the flag that asks the executor to test the condition again, which is never set.\<close>

interpretation rows: cursor "next_row rel" "cursor_ok rel sz s0 q" "\<lambda>scan s. map (\<lambda>tid. (tid, False)) (cursor_rest rel q scan s)"
  for rel sz s0 q
proof
  fix c s
  assume ok: "cursor_ok rel sz s0 q c s"
  note g = next_row_ok [OF ok]
  show "\<exists>c' s'. next_row rel c s = (Inr (None, c'), s') \<and> cursor_ok rel sz s0 q c' s' \<and> map (\<lambda>tid. (tid, False)) (cursor_rest rel q c' s') = []"
    if "map (\<lambda>tid. (tid, False)) (cursor_rest rel q c s) = []"
    using g that by auto
  show "\<exists>c' s'. next_row rel c s = (Inr (Some x, c'), s') \<and> cursor_ok rel sz s0 q c' s' \<and> map (\<lambda>tid. (tid, False)) (cursor_rest rel q c' s') = xs"
    if "map (\<lambda>tid. (tid, False)) (cursor_rest rel q c s) = x # xs" for x xs
    using g that by (auto simp: map_eq_Cons_conv)
qed

section \<open>A whole scan\<close>

text \<open>The calls the executor makes: begin, rescan with the keys, up to \<open>n\<close> calls for a tuple, end.\<close>

definition index_scan ::
  "Relation \<Rightarrow> IndexScanDescData \<Rightarrow> ScanKeyData \<Rightarrow> ScanKeyData list \<Rightarrow> nat \<Rightarrow> ItemPointerData list op" where
  "index_scan rel mem uninit keys n =
     bindC (temporal_rtree_rescan (temporal_rtree_beginscan mem uninit (length keys)) (Some keys)) (\<lambda>scan.
     bindC (fetch (next_tid rel) n scan) (\<lambda>(tids, scan).
     bindC (temporal_rtree_endscan scan) (\<lambda>_. ret tids)))"

text \<open>The same calls, with the recheck flag the executor sees beside each row pointer.\<close>

definition scan_rows ::
  "Relation \<Rightarrow> IndexScanDescData \<Rightarrow> ScanKeyData \<Rightarrow> ScanKeyData list \<Rightarrow> nat \<Rightarrow> (ItemPointerData \<times> bool) list op" where
  "scan_rows rel mem uninit keys n =
     bindC (temporal_rtree_rescan (temporal_rtree_beginscan mem uninit (length keys)) (Some keys)) (\<lambda>scan.
     bindC (fetch (next_row rel) n scan) (\<lambda>(found, scan).
     bindC (temporal_rtree_endscan scan) (\<lambda>_. ret found)))"

definition usable_key :: "ScanKeyData \<Rightarrow> bool" where
  "usable_key key \<longleftrightarrow> sk_flags key AND SK_ISNULL = 0 \<and>
     TRTREE_STRATEGY_OVERLAP \<le> sk_strategy key \<and> sk_strategy key \<le> TRTREE_STRATEGY_CONTAINED"

lemma parse_query_usable:
  "rtree_parse_query rel scan =
     map_option (\<lambda>key. (rtree_cube_to_box (rd_cenv rel) (sk_argument key), sk_strategy key))
       (find usable_key (case keyData scan of None \<Rightarrow> [] | Some ks \<Rightarrow> take (numberOfKeys scan) ks))"
proof -
  have u: "(\<lambda>key. \<not> (sk_flags key AND SK_ISNULL \<noteq> 0) \<and>
      \<not> (sk_strategy key < TRTREE_STRATEGY_OVERLAP \<or> sk_strategy key > TRTREE_STRATEGY_CONTAINED)) = usable_key"
    by (auto simp: usable_key_def fun_eq_iff)
  show ?thesis unfolding rtree_parse_query_def u by (simp add: map_option_case)
qed

lemma endscan_run:
  assumes "cursor_ok rel sz s0 q scan s"
  shows "\<exists>scan'. temporal_rtree_endscan scan s = (Inr scan', s0)"
proof -
  obtain op where op: "scan_opaque scan = Some op" "cursor_locks s0 op s"
    using assms by (auto simp: cursor_ok_def split: option.splits)
  from release_ok [OF op(2)] obtain blk s' where
      "rtree_release_current_page op s = (Inr (op\<lparr>cur_buf := None, cur_blkno := blk\<rparr>), s')"
      "cursor_locks s0 (op\<lparr>cur_buf := None, cur_blkno := blk\<rparr>) s'"
    by blast
  then show ?thesis using op(1) by (simp add: temporal_rtree_endscan_def cursor_locks_def)
qed

lemma rescan_run:
  assumes "wf_index rel sz s" "length (blocks s) < MaxBlockNumber" "shared_only (held s)" "keys \<noteq> []"
    "find usable_key keys = Some key" "q = (rtree_cube_to_box (rd_cenv rel) (sk_argument key), sk_strategy key)"
  shows "\<exists>scan. temporal_rtree_rescan (temporal_rtree_beginscan mem uninit (length keys)) (Some keys) s = (Inr scan, s) \<and>
    cursor_ok rel sz s q scan s \<and>
    cursor_rest rel q scan s = map t_tid (filter (matches rel (fst q) (snd q)) (index_tuples s))"
  using assms by (simp add: temporal_rtree_rescan_def temporal_rtree_beginscan_def RelationGetIndexScan_def with_opaque_def
        rtree_release_current_page_def rtree_stack_reset_def cursor_ok_def cursor_rest_def cursor_locks_def
        parse_query_usable Let_def)

lemma index_scan_take:
  assumes "wf_index rel sz s" "length (blocks s) < MaxBlockNumber" "shared_only (held s)"
    "find usable_key keys = Some key" "q = (rtree_cube_to_box (rd_cenv rel) (sk_argument key), sk_strategy key)"
  shows "index_scan rel mem uninit keys n s =
    (Inr (take n (map t_tid (filter (matches rel (fst q) (snd q)) (index_tuples s)))), s)"
proof -
  have "keys \<noteq> []" using assms(4) by auto
  from rescan_run [OF assms(1-3) this assms(4,5), of mem uninit] obtain scan where
      r: "temporal_rtree_rescan (temporal_rtree_beginscan mem uninit (length keys)) (Some keys) s = (Inr scan, s)"
      "cursor_ok rel sz s q scan s"
      "cursor_rest rel q scan s = map t_tid (filter (matches rel (fst q) (snd q)) (index_tuples s))"
    by (elim exE conjE)
  from scan.fetch_ok [OF r(2), of n] obtain c' s' where
      f: "fetch (next_tid rel) n scan s = (Inr (take n (cursor_rest rel q scan s), c'), s')" "cursor_ok rel sz s q c' s'"
    by (elim exE conjE)
  from endscan_run [OF f(2)] obtain scan' where "temporal_rtree_endscan c' s' = (Inr scan', s)" ..
  with r f(1) show ?thesis by (simp add: index_scan_def)
qed

lemma scan_rows_take:
  assumes "wf_index rel sz s" "length (blocks s) < MaxBlockNumber" "shared_only (held s)"
    "find usable_key keys = Some key" "q = (rtree_cube_to_box (rd_cenv rel) (sk_argument key), sk_strategy key)"
  shows "scan_rows rel mem uninit keys n s =
    (Inr (take n (map (\<lambda>it. (t_tid it, False)) (filter (matches rel (fst q) (snd q)) (index_tuples s)))), s)"
proof -
  have "keys \<noteq> []" using assms(4) by auto
  from rescan_run [OF assms(1-3) this assms(4,5), of mem uninit] obtain scan where
      r: "temporal_rtree_rescan (temporal_rtree_beginscan mem uninit (length keys)) (Some keys) s = (Inr scan, s)"
      "cursor_ok rel sz s q scan s"
      "cursor_rest rel q scan s = map t_tid (filter (matches rel (fst q) (snd q)) (index_tuples s))"
    by (elim exE conjE)
  from rows.fetch_ok [OF r(2), of n] obtain c' s' where
      f: "fetch (next_row rel) n scan s = (Inr (take n (map (\<lambda>tid. (tid, False)) (cursor_rest rel q scan s)), c'), s')"
      "cursor_ok rel sz s q c' s'"
    by (elim exE conjE)
  from endscan_run [OF f(2)] obtain scan' where "temporal_rtree_endscan c' s' = (Inr scan', s)" ..
  with r f(1) show ?thesis by (simp add: scan_rows_def comp_def)
qed

lemma index_scan_run:
  assumes "wf_index rel sz s" "length (blocks s) < MaxBlockNumber" "shared_only (held s)"
    "find usable_key keys = Some key" "q = (rtree_cube_to_box (rd_cenv rel) (sk_argument key), sk_strategy key)"
    "length (index_tuples s) \<le> n"
  shows "index_scan rel mem uninit keys n s = (Inr (map t_tid (filter (matches rel (fst q) (snd q)) (index_tuples s))), s)"
  using index_scan_take [OF assms(1-5), of mem uninit n] assms(6) by (simp add: le_trans [OF length_filter_le])

section \<open>Properties\<close>

text \<open>C4. A scan of a well-formed index that asks until nothing is left returns exactly the row pointers of the leaf tuples that match
  the first usable key, in the order of the tree, and leaves the state as it was, locks and pins included.\<close>

theorem scan_returns_matches:
  assumes "wf_index rel sz s" "length (blocks s) < MaxBlockNumber" "shared_only (held s)"
    "find usable_key keys = Some key" "length (index_tuples s) \<le> n"
  shows "index_scan rel mem uninit keys n s =
    (Inr (map t_tid (filter (matches rel (rtree_cube_to_box (rd_cenv rel) (sk_argument key)) (sk_strategy key))
       (index_tuples s))), s)"
  using index_scan_run [OF assms(1-4) refl assms(5)] by simp

text \<open>C25. The scan loop never runs for ever, whatever the blocks contain: there is no infinite sequence of
  iterations.\<close>

theorem scan_loop_terminates:
  "\<not> (\<exists>op s. \<forall>i::nat. rtree_scan_step rel (op i) (s i) = (Inr (ScanContinue, op (Suc i)), s (Suc i)))"
proof
  assume "\<exists>op s. \<forall>i::nat. rtree_scan_step rel (op i) (s i) = (Inr (ScanContinue, op (Suc i)), s (Suc i))"
  then obtain op s where step: "rtree_scan_step rel (op i) (s i) = (Inr (ScanContinue, op (Suc i)), s (Suc i))" for i
    by blast
  have "((rel, op (Suc i), s (Suc i)), (rel, op i, s i)) \<in> scan_order" for i
    by (rule scan_step_order [OF step])
  then show False
    using scan_order_wf unfolding wf_iff_no_infinite_down_chain by (elim notE) (intro exI [of _ "\<lambda>i. (rel, op i, s i)"] allI)
qed

text \<open>C36. Only the first usable key is looked at, and no recheck is asked for: a scan with several keys returns the rows that a scan with the
  first usable key alone returns, whatever the keys before and after it are, and each of them with the recheck flag off.\<close>

theorem scan_ignores_other_keys:
  assumes "wf_index rel sz s" "length (blocks s) < MaxBlockNumber" "shared_only (held s)" "find usable_key keys = Some key"
  shows "scan_rows rel mem uninit keys n s = scan_rows rel mem uninit [key] n s \<and>
    (\<exists>rows. scan_rows rel mem uninit keys n s = (Inr rows, s) \<and> list_all (\<lambda>(tid, recheck). \<not> recheck) rows)"
proof -
  have "usable_key key" using assms(4) by (auto simp: find_Some_iff)
  then show ?thesis
    using scan_rows_take [OF assms(1-4) refl, of mem uninit n] scan_rows_take [OF assms(1-3) _ refl, of "[key]" key mem uninit n]
    by (auto simp: list_all_iff dest: in_set_takeD)
qed

lemma fetch_none: "nxt c s = (Inr (None, c'), s') \<Longrightarrow> fetch nxt (Suc n) c s = (Inr ([], c'), s')"
  by simp

lemma index_scan_no_key:
  assumes "find usable_key keys = None"
  shows "index_scan rel mem uninit keys n s = (Inr [], s)"
proof -
  let ?op = "\<lparr>cur_buf = None, cur_offset = InvalidOffsetNumber, cur_blkno = InvalidBlockNumber, first_call = True,
    query_box = zero_box, strategy = 0, have_query = False, stack = [], stack_size = 16\<rparr>"
  have "\<exists>scan. temporal_rtree_rescan (temporal_rtree_beginscan mem uninit (length keys)) (Some keys) s = (Inr scan, s) \<and>
      scan_opaque scan = Some ?op \<and> rtree_parse_query rel scan = None"
    using assms by (cases keys)
      (simp_all add: temporal_rtree_rescan_def temporal_rtree_beginscan_def RelationGetIndexScan_def with_opaque_def
        rtree_release_current_page_def rtree_stack_reset_def parse_query_usable Let_def)
  then obtain scan where sc: "temporal_rtree_rescan (temporal_rtree_beginscan mem uninit (length keys)) (Some keys) s = (Inr scan, s)"
      "scan_opaque scan = Some ?op" "rtree_parse_query rel scan = None"
    by (elim exE conjE)
  then have "next_tid rel scan s = (Inr (None, with_opaque scan ?op), s)"
    by (simp add: next_tid_def temporal_rtree_gettuple_def rtree_initialize_scan_def rtree_ensure_query_def)
  moreover have "temporal_rtree_endscan scan s = (Inr (scan\<lparr>scan_opaque := None\<rparr>), s)"
      "temporal_rtree_endscan (with_opaque scan ?op) s = (Inr (scan\<lparr>scan_opaque := None\<rparr>), s)"
    using sc(2) by (simp_all add: temporal_rtree_endscan_def with_opaque_def rtree_release_current_page_def)
  ultimately show ?thesis using sc(1) by (cases n) (simp_all add: index_scan_def)
qed

text \<open>C37. A scan without a usable key returns nothing, so that a scan of the whole index finds no row.\<close>

theorem scan_without_key:
  assumes "find usable_key keys = None"
  shows "index_scan rel mem uninit keys n s = (Inr [], s)"
  by (rule index_scan_no_key [OF assms])

text \<open>After a fetch that got as many rows as it asked for, the cursor stands on the last of them.\<close>

lemma fetch_stands:
  assumes "cursor_ok rel sz s0 q scan s" "fetch (next_tid rel) (Suc n) scan s = (Inr (tids, scan'), s')" "length tids = Suc n"
  shows "\<exists>it. t_tid it = last tids \<and> stands_on it s0 s'"
  using assms
proof (induction n arbitrary: scan s tids)
  case (0 scan s)
  from gettuple_ok [OF "0.prems"(1)] "0.prems"(2,3) show ?case by (cases "cursor_rest rel q scan s") (auto, blast)
next
  case (Suc n)
  from gettuple_ok [OF Suc.prems(1)] obtain r c1 s1 where
      1: "next_tid rel scan s = (Inr (r, c1), s1)" "cursor_ok rel sz s0 q c1 s1" by (elim exE conjE)
  obtain x where x: "r = Some x" using 1(1) Suc.prems(2,3) by (cases r) auto
  have "fetch (next_tid rel) (Suc (Suc n)) scan s =
      bindC (fetch (next_tid rel) (Suc n) c1) (\<lambda>(xs, c). ret (x # xs, c)) s1"
    using 1(1) x by (simp only: fetch.simps(2) [of _ "Suc n"] bindC_ok [of "next_tid rel scan", OF 1(1)] prod.case option.case)
  then obtain xs where xs: "fetch (next_tid rel) (Suc n) c1 s1 = (Inr (xs, scan'), s')" "tids = x # xs"
    using Suc.prems(2) by (auto simp: bindC_def ret_def split: prod.splits sum.splits)
  then have "length xs = Suc n" using Suc.prems(3) by simp
  from Suc.IH [OF 1(2) xs(1) this] this show ?case using xs(2) by (cases xs) auto
qed

lemma insert_waits_for_leaf:
  assumes "wf_index rel sz s" "held s = []" "root_level (index_meta s) = 0" "indexable rel sz c"
    and "s' = s\<lparr>pins := meta_root (index_meta s) # pins s, held := [(meta_root (index_meta s), False)]\<rparr>"
  shows "fst (temporal_rtree_insert rel (Some c) tid' s') = Inl (SelfDeadlock (meta_root (index_meta s)))"
proof -
  let ?m = "index_meta s"
  note i = wf_index_root(1,3,5,6) [OF assms(1)]
  obtain it0 where it: "index_form_tuple (Some c) = Inr it0" "entry_ok rel sz (it0\<lparr>t_tid := tid'\<rparr>)"
    using indexable_tuple [OF assms(4), of tid'] by metis
  obtain box where "rtree_index_tuple_box rel (it0\<lparr>t_tid := tid'\<rparr>) = Some box"
    using it(2) by (auto simp: entry_ok_def)
  then show ?thesis
    unfolding assms(5)
    using i it(1) assms(2,3)
    by (auto simp: temporal_rtree_insert_def bindC_def RelationGetNumberOfBlocks_run ReadBuffer_def LockBuffer_def
        lock_conflict_def BufferGetPage_run UnlockBuffer_run ReleaseBuffer_run index_meta_def Let_def)
qed

text \<open>C38. Whenever a scan has returned a row, the first one or a later one, it holds the share lock of exactly one page, on which a tuple with that
  row pointer is. On an index that consists of one leaf this page is the root, and any insertion of an indexable value by the same
  backend, as an update through the index makes it, then waits for that lock.\<close>

theorem scan_blocks_insert:
  assumes "wf_index rel sz s" "length (blocks s) < MaxBlockNumber" "held s = []" "find usable_key keys = Some key"
    and "temporal_rtree_rescan (temporal_rtree_beginscan mem uninit (length keys)) (Some keys) s = (Inr scan, s0)"
    and "fetch (next_tid rel) (Suc n) scan s0 = (Inr (tids, scan'), s')" "length tids = Suc n"
  shows "\<exists>blk. held s' = [(blk, False)] \<and> last tids \<in> t_tid ` set (tuples (blocks s ! blk)) \<and>
    (root_level (index_meta s) = 0 \<and> indexable rel sz c \<longrightarrow>
      blk = meta_root (index_meta s) \<and> fst (temporal_rtree_insert rel (Some c) tid' s') = Inl (SelfDeadlock blk))"
proof -
  have h: "keys \<noteq> []" "shared_only (held s)" using assms(3,4) by (auto simp: shared_only_def)
  let ?q = "(rtree_cube_to_box (rd_cenv rel) (sk_argument key), sk_strategy key)"
  have "s0 = s" "cursor_ok rel sz s ?q scan s"
    using rescan_run [OF assms(1,2) h(2,1) assms(4) refl, of mem uninit] assms(5) by auto
  from fetch_stands [OF this(2) assms(6) [unfolded this(1)] assms(7)] obtain it blk where
      it: "t_tid it = last tids" "s' = s\<lparr>pins := blk # pins s, held := (blk, False) # held s\<rparr>" "it \<in> set (tuples (blocks s ! blk))"
      "root_level (index_meta s) = 0 \<Longrightarrow> blk = meta_root (index_meta s)"
    by (auto simp: stands_on_def)
  have "fst (temporal_rtree_insert rel (Some c) tid' s') = Inl (SelfDeadlock blk)" if "root_level (index_meta s) = 0" "indexable rel sz c"
    using insert_waits_for_leaf [OF assms(1,3) that, of s' tid'] it(2,4) that(1) assms(3) by simp
  then show ?thesis using it assms(3) by (intro exI [of _ blk]) (auto intro: rev_image_eqI)
qed


section \<open>Examples\<close>

definition demo_key :: ScanKeyData where
  "demo_key = \<lparr>sk_flags = 0, sk_strategy = TRTREE_STRATEGY_OVERLAP, sk_argument = row_cube\<rparr>"

definition demo_mem :: IndexScanDescData where
  "demo_mem = \<lparr>numberOfKeys = 0, keyData = None, xs_heaptid = demo_tid 0, xs_recheck = True, scan_opaque = None\<rparr>"

lemma demo_key_usable: "usable_key demo_key"
  by (simp add: usable_key_def demo_key_def SK_ISNULL_def TRTREE_STRATEGY_OVERLAP_def TRTREE_STRATEGY_CONTAINED_def)

lemma demo_key_matches:
  "matches rel (rtree_cube_to_box (rd_cenv rel) (sk_argument demo_key)) (sk_strategy demo_key) (row_tuple tid row_cube)"
proof -
  let ?b = "rtree_cube_to_box (rd_cenv rel) row_cube"
  have "attr_lo ?b \<le> attr_hi ?b" "lower_us ?b \<le> upper_us ?b"
    using round_away_of_int [of 7] round_away_of_int [of 10] round_away_of_int [of 20]
    unfolding rtree_cube_to_box_temporal [OF row_cube_wf(1)]
    by (simp_all add: row_cube_def cube_ll_def cube_ur_def IS_POINT_def dim2_header us_lower_def us_upper_def)
  then have "rtree_box_overlaps ?b ?b" by (simp add: rtree_box_overlaps_def rtree_cube_to_box_flags flip: box_empty_def)
  then show ?thesis
    by (simp add: matches_def rtree_index_tuple_box_def index_getattr_def demo_key_def rtree_box_matches_strategy_def)
qed

theorem scan_returns_matches_witness:
  "\<exists>s. index_tuples s = [row_tuple (demo_tid 5) row_cube] \<and>
     index_scan demo_rel demo_mem demo_key [demo_key] 1 s = (Inr [demo_tid 5], s)"
proof -
  obtain s where s: "wf_index demo_rel 48 s" "index_tuples s = [row_tuple (demo_tid 5) row_cube]" "held s = []" "length (blocks s) = 2"
    by (rule demo_index)
  have "length (blocks s) < MaxBlockNumber" "shared_only (held s)" "length (index_tuples s) \<le> 1"
    using s by (simp_all add: MaxBlockNumber_def shared_only_def)
  from scan_returns_matches [OF s(1) this(1,2) _ this(3), of "[demo_key]" demo_key demo_mem demo_key] s(2)
  show ?thesis by (auto simp: demo_key_usable demo_key_matches)
qed


theorem scan_ignores_other_keys_witness:
  "\<exists>s. index_tuples s = [row_tuple (demo_tid 5) row_cube] \<and>
     scan_rows demo_rel demo_mem demo_key [demo_key\<lparr>sk_flags := SK_ISNULL\<rparr>, demo_key,
       demo_key\<lparr>sk_strategy := TRTREE_STRATEGY_CONTAINED, sk_argument := point_cube\<rparr>] 1 s =
     scan_rows demo_rel demo_mem demo_key [demo_key] 1 s"
proof -
  obtain s where s: "wf_index demo_rel 48 s" "index_tuples s = [row_tuple (demo_tid 5) row_cube]" "held s = []" "length (blocks s) = 2"
    by (rule demo_index)
  have "length (blocks s) < MaxBlockNumber" "shared_only (held s)"
    using s by (simp_all add: MaxBlockNumber_def shared_only_def)
  moreover have "find usable_key [demo_key\<lparr>sk_flags := SK_ISNULL\<rparr>, demo_key,
      demo_key\<lparr>sk_strategy := TRTREE_STRATEGY_CONTAINED, sk_argument := point_cube\<rparr>] = Some demo_key"
    using demo_key_usable by (simp add: usable_key_def SK_ISNULL_def)
  ultimately show ?thesis using scan_ignores_other_keys [OF s(1)] s(2) by blast
qed

theorem scan_without_key_witness:
  "index_scan demo_rel demo_mem demo_key [demo_key\<lparr>sk_flags := SK_ISNULL\<rparr>] 3 empty_relation = (Inr [], empty_relation)"
  by (rule scan_without_key) (simp add: usable_key_def SK_ISNULL_def)

theorem scan_blocks_insert_witness:
  "\<exists>s scan s' scan'. temporal_rtree_rescan (temporal_rtree_beginscan demo_mem demo_key 1) (Some [demo_key]) s = (Inr scan, s) \<and>
     fetch (next_tid demo_rel) 1 scan s = (Inr ([demo_tid 5], scan'), s') \<and> held s' \<noteq> [] \<and>
     fst (temporal_rtree_insert demo_rel (Some row_cube) (demo_tid 6) s') = Inl (SelfDeadlock (meta_root (index_meta s)))"
proof -
  obtain s where s: "wf_index demo_rel 48 s" "index_tuples s = [row_tuple (demo_tid 5) row_cube]" "held s = []" "length (blocks s) = 2"
      "root_level (index_meta s) = 0"
    by (rule demo_index)
  have lim: "length (blocks s) < MaxBlockNumber" "shared_only (held s)"
    using s by (simp_all add: MaxBlockNumber_def shared_only_def)
  let ?q = "(rtree_cube_to_box (rd_cenv demo_rel) (sk_argument demo_key), sk_strategy demo_key)"
  from rescan_run [OF s(1) lim _ _ refl, of "[demo_key]" demo_key demo_mem demo_key] obtain scan where
      sc: "temporal_rtree_rescan (temporal_rtree_beginscan demo_mem demo_key (length [demo_key])) (Some [demo_key]) s = (Inr scan, s)"
      "cursor_ok demo_rel 48 s ?q scan s" "cursor_rest demo_rel ?q scan s = [demo_tid 5]"
    using s(2) by (auto simp: demo_key_usable demo_key_matches)
  from scan.fetch_ok [OF sc(2), of "Suc 0"] sc(3) obtain scan' s' where
      f: "fetch (next_tid demo_rel) (Suc 0) scan s = (Inr ([demo_tid 5], scan'), s')" by auto
  have k: "find usable_key [demo_key] = Some demo_key" by (simp add: demo_key_usable)
  from scan_blocks_insert [OF s(1) lim(1) s(3) k sc(1) f, of row_cube "demo_tid 6"] s(5) demo_row
  have "held s' \<noteq> []" "fst (temporal_rtree_insert demo_rel (Some row_cube) (demo_tid 6) s') = Inl (SelfDeadlock (meta_root (index_meta s)))"
    by auto
  moreover have "length [demo_key] = 1" "Suc 0 = 1" by simp_all
  ultimately show ?thesis using sc(1) f by (metis (no_types))
qed

end
