(* ===== verification/TR_Vacuum.thy ===== *)
theory TR_Vacuum
  imports TR_Search
begin

text \<open>
  \<^verbatim>\<open>temporal_rtree_vacuum.c\<close>: removal of dead tuples page by page, reconstruction of the downlinks, and shrinking of the
  root. On a well-formed index the live tuples are left in their order; the recursion is bounded on every state.
\<close>

section \<open>Vacuum of a page\<close>

text \<open>The tuple counts are doubles in the code; they count exactly below \<open>2\<^sup>5\<^sup>3\<close>, far above the number of tuples an index can hold.\<close>

record IndexBulkDeleteResult =
  num_pages :: nat
  estimated_count :: bool
  num_index_tuples :: rat
  tuples_removed :: rat
  pages_newly_deleted :: nat
  pages_deleted :: nat
  pages_free :: nat

definition rtree_add_tuple_copy :: "nat \<Rightarrow> IndexTupleData \<Rightarrow> unit op" where
  "rtree_add_tuple_copy buf itup =
     bindC (BufferAddItem buf itup InvalidOffsetNumber) (\<lambda>off.
     if off = InvalidOffsetNumber then raise RebuildFailed else ret ())"

type_synonym vacuum_items = "(IndexTupleData \<times> RTreeTemporalBox) list \<times> IndexBulkDeleteResult"

text \<open>The local arrays \<^verbatim>\<open>tuples\<close> and \<^verbatim>\<open>boxes\<close> have \<^verbatim>\<open>MaxHeapTuplesPerPage\<close> entries: writing beyond them is an error of the
  model.\<close>

definition vacuum_keep :: "IndexTupleData \<Rightarrow> RTreeTemporalBox \<Rightarrow> vacuum_items \<Rightarrow> vacuum_items op" where
  "vacuum_keep itup box acc =
     (case acc of (items, stats) \<Rightarrow>
        if length items \<ge> MaxHeapTuplesPerPage then raise ArrayOverrun
        else ret (items @ [(itup, box)], stats\<lparr>num_index_tuples := num_index_tuples stats + 1\<rparr>))"

text \<open>The body of the loop over a leaf; the callback is \<open>None\<close> for a null pointer.\<close>

definition vacuum_leaf_item ::
  "Relation \<Rightarrow> (ItemPointerData \<Rightarrow> bool) option \<Rightarrow> vacuum_items \<Rightarrow> nat \<times> IndexTupleData \<Rightarrow> vacuum_items op" where
  "vacuum_leaf_item rel callback acc ent =
     (case ent of (offset, itup) \<Rightarrow> case acc of (items, stats) \<Rightarrow>
        if (case callback of None \<Rightarrow> False | Some f \<Rightarrow> f (t_tid itup))
        then ret (items, stats\<lparr>tuples_removed := tuples_removed stats + 1\<rparr>)
        else (case rtree_index_tuple_box rel itup of
          None \<Rightarrow> ret acc
        | Some box \<Rightarrow> vacuum_keep (CopyIndexTuple itup) box acc))"

text \<open>The page is written anew from the kept tuples; the result is its box, or \<open>None\<close> when it is empty.\<close>

definition vacuum_aggregate :: "RTreeTemporalBox list \<Rightarrow> RTreeTemporalBox" where
  "vacuum_aggregate boxes = foldl (\<lambda>agg b. if box_empty agg then b else tr_union agg b) empty_box boxes"

definition vacuum_rebuild ::
  "Relation \<Rightarrow> nat \<Rightarrow> RTreePageOpaqueData \<Rightarrow> vacuum_items \<Rightarrow> (RTreeTemporalBox option \<times> IndexBulkDeleteResult) op" where
  "vacuum_rebuild rel buf opaque acc =
     (case acc of (items, stats) \<Rightarrow>
      let page = rtree_init_datapage (op_flags opaque) (op_level opaque);
          page = set_opaque ((page_opaque page)\<lparr>rightlink := rightlink opaque, nsn := nsn opaque\<rparr>) page
      in
      bindC (put_page buf page) (\<lambda>_.
      bindC (foldC (\<lambda>_ (itup, box). rtree_add_tuple_copy buf itup) () items) (\<lambda>_.
      let stats = (if items = [] then stats\<lparr>pages_deleted := pages_deleted stats + 1,
                     pages_newly_deleted := pages_newly_deleted stats + 1\<rparr> else stats)
      in
      bindC (MarkBufferDirty buf) (\<lambda>_.
      bindC (if RelationNeedsWAL rel then rtree_wal_vacuum rel buf else ret ()) (\<lambda>_.
      bindC (UnlockBuffer buf) (\<lambda>_.
      bindC (ReleaseBuffer buf) (\<lambda>_.
      ret (if items = [] then None else Some (vacuum_aggregate (map snd items)), stats))))))))"

text \<open>
  The recursion follows the downlinks. A page that is its own ancestor would be locked twice, so that the recursion is no
  deeper than the number of blocks: the first argument bounds it.
\<close>

fun rtree_vacuum_page ::
  "nat \<Rightarrow> Relation \<Rightarrow> nat \<Rightarrow> (ItemPointerData \<Rightarrow> bool) option \<Rightarrow> IndexBulkDeleteResult \<Rightarrow>
     (RTreeTemporalBox option \<times> IndexBulkDeleteResult) op" where
  "rtree_vacuum_page 0 rel blkno callback stats = raise OutOfFuel"
| "rtree_vacuum_page (Suc fuel) rel blkno callback stats =
     bindC (ReadBuffer blkno) (\<lambda>buf.
     bindC (LockBuffer buf True) (\<lambda>_.
     bindC (BufferGetPage buf) (\<lambda>page.
     let opaque = page_opaque page;
         leaf = (op_flags opaque AND TRTREE_PAGE_LEAF \<noteq> 0)
     in
     bindC (if leaf then foldC (vacuum_leaf_item rel callback) ([], stats) (used_tuples rel page)
            else foldC (\<lambda>(items, stats) (offset, itup).
              let childblk = ip_blkid (t_tid itup) in
              bindC (rtree_vacuum_page fuel rel childblk callback stats) (\<lambda>(res, stats).
              case res of
                None \<Rightarrow> ret (items, stats)
              | Some child_box \<Rightarrow>
                  bindC (liftE (rtree_form_tuple child_box \<lparr>ip_blkid = childblk, ip_posid = FirstOffsetNumber\<rparr>)) (\<lambda>tuple.
                  vacuum_keep tuple child_box (items, stats))))
              ([], stats) (used_tuples rel page))
       (vacuum_rebuild rel buf opaque))))"

section \<open>Shrinking the root\<close>

definition rtree_vacuum_shrink_root :: "Relation \<Rightarrow> nat \<Rightarrow> nat \<Rightarrow> bool op" where
  "rtree_vacuum_shrink_root rel rootblk rootlevel =
     (if \<not> BlockNumberIsValid rootblk then ret False
      else
      bindC (ReadBuffer 0) (\<lambda>metabuf.
      bindC (LockBuffer metabuf True) (\<lambda>_.
      bindC (BufferGetPage metabuf) (\<lambda>metapage.
      let meta = page_meta metapage in
      if magic meta \<noteq> TRTREE_META_MAGIC \<or> meta_root meta \<noteq> rootblk then
        bindC (UnlockBuffer metabuf) (\<lambda>_. bindC (ReleaseBuffer metabuf) (\<lambda>_. ret False))
      else
      bindC (ReadBuffer rootblk) (\<lambda>rootbuf.
      bindC (LockBuffer rootbuf True) (\<lambda>_.
      bindC (BufferGetPage rootbuf) (\<lambda>rootpage.
      let unlock = (\<lambda>changed.
            bindC (UnlockBuffer rootbuf) (\<lambda>_. bindC (ReleaseBuffer rootbuf) (\<lambda>_.
            bindC (UnlockBuffer metabuf) (\<lambda>_. bindC (ReleaseBuffer metabuf) (\<lambda>_. ret changed)))))
      in
      if op_flags (page_opaque rootpage) AND TRTREE_PAGE_LEAF \<noteq> 0 \<or> rootlevel = 0 then unlock False
      else if PageGetMaxOffsetNumber rootpage = 0 then
        bindC (put_page rootbuf (rtree_init_datapage (TRTREE_PAGE_LEAF OR TRTREE_PAGE_ROOT) 0)) (\<lambda>_.
        bindC (put_page metabuf (set_meta (meta\<lparr>root_level := 0\<rparr>) metapage)) (\<lambda>_.
        unlock True))
      else if PageGetMaxOffsetNumber rootpage = 1 then
        let childblk = ip_blkid (t_tid (page_itup rel rootpage FirstOffsetNumber)) in
        bindC (ReadBuffer childblk) (\<lambda>childbuf.
        bindC (LockBuffer childbuf False) (\<lambda>_.
        bindC (BufferGetPage childbuf) (\<lambda>childpage.
        let childopaque = page_opaque childpage;
            newroot = set_opaque ((page_opaque childpage)\<lparr>op_flags := op_flags (page_opaque childpage) OR TRTREE_PAGE_ROOT,
                        op_level := op_level childopaque\<rparr>) childpage
        in
        bindC (put_page rootbuf newroot) (\<lambda>_.
        bindC (put_page metabuf (set_meta (meta\<lparr>root_level := op_level childopaque\<rparr>) metapage)) (\<lambda>_.
        bindC (MarkBufferDirty rootbuf) (\<lambda>_.
        bindC (MarkBufferDirty metabuf) (\<lambda>_.
        bindC (if RelationNeedsWAL rel then generic_xlog rel [rootbuf, metabuf] else ret ()) (\<lambda>_.
        bindC (UnlockReleaseBuffer childbuf) (\<lambda>_.
        unlock True)))))))))
      else unlock False)))))))"

section \<open>The index AM callbacks\<close>

record IndexVacuumInfo =
  analyze_only :: bool
  info_estimated_count :: bool
  num_heap_tuples :: rat

definition zero_stats :: IndexBulkDeleteResult where
  "zero_stats = \<lparr>num_pages = 0, estimated_count = False, num_index_tuples = 0, tuples_removed = 0,
     pages_newly_deleted = 0, pages_deleted = 0, pages_free = 0\<rparr>"

definition temporal_rtree_bulkdelete ::
  "Relation \<Rightarrow> IndexBulkDeleteResult option \<Rightarrow> (ItemPointerData \<Rightarrow> bool) option \<Rightarrow> IndexBulkDeleteResult op" where
  "temporal_rtree_bulkdelete rel stats0 callback =
     bindC RelationGetNumberOfBlocks (\<lambda>nblocks.
     let stats = (case stats0 of None \<Rightarrow> zero_stats | Some st \<Rightarrow> st);
         stats = stats\<lparr>num_pages := nblocks, estimated_count := False, num_index_tuples := 0, pages_deleted := 0,
                   pages_free := 0\<rparr>
     in
     if nblocks < 2 then ret stats
     else
     bindC rtree_read_meta (\<lambda>meta.
     if magic meta \<noteq> TRTREE_META_MAGIC then ret stats
     else
     let blkno = meta_root meta in
     if BlockNumberIsValid blkno then
       bindC (rtree_vacuum_page (Suc nblocks) rel blkno callback stats) (\<lambda>(_, stats).
       bindC (rtree_vacuum_shrink_root rel blkno (root_level meta)) (\<lambda>_.
       ret stats))
     else ret stats))"

definition temporal_rtree_vacuumcleanup ::
  "Relation \<Rightarrow> IndexVacuumInfo \<Rightarrow> IndexBulkDeleteResult option \<Rightarrow> IndexBulkDeleteResult option op" where
  "temporal_rtree_vacuumcleanup rel info stats0 =
     (if analyze_only info then ret stats0
      else
      bindC (case stats0 of
          None \<Rightarrow> bindC (temporal_rtree_bulkdelete rel (Some zero_stats) None) (\<lambda>stats.
                  ret (stats\<lparr>estimated_count := True\<rparr>))
        | Some stats \<Rightarrow> ret stats) (\<lambda>stats.
      let stats = (if \<not> info_estimated_count info \<and> num_index_tuples stats > num_heap_tuples info
                   then stats\<lparr>num_index_tuples := num_heap_tuples info\<rparr> else stats)
      in
      bindC RelationGetNumberOfBlocks (\<lambda>nblocks.
      ret (Some (stats\<lparr>num_pages := nblocks\<rparr>)))))"


section \<open>Writing a page anew\<close>

lemma add_copies_ok:
  assumes "blk < length (blocks s)" "rpage_ok (blocks s ! blk)" "list_all real_itup (map fst items)"
    "sum_list (map tuple_space (tuples (blocks s ! blk))) + sum_list (map tuple_space (map fst items)) \<le> 8152"
  shows "\<exists>p. foldC (\<lambda>_ (itup, box). rtree_add_tuple_copy blk itup) () items s = (Inr (), s\<lparr>blocks := (blocks s)[blk := p]\<rparr>) \<and>
    rpage_ok p \<and> tuples p = tuples (blocks s ! blk) @ map fst items \<and> pd_opaque p = pd_opaque (blocks s ! blk)"
  using assms
proof (induction items arbitrary: s)
  case Nil
  then show ?case by (intro exI [of _ "blocks s ! blk"]) simp
next
  case (Cons x items)
  obtain it box where x: "x = (it, box)" by fastforce
  obtain p where p: "BufferAddItem blk it InvalidOffsetNumber s =
      (Inr (Suc (length (tuples (blocks s ! blk)))), s\<lparr>blocks := (blocks s)[blk := p]\<rparr>)"
      "rpage_ok p" "tuples p = tuples (blocks s ! blk) @ [it]" "pd_opaque p = pd_opaque (blocks s ! blk)"
    using BufferAddItem_fits [of blk s it] Cons.prems x by auto
  let ?s = "s\<lparr>blocks := (blocks s)[blk := p]\<rparr>"
  have "\<exists>q. foldC (\<lambda>_ (itup, box). rtree_add_tuple_copy blk itup) () items ?s = (Inr (), ?s\<lparr>blocks := (blocks ?s)[blk := q]\<rparr>) \<and>
      rpage_ok q \<and> tuples q = tuples (blocks ?s ! blk) @ map fst items \<and> pd_opaque q = pd_opaque (blocks ?s ! blk)"
    using Cons.prems p x by (intro Cons.IH) simp_all
  then obtain q where q: "foldC (\<lambda>_ (itup, box). rtree_add_tuple_copy blk itup) () items ?s =
        (Inr (), ?s\<lparr>blocks := (blocks ?s)[blk := q]\<rparr>)" "rpage_ok q" "tuples q = tuples p @ map fst items" "pd_opaque q = pd_opaque p"
    using Cons.prems(1) by auto
  have "rtree_add_tuple_copy blk it s = (Inr (), ?s)"
    using p(1) by (simp add: rtree_add_tuple_copy_def InvalidOffsetNumber_def)
  then show ?case using q p x by (intro exI [of _ q]) simp
qed

lemma aggregate_fold: "nonempty_box b \<Longrightarrow> list_all nonempty_box bs \<Longrightarrow>
    foldl (\<lambda>agg b. if box_empty agg then b else tr_union agg b) b bs = foldl tr_union b bs"
  by (induction bs arbitrary: b) (auto simp: tr_union_nonempty)

lemma aggregate_spread:
  assumes "bs \<noteq> []" "list_all spread_box bs"
  shows "spread_box (vacuum_aggregate bs)"
proof -
  obtain b cs where bs: "bs = b # cs" using assms(1) by (cases bs) auto
  have "nonempty_box b" "list_all nonempty_box cs" using assms(2) bs by (auto simp: spread_box_def list_all_iff)
  then have "vacuum_aggregate bs = foldl tr_union b cs"
    using aggregate_fold [of b cs] by (simp add: vacuum_aggregate_def bs empty_box_def box_empty_def TRTREE_FLAG_EMPTY_def)
  then show ?thesis using spread_fold [of b cs] assms(2) bs by simp
qed

lemma rebuild_ok:
  assumes buf: "buf < length (blocks s)" and hp: "held s = (buf, True) # h" "pins s = buf # pn"
    and pg: "node_page rel sz l (blocks s ! buf)"
    and items: "list_all (entry_ok rel (entry_size sz l)) (map fst items)" "list_all spread_box (map snd items)"
      "24 \<le> sz" "length items \<le> length (tuples (blocks s ! buf))"
  shows "\<exists>r st' s' P. vacuum_rebuild rel buf (page_opaque (blocks s ! buf)) (items, st) s = (Inr (r, st'), s') \<and>
    held s' = h \<and> pins s' = pn \<and> blocks s' = (blocks s)[buf := P] \<and> node_page rel sz l P \<and> tuples P = map fst items \<and>
    (if items = [] then r = None else \<exists>box. r = Some box \<and> spread_box box) \<and>
    tuples_removed st' = tuples_removed st"
proof -
  let ?old = "blocks s ! buf" and ?op = "page_opaque (blocks s ! buf)" and ?e = "entry_size sz l"
  let ?init = "rtree_init_datapage (op_flags ?op) (op_level ?op)"
  let ?page = "set_opaque ((page_opaque ?init)\<lparr>rightlink := rightlink ?op, nsn := nsn ?op\<rparr>) ?init"
  note init = init_datapage_ok [of "op_flags ?op" "op_level ?op"]
  let ?s1 = "s\<lparr>blocks := (blocks s)[buf := ?page]\<rparr>"
  have sp: "sum_list (map tuple_space (tuples ?old)) \<le> 8152" using pg rpage_space [of ?old] by (simp add: node_page_def)
  have "sum_list (map tuple_space (map fst items)) \<le> sum_list (map tuple_space (tuples ?old))"
    using entries_space [OF items(1)] entries_space [of rel ?e "tuples ?old"] pg items(4)
    by (simp add: node_page_def mult_le_mono1 del: length_tuples)
  with sp have fits: "sum_list (map tuple_space (map fst items)) \<le> 8152" by linarith
  have real: "list_all real_itup (map fst items)"
    using items(1,3) by (auto simp: list_all_iff entry_ok_def entry_size_def split: if_splits)
  have "\<exists>p. foldC (\<lambda>_ (itup, box). rtree_add_tuple_copy buf itup) () items ?s1 =
        (Inr (), ?s1\<lparr>blocks := (blocks ?s1)[buf := p]\<rparr>) \<and> rpage_ok p \<and>
      tuples p = tuples (blocks ?s1 ! buf) @ map fst items \<and> pd_opaque p = pd_opaque (blocks ?s1 ! buf)"
    by (rule add_copies_ok) (use buf init real fits in simp_all)
  then obtain p where p: "foldC (\<lambda>_ (itup, box). rtree_add_tuple_copy buf itup) () items ?s1 =
        (Inr (), s\<lparr>blocks := (blocks s)[buf := p]\<rparr>)" "rpage_ok p" "tuples p = map fst items" "pd_opaque p = pd_opaque ?page"
    using buf init by auto
  have "page_opaque p = page_opaque ?page" using p(4) by (simp add: page_opaque_def)
  moreover have "op_level ?op < 65536" by (simp add: page_opaque_def opaque_view_def)
  ultimately have "node_page rel sz l p"
    using p(2,3) items(1) pg init by (simp add: node_page_def leaf_page_def)
  then have np: "node_page rel sz l (logged rel p)" "tuples (logged rel p) = map fst items"
    using p(2,3) by (simp_all add: node_page_def leaf_page_def)
  let ?s2 = "s\<lparr>blocks := (blocks s)[buf := p], dirty := insert buf (dirty s)\<rparr>"
  from wal_one_fields [of rel buf ?s2, folded rtree_wal_vacuum_def] obtain s3 where
      s3: "(if RelationNeedsWAL rel then rtree_wal_vacuum rel buf else ret ()) ?s2 = (Inr (), s3)"
      "blocks s3 = (blocks s)[buf := logged rel p]" "held s3 = (buf, True) # h" "pins s3 = buf # pn"
    using buf hp by auto
  have agg: "items \<noteq> [] \<Longrightarrow> spread_box (vacuum_aggregate (map snd items))" using items(2) by (intro aggregate_spread) simp_all
  have "\<exists>r st' s'. vacuum_rebuild rel buf ?op (items, st) s = (Inr (r, st'), s') \<and> held s' = h \<and> pins s' = pn \<and>
      blocks s' = (blocks s)[buf := logged rel p] \<and> (if items = [] then r = None else \<exists>box. r = Some box \<and> spread_box box) \<and>
      tuples_removed st' = tuples_removed st"
    using p(1) s3 agg
    by (simp add: vacuum_rebuild_def bindC_def put_page_run MarkBufferDirty_run UnlockBuffer_run ReleaseBuffer_run Let_def)
  then obtain r st' s' where "vacuum_rebuild rel buf ?op (items, st) s = (Inr (r, st'), s')" "held s' = h" "pins s' = pn"
      "blocks s' = (blocks s)[buf := logged rel p]" "if items = [] then r = None else \<exists>box. r = Some box \<and> spread_box box"
      "tuples_removed st' = tuples_removed st"
    by (elim exE conjE)
  with np show ?thesis by (intro exI [of _ r] exI [of _ st'] exI [of _ s'] exI [of _ "logged rel p"]) simp
qed

section \<open>The loops over the tuples of a page\<close>

definition dead :: "(ItemPointerData \<Rightarrow> bool) option \<Rightarrow> IndexTupleData \<Rightarrow> bool" where
  "dead callback it \<longleftrightarrow> (case callback of None \<Rightarrow> False | Some f \<Rightarrow> f (t_tid it))"

abbreviation live :: "(ItemPointerData \<Rightarrow> bool) option \<Rightarrow> IndexTupleData \<Rightarrow> bool" where
  "live callback it \<equiv> \<not> dead callback it"

definition removed :: "(ItemPointerData \<Rightarrow> bool) option \<Rightarrow> IndexTupleData list \<Rightarrow> rat" where
  "removed callback ts = of_nat (length (filter (dead callback) ts))"

lemma removed_simps [simp]:
  "removed cb [] = 0" "removed cb (t # ts) = (if dead cb t then 1 else 0) + removed cb ts"
  "removed cb (ts @ us) = removed cb ts + removed cb us"
  by (simp_all add: removed_def)

lemma leaf_loop_ok:
  assumes "list_all (entry_ok rel k) (map snd ents)" "length items + length ents \<le> MaxHeapTuplesPerPage"
  shows "\<exists>new st'. foldC (vacuum_leaf_item rel cb) (items, st) ents s = (Inr (items @ new, st'), s) \<and>
    map fst new = filter (live cb) (map snd ents) \<and> list_all spread_box (map snd new) \<and>
    tuples_removed st' = tuples_removed st + removed cb (map snd ents)"
  using assms
proof (induction ents arbitrary: items st)
  case Nil
  then show ?case by simp
next
  case (Cons x ents)
  obtain off it where x: "x = (off, it)" by fastforce
  obtain box where box: "rtree_index_tuple_box rel it = Some box" "spread_box box"
    using Cons.prems(1) x by (auto simp: entry_ok_def)
  let ?items = "if dead cb it then items else items @ [(it, box)]"
  let ?st = "if dead cb it then st\<lparr>tuples_removed := tuples_removed st + 1\<rparr>
    else st\<lparr>num_index_tuples := num_index_tuples st + 1\<rparr>"
  have step: "vacuum_leaf_item rel cb (items, st) x s = (Inr (?items, ?st), s)"
    using box(1) Cons.prems(2) x
    by (simp add: vacuum_leaf_item_def vacuum_keep_def dead_def CopyIndexTuple_def split: option.splits)
  have "\<exists>new st'. foldC (vacuum_leaf_item rel cb) (?items, ?st) ents s = (Inr (?items @ new, st'), s) \<and>
    map fst new = filter (live cb) (map snd ents) \<and> list_all spread_box (map snd new) \<and>
    tuples_removed st' = tuples_removed ?st + removed cb (map snd ents)"
    using Cons.prems by (intro Cons.IH) simp_all
  then obtain new st' where n: "foldC (vacuum_leaf_item rel cb) (?items, ?st) ents s = (Inr (?items @ new, st'), s)"
      "map fst new = filter (live cb) (map snd ents)" "list_all spread_box (map snd new)"
      "tuples_removed st' = tuples_removed ?st + removed cb (map snd ents)"
    by (elim exE conjE)
  then show ?case
    using step box(2) x
    by (intro exI [of _ "if dead cb it then new else (it, box) # new"] exI [of _ st']) simp
qed

text \<open>What vacuuming the tree below a block does: the leaf tuples that are left are the live ones, in the same order; the blocks
  used are among those used before; a tree without live tuples ends as an empty page.\<close>

definition vac_post ::
  "Relation \<Rightarrow> nat \<Rightarrow> (ItemPointerData \<Rightarrow> bool) option \<Rightarrow> nat \<Rightarrow> rpage list \<Rightarrow> rpage list \<Rightarrow> nat \<Rightarrow> RTreeTemporalBox option \<Rightarrow> bool" where
  "vac_post rel sz cb l bs bs' blk r \<longleftrightarrow> length bs' = length bs \<and>
     (\<forall>b. b \<notin> set (nodes bs l blk) \<longrightarrow> bs' ! b = bs ! b) \<and> node_page rel sz l (bs' ! blk) \<and>
     (case r of
        None \<Rightarrow> tuples (bs' ! blk) = [] \<and> filter (live cb) (leaves bs l blk) = []
      | Some box \<Rightarrow> spread_box box \<and> wf_tree rel sz bs' l blk \<and> mset (nodes bs' l blk) \<subseteq># mset (nodes bs l blk) \<and>
          leaves bs' l blk = filter (live cb) (leaves bs l blk))"

text \<open>The loop over the children of an inner page, given what the recursive call does.\<close>

abbreviation kid_step ::
  "(nat \<Rightarrow> IndexBulkDeleteResult \<Rightarrow> (RTreeTemporalBox option \<times> IndexBulkDeleteResult) op) \<Rightarrow> vacuum_items \<Rightarrow> nat \<times> IndexTupleData \<Rightarrow> vacuum_items op" where
  "kid_step rec \<equiv> (\<lambda>(items, stats) (offset, itup).
     let childblk = ip_blkid (t_tid itup) in
     bindC (rec childblk stats) (\<lambda>(res, stats).
     case res of
       None \<Rightarrow> ret (items, stats)
     | Some child_box \<Rightarrow>
         bindC (liftE (rtree_form_tuple child_box \<lparr>ip_blkid = childblk, ip_posid = FirstOffsetNumber\<rparr>)) (\<lambda>tuple.
         vacuum_keep tuple child_box (items, stats))))"

definition kids_post ::
  "Relation \<Rightarrow> nat \<Rightarrow> (ItemPointerData \<Rightarrow> bool) option \<Rightarrow> nat \<Rightarrow> rpage list \<Rightarrow> rpage list \<Rightarrow> IndexTupleData list \<Rightarrow>
     (IndexTupleData \<times> RTreeTemporalBox) list \<Rightarrow> bool" where
  "kids_post rel sz cb l bs bs' ts new \<longleftrightarrow> length bs' = length bs \<and>
     (\<forall>b. b \<notin> set (kid_nodes bs l ts) \<longrightarrow> bs' ! b = bs ! b) \<and> length new \<le> length ts \<and>
     list_all (entry_ok rel 48) (map fst new) \<and> list_all spread_box (map snd new) \<and>
     list_all (\<lambda>it. wf_tree rel sz bs' l (child it)) (map fst new) \<and>
     kid_leaves bs' l (map fst new) = filter (live cb) (kid_leaves bs l ts) \<and>
     mset (kid_nodes bs' l (map fst new)) \<subseteq># mset (kid_nodes bs l ts)"

lemma kid_step_ok:
  assumes rec: "rec (child it) st s = (Inr (r, st1), s1)" "vac_post rel sz cb l (blocks s) (blocks s1) (child it) r"
    and env: "llround_env (rd_cenv rel)" and len: "length items < MaxHeapTuplesPerPage"
  shows "\<exists>new st'. kid_step rec (items, st) (off, it) s = (Inr (items @ new, st'), s1) \<and>
    tuples_removed st' = tuples_removed st1 \<and> kids_post rel sz cb l (blocks s) (blocks s1) [it] new"
proof (cases r)
  case None
  then show ?thesis
    using rec by (intro exI [of _ "[]"] exI [of _ st1]) (simp add: child_def bindC_def vac_post_def kids_post_def Let_def)
next
  case (Some box)
  then have b: "spread_box box" using rec(2) by (simp add: vac_post_def)
  obtain t where t: "rtree_form_tuple box \<lparr>ip_blkid = child it, ip_posid = FirstOffsetNumber\<rparr> = Inr t"
      "t_tid t = \<lparr>ip_blkid = child it, ip_posid = FirstOffsetNumber\<rparr>" "entry_ok rel 48 t"
    by (rule downlink_ok [OF b env])
  have c: "child t = child it" using t(2) by (simp add: child_def)
  have "kid_step rec (items, st) (off, it) s = (Inr (items @ [(t, box)], st1\<lparr>num_index_tuples := num_index_tuples st1 + 1\<rparr>), s1)"
    using rec(1) t(1) len Some by (simp add: bindC_def Let_def vacuum_keep_def child_def)
  then show ?thesis using rec(2) Some t(3) b c
    by (intro exI [of _ "[(t, box)]"] exI [of _ "st1\<lparr>num_index_tuples := num_index_tuples st1 + 1\<rparr>"])
      (simp add: vac_post_def kids_post_def)
qed

lemma mset_subset_set: "mset xs \<subseteq># mset ys \<Longrightarrow> set xs \<subseteq> set ys"
  by (metis set_mset_mset set_mset_mono)

lemma distinct_submset: "mset xs \<subseteq># mset ys \<Longrightarrow> distinct ys \<Longrightarrow> distinct xs"
  by (metis distinct_count_atmost_1 le_zero_eq less_one linorder_not_less count_mset_0_iff mset_subset_eq_count order_le_less)

lemma wf_kids_frame:
  assumes "list_all (\<lambda>it. wf_tree rel sz bs l (child it)) ts" "length bs' = length bs"
    "\<And>b. b \<in> set (kid_nodes bs l ts) \<Longrightarrow> bs' ! b = bs ! b"
  shows "list_all (\<lambda>it. wf_tree rel sz bs' l (child it)) ts"
proof -
  have "wf_tree rel sz bs' l (child it)" if it: "it \<in> set ts" for it
  proof (rule wf_tree_frame)
    show wf: "wf_tree rel sz bs l (child it)" using assms(1) it by (simp add: list_all_iff)
    fix b assume b: "b \<in> set (nodes bs l (child it))"
    then have "b \<in> set (kid_nodes bs l ts)" using it by (auto simp: set_kid_nodes)
    then show "b < length bs' \<and> bs' ! b = bs ! b" using assms(2,3) wf_tree_nodes [OF wf b] by simp
  qed
  then show ?thesis by (simp add: list_all_iff)
qed

lemma kids_post_append:
  assumes 1: "kids_post rel sz cb l bs bs1 ts n1" and 2: "kids_post rel sz cb l bs1 bs2 us n2"
    and disj: "set (kid_nodes bs l ts) \<inter> set (kid_nodes bs l us) = {}"
  shows "kids_post rel sz cb l bs bs2 (ts @ us) (n1 @ n2)"
proof -
  have same1: "bs1 ! b = bs ! b" if "b \<notin> set (kid_nodes bs l ts)" for b using 1 that by (simp add: kids_post_def)
  have U: "kid_nodes bs1 l us = kid_nodes bs l us" "kid_leaves bs1 l us = kid_leaves bs l us"
    by (rule kid_frame; use same1 disj in blast)+
  have same2: "bs2 ! b = bs1 ! b" if "b \<notin> set (kid_nodes bs l us)" for b using 2 that U(1) by (simp add: kids_post_def)
  have sub: "set (kid_nodes bs1 l (map fst n1)) \<subseteq> set (kid_nodes bs l ts)"
    using 1 by (intro mset_subset_set) (simp add: kids_post_def)
  then have fr: "bs2 ! b = bs1 ! b" if "b \<in> set (kid_nodes bs1 l (map fst n1))" for b using that same2 disj by blast
  have N: "kid_nodes bs2 l (map fst n1) = kid_nodes bs1 l (map fst n1)" "kid_leaves bs2 l (map fst n1) = kid_leaves bs1 l (map fst n1)"
    by (rule kid_frame; use fr in blast)+
  have W: "list_all (\<lambda>it. wf_tree rel sz bs2 l (child it)) (map fst n1)"
    by (rule wf_kids_frame [of _ _ bs1]) (use 1 2 fr in \<open>auto simp: kids_post_def\<close>)
  have "bs2 ! b = bs ! b" if "b \<notin> set (kid_nodes bs l (ts @ us))" for b using that same1 same2 by simp
  moreover have "mset (kid_nodes bs2 l (map fst (n1 @ n2))) \<subseteq># mset (kid_nodes bs l (ts @ us))"
    using 1 2 N(1) U(1) by (simp add: kids_post_def subset_mset.add_mono)
  moreover have "kid_leaves bs2 l (map fst (n1 @ n2)) = filter (live cb) (kid_leaves bs l (ts @ us))"
    using 1 2 N(2) U(2) by (simp add: kids_post_def)
  ultimately show ?thesis using 1 2 W by (simp add: kids_post_def)
qed

lemma kids_loop_ok:
  assumes rec: "\<And>it st s. wf_tree rel sz (blocks s) l (child it) \<Longrightarrow> distinct (nodes (blocks s) l (child it)) \<Longrightarrow>
      set (nodes (blocks s) l (child it)) \<inter> fst ` set (held s) = {} \<Longrightarrow>
      \<exists>r st' s'. rec (child it) st s = (Inr (r, st'), s') \<and> held s' = held s \<and> pins s' = pins s \<and>
        vac_post rel sz cb l (blocks s) (blocks s') (child it) r \<and>
        tuples_removed st' = tuples_removed st + removed cb (leaves (blocks s) l (child it))"
    and env: "llround_env (rd_cenv rel)"
    and kids: "list_all (\<lambda>it. wf_tree rel sz (blocks s) l (child it)) (map snd ents)"
      "distinct (kid_nodes (blocks s) l (map snd ents))"
      "set (kid_nodes (blocks s) l (map snd ents)) \<inter> fst ` set (held s) = {}"
      "length items + length ents \<le> MaxHeapTuplesPerPage"
  shows "\<exists>new st' s'. foldC (kid_step rec) (items, st) ents s = (Inr (items @ new, st'), s') \<and>
    held s' = held s \<and> pins s' = pins s \<and> kids_post rel sz cb l (blocks s) (blocks s') (map snd ents) new \<and>
    tuples_removed st' = tuples_removed st + removed cb (kid_leaves (blocks s) l (map snd ents))"
  using kids
proof (induction ents arbitrary: items st s)
  case Nil
  then show ?case by (simp add: kids_post_def)
next
  case (Cons x ents)
  obtain off it where x: "x = (off, it)" by fastforce
  let ?N = "nodes (blocks s) l (child it)" and ?K = "kid_nodes (blocks s) l (map snd ents)"
  have wf: "wf_tree rel sz (blocks s) l (child it)" "distinct ?N" "set ?N \<inter> set ?K = {}" "distinct ?K"
    using Cons.prems x by auto
  have ul: "set ?N \<inter> fst ` set (held s) = {}" "set ?K \<inter> fst ` set (held s) = {}"
    using Cons.prems(3) x by auto
  from rec [OF wf(1,2) ul(1)] obtain r st1 s1 where r: "rec (child it) st s = (Inr (r, st1), s1)" "held s1 = held s" "pins s1 = pins s"
      "vac_post rel sz cb l (blocks s) (blocks s1) (child it) r"
      "tuples_removed st1 = tuples_removed st + removed cb (leaves (blocks s) l (child it))"
    by blast
  have len: "length items < MaxHeapTuplesPerPage" using Cons.prems(4) by simp
  from kid_step_ok [of rec, OF r(1,4) env len, of off] obtain n1 st2 where
      n1: "kid_step rec (items, st) (off, it) s = (Inr (items @ n1, st2), s1)" "tuples_removed st2 = tuples_removed st1"
      "kids_post rel sz cb l (blocks s) (blocks s1) [it] n1"
    by (elim exE conjE)
  have same: "blocks s1 ! b = blocks s ! b" if "b \<in> set ?K" for b
    using n1(3) wf(3) that by (auto simp: kids_post_def)
  have K: "kid_nodes (blocks s1) l (map snd ents) = ?K" "kid_leaves (blocks s1) l (map snd ents) = kid_leaves (blocks s) l (map snd ents)"
    by (rule kid_frame; use same in blast)+
  have wfk: "list_all (\<lambda>it. wf_tree rel sz (blocks s1) l (child it)) (map snd ents)"
    by (rule wf_kids_frame [of _ _ "blocks s"]) (use Cons.prems(1) n1(3) same in \<open>auto simp: kids_post_def\<close>)
  have "length n1 \<le> 1" using n1(3) by (simp add: kids_post_def)
  then have len2: "length (items @ n1) + length ents \<le> MaxHeapTuplesPerPage" using Cons.prems(4) by simp
  have ul1: "set (kid_nodes (blocks s1) l (map snd ents)) \<inter> fst ` set (held s1) = {}" using ul(2) K(1) r(2) by simp
  have d1: "distinct (kid_nodes (blocks s1) l (map snd ents))" using K(1) wf(4) by simp
  from Cons.IH [OF wfk d1 ul1 len2, of st2] obtain new st' s' where
      i: "foldC (kid_step rec) (items @ n1, st2) ents s1 = (Inr ((items @ n1) @ new, st'), s')" "held s' = held s1" "pins s' = pins s1"
      "kids_post rel sz cb l (blocks s1) (blocks s') (map snd ents) new"
      "tuples_removed st' = tuples_removed st2 + removed cb (kid_leaves (blocks s1) l (map snd ents))"
    by (elim exE conjE)
  have "kids_post rel sz cb l (blocks s) (blocks s') ([it] @ map snd ents) (n1 @ new)"
    by (rule kids_post_append [OF n1(3) i(4)]) (use wf(3) in simp)
  moreover have "foldC (kid_step rec) (items, st) (x # ents) s = (Inr (items @ n1 @ new, st'), s')"
    using n1(1) i(1) x by (simp del: split_conv)
  ultimately show ?case using i r n1(2) K(2) x by (intro exI [of _ "n1 @ new"] exI [of _ st'] exI [of _ s']) simp
qed


section \<open>Vacuum of a tree\<close>

lemma tuples_bound:
  assumes "node_page rel sz l p" "24 \<le> sz"
  shows "length (tuples p) \<le> MaxHeapTuplesPerPage"
proof -
  have e: "24 \<le> entry_size sz l" using assms(2) by (simp add: entry_size_def)
  have "length (tuples p) * (MAXALIGN (entry_size sz l) + 4) \<le> 8152"
    using assms(1) rpage_space [of p] entries_space [of rel "entry_size sz l" "tuples p"] by (simp add: node_page_def)
  moreover have "length (tuples p) * 28 \<le> length (tuples p) * (MAXALIGN (entry_size sz l) + 4)"
    using e by (intro mult_le_mono2) (simp add: MAXALIGN_def)
  ultimately have "length (tuples p) * 28 \<le> 8152" by linarith
  then show ?thesis by (simp add: page_consts MaxHeapTuplesPerPage_def)
qed

lemma vac_post_leaf:
  assumes "blk < length bs" "bs' = bs[blk := P]" "node_page rel sz 0 P" "tuples P = filter (live cb) (tuples (bs ! blk))"
    "if tuples P = [] then r = None else \<exists>box. r = Some box \<and> spread_box box"
  shows "vac_post rel sz cb 0 bs bs' blk r"
  using assms by (cases "tuples P = []") (auto simp: vac_post_def)

lemma vac_post_node:
  assumes blk: "blk < length bs" "blk \<notin> set (kid_nodes bs l (tuples (bs ! blk)))"
    and kids: "kids_post rel sz cb l bs bs1 (tuples (bs ! blk)) new" "bs1 ! blk = bs ! blk"
    and P: "bs' = bs1[blk := P]" "node_page rel sz (Suc l) P" "tuples P = map fst new"
      "if new = [] then r = None else \<exists>box. r = Some box \<and> spread_box box"
  shows "vac_post rel sz cb (Suc l) bs bs' blk r"
proof -
  let ?K = "kid_nodes bs l (tuples (bs ! blk))"
  have len: "length bs1 = length bs" using kids(1) by (simp add: kids_post_def)
  have sub: "mset (kid_nodes bs1 l (map fst new)) \<subseteq># mset ?K" using kids(1) by (simp add: kids_post_def)
  then have fr: "bs' ! b = bs1 ! b" if "b \<in> set (kid_nodes bs1 l (map fst new))" for b
    using that blk(2) mset_subset_set [OF sub] P(1) by (metis nth_list_update_neq subsetD)
  have N: "kid_nodes bs' l (map fst new) = kid_nodes bs1 l (map fst new)" "kid_leaves bs' l (map fst new) = kid_leaves bs1 l (map fst new)"
    by (rule kid_frame; use fr in blast)+
  have W: "list_all (\<lambda>it. wf_tree rel sz bs' l (child it)) (map fst new)"
    by (rule wf_kids_frame [of _ _ bs1]) (use kids(1) P(1) fr in \<open>auto simp: kids_post_def\<close>)
  have bP: "bs' ! blk = P" "length bs' = length bs" using P(1) blk(1) len by simp_all
  have frame: "bs' ! b = bs ! b" if "b \<notin> set (nodes bs (Suc l) blk)" for b
    using that kids(1) P(1) unfolding node_kids by (simp add: kids_post_def)
  have lv: "kid_leaves bs1 l (map fst new) = filter (live cb) (leaves bs (Suc l) blk)"
    using kids(1) unfolding node_kids by (simp add: kids_post_def)
  show ?thesis
  proof (cases "new = []")
    case True
    then show ?thesis using bP frame P lv by (auto simp: vac_post_def)
  next
    case False
    then obtain box where r: "r = Some box" "spread_box box" using P(4) by auto
    have "wf_tree rel sz bs' (Suc l) blk" using bP blk(1) P(2,3) W False by simp
    moreover have "nodes bs' (Suc l) blk = blk # kid_nodes bs1 l (map fst new)"
      "leaves bs' (Suc l) blk = filter (live cb) (leaves bs (Suc l) blk)"
      using N lv unfolding node_kids bP(1) P(3) by simp_all
    ultimately show ?thesis using r bP frame P(2) sub unfolding vac_post_def node_kids(1) by simp
  qed
qed

text \<open>The result of a call on a node, and what it is on a leaf and on an inner page.\<close>

definition vacuumed ::
  "Relation \<Rightarrow> nat \<Rightarrow> (ItemPointerData \<Rightarrow> bool) option \<Rightarrow> nat \<Rightarrow> nat \<Rightarrow> IndexBulkDeleteResult \<Rightarrow> istate \<Rightarrow>
     (pg_error + RTreeTemporalBox option \<times> IndexBulkDeleteResult) \<times> istate \<Rightarrow> bool" where
  "vacuumed rel sz cb l blk st s res \<longleftrightarrow> (\<exists>r st' s'. res = (Inr (r, st'), s') \<and> held s' = held s \<and> pins s' = pins s \<and>
     vac_post rel sz cb l (blocks s) (blocks s') blk r \<and>
     tuples_removed st' = tuples_removed st + removed cb (leaves (blocks s) l blk))"

lemma page_entries:
  assumes "node_page rel sz l p" "24 \<le> sz"
  shows "map snd (used_tuples rel p) = tuples p" "length (used_tuples rel p) \<le> MaxHeapTuplesPerPage"
    "list_all (entry_ok rel (entry_size sz l)) (tuples p)"
proof -
  show 1: "map snd (used_tuples rel p) = tuples p" using assms(1) by (intro used_tuples_ok) (simp add: node_page_def)
  show "length (used_tuples rel p) \<le> MaxHeapTuplesPerPage" using tuples_bound [OF assms] by (metis 1 length_map)
  show "list_all (entry_ok rel (entry_size sz l)) (tuples p)" using assms(1) by (simp add: node_page_def)
qed

lemma vacuum_leaf_page:
  assumes blk: "blk < length (blocks s)" "node_page rel sz 0 (blocks s ! blk)" "24 \<le> sz" and nl: "\<not> lock_conflict (held s) blk True"
  shows "vacuumed rel sz cb 0 blk st s (rtree_vacuum_page (Suc fuel) rel blk cb st s)"
proof -
  let ?p = "blocks s ! blk" and ?s1 = "s\<lparr>pins := blk # pins s, held := (blk, True) # held s\<rparr>"
  note pe = page_entries [OF blk(2,3)]
  have leaf: "leaf_page ?p" using blk(2) by (simp add: node_page_def)
  from leaf_loop_ok [of rel "entry_size sz 0" "used_tuples rel ?p" "[]" cb st ?s1] pe obtain new st1 where
      new: "foldC (vacuum_leaf_item rel cb) ([], st) (used_tuples rel ?p) ?s1 = (Inr (new, st1), ?s1)"
      "map fst new = filter (live cb) (tuples ?p)" "list_all spread_box (map snd new)"
      "tuples_removed st1 = tuples_removed st + removed cb (tuples ?p)"
    by auto
  have "length new \<le> length (tuples ?p)" using new(2) by (metis length_filter_le length_map)
  moreover have "list_all (entry_ok rel (entry_size sz 0)) (map fst new)"
    using pe(3) unfolding new(2) by (auto simp: list_all_iff)
  ultimately have "\<exists>r st' s' P. vacuum_rebuild rel blk (page_opaque (blocks ?s1 ! blk)) (new, st1) ?s1 = (Inr (r, st'), s') \<and>
      held s' = held s \<and> pins s' = pins s \<and> blocks s' = (blocks ?s1)[blk := P] \<and> node_page rel sz 0 P \<and> tuples P = map fst new \<and>
      (if new = [] then r = None else \<exists>box. r = Some box \<and> spread_box box) \<and> tuples_removed st' = tuples_removed st1"
    using blk new(3) by (intro rebuild_ok) simp_all
  then obtain r st' s' P where r: "vacuum_rebuild rel blk (page_opaque ?p) (new, st1) ?s1 = (Inr (r, st'), s')"
      "held s' = held s" "pins s' = pins s" "blocks s' = (blocks s)[blk := P]" "node_page rel sz 0 P" "tuples P = map fst new"
      "if new = [] then r = None else \<exists>box. r = Some box \<and> spread_box box" "tuples_removed st' = tuples_removed st1"
    by auto
  have "vac_post rel sz cb 0 (blocks s) (blocks s') blk r"
    by (rule vac_post_leaf [OF blk(1) r(4)]) (use r new(2) in \<open>auto split: if_splits\<close>)
  moreover have "rtree_vacuum_page (Suc fuel) rel blk cb st s = (Inr (r, st'), s')"
    using blk(1) nl leaf new(1) r(1)
    by (simp add: bindC_def ReadBuffer_run LockBuffer_run BufferGetPage_run Let_def leaf_page_def)
  ultimately show ?thesis using r(2,3,8) new(4) unfolding vacuumed_def by simp
qed

lemma vacuum_inner_page:
  assumes wf: "wf_tree rel sz (blocks s) (Suc l) blk" "distinct (nodes (blocks s) (Suc l) blk)"
      "set (nodes (blocks s) (Suc l) blk) \<inter> fst ` set (held s) = {}" "24 \<le> sz" and env: "llround_env (rd_cenv rel)"
    and rec: "\<And>blk st s. wf_tree rel sz (blocks s) l blk \<Longrightarrow> distinct (nodes (blocks s) l blk) \<Longrightarrow>
      set (nodes (blocks s) l blk) \<inter> fst ` set (held s) = {} \<Longrightarrow> vacuumed rel sz cb l blk st s (rtree_vacuum_page fuel rel blk cb st s)"
  shows "vacuumed rel sz cb (Suc l) blk st s (rtree_vacuum_page (Suc fuel) rel blk cb st s)"
proof -
  let ?p = "blocks s ! blk" and ?s1 = "s\<lparr>pins := blk # pins s, held := (blk, True) # held s\<rparr>"
  let ?ents = "used_tuples rel ?p" and ?rec = "\<lambda>blk st. rtree_vacuum_page fuel rel blk cb st"
  have blk: "blk < length (blocks s)" "node_page rel sz (Suc l) ?p"
      "list_all (\<lambda>it. wf_tree rel sz (blocks s) l (child it)) (tuples ?p)"
    using wf(1) by simp_all
  note pe = page_entries [OF blk(2) wf(4)]
  have inner: "\<not> leaf_page ?p" using blk(2) by (simp add: node_page_def)
  have K: "distinct (kid_nodes (blocks s) l (tuples ?p))" "blk \<notin> set (kid_nodes (blocks s) l (tuples ?p))"
      "set (kid_nodes (blocks s) l (tuples ?p)) \<inter> fst ` set (held s) = {}" "blk \<notin> fst ` set (held s)"
    using wf(2,3) unfolding node_kids by auto
  have nl: "\<not> lock_conflict (held s) blk True" by (rule unlocked_no_conflict [OF K(4)])
  have rec': "\<exists>r st' s'. ?rec (child it) st s = (Inr (r, st'), s') \<and> held s' = held s \<and> pins s' = pins s \<and>
        vac_post rel sz cb l (blocks s) (blocks s') (child it) r \<and>
        tuples_removed st' = tuples_removed st + removed cb (leaves (blocks s) l (child it))"
    if "wf_tree rel sz (blocks s) l (child it)" "distinct (nodes (blocks s) l (child it))"
      "set (nodes (blocks s) l (child it)) \<inter> fst ` set (held s) = {}" for it st s
    using rec [OF that] by (simp add: vacuumed_def)
  have "\<exists>new st' s'. foldC (kid_step ?rec) ([], st) ?ents ?s1 = (Inr ([] @ new, st'), s') \<and>
      held s' = held ?s1 \<and> pins s' = pins ?s1 \<and> kids_post rel sz cb l (blocks ?s1) (blocks s') (map snd ?ents) new \<and>
      tuples_removed st' = tuples_removed st + removed cb (kid_leaves (blocks ?s1) l (map snd ?ents))"
    by (rule kids_loop_ok [of rel sz l ?rec, OF rec' env]) (use blk(3) pe K in auto)
  then obtain new st1 s2 where n: "foldC (kid_step ?rec) ([], st) ?ents ?s1 = (Inr (new, st1), s2)"
      "held s2 = (blk, True) # held s" "pins s2 = blk # pins s" "kids_post rel sz cb l (blocks s) (blocks s2) (tuples ?p) new"
      "tuples_removed st1 = tuples_removed st + removed cb (leaves (blocks s) (Suc l) blk)"
    unfolding pe(1) node_kids by auto
  have b2: "blk < length (blocks s2)" "blocks s2 ! blk = ?p" using n(4) K(2) blk(1) by (simp_all add: kids_post_def)
  have "\<exists>r st' s' P. vacuum_rebuild rel blk (page_opaque (blocks s2 ! blk)) (new, st1) s2 = (Inr (r, st'), s') \<and>
      held s' = held s \<and> pins s' = pins s \<and> blocks s' = (blocks s2)[blk := P] \<and> node_page rel sz (Suc l) P \<and> tuples P = map fst new \<and>
      (if new = [] then r = None else \<exists>box. r = Some box \<and> spread_box box) \<and> tuples_removed st' = tuples_removed st1"
    by (rule rebuild_ok) (use b2 n blk wf(4) in \<open>auto simp: kids_post_def entry_size_def\<close>)
  then obtain r st' s' P where r: "vacuum_rebuild rel blk (page_opaque ?p) (new, st1) s2 = (Inr (r, st'), s')"
      "held s' = held s" "pins s' = pins s" "blocks s' = (blocks s2)[blk := P]" "node_page rel sz (Suc l) P" "tuples P = map fst new"
      "if new = [] then r = None else \<exists>box. r = Some box \<and> spread_box box" "tuples_removed st' = tuples_removed st1"
    unfolding b2(2) by (elim exE conjE)
  have "vac_post rel sz cb (Suc l) (blocks s) (blocks s') blk r"
    by (rule vac_post_node [OF blk(1) K(2) n(4) b2(2) r(4-7)])
  moreover have "rtree_vacuum_page (Suc fuel) rel blk cb st s = (Inr (r, st'), s')"
    using blk(1) nl inner n(1) r(1)
    by (simp add: bindC_def ReadBuffer_run LockBuffer_run BufferGetPage_run leaf_page_def Let_def)
  ultimately show ?thesis using r(2,3,8) n(5) unfolding vacuumed_def by auto
qed

lemma vacuum_page_ok:
  assumes "wf_tree rel sz (blocks s) l blk" "distinct (nodes (blocks s) l blk)"
    "set (nodes (blocks s) l blk) \<inter> fst ` set (held s) = {}" "24 \<le> sz" "llround_env (rd_cenv rel)" "l < fuel"
  shows "vacuumed rel sz cb l blk st s (rtree_vacuum_page fuel rel blk cb st s)"
  using assms
proof (induction l arbitrary: fuel blk s st)
  case 0
  then obtain n where "fuel = Suc n" by (cases fuel) auto
  moreover have "\<not> lock_conflict (held s) blk True" using 0 by (intro unlocked_no_conflict) auto
  ultimately show ?case using 0 vacuum_leaf_page [of blk s rel sz] by auto
next
  case (Suc l)
  then obtain n where n: "fuel = Suc n" "l < n" by (cases fuel) auto
  show ?case unfolding n(1) by (rule vacuum_inner_page) (use Suc n in auto)
qed


section \<open>Shrinking the root of a tree\<close>

lemma copy_up:
  assumes wf: "wf_tree rel sz bs (Suc l) rb" "tuples (bs ! rb) = [it]" "distinct (nodes bs (Suc l) rb)"
    and Q: "tuples (bs' ! rb) = tuples (bs ! child it)" "node_page rel sz l (bs' ! rb)"
    and fr: "length bs' = length bs" "\<And>b. b \<in> set (nodes bs l (child it)) \<Longrightarrow> bs' ! b = bs ! b"
  shows "wf_tree rel sz bs' l rb \<and> leaves bs' l rb = leaves bs (Suc l) rb \<and>
    mset (nodes bs' l rb) \<subseteq># mset (nodes bs (Suc l) rb)"
proof (cases l)
  case 0
  then show ?thesis using wf Q fr(1) by simp
next
  case (Suc k)
  let ?c = "child it" and ?ts = "tuples (bs ! child it)"
  have c: "wf_tree rel sz bs (Suc k) ?c" using wf(1,2) Suc by simp
  have "set (kid_nodes bs k ?ts) \<subseteq> set (nodes bs l ?c)" unfolding Suc node_kids by auto
  then have same: "bs' ! b = bs ! b" if "b \<in> set (kid_nodes bs k ?ts)" for b
    using fr(2) that by blast
  have K: "kid_nodes bs' k ?ts = kid_nodes bs k ?ts" "kid_leaves bs' k ?ts = kid_leaves bs k ?ts"
    by (rule kid_frame; use same in blast)+
  have "list_all (\<lambda>it. wf_tree rel sz bs' k (child it)) ?ts"
    by (rule wf_kids_frame [of _ _ bs]) (use c fr(1) same in auto)
  moreover have "?ts \<noteq> []" using c by simp
  moreover have "rb < length bs'" using wf(1) fr(1) by simp
  ultimately have "wf_tree rel sz bs' (Suc k) rb" using Q Suc by simp
  moreover have "leaves bs' (Suc k) rb = leaves bs (Suc (Suc k)) rb"
    using Q(1) K(2) wf(2) by (simp add: kid_leaves_def)
  moreover have "nodes bs' (Suc k) rb = rb # kid_nodes bs k ?ts" "nodes bs (Suc (Suc k)) rb = rb # ?c # kid_nodes bs k ?ts"
    using Q(1) K(1) wf(2) by (simp_all add: kid_nodes_def)
  ultimately show ?thesis using Suc by simp
qed

definition set_root :: "rpage \<Rightarrow> rpage" where
  "set_root p = set_opaque ((page_opaque p)\<lparr>op_flags := op_flags (page_opaque p) OR TRTREE_PAGE_ROOT,
     op_level := op_level (page_opaque p)\<rparr>) p"

lemma set_root_ok:
  assumes "node_page rel sz l p"
  shows "node_page rel sz l (logged rel (set_root p))" "tuples (logged rel (set_root p)) = tuples p"
proof -
  have ok: "rpage_ok (set_root p)" using assms by (simp add: node_page_def set_root_def)
  show t: "tuples (logged rel (set_root p)) = tuples p" using ok by (simp add: set_root_def)
  have "leaf_page (set_root p) = leaf_page p"
    unfolding leaf_page_def TRTREE_PAGE_LEAF_def and_flag0 by (simp add: set_root_def TRTREE_PAGE_ROOT_def bit_or_iff)
  moreover have "op_level (page_opaque p) < 65536" by (simp add: page_opaque_def opaque_view_def)
  ultimately show "node_page rel sz l (logged rel (set_root p))"
    using assms ok t by (simp add: node_page_def leaf_page_def set_root_def)
qed

lemma page_meta_logged [simp]: "page_meta (logged rel p) = page_meta p"
  by (simp add: logged_def page_meta_def zero_hole_def)

text \<open>The state a vacuum of the tree leaves: the meta page is as before, and the root is a tree or an empty inner page.\<close>

definition shrinkable :: "Relation \<Rightarrow> nat \<Rightarrow> RTreeMetaPageData \<Rightarrow> istate \<Rightarrow> bool" where
  "shrinkable rel sz m s \<longleftrightarrow> 2 \<le> length (blocks s) \<and> index_meta s = m \<and> magic m = TRTREE_META_MAGIC \<and>
     meta_root m < length (blocks s) \<and> meta_root m \<noteq> 0 \<and> node_page rel sz (root_level m) (blocks s ! meta_root m) \<and>
     length (blocks s) < MaxBlockNumber \<and> held s = []"

lemma shrink_run_keep:
  assumes "shrinkable rel sz m s" "root_level m = 0 \<or> 2 \<le> length (tuples (blocks s ! meta_root m))"
  shows "rtree_vacuum_shrink_root rel (meta_root m) (root_level m) s = (Inr False, s)"
proof -
  let ?r = "meta_root m"
  have m: "2 \<le> length (blocks s)" "page_meta (blocks s ! 0) = m" "magic m = TRTREE_META_MAGIC" "?r < length (blocks s)" "?r \<noteq> 0"
      "BlockNumberIsValid ?r" "0 < length (blocks s)" "held s = []"
    using assms(1) by (auto simp: shrinkable_def index_meta_def BlockNumberIsValid_def InvalidBlockNumber_def MaxBlockNumber_def)
  have n: "root_level m = 0 \<or> PageGetMaxOffsetNumber (blocks s ! ?r) \<noteq> 0 \<and> PageGetMaxOffsetNumber (blocks s ! ?r) \<noteq> 1"
    using assms(2) by auto
  show ?thesis using m n
    by (auto simp: rtree_vacuum_shrink_root_def bindC_def ReadBuffer_run LockBuffer_run lock_conflict_def BufferGetPage_run
        UnlockBuffer_run ReleaseBuffer_run Let_def)
qed

lemma shrink_run_empty:
  assumes "shrinkable rel sz m s" "root_level m \<noteq> 0" "tuples (blocks s ! meta_root m) = []"
  shows "\<exists>s'. rtree_vacuum_shrink_root rel (meta_root m) (root_level m) s = (Inr True, s') \<and> held s' = [] \<and> pins s' = pins s \<and>
    blocks s' = (blocks s)[meta_root m := rtree_init_datapage (TRTREE_PAGE_LEAF OR TRTREE_PAGE_ROOT) 0,
      0 := set_meta (m\<lparr>root_level := 0\<rparr>) (blocks s ! 0)] \<and>
    dirty s' = dirty s \<and> wal s' = wal s"
proof -
  let ?r = "meta_root m"
  have m: "2 \<le> length (blocks s)" "page_meta (blocks s ! 0) = m" "magic m = TRTREE_META_MAGIC" "?r < length (blocks s)" "?r \<noteq> 0"
      "BlockNumberIsValid ?r" "0 < length (blocks s)" "held s = []"
    using assms(1) by (auto simp: shrinkable_def index_meta_def BlockNumberIsValid_def InvalidBlockNumber_def MaxBlockNumber_def)
  have n: "PageGetMaxOffsetNumber (blocks s ! ?r) = 0" using assms(3) length_tuples by (metis list.size(3))
  have lf: "op_flags (page_opaque (blocks s ! ?r)) AND TRTREE_PAGE_LEAF = 0"
    using assms(1,2) by (simp add: shrinkable_def node_page_def leaf_page_def)
  show ?thesis using m n lf assms(2)
    by (simp add: rtree_vacuum_shrink_root_def bindC_def ReadBuffer_run LockBuffer_run lock_conflict_def BufferGetPage_run
        UnlockBuffer_run ReleaseBuffer_run put_page_run Let_def)
qed

lemma shrink_run_child:
  assumes "shrinkable rel sz m s" "root_level m \<noteq> 0" "tuples (blocks s ! meta_root m) = [it]"
    and c: "child it < length (blocks s)" "child it \<noteq> 0" "child it \<noteq> meta_root m"
  shows "\<exists>s'. rtree_vacuum_shrink_root rel (meta_root m) (root_level m) s = (Inr True, s') \<and> held s' = [] \<and> pins s' = pins s \<and>
    blocks s' = (blocks s)[meta_root m := logged rel (set_root (blocks s ! child it)),
      0 := logged rel (set_meta (m\<lparr>root_level := op_level (page_opaque (blocks s ! child it))\<rparr>) (blocks s ! 0))]"
proof -
  let ?r = "meta_root m" and ?c = "blocks s ! child it"
  have m: "2 \<le> length (blocks s)" "page_meta (blocks s ! 0) = m" "magic m = TRTREE_META_MAGIC" "?r < length (blocks s)" "?r \<noteq> 0"
      "BlockNumberIsValid ?r" "0 < length (blocks s)" "held s = []"
    using assms(1) by (auto simp: shrinkable_def index_meta_def BlockNumberIsValid_def InvalidBlockNumber_def MaxBlockNumber_def)
  have n: "PageGetMaxOffsetNumber (blocks s ! ?r) = 1" using assms(3) length_tuples [of "blocks s ! ?r"] by simp
  have ok: "rpage_ok (blocks s ! ?r)" using assms(1) by (simp add: shrinkable_def node_page_def)
  have it: "page_itup rel (blocks s ! ?r) FirstOffsetNumber = it"
    using page_itup_nth(1) [OF ok, of 0 rel] n assms(3) by (simp add: FirstOffsetNumber_def)
  have lf: "op_flags (page_opaque (blocks s ! ?r)) AND TRTREE_PAGE_LEAF = 0"
    using assms(1,2) by (simp add: shrinkable_def node_page_def leaf_page_def)
  let ?s1 = "s\<lparr>pins := child it # ?r # 0 # pins s, held := [(child it, False), (?r, True), (0, True)],
     blocks := (blocks s)[?r := set_root ?c, 0 := set_meta (m\<lparr>root_level := op_level (page_opaque ?c)\<rparr>) (blocks s ! 0)],
     dirty := insert 0 (insert ?r (dirty s))\<rparr>"
  from wal_two_fields [OF m(5), of rel ?s1, unfolded rtree_wal_split_def] obtain s2 where
      w: "(if RelationNeedsWAL rel then generic_xlog rel [?r, 0] else ret ()) ?s1 = (Inr (), s2)"
      "blocks s2 = (blocks s)[?r := logged rel (set_root ?c),
        0 := logged rel (set_meta (m\<lparr>root_level := op_level (page_opaque ?c)\<rparr>) (blocks s ! 0))]"
      "held s2 = [(child it, False), (?r, True), (0, True)]" "pins s2 = child it # ?r # 0 # pins s"
    using m(1,4,5,7) by (auto simp: list_update_swap)
  show ?thesis using m(2-8) n lf it assms(2) c w
    by (simp add: rtree_vacuum_shrink_root_def bindC_def ReadBuffer_run LockBuffer_run lock_conflict_def BufferGetPage_run
        UnlockBuffer_run ReleaseBuffer_run UnlockReleaseBuffer_run put_page_run MarkBufferDirty_run Let_def set_root_def flip: child_def)
qed


text \<open>Shrinking keeps the contents and makes an empty inner root an empty leaf.\<close>

definition shrunk :: "Relation \<Rightarrow> nat \<Rightarrow> istate \<Rightarrow> IndexTupleData list \<Rightarrow> (pg_error + bool) \<times> istate \<Rightarrow> bool" where
  "shrunk rel sz s lv res \<longleftrightarrow> (\<exists>b s'. res = (Inr b, s') \<and> held s' = [] \<and> pins s' = pins s \<and> wf_index rel sz s' \<and> index_tuples s' = lv \<and>
     length (blocks s') = length (blocks s) \<and> root_level (index_meta s') \<le> root_level (index_meta s))"

lemma shrinkable_facts:
  assumes "shrinkable rel sz m s"
  shows "2 \<le> length (blocks s)" "page_meta (blocks s ! 0) = m" "magic m = TRTREE_META_MAGIC" "meta_root m < length (blocks s)"
    "meta_root m \<noteq> 0" "node_page rel sz (root_level m) (blocks s ! meta_root m)" "held s = []" "meta_root m < 2 ^ 32" "0 < length (blocks s)"
  using assms by (auto simp: shrinkable_def index_meta_def MaxBlockNumber_def)

lemma set_meta_level:
  assumes "magic m = TRTREE_META_MAGIC" "meta_root m < 2 ^ 32" "l < 65536"
  shows "page_meta (set_meta (m\<lparr>root_level := l\<rparr>) p) = m\<lparr>root_level := l\<rparr>"
  using assms by (cases m) (simp add: TRTREE_META_MAGIC_def)

lemma shrink_keep:
  assumes "shrinkable rel sz m s" "root_level m = 0 \<or> 2 \<le> length (tuples (blocks s ! meta_root m))"
    "wf_tree rel sz (blocks s) (root_level m) (meta_root m)" "distinct (nodes (blocks s) (root_level m) (meta_root m))"
    "0 \<notin> set (nodes (blocks s) (root_level m) (meta_root m))"
  shows "shrunk rel sz s (leaves (blocks s) (root_level m) (meta_root m)) (rtree_vacuum_shrink_root rel (meta_root m) (root_level m) s)"
proof -
  note m = shrinkable_facts [OF assms(1)]
  have "wf_index rel sz s" by (rule wf_indexI [OF m(1-3) assms(3-5)])
  then show ?thesis
    unfolding shrunk_def shrink_run_keep [OF assms(1,2)]
    using m by (intro exI [of _ False] exI [of _ s]) (simp add: index_tuples_def index_meta_def)
qed

lemma shrink_empty:
  assumes "shrinkable rel sz m s" "root_level m \<noteq> 0" "tuples (blocks s ! meta_root m) = []"
  shows "shrunk rel sz s [] (rtree_vacuum_shrink_root rel (meta_root m) (root_level m) s)"
proof -
  note m = shrinkable_facts [OF assms(1)]
  let ?leaf = "rtree_init_datapage (TRTREE_PAGE_LEAF OR TRTREE_PAGE_ROOT) 0"
  from shrink_run_empty [OF assms] obtain s' where
      s': "rtree_vacuum_shrink_root rel (meta_root m) (root_level m) s = (Inr True, s')" "held s' = []" "pins s' = pins s"
      "blocks s' = (blocks s)[meta_root m := ?leaf, 0 := set_meta (m\<lparr>root_level := 0\<rparr>) (blocks s ! 0)]"
    by (elim exE conjE)
  note init = init_datapage_ok [of "TRTREE_PAGE_LEAF OR TRTREE_PAGE_ROOT" 0]
  have "leaf_page ?leaf" unfolding leaf_page_def init by (simp add: TRTREE_PAGE_LEAF_def TRTREE_PAGE_ROOT_def)
  then have np: "node_page rel sz 0 (blocks s' ! meta_root m)" "tuples (blocks s' ! meta_root m) = []"
    using s'(4) m(4,5) init by (simp_all add: node_page_def)
  have meta: "page_meta (blocks s' ! 0) = m\<lparr>root_level := 0\<rparr>"
    unfolding s'(4) using m(9) set_meta_level [OF m(3,8)] by simp
  have "wf_index rel sz s'" by (rule wf_indexI [OF _ meta]) (use s'(4) m np in simp_all)
  moreover have "index_tuples s' = []" using meta np(2) by (simp add: index_tuples_def index_meta_def)
  moreover have "root_level (index_meta s') \<le> root_level (index_meta s)" using meta by (simp add: index_meta_def)
  ultimately show ?thesis unfolding shrunk_def using s' by (intro exI [of _ True] exI [of _ s']) simp
qed

lemma shrink_child:
  assumes "shrinkable rel sz m s" "root_level m = Suc l" "tuples (blocks s ! meta_root m) = [it]"
    and t: "wf_tree rel sz (blocks s) (Suc l) (meta_root m)" "distinct (nodes (blocks s) (Suc l) (meta_root m))"
      "0 \<notin> set (nodes (blocks s) (Suc l) (meta_root m))"
  shows "shrunk rel sz s (leaves (blocks s) (Suc l) (meta_root m)) (rtree_vacuum_shrink_root rel (meta_root m) (root_level m) s)"
proof -
  note m = shrinkable_facts [OF assms(1)]
  let ?r = "meta_root m" and ?c = "child it" and ?bs = "blocks s"
  have N: "nodes ?bs (Suc l) ?r = ?r # nodes ?bs l ?c" using assms(3) by simp
  have wfc: "wf_tree rel sz ?bs l ?c" using t(1) assms(3) by simp
  have cin: "?c \<in> set (nodes ?bs l ?c)" by (rule root_in_nodes)
  have "?c \<noteq> 0" using t(3) cin unfolding N by (metis list.set_intros(2))
  then have c: "?c < length ?bs" "?c \<noteq> 0" "?c \<noteq> ?r" "node_page rel sz l (?bs ! ?c)"
    using wf_tree_page [OF wfc] t(2) cin unfolding N by auto
  have lvl: "op_level (page_opaque (?bs ! ?c)) = l" "l < 65536"
    using c(4) by (auto simp: node_page_def page_opaque_def opaque_view_def)
  from shrink_run_child [OF assms(1) _ assms(3) c(1-3)] assms(2) obtain s' where
      s': "rtree_vacuum_shrink_root rel ?r (root_level m) s = (Inr True, s')" "held s' = []" "pins s' = pins s"
      "blocks s' = ?bs[?r := logged rel (set_root (?bs ! ?c)), 0 := logged rel (set_meta (m\<lparr>root_level := l\<rparr>) (?bs ! 0))]"
    using lvl(1) by auto
  have root: "blocks s' ! ?r = logged rel (set_root (?bs ! ?c))" using s'(4) m(4,5) by simp
  have fr: "blocks s' ! b = ?bs ! b" if "b \<in> set (nodes ?bs l ?c)" for b
  proof -
    have "b \<noteq> ?r" using that t(2) unfolding N by auto
    moreover have "b \<noteq> 0" using that t(3) unfolding N by (metis list.set_intros(2))
    ultimately show ?thesis unfolding s'(4) by simp
  qed
  have up: "wf_tree rel sz (blocks s') l ?r \<and> leaves (blocks s') l ?r = leaves ?bs (Suc l) ?r \<and>
      mset (nodes (blocks s') l ?r) \<subseteq># mset (nodes ?bs (Suc l) ?r)"
    by (rule copy_up [OF t(1) assms(3) t(2)]) (use root set_root_ok [OF c(4)] s'(4) fr in auto)
  have meta: "page_meta (blocks s' ! 0) = m\<lparr>root_level := l\<rparr>"
    unfolding s'(4) using m(9) set_meta_level [OF m(3,8) lvl(2)] by simp
  have "distinct (nodes (blocks s') l ?r)" "0 \<notin> set (nodes (blocks s') l ?r)"
    using up t(2,3) mset_subset_set [of "nodes (blocks s') l ?r" "nodes ?bs (Suc l) ?r"] distinct_submset [of "nodes (blocks s') l ?r"] by blast+
  then have "wf_index rel sz s'"
    by (intro wf_indexI [OF _ meta]) (use s'(4) m up in simp_all)
  moreover have "index_tuples s' = leaves ?bs (Suc l) ?r" using meta up by (simp add: index_tuples_def index_meta_def)
  moreover have "root_level (index_meta s') \<le> root_level (index_meta s)" using meta m(2) assms(2) by (simp add: index_meta_def)
  ultimately show ?thesis unfolding shrunk_def using s' by (intro exI [of _ True] exI [of _ s']) simp
qed


lemma wf_tree_depth: "wf_tree rel sz bs l blk \<Longrightarrow> Suc l \<le> length (nodes bs l blk)"
proof (induction l arbitrary: blk)
  case 0
  then show ?case by simp
next
  case (Suc l)
  then obtain it its where it: "tuples (bs ! blk) = it # its" by (cases "tuples (bs ! blk)") auto
  then have "Suc l \<le> length (nodes bs l (child it))" using Suc by simp
  then show ?case using it by simp
qed

lemma wf_tree_level: "wf_tree rel sz bs l blk \<Longrightarrow> distinct (nodes bs l blk) \<Longrightarrow> l < length bs"
proof -
  assume wf: "wf_tree rel sz bs l blk" and d: "distinct (nodes bs l blk)"
  have "set (nodes bs l blk) \<subseteq> {..<length bs}" using wf_tree_nodes [OF wf] by auto
  then have "card (set (nodes bs l blk)) \<le> length bs" using card_mono [of "{..<length bs}"] by fastforce
  then show ?thesis using wf_tree_depth [OF wf] distinct_card [OF d] by simp
qed

text \<open>Deletion of the dead tuples of an index.\<close>

lemma shrink_vacuumed:
  assumes post: "vac_post rel sz cb (root_level m) bs (blocks s) (meta_root m) r" and sh: "shrinkable rel sz m s"
    and t: "distinct (nodes bs (root_level m) (meta_root m))" "0 \<notin> set (nodes bs (root_level m) (meta_root m))"
  shows "shrunk rel sz s (filter (live cb) (leaves bs (root_level m) (meta_root m))) (rtree_vacuum_shrink_root rel (meta_root m) (root_level m) s)"
proof (cases r)
  case None
  then have e: "tuples (blocks s ! meta_root m) = []" "filter (live cb) (leaves bs (root_level m) (meta_root m)) = []"
    using post by (simp_all add: vac_post_def)
  show ?thesis
  proof (cases "root_level m")
    case 0
    then show ?thesis using shrink_keep [OF sh] e shrinkable_facts [OF sh] by simp
  next
    case (Suc l)
    then show ?thesis unfolding e(2) using shrink_empty [OF sh _ e(1)] by simp
  qed
next
  case (Some box)
  then have w: "wf_tree rel sz (blocks s) (root_level m) (meta_root m)"
      "mset (nodes (blocks s) (root_level m) (meta_root m)) \<subseteq># mset (nodes bs (root_level m) (meta_root m))"
      "filter (live cb) (leaves bs (root_level m) (meta_root m)) = leaves (blocks s) (root_level m) (meta_root m)"
    using post by (simp_all add: vac_post_def)
  have d: "distinct (nodes (blocks s) (root_level m) (meta_root m))" "0 \<notin> set (nodes (blocks s) (root_level m) (meta_root m))"
    using distinct_submset [OF w(2) t(1)] mset_subset_set [OF w(2)] t(2) by blast+
  show ?thesis
  proof (cases "root_level m = 0 \<or> 2 \<le> length (tuples (blocks s ! meta_root m))")
    case True
    then show ?thesis unfolding w(3) by (intro shrink_keep [OF sh _ w(1) d])
  next
    case False
    then obtain l where l: "root_level m = Suc l" by (cases "root_level m") auto
    then have "tuples (blocks s ! meta_root m) \<noteq> []" "\<not> 2 \<le> length (tuples (blocks s ! meta_root m))" using w(1) False by auto
    then obtain it where "tuples (blocks s ! meta_root m) = [it]"
      by (cases "tuples (blocks s ! meta_root m)" rule: remdups_adj.cases) auto
    then show ?thesis using shrink_child [OF sh l] w d l by simp
  qed
qed

lemma bulkdelete_ok:
  assumes wf: "wf_index rel sz s" and lim: "length (blocks s) < MaxBlockNumber" "held s = []" "24 \<le> sz" and env: "llround_env (rd_cenv rel)"
  shows "\<exists>st' s'. temporal_rtree_bulkdelete rel st cb s = (Inr st', s') \<and> wf_index rel sz s' \<and>
    index_tuples s' = filter (live cb) (index_tuples s) \<and> held s' = [] \<and> pins s' = pins s \<and>
    length (blocks s') = length (blocks s) \<and> root_level (index_meta s') \<le> root_level (index_meta s) \<and>
    tuples_removed st' = (case st of None \<Rightarrow> 0 | Some x \<Rightarrow> tuples_removed x) + removed cb (index_tuples s)"
proof -
  define m where "m = index_meta s"
  let ?l = "root_level m" and ?r = "meta_root m" and ?n = "length (blocks s)"
  note i = wf_index_root [OF wf, folded m_def]
  have d: "distinct (nodes (blocks s) ?l ?r)" "0 \<notin> set (nodes (blocks s) ?l ?r)"
    using wf by (simp_all add: wf_index_def index_nodes_def m_def)
  let ?st = "(case st of None \<Rightarrow> zero_stats | Some x \<Rightarrow> x)\<lparr>num_pages := ?n, estimated_count := False, num_index_tuples := 0, pages_deleted := 0,
    pages_free := 0\<rparr>"
  have "?l < Suc ?n" using wf_tree_level [OF i(4) d(1)] by simp
  with vacuum_page_ok [OF i(4) d(1) _ lim(3) env, of "Suc ?n" cb ?st] lim(2) obtain r st1 s1 where
      v: "rtree_vacuum_page (Suc ?n) rel ?r cb ?st s = (Inr (r, st1), s1)" "held s1 = []" "pins s1 = pins s"
      "vac_post rel sz cb ?l (blocks s) (blocks s1) ?r r" "tuples_removed st1 = tuples_removed ?st + removed cb (leaves (blocks s) ?l ?r)"
    unfolding vacuumed_def by (auto simp del: rtree_vacuum_page.simps)
  have v': "length (blocks s1) = ?n" "blocks s1 ! 0 = blocks s ! 0" "node_page rel sz ?l (blocks s1 ! ?r)"
    using v(4) d(2) by (simp_all add: vac_post_def)
  then have m1: "index_meta s1 = m" by (simp add: m_def index_meta_def)
  have "shrinkable rel sz m s1" using i v v' lim(1) m1 by (simp add: shrinkable_def)
  from shrink_vacuumed [OF v(4) this d] obtain b s' where
      s': "rtree_vacuum_shrink_root rel ?r ?l s1 = (Inr b, s')" "held s' = []" "pins s' = pins s1" "wf_index rel sz s'"
      "index_tuples s' = filter (live cb) (leaves (blocks s) ?l ?r)" "length (blocks s') = length (blocks s1)"
      "root_level (index_meta s') \<le> root_level (index_meta s1)"
    unfolding shrunk_def by (elim exE conjE)
  have valid: "BlockNumberIsValid ?r" using i(5) lim(1) by (simp add: BlockNumberIsValid_def InvalidBlockNumber_def MaxBlockNumber_def)
  have rm: "rtree_read_meta s = (Inr m, s)" using read_meta_run [OF i(2)] lim(2) by (simp add: shared_only_def m_def)
  have run: "temporal_rtree_bulkdelete rel st cb s = (Inr st1, s')"
    using i(1,3) rm valid v(1) s'(1)
    by (simp add: temporal_rtree_bulkdelete_def bindC_def RelationGetNumberOfBlocks_run Let_def del: rtree_vacuum_page.simps)
  have "tuples_removed ?st = (case st of None \<Rightarrow> 0 | Some x \<Rightarrow> tuples_removed x)"
    by (simp add: zero_stats_def split: option.splits)
  then show ?thesis using run s' v v' m1
    by (intro exI [of _ st1] exI [of _ s']) (simp add: index_tuples_def flip: m_def)
qed


section \<open>The recursion is bounded\<close>

text \<open>
  The calls that do not follow downlinks keep the locks and the number of blocks and never run out of fuel.
\<close>

definition locked :: "(nat \<times> bool) list \<Rightarrow> nat \<Rightarrow> istate \<Rightarrow> bool" where
  "locked h n s \<longleftrightarrow> held s = h \<and> length (blocks s) = n"

lemma avoids_storage:
  "avoids OutOfFuel (locked h n) (BufferGetPage blk) (locked h n)"
  "avoids OutOfFuel (locked h n) (put_page blk p) (locked h n)"
  "avoids OutOfFuel (locked h n) (MarkBufferDirty blk) (locked h n)"
  "avoids OutOfFuel (locked h n) (ReadBuffer blk) (locked h n)"
  "avoids OutOfFuel (locked h n) (ReleaseBuffer blk) (locked h n)"
  "avoids OutOfFuel (locked h n) (LockBuffer blk ex) (locked ((blk, ex) # h) n)"
  "avoids OutOfFuel (locked ((blk, ex) # h) n) (UnlockBuffer blk) (locked h n)"
  by (simp_all add: avoids_def locked_def BufferGetPage_run put_page_run MarkBufferDirty_run ReadBuffer_def ReleaseBuffer_run
      LockBuffer_def UnlockBuffer_run)

lemma PageAddItem_error: "PageAddItem p bs off ow hp \<noteq> Inl OutOfFuel"
  by (auto simp: PageAddItem_def PageAddItemExtended_def Let_def split: option.splits)

lemma form_tuple_error: "rtree_form_tuple b tid \<noteq> Inl OutOfFuel"
  using rtree_form_tuple_ok [of b tid] by auto


lemma avoids_add_copy: "avoids OutOfFuel (locked h n) (rtree_add_tuple_copy blk it) (locked h n)"
  unfolding rtree_add_tuple_copy_def BufferAddItem_def
  by (intro avoids_bind [of _ _ _ "locked h n"] avoids_if avoids_storage avoids_ret avoids_raise avoids_liftE PageAddItem_error)
    (auto split: prod.splits intro!: avoids_bind [of _ _ _ "locked h n"] avoids_storage avoids_ret)

lemma avoids_wal: "avoids OutOfFuel (locked h n) (if RelationNeedsWAL rel then rtree_wal_vacuum rel blk else ret ()) (locked h n)"
proof -
  have "case (if RelationNeedsWAL rel then generic_xlog rel [blk] else ret ()) s of (Inl e', s') \<Rightarrow> e' \<noteq> OutOfFuel | (Inr x, s') \<Rightarrow> locked h n s'"
    if "locked h n s" for s
    using wal_one_fields [of rel blk s] that by (auto simp: locked_def)
  then show ?thesis unfolding avoids_def rtree_wal_vacuum_def by blast
qed

lemma avoids_rebuild: "avoids OutOfFuel (locked ((blk, ex) # h) n) (vacuum_rebuild rel blk opq acc) (locked h n)"
proof -
  obtain items st where acc: "acc = (items, st)" by fastforce
  have add: "avoids OutOfFuel (locked ((blk, ex) # h) n) (foldC (\<lambda>_ (itup, box). rtree_add_tuple_copy blk itup) () items) (locked ((blk, ex) # h) n)"
    by (rule avoids_foldC) (auto intro: avoids_add_copy split: prod.splits)
  show ?thesis
    unfolding vacuum_rebuild_def Let_def acc prod.case
    by (rule avoids_bind [OF avoids_storage(2) avoids_bind [OF add avoids_bind [OF avoids_storage(3)
          avoids_bind [OF avoids_wal avoids_bind [OF avoids_storage(7) avoids_bind [OF avoids_storage(5) avoids_ret]]]]]])
qed

lemma avoids_enter:
  assumes "blk < n \<Longrightarrow> blk \<notin> fst ` set h \<Longrightarrow> avoids OutOfFuel (locked ((blk, True) # h) n) (f blk) Q"
  shows "avoids OutOfFuel (locked h n) (bindC (ReadBuffer blk) (\<lambda>buf. bindC (LockBuffer buf True) (\<lambda>_. f buf))) Q"
proof -
  have "case bindC (ReadBuffer blk) (\<lambda>buf. bindC (LockBuffer buf True) (\<lambda>_. f buf)) s of (Inl e', s') \<Rightarrow> e' \<noteq> OutOfFuel | (Inr x, s') \<Rightarrow> Q s'"
    if s: "locked h n s" for s
  proof (cases "blk < n \<and> \<not> lock_conflict h blk True")
    case True
    have "blk \<notin> fst ` set h"
    proof
      assume "blk \<in> fst ` set h"
      then obtain ex where "(blk, ex) \<in> set h" by auto
      then show False using True by (cases ex) (auto simp: lock_conflict_def)
    qed
    then have "avoids OutOfFuel (locked ((blk, True) # h) n) (f blk) Q" using True assms by blast
    moreover have "locked ((blk, True) # h) n (s\<lparr>pins := blk # pins s, held := (blk, True) # h\<rparr>)" using s by (simp add: locked_def)
    ultimately show ?thesis using True s by (simp add: avoids_def bindC_def ReadBuffer_def LockBuffer_def locked_def)
  next
    case False
    then show ?thesis using s by (auto simp: bindC_def ReadBuffer_def LockBuffer_def locked_def)
  qed
  then show ?thesis by (simp add: avoids_def)
qed

lemma avoids_keep: "avoids OutOfFuel P (vacuum_keep t b acc) P"
  by (auto simp: vacuum_keep_def avoids_def split: prod.splits)

lemma avoids_leaf_item: "avoids OutOfFuel P (vacuum_leaf_item rel cb acc ent) P"
  by (auto simp: vacuum_leaf_item_def split: prod.splits option.splits intro!: avoids_ret avoids_keep)

lemma vacuum_fuel:
  "card ({..<n} - fst ` set h) < fuel \<Longrightarrow> avoids OutOfFuel (locked h n) (rtree_vacuum_page fuel rel blk cb st) (locked h n)"
proof (induction fuel arbitrary: h blk st)
  case 0
  then show ?case by simp
next
  case (Suc fuel)
  have rec: "avoids OutOfFuel (locked ((blk, True) # h) n) (rtree_vacuum_page fuel rel c cb st) (locked ((blk, True) # h) n)"
    if "blk < n" "blk \<notin> fst ` set h" for c st
  proof (rule Suc.IH)
    have "{..<n} - fst ` set ((blk, True) # h) = ({..<n} - fst ` set h) - {blk}" by auto
    then have "card ({..<n} - fst ` set ((blk, True) # h)) < card ({..<n} - fst ` set h)"
      using that card_Diff1_less [of "{..<n} - fst ` set h" blk] by simp
    then show "card ({..<n} - fst ` set ((blk, True) # h)) < fuel" using Suc.prems by simp
  qed
  show ?case
    unfolding rtree_vacuum_page.simps
  proof (rule avoids_enter)
    assume b: "blk < n" "blk \<notin> fst ` set h"
    let ?L = "locked ((blk, True) # h) n"
    show "avoids OutOfFuel ?L (bindC (BufferGetPage blk) (\<lambda>page.
     let opaque = page_opaque page;
         leaf = (op_flags opaque AND TRTREE_PAGE_LEAF \<noteq> 0)
     in
     bindC (if leaf then foldC (vacuum_leaf_item rel cb) ([], st) (used_tuples rel page)
            else foldC (\<lambda>(items, stats) (offset, itup).
              let childblk = ip_blkid (t_tid itup) in
              bindC (rtree_vacuum_page fuel rel childblk cb stats) (\<lambda>(res, stats).
              case res of
                None \<Rightarrow> ret (items, stats)
              | Some child_box \<Rightarrow>
                  bindC (liftE (rtree_form_tuple child_box \<lparr>ip_blkid = childblk, ip_posid = FirstOffsetNumber\<rparr>)) (\<lambda>tuple.
                  vacuum_keep tuple child_box (items, stats))))
              ([], st) (used_tuples rel page))
       (vacuum_rebuild rel blk opaque))) (locked h n)"
      unfolding Let_def
      by (rule avoids_bind [OF avoids_storage(1)], rule avoids_bind [of _ ?L _ ?L])
        (auto intro!: avoids_foldC avoids_leaf_item avoids_rebuild avoids_bind [of _ ?L "rtree_vacuum_page _ _ _ _ _" ?L]
          avoids_bind [of _ ?L "liftE _" ?L] rec [OF b] avoids_ret avoids_liftE avoids_keep form_tuple_error split: prod.splits option.splits)
  qed
qed


lemma avoids_any:
  "avoids OutOfFuel (\<lambda>_. True) (BufferGetPage blk) (\<lambda>_. True)" "avoids OutOfFuel (\<lambda>_. True) (put_page blk p) (\<lambda>_. True)"
  "avoids OutOfFuel (\<lambda>_. True) (MarkBufferDirty blk) (\<lambda>_. True)" "avoids OutOfFuel (\<lambda>_. True) (ReadBuffer blk) (\<lambda>_. True)"
  "avoids OutOfFuel (\<lambda>_. True) (ReleaseBuffer blk) (\<lambda>_. True)" "avoids OutOfFuel (\<lambda>_. True) (LockBuffer blk ex) (\<lambda>_. True)"
  "avoids OutOfFuel (\<lambda>_. True) (UnlockBuffer blk) (\<lambda>_. True)" "avoids OutOfFuel (\<lambda>_. True) (UnlockReleaseBuffer blk) (\<lambda>_. True)"
  "avoids OutOfFuel (\<lambda>_. True) (ret x) (\<lambda>_. True)"
  by (simp_all add: avoids_def BufferGetPage_run put_page_run MarkBufferDirty_run ReadBuffer_def ReleaseBuffer_run LockBuffer_def
      UnlockBuffer_run UnlockReleaseBuffer_run)

lemma avoids_xlog: "avoids OutOfFuel (\<lambda>_. True) (generic_xlog rel bufs) (\<lambda>_. True)"
  unfolding generic_xlog_def GenericXLogFinish_def
  by (auto intro!: avoids_bind [of _ _ _ "\<lambda>_. True"] avoids_foldC avoids_any split: prod.splits simp: avoids_def [of _ _ "gets _"]
      avoids_def [of _ _ "modifyC _"])

lemma avoids_shrink: "avoids OutOfFuel (\<lambda>_. True) (rtree_vacuum_shrink_root rel blk lvl) (\<lambda>_. True)"
  unfolding rtree_vacuum_shrink_root_def Let_def
  by (intro avoids_bind [of _ _ _ "\<lambda>_. True"] avoids_if avoids_any avoids_xlog)

section \<open>Properties\<close>

text \<open>C6. Bulk deletion on a well-formed index removes exactly the tuples the callback names, in the leaves' order, keeps the index
  well formed, counts the removed tuples and gives back every lock and pin.\<close>

theorem bulkdelete_removes_dead:
  assumes "wf_index rel sz s" "length (blocks s) < MaxBlockNumber" "held s = []" "24 \<le> sz" "llround_env (rd_cenv rel)"
  shows "\<exists>st' s'. temporal_rtree_bulkdelete rel st cb s = (Inr st', s') \<and> wf_index rel sz s' \<and>
    index_tuples s' = filter (live cb) (index_tuples s) \<and> held s' = [] \<and> pins s' = pins s \<and>
    tuples_removed st' = (case st of None \<Rightarrow> 0 | Some x \<Rightarrow> tuples_removed x) + removed cb (index_tuples s)"
  using bulkdelete_ok [OF assms, of st cb] by auto

text \<open>C26. The recursion of the vacuum is bounded on every state, also when the blocks are not a tree: a page that is its own
  ancestor would be locked twice, so that the recursion never goes deeper than the relation has blocks.\<close>

theorem bulkdelete_recursion_bounded:
  "fst (temporal_rtree_bulkdelete rel st cb s) \<noteq> Inl OutOfFuel"
proof -
  let ?n = "length (blocks s)"
  let ?L = "locked (held s) ?n"
  have rd: "avoids OutOfFuel ?L rtree_read_meta ?L"
    unfolding rtree_read_meta_def Let_def
    by (rule avoids_bind [OF avoids_storage(4) avoids_bind [OF avoids_storage(6) avoids_bind [OF avoids_storage(1)
          avoids_bind [OF avoids_storage(7) avoids_bind [OF avoids_storage(5) avoids_ret]]]]])
  have "card ({..<?n} - fst ` set (held s)) \<le> card {..<?n}" by (intro card_mono) auto
  then have v: "avoids OutOfFuel ?L (rtree_vacuum_page (Suc ?n) rel blk cb st) ?L" for blk st by (intro vacuum_fuel) simp
  have sh: "avoids OutOfFuel ?L (rtree_vacuum_shrink_root rel blk lvl) (\<lambda>_. True)" for blk lvl
    by (rule avoids_weaken [OF avoids_shrink]) simp_all
  have rt: "avoids OutOfFuel P (ret x) (\<lambda>_. True)" for P and x :: IndexBulkDeleteResult by (simp add: avoids_def)
  have tail: "avoids OutOfFuel ?L (if magic meta \<noteq> TRTREE_META_MAGIC then ret st0
      else if BlockNumberIsValid (meta_root meta) then
        bindC (rtree_vacuum_page (Suc ?n) rel (meta_root meta) cb st0) (\<lambda>(_, stats).
        bindC (rtree_vacuum_shrink_root rel (meta_root meta) (root_level meta)) (\<lambda>_. ret stats))
      else ret st0) (\<lambda>_. True)" for meta st0
    by (intro avoids_if rt avoids_bind [OF v]) (auto intro!: avoids_bind [OF sh] rt split: prod.splits)
  let ?st = "(case st of None \<Rightarrow> zero_stats | Some x \<Rightarrow> x)\<lparr>num_pages := ?n, estimated_count := False, num_index_tuples := 0,
    pages_deleted := 0, pages_free := 0\<rparr>"
  let ?body = "if ?n < 2 then ret ?st
      else bindC rtree_read_meta (\<lambda>meta. if magic meta \<noteq> TRTREE_META_MAGIC then ret ?st
      else if BlockNumberIsValid (meta_root meta) then
        bindC (rtree_vacuum_page (Suc ?n) rel (meta_root meta) cb ?st) (\<lambda>(_, stats).
        bindC (rtree_vacuum_shrink_root rel (meta_root meta) (root_level meta)) (\<lambda>_. ret stats))
      else ret ?st)"
  have run: "temporal_rtree_bulkdelete rel st cb s = ?body s"
    unfolding temporal_rtree_bulkdelete_def Let_def by (rule bindC_ok) (rule RelationGetNumberOfBlocks_run)
  have av: "avoids OutOfFuel ?L ?body (\<lambda>_. True)" by (intro avoids_if rt avoids_bind [OF rd] tail)
  have "?L s" by (simp add: locked_def)
  from avoidsD [OF av this] show ?thesis unfolding run .
qed

text \<open>C39. When the vacuum has emptied an inner root, the root page is initialised again as an empty leaf, which changes it, and the meta page
  gets the level 0; no other page changes. Neither buffer is marked dirty and nothing is logged.\<close>

theorem shrink_empty_root_unlogged:
  assumes "shrinkable rel sz m s" "root_level m \<noteq> 0" "tuples (blocks s ! meta_root m) = []"
  shows "\<exists>s'. rtree_vacuum_shrink_root rel (meta_root m) (root_level m) s = (Inr True, s') \<and>
    blocks s' = (blocks s)[meta_root m := rtree_init_datapage (TRTREE_PAGE_LEAF OR TRTREE_PAGE_ROOT) 0,
      0 := set_meta (m\<lparr>root_level := 0\<rparr>) (blocks s ! 0)] \<and>
    blocks s' ! meta_root m \<noteq> blocks s ! meta_root m \<and> root_level (index_meta s') = 0 \<and> dirty s' = dirty s \<and> wal s' = wal s"
proof -
  note m = shrinkable_facts [OF assms(1)]
  from shrink_run_empty [OF assms] obtain s' where
      s': "rtree_vacuum_shrink_root rel (meta_root m) (root_level m) s = (Inr True, s')"
      "blocks s' = (blocks s)[meta_root m := rtree_init_datapage (TRTREE_PAGE_LEAF OR TRTREE_PAGE_ROOT) 0,
         0 := set_meta (m\<lparr>root_level := 0\<rparr>) (blocks s ! 0)]" "dirty s' = dirty s" "wal s' = wal s"
    by (elim exE conjE)
  moreover have "root_level (index_meta s') = 0" using s'(2) m(9) by (simp add: index_meta_def)
  moreover have "\<not> leaf_page (blocks s ! meta_root m)" using m(6) assms(2) by (simp add: node_page_def)
  moreover have "leaf_page (rtree_init_datapage (TRTREE_PAGE_LEAF OR TRTREE_PAGE_ROOT) 0)"
    by (simp add: leaf_page_def init_datapage_ok TRTREE_PAGE_LEAF_def TRTREE_PAGE_ROOT_def)
  moreover have "blocks s' ! meta_root m = rtree_init_datapage (TRTREE_PAGE_LEAF OR TRTREE_PAGE_ROOT) 0" using s'(2) m(4,5) by simp
  ultimately show ?thesis by (intro exI [of _ s'] conjI) (assumption | metis)+
qed


section \<open>Examples\<close>

theorem bulkdelete_removes_dead_witness:
  "\<exists>s st' s'. index_tuples s = [row_tuple (demo_tid 5) row_cube] \<and>
     temporal_rtree_bulkdelete demo_rel None (Some (\<lambda>tid. tid = demo_tid 5)) s = (Inr st', s') \<and> wf_index demo_rel 48 s' \<and>
     index_tuples s' = [] \<and> tuples_removed st' = 1"
proof -
  obtain s where s: "wf_index demo_rel 48 s" "index_tuples s = [row_tuple (demo_tid 5) row_cube]" "held s = []" "length (blocks s) = 2"
    by (rule demo_index)
  have "length (blocks s) < MaxBlockNumber" using s by (simp add: MaxBlockNumber_def)
  from bulkdelete_removes_dead [OF s(1) this s(3) _ demo_env, of None "Some (\<lambda>tid. tid = demo_tid 5)"] s(2)
  show ?thesis by (auto simp: dead_def removed_def)
qed

theorem shrink_empty_root_unlogged_witness:
  "\<exists>s s'. rtree_vacuum_shrink_root demo_rel 1 1 s = (Inr True, s') \<and> root_level (index_meta s) = 1 \<and>
     root_level (index_meta s') = 0 \<and> blocks s' ! 1 \<noteq> blocks s ! 1 \<and> wal s' = wal s"
proof -
  let ?inner = "rtree_init_datapage TRTREE_PAGE_ROOT 1"
  let ?s = "empty_relation\<lparr>blocks := [rtree_init_metapage 1 1, ?inner]\<rparr>"
  note init = init_datapage_ok [of TRTREE_PAGE_ROOT 1]
  have meta: "index_meta ?s = \<lparr>magic = TRTREE_META_MAGIC, meta_root = 1, root_level = 1, meta_flags = TRTREE_PAGE_META\<rparr>"
    by (simp add: index_meta_def init_metapage_meta)
  have "\<not> leaf_page ?inner" unfolding leaf_page_def init by (simp add: TRTREE_PAGE_LEAF_def TRTREE_PAGE_ROOT_def)
  then have "shrinkable demo_rel 48 (index_meta ?s) ?s"
    unfolding shrinkable_def meta by (simp add: init [simplified] node_page_def empty_relation_def MaxBlockNumber_def index_meta_def init_metapage_meta)
  from shrink_empty_root_unlogged [OF this] obtain s' where "rtree_vacuum_shrink_root demo_rel 1 1 ?s = (Inr True, s')"
      "root_level (index_meta s') = 0" "blocks s' ! 1 \<noteq> blocks ?s ! 1" "wal s' = wal ?s"
    unfolding meta using init(2) by auto
  with meta show ?thesis by (intro exI [of _ ?s] exI [of _ s']) simp
qed

end
