(* ===== verification/TR_Cost.thy ===== *)
theory TR_Cost
  imports TR_Float64
begin

text \<open>
  The cost estimate of an index path (\<^verbatim>\<open>temporal_rtree_cost.c\<close>) and the estimate of the pages fetched by repeated scans
  (\<^verbatim>\<open>costsize.c\<close>), in double arithmetic. The selectivity of the clauses, the cost of evaluating the operands and the predicate
  of a partial index come from the planner and are arguments. The estimates are shown to be numbers in
  their ranges: no overflow to an infinity and no NaN reaches the planner.
\<close>

section \<open>The planner's data\<close>

record IndexOptInfo =
  io_pages :: nat
  io_tuples :: f64

record 'q PlannerInfo =
  total_table_pages :: f64
  add_predicate_to_index_quals :: "'q list \<Rightarrow> 'q list"
  clauselist_selectivity :: "'q list \<Rightarrow> f64"
  index_other_operands_eval_cost :: "'q list \<Rightarrow> f64"

text \<open>The settings; \<open>random_page_cost\<close> is that of the tablespace of the index.\<close>

record cost_settings =
  cpu_operator_cost :: f64
  cpu_index_tuple_cost :: f64
  random_page_cost :: f64
  effective_cache_size :: int

record cost_estimate =
  indexStartupCost :: f64
  indexTotalCost :: f64
  indexSelectivity :: f64
  indexCorrelation :: f64
  indexPages :: f64

section \<open>The functions\<close>

definition index_pages_fetched :: "cost_settings \<Rightarrow> f64 \<Rightarrow> nat \<Rightarrow> f64 \<Rightarrow> 'q PlannerInfo \<Rightarrow> f64" where
  "index_pages_fetched gucs tuples_fetched pages index_pages rt =
     (let T = (if pages > 1 then f64_of_int (int pages) else F_Fin 1);
          total_pages = f_Max (f_add (total_table_pages rt) index_pages) (F_Fin 1);
          b = f_div (f_mul (f64_of_int (effective_cache_size gucs)) T) total_pages;
          b = (if f_le b (F_Fin 1) then F_Fin 1 else f_ceil b);
          formula = f_div (f_mul (f_mul (F_Fin 2) T) tuples_fetched) (f_add (f_mul (F_Fin 2) T) tuples_fetched)
      in if f_le T b then (if f_ge formula T then T else f_ceil formula)
         else
           let lim = f_div (f_mul (f_mul (F_Fin 2) T) b) (f_sub (f_mul (F_Fin 2) T) b)
           in f_ceil (if f_le tuples_fetched lim then formula
                      else f_add b (f_div (f_mul (f_sub tuples_fetched lim) (f_sub T b)) T)))"

definition temporal_rtree_costestimate ::
  "cost_settings \<Rightarrow> 'q PlannerInfo \<Rightarrow> IndexOptInfo \<Rightarrow> 'q list \<Rightarrow> f64 \<Rightarrow> cost_estimate" where
  "temporal_rtree_costestimate gucs rt index indexQuals loop_count =
     (let selectivityQuals = add_predicate_to_index_quals rt indexQuals;
          selectivity = clauselist_selectivity rt selectivityQuals;
          selectivity = f_Max (F_Fin 0) (f_Min selectivity (F_Fin 1));
          pages = f64_of_int (int (io_pages index));
          tuples = f_Max (io_tuples index) (F_Fin 1);
          numIndexTuples = f_rint (f_mul tuples selectivity);
          numIndexTuples = (if f_lt numIndexTuples (F_Fin 1) then F_Fin 1 else numIndexTuples);
          numIndexTuples = (if f_gt numIndexTuples tuples then tuples else numIndexTuples);
          numIndexPages = (if f_gt pages (F_Fin 1) \<and> f_gt tuples (F_Fin 1)
                           then f_ceil (f_div (f_mul numIndexTuples pages) tuples) else F_Fin 1);
          numIndexPages = f_Max (F_Fin 1) (f_Min numIndexPages (f_Max pages (F_Fin 1)));
          qual_arg_cost = index_other_operands_eval_cost rt indexQuals;
          qual_op_cost = f_mul (cpu_operator_cost gucs) (f64_of_int (int (length indexQuals)));
          page_cost = f_mul numIndexPages (random_page_cost gucs);
          page_cost = (if f_gt loop_count (F_Fin 1) \<and> f_gt numIndexPages (F_Fin 1)
                       then f_div (f_mul (index_pages_fetched gucs (f_mul numIndexPages loop_count) (io_pages index) pages rt)
                                         (random_page_cost gucs)) loop_count
                       else page_cost)
      in \<lparr>indexStartupCost = qual_arg_cost,
          indexTotalCost = f_add (f_add qual_arg_cost page_cost) (f_mul numIndexTuples (f_add (cpu_index_tuple_cost gucs) qual_op_cost)),
          indexSelectivity = selectivity, indexCorrelation = F_Fin 0, indexPages = numIndexPages\<rparr>)"

section \<open>Ranges of doubles\<close>

lemma round64_is_representable: "representable (round64 x)"
proof (cases "x = 0")
  case False
  let ?q = "quantum x" and ?m = "round_even (x / pow2 (quantum x))"
  have "\<bar>x\<bar> < pow2 (ilog2 \<bar>x\<bar> + 1)" using False by (intro ilog2_bounds) simp
  also have "\<dots> \<le> pow2 (53 + ?q)" by (intro pow2_mono) (simp add: quantum_def)
  also have "\<dots> = 2 ^ 53 * pow2 ?q" by (simp add: pow2_add) (simp add: pow2_def)
  finally have "\<bar>x / pow2 ?q\<bar> < 2 ^ 53" by (simp add: pos_divide_less_eq abs_divide)
  then have "?m \<le> 2 ^ 53" "- (2 ^ 53) \<le> ?m"
    by (auto simp: abs_less_iff simp del: abs_divide intro!: round_even_le round_even_ge)
  then show ?thesis
    unfolding representable_def round64_def using False by (intro exI [of _ ?m] exI [of _ ?q]) (auto simp: quantum_def)
qed (simp add: round64_def)

text \<open>A number between zero and \<open>2\<^sup>k\<close>.\<close>

definition upto_pow :: "nat \<Rightarrow> f64 \<Rightarrow> bool" where
  "upto_pow k x \<longleftrightarrow> (\<exists>a. x = F_Fin a \<and> 0 \<le> a \<and> a \<le> 2 ^ k)"

lemma representable_power: "representable (2 ^ k)"
  using representable_pow2 [of "int k"] by (simp add: pow2_def)

lemma upto_of_rat: "0 \<le> x \<Longrightarrow> x \<le> 2 ^ k \<Longrightarrow> k < 1024 \<Longrightarrow> upto_pow k (f64_of_rat x)"
  unfolding upto_pow_def
  by (rule f64_of_rat_bounded [OF representable_0 representable_power, of x k])
    (assumption | rule power_strict_increasing | simp; fail | blast)+

lemma upto_mono: "upto_pow j x \<Longrightarrow> j \<le> k \<Longrightarrow> upto_pow k x"
  by (auto simp: upto_pow_def elim!: order_trans intro: power_increasing)

lemma upto_mul: "upto_pow j x \<Longrightarrow> upto_pow k y \<Longrightarrow> j + k < 1024 \<Longrightarrow> upto_pow (j + k) (f_mul x y)"
  unfolding upto_pow_def [of j] upto_pow_def [of k] by (auto simp: power_add intro!: upto_of_rat mult_mono)

lemma upto_add: "upto_pow k x \<Longrightarrow> upto_pow k y \<Longrightarrow> Suc k < 1024 \<Longrightarrow> upto_pow (Suc k) (f_add x y)"
  unfolding upto_pow_def [of k] by (auto intro!: upto_of_rat)

lemma upto_div: "upto_pow k x \<Longrightarrow> f_le (F_Fin 1) (F_Fin b) \<Longrightarrow> k < 1024 \<Longrightarrow> upto_pow k (f_div x (F_Fin b))"
proof -
  assume *: "upto_pow k x" "f_le (F_Fin 1) (F_Fin b)" "k < 1024"
  then obtain a where a: "x = F_Fin a" "0 \<le> a" "a \<le> 2 ^ k" by (auto simp: upto_pow_def)
  have b: "1 \<le> b" using *(2) by (auto simp: f_le_def)
  have "a / b \<le> a / 1" using a(2) b by (intro divide_left_mono) simp_all
  then have "a / b \<le> 2 ^ k" using a(3) by simp
  then show ?thesis using a(1,2) b *(3) by (auto intro!: upto_of_rat)
qed

lemma upto_sub: "upto_pow k x \<Longrightarrow> upto_pow j y \<Longrightarrow> f_le y x \<Longrightarrow> k < 1024 \<Longrightarrow> upto_pow k (f_sub x y)"
  unfolding upto_pow_def [of k x] upto_pow_def [of j] by (auto simp: f_sub_def f_le_def intro!: upto_of_rat)

lemma upto_ceil: "upto_pow k x \<Longrightarrow> upto_pow k (f_ceil x)"
proof -
  assume "upto_pow k x"
  then obtain a where a: "x = F_Fin a" "0 \<le> a" "a \<le> 2 ^ k" by (auto simp: upto_pow_def)
  then have "a \<le> of_int (2 ^ k)" by simp
  then have "\<lceil>a\<rceil> \<le> 2 ^ k" by (rule ceiling_le)
  then have "of_int \<lceil>a\<rceil> \<le> (of_int (2 ^ k) :: rat)" by (simp only: of_int_le_iff)
  with a show ?thesis by (simp add: upto_pow_def f_ceil_def)
qed

lemma of_rat_at_least: "representable lo \<Longrightarrow> lo \<le> x \<Longrightarrow> 0 \<le> lo \<Longrightarrow> x \<le> 2 ^ k \<Longrightarrow> k < 1024 \<Longrightarrow>
    \<exists>v. f64_of_rat x = F_Fin v \<and> lo \<le> v \<and> v \<le> 2 ^ k"
  by (rule f64_of_rat_bounded [OF _ representable_power, of lo x k])
    (assumption | rule power_strict_increasing | simp; fail | force)+

lemma block_number: "n < 2 ^ 32 \<Longrightarrow> f64_of_int (int n) = F_Fin (of_nat n)"
  using f64_of_int_exact [of "int n"] by simp

lemma double_exact: "1 \<le> t \<Longrightarrow> t \<le> 2 ^ 32 \<Longrightarrow> t = of_int \<lfloor>t\<rfloor> \<Longrightarrow> f_mul (F_Fin 2) (F_Fin t) = F_Fin (2 * t)"
proof -
  assume t: "1 \<le> t" "t \<le> 2 ^ 32" "t = of_int \<lfloor>t\<rfloor>"
  have "\<lfloor>t\<rfloor> \<le> 2 ^ 32" "1 \<le> \<lfloor>t\<rfloor>" using t(1,2) by (simp_all add: floor_le_iff le_floor_iff)
  then have "f64_of_int (2 * \<lfloor>t\<rfloor>) = F_Fin (of_int (2 * \<lfloor>t\<rfloor>))" by (intro f64_of_int_exact) simp
  then show ?thesis using t(3) by (simp add: f64_of_int_def)
qed

text \<open>The formula of Mackert and Lohman for a table of \<open>t\<close> pages and \<open>b\<close> pages of cache.\<close>

lemma fetched_cached:
  assumes "1 \<le> t" "t \<le> 2 ^ 32" "t = of_int \<lfloor>t\<rfloor>" "upto_pow 400 tf"
  shows "upto_pow 433 (f_div (f_mul (f_mul (F_Fin 2) (F_Fin t)) tf) (f_add (f_mul (F_Fin 2) (F_Fin t)) tf))"
proof -
  obtain x where x: "tf = F_Fin x" "0 \<le> x" "x \<le> 2 ^ 400" using assms(4) by (auto simp: upto_pow_def)
  have "upto_pow 33 (F_Fin (2 * t))" using assms(1,2) by (simp add: upto_pow_def)
  from upto_mul [OF this assms(4)] have num: "upto_pow 433 (f_mul (F_Fin (2 * t)) tf)" by simp
  have "2 * t \<le> 2 ^ 400" using assms(2) by simp
  then have "\<exists>v. f64_of_rat (2 * t + x) = F_Fin v \<and> 1 \<le> v \<and> v \<le> 2 ^ 401"
    using x assms(1) by (intro of_rat_at_least) simp_all
  then obtain v where "f_add (F_Fin (2 * t)) tf = F_Fin v" "1 \<le> v" using x(1) by auto
  with upto_div [OF num, of v] show ?thesis
    unfolding double_exact [OF assms(1-3)] by (simp add: f_le_def less_eq_rat_def)
qed

lemma fetched_uncached:
  assumes "1 \<le> t" "t \<le> 2 ^ 32" "t = of_int \<lfloor>t\<rfloor>" "upto_pow 400 tf" "1 \<le> b" "b < t"
    "lm = f_div (f_mul (f_mul (F_Fin 2) (F_Fin t)) (F_Fin b)) (f_sub (f_mul (F_Fin 2) (F_Fin t)) (F_Fin b))" "\<not> f_le tf lm"
  shows "upto_pow 433 (f_add (F_Fin b) (f_div (f_mul (f_sub tf lm) (f_sub (F_Fin t) (F_Fin b))) (F_Fin t)))"
proof -
  have w: "upto_pow 33 (F_Fin (2 * t))" "upto_pow 32 (F_Fin b)" "upto_pow 32 (F_Fin t)"
    using assms(1,2,5,6) by (simp_all add: upto_pow_def)
  have "\<exists>v. f64_of_rat (2 * t - b) = F_Fin v \<and> 1 \<le> v \<and> v \<le> 2 ^ 33" using assms by (intro of_rat_at_least) simp_all
  then obtain v where "f_sub (F_Fin (2 * t)) (F_Fin b) = F_Fin v" "1 \<le> v" by (auto simp: f_sub_def)
  with upto_div [OF upto_mul [OF w(1,2)], of v] have lm: "upto_pow 65 lm"
    unfolding assms(7) double_exact [OF assms(1-3)] by (simp add: f_le_def less_eq_rat_def)
  have "f_le lm tf" using assms(4,8) lm by (auto simp: upto_pow_def f_le_def)
  from upto_sub [OF assms(4) lm this] have "upto_pow 400 (f_sub tf lm)" by simp
  moreover have "upto_pow 32 (f_sub (F_Fin t) (F_Fin b))" using upto_sub [OF w(3,2)] assms(6) by (simp add: f_le_def)
  ultimately have "upto_pow 432 (f_mul (f_sub tf lm) (f_sub (F_Fin t) (F_Fin b)))" using upto_mul by fastforce
  then have "upto_pow 432 (f_div (f_mul (f_sub tf lm) (f_sub (F_Fin t) (F_Fin b))) (F_Fin t))"
    using assms(1) by (intro upto_div) (simp_all add: f_le_def less_eq_rat_def)
  moreover have "upto_pow 432 (F_Fin b)" by (rule upto_mono [OF w(2)]) simp
  ultimately show ?thesis using upto_add by fastforce
qed

text \<open>The pages fetched are a number, whatever the share of the cache.\<close>

lemma index_pages_fetched_upto:
  assumes "upto_pow 400 tf" "pages < 2 ^ 32" "upto_pow 1000 (total_table_pages rt)" "0 \<le> effective_cache_size gucs"
    "effective_cache_size gucs < 2 ^ 31"
  shows "upto_pow 500 (index_pages_fetched gucs tf pages (f64_of_int (int pages)) rt)"
proof -
  let ?T = "if pages > 1 then f64_of_int (int pages) else F_Fin 1"
  define t :: rat where "t = (if pages > 1 then of_nat pages else 1)"
  have T: "?T = F_Fin t" "1 \<le> t" "t \<le> 2 ^ 32" "t = of_int \<lfloor>t\<rfloor>"
    using block_number [OF assms(2)] assms(2) of_nat_le_iff [of pages "2 ^ 32", where 'a = rat] by (auto simp: t_def)
  have wT: "upto_pow 32 (F_Fin t)" using T by (simp add: upto_pow_def)
  define tot where "tot = f_Max (f_add (total_table_pages rt) (f64_of_int (int pages))) (F_Fin 1)"
  have "upto_pow 1000 (f64_of_int (int pages))"
    using block_number [OF assms(2)] assms(2) by (auto simp: upto_pow_def intro: order_trans [of _ "2 ^ 32"])
  then have "upto_pow 1001 (f_add (total_table_pages rt) (f64_of_int (int pages)))"
    using upto_add [OF assms(3), of "f64_of_int (int pages)"] by simp
  then have "\<exists>p. tot = F_Fin p \<and> 1 \<le> p" by (auto simp: tot_def f_Max_def upto_pow_def)
  then obtain p where p: "tot = F_Fin p" "1 \<le> p" by blast
  define e where "e = f_div (f_mul (f64_of_int (effective_cache_size gucs)) (F_Fin t)) tot"
  have "upto_pow 31 (f64_of_int (effective_cache_size gucs))"
    using f64_of_int_exact [of "effective_cache_size gucs"] assms(4,5) by (simp add: upto_pow_def)
  from upto_div [OF upto_mul [OF this wT], of p] have "upto_pow 63 e" using p by (simp add: e_def f_le_def less_eq_rat_def)
  then obtain x where x: "e = F_Fin x" "0 \<le> x" by (auto simp: upto_pow_def)
  define b :: rat where "b = (if x \<le> 1 then 1 else of_int \<lceil>x\<rceil>)"
  have b: "(if f_le e (F_Fin 1) then F_Fin 1 else f_ceil e) = F_Fin b" "1 \<le> b"
    using x by (auto simp: b_def f_le_def f_ceil_def)
  note formula = fetched_cached [OF T(2-4) assms(1)]
  have small: "upto_pow 500 (F_Fin t)" "\<And>z. upto_pow 433 z \<Longrightarrow> upto_pow 500 (f_ceil z)"
    using upto_mono [OF wT] upto_mono [OF upto_ceil] by simp_all
  show ?thesis
    unfolding index_pages_fetched_def Let_def T(1) tot_def [symmetric] e_def [symmetric] b(1)
    using small formula fetched_uncached [OF T(2-4) assms(1) b(2) _ refl] by (auto simp: f_le_def)
qed

lemma clamp: "lo \<le> hi \<Longrightarrow> \<exists>v. f_Max (F_Fin lo) (f_Min x (F_Fin hi)) = F_Fin v \<and> lo \<le> v \<and> v \<le> hi"
  by (cases x) (auto simp: f_Max_def f_Min_def)

lemma add_increases:
  assumes "representable a" "0 \<le> a" "a \<le> 2 ^ k" "upto_pow k y" "Suc k < 1024"
  shows "\<exists>v. f_add (F_Fin a) y = F_Fin v \<and> a \<le> v \<and> v \<le> 2 ^ Suc k \<and> representable v"
proof -
  obtain x where x: "y = F_Fin x" "0 \<le> x" "x \<le> 2 ^ k" using assms(4) by (auto simp: upto_pow_def)
  have "\<exists>v. f64_of_rat (a + x) = F_Fin v \<and> a \<le> v \<and> v \<le> 2 ^ Suc k" using assms x by (intro of_rat_at_least) simp_all
  moreover have "f64_of_rat z = F_Fin v \<Longrightarrow> representable v" for z v
    using round64_is_representable [of z] by (auto simp: f64_of_rat_def Let_def split: if_splits)
  ultimately show ?thesis using x(1) by auto
qed

lemma upto_rint: "upto_pow k x \<Longrightarrow> upto_pow k (f_rint x)"
proof -
  assume "upto_pow k x"
  then obtain a where a: "x = F_Fin a" "0 \<le> a" "a \<le> 2 ^ k" by (auto simp: upto_pow_def)
  then have "round_even a \<le> 2 ^ k" "0 \<le> round_even a" by (auto intro!: round_even_le round_even_ge)
  then have "of_int (round_even a) \<le> (of_int (2 ^ k) :: rat)" "0 \<le> (of_int (round_even a) :: rat)"
    by (simp_all only: of_int_le_iff of_int_0_le_iff)
  with a show ?thesis by (simp add: upto_pow_def f_rint_def)
qed

text \<open>The inputs of the estimate: settings and operand costs are numbers that are not negative, the number of rows is at most
  what the planner clamps its estimates to.\<close>

definition cost_inputs :: "cost_settings \<Rightarrow> 'q PlannerInfo \<Rightarrow> IndexOptInfo \<Rightarrow> 'q list \<Rightarrow> f64 \<Rightarrow> bool" where
  "cost_inputs gucs rt index quals loop_count \<longleftrightarrow>
     upto_pow 100 (cpu_operator_cost gucs) \<and> upto_pow 100 (cpu_index_tuple_cost gucs) \<and> upto_pow 100 (random_page_cost gucs) \<and>
     0 \<le> effective_cache_size gucs \<and> effective_cache_size gucs < 2 ^ 31 \<and> upto_pow 1000 (total_table_pages rt) \<and>
     io_pages index < 2 ^ 32 \<and> upto_pow 340 (io_tuples index) \<and> upto_pow 340 loop_count \<and> length quals < 2 ^ 31 \<and>
     (\<exists>a. index_other_operands_eval_cost rt quals = F_Fin a \<and> representable a \<and> 0 \<le> a \<and> a \<le> 2 ^ 1000)"

lemma page_cost_upto:
  assumes "cost_inputs gucs rt index quals loop_count" "1 \<le> n" "n \<le> 2 ^ 32"
  shows "upto_pow 600 (if f_gt loop_count (F_Fin 1) \<and> f_gt (F_Fin n) (F_Fin 1)
      then f_div (f_mul (index_pages_fetched gucs (f_mul (F_Fin n) loop_count) (io_pages index) (f64_of_int (int (io_pages index))) rt)
             (random_page_cost gucs)) loop_count
      else f_mul (F_Fin n) (random_page_cost gucs))"
proof -
  have i: "upto_pow 100 (random_page_cost gucs)" "upto_pow 340 loop_count" using assms(1) by (simp_all add: cost_inputs_def)
  have n: "upto_pow 32 (F_Fin n)" using assms(2,3) by (simp add: upto_pow_def)
  have once: "upto_pow 600 (f_mul (F_Fin n) (random_page_cost gucs))" by (rule upto_mono [OF upto_mul [OF n i(1)]]) simp_all
  have "upto_pow 400 (f_mul (F_Fin n) loop_count)" by (rule upto_mono [OF upto_mul [OF n i(2)]]) simp_all
  then have "upto_pow 500 (index_pages_fetched gucs (f_mul (F_Fin n) loop_count) (io_pages index) (f64_of_int (int (io_pages index))) rt)"
    using assms(1) by (intro index_pages_fetched_upto) (simp_all add: cost_inputs_def)
  from upto_mul [OF this i(1)]
  have many: "upto_pow 600 (f_mul (index_pages_fetched gucs (f_mul (F_Fin n) loop_count) (io_pages index)
      (f64_of_int (int (io_pages index))) rt) (random_page_cost gucs))" by simp
  obtain l where l: "loop_count = F_Fin l" using i(2) by (auto simp: upto_pow_def)
  show ?thesis using once upto_div [OF many, of l] unfolding l by (simp add: f_le_def)
qed

lemma tuple_cost_upto:
  assumes "cost_inputs gucs rt index quals loop_count" "upto_pow 340 m"
  shows "upto_pow 1001 (f_mul m (f_add (cpu_index_tuple_cost gucs) (f_mul (cpu_operator_cost gucs) (f64_of_int (int (length quals))))))"
proof -
  have c: "upto_pow 100 (cpu_operator_cost gucs)" "upto_pow 100 (cpu_index_tuple_cost gucs)" "length quals < 2 ^ 31"
    using assms(1) by (simp_all add: cost_inputs_def)
  have "upto_pow 31 (f64_of_int (int (length quals)))"
    using c(3) f64_of_int_exact [of "int (length quals)"] of_nat_le_iff [of "length quals" "2 ^ 31", where 'a = rat] by (simp add: upto_pow_def)
  from upto_mul [OF c(1) this] have "upto_pow 131 (f_mul (cpu_operator_cost gucs) (f64_of_int (int (length quals))))" by simp
  from upto_add [OF upto_mono [OF c(2)] this]
  have "upto_pow 132 (f_add (cpu_index_tuple_cost gucs) (f_mul (cpu_operator_cost gucs) (f64_of_int (int (length quals)))))" by simp
  from upto_mono [OF upto_mul [OF assms(2) this]] show ?thesis by simp
qed

lemma f_le_Fin: "f_le (F_Fin a) (F_Fin b) \<longleftrightarrow> a \<le> b"
  by (auto simp: f_le_def)

lemma max_one: "upto_pow k x \<Longrightarrow> \<exists>t. f_Max x (F_Fin 1) = F_Fin t \<and> upto_pow k (F_Fin t)"
  by (auto simp: upto_pow_def f_Max_def)

lemma num_tuples_upto:
  assumes "upto_pow k (F_Fin t)" "0 \<le> sel" "sel \<le> 1" "k < 1024"
  shows "upto_pow k (let m = f_rint (f_mul (F_Fin t) (F_Fin sel)); m = (if f_lt m (F_Fin 1) then F_Fin 1 else m)
    in if f_gt m (F_Fin t) then F_Fin t else m)"
proof -
  have "upto_pow 0 (F_Fin sel)" using assms(2,3) by (simp add: upto_pow_def)
  from upto_rint [OF upto_mul [OF assms(1) this]] assms(4) have "upto_pow k (f_rint (f_mul (F_Fin t) (F_Fin sel)))" by simp
  moreover have "upto_pow k (F_Fin 1)" by (simp add: upto_pow_def)
  ultimately show ?thesis using assms(1) by (simp add: Let_def)
qed

section \<open>Properties\<close>

text \<open>C29. The cost estimate gives the planner numbers in their ranges: whatever selectivity is estimated, even a NaN, the one
  reported is between 0 and 1, the pages are between one and the size of the index, and for inputs within the
  planner's limits the total cost is finite and no less than the startup cost.\<close>

theorem cost_estimate_in_range:
  assumes "cost_inputs gucs rt index quals loop_count" "e = temporal_rtree_costestimate gucs rt index quals loop_count"
  shows "f_le (F_Fin 0) (indexSelectivity e) \<and> f_le (indexSelectivity e) (F_Fin 1) \<and>
    f_le (F_Fin 1) (indexPages e) \<and> f_le (indexPages e) (F_Fin (of_nat (max 1 (io_pages index)))) \<and>
    f_le (F_Fin 0) (indexStartupCost e) \<and> f_le (indexStartupCost e) (indexTotalCost e) \<and> upto_pow 1002 (indexTotalCost e)"
proof -
  note in_def = cost_inputs_def
  let ?q = "add_predicate_to_index_quals rt quals"
  obtain sel where sel: "f_Max (F_Fin 0) (f_Min (clauselist_selectivity rt ?q) (F_Fin 1)) = F_Fin sel" "0 \<le> sel" "sel \<le> 1"
    using clamp [of 0 1] by auto
  have size: "io_pages index < 2 ^ 32" using assms(1) by (simp add: in_def)
  define p :: rat where "p = of_nat (max 1 (io_pages index))"
  have p: "f_Max (f64_of_int (int (io_pages index))) (F_Fin 1) = F_Fin p" "1 \<le> p" "p \<le> 2 ^ 32"
    using block_number [OF size] size of_nat_le_iff [of "io_pages index" "2 ^ 32", where 'a = rat]
    by (auto simp: f_Max_def p_def max_def)
  obtain t where t: "f_Max (io_tuples index) (F_Fin 1) = F_Fin t" "upto_pow 340 (F_Fin t)"
    using assms(1) max_one [of 340 "io_tuples index"] by (auto simp: in_def)
  define m where "m = (let m = f_rint (f_mul (F_Fin t) (F_Fin sel)); m = (if f_lt m (F_Fin 1) then F_Fin 1 else m)
    in if f_gt m (F_Fin t) then F_Fin t else m)"
  have m: "upto_pow 340 m" unfolding m_def by (rule num_tuples_upto [OF t(2) sel(2,3)]) simp
  obtain n where n: "f_Max (F_Fin 1) (f_Min (if f_gt (f64_of_int (int (io_pages index))) (F_Fin 1) \<and> f_gt (F_Fin t) (F_Fin 1)
      then f_ceil (f_div (f_mul m (f64_of_int (int (io_pages index)))) (F_Fin t)) else F_Fin 1) (F_Fin p)) = F_Fin n" "1 \<le> n" "n \<le> p"
    using clamp [OF p(2)] by metis
  obtain a where a: "index_other_operands_eval_cost rt quals = F_Fin a" "representable a" "0 \<le> a" "a \<le> 2 ^ 1000"
    using assms(1) by (auto simp: in_def)
  have "n \<le> 2 ^ 32" using n(3) p(3) by simp
  note page = page_cost_upto [OF assms(1) n(2) this] and tuple = tuple_cost_upto [OF assms(1) m]
  obtain v where v: "f_add (F_Fin a) (if f_gt loop_count (F_Fin 1) \<and> f_gt (F_Fin n) (F_Fin 1)
      then f_div (f_mul (index_pages_fetched gucs (f_mul (F_Fin n) loop_count) (io_pages index) (f64_of_int (int (io_pages index))) rt)
             (random_page_cost gucs)) loop_count
      else f_mul (F_Fin n) (random_page_cost gucs)) = F_Fin v" "a \<le> v" "v \<le> 2 ^ 1001" "representable v"
    using add_increases [OF a(2-4) upto_mono [OF page]] by auto
  from v a(3) have "0 \<le> v" by simp
  from add_increases [OF v(4) this v(3) tuple] obtain w where
      w: "f_add (F_Fin v) (f_mul m (f_add (cpu_index_tuple_cost gucs) (f_mul (cpu_operator_cost gucs) (f64_of_int (int (length quals)))))) = F_Fin w"
      "v \<le> w" "w \<le> 2 ^ 1002" by auto
  have "e = \<lparr>indexStartupCost = F_Fin a, indexTotalCost = F_Fin w, indexSelectivity = F_Fin sel, indexCorrelation = F_Fin 0,
      indexPages = F_Fin n\<rparr>"
    unfolding assms(2) temporal_rtree_costestimate_def Let_def sel(1) t(1) m_def [unfolded Let_def, symmetric]
      p(1) n(1) a(1) v(1) w(1) ..
  then show ?thesis unfolding p_def [symmetric] using sel(2,3) n(2,3) a(3) v(2) w(2,3) by (simp add: f_le_Fin upto_pow_def)
qed

section \<open>Example\<close>

definition demo_settings :: cost_settings where
  "demo_settings = \<lparr>cpu_operator_cost = F_Fin 1, cpu_index_tuple_cost = F_Fin 1, random_page_cost = F_Fin 4, effective_cache_size = 524288\<rparr>"

definition demo_planner :: "unit PlannerInfo" where
  "demo_planner = \<lparr>total_table_pages = F_Fin 1000, add_predicate_to_index_quals = (\<lambda>quals. quals),
     clauselist_selectivity = (\<lambda>_. F_NaN), index_other_operands_eval_cost = (\<lambda>_. F_Fin 0)\<rparr>"

theorem cost_estimate_in_range_witness:
  "let e = temporal_rtree_costestimate demo_settings demo_planner \<lparr>io_pages = 100, io_tuples = F_Fin 5000\<rparr> [()] (F_Fin 10)
   in f_le (indexSelectivity e) (F_Fin 1) \<and> f_le (indexPages e) (F_Fin 100) \<and> f_le (indexStartupCost e) (indexTotalCost e) \<and>
     upto_pow 1002 (indexTotalCost e)"
  using cost_estimate_in_range [OF _ refl, of demo_settings demo_planner "\<lparr>io_pages = 100, io_tuples = F_Fin 5000\<rparr>" "[()]" "F_Fin 10"]
  by (simp add: cost_inputs_def demo_settings_def demo_planner_def upto_pow_def Let_def)

end
