(* ===== verification/TR_Hooks.thy ===== *)
theory TR_Hooks
  imports TR_Cost
begin

text \<open>
  The planner and executor hooks (\<^verbatim>\<open>temporal_rtree_hooks.c\<close>): the detection of indexed relations and of clauses
  the index can answer, the statistics, the bias of the path costs, and the installation of the hooks.
  The system catalogs are a record of lookup functions; the relations and indexes that a query names
  exist, so that opening them does not fail. The hooks and functions the code calls through pointers are arguments.
\<close>

section \<open>Catalogs, expressions and queries\<close>

type_synonym Oid = nat

definition InvalidOid :: Oid where "InvalidOid = 0"

text \<open>The list of the indexes of a relation, and the catalog caches: \<open>None\<close> is an invalid tuple.\<close>

record catalog =
  RelationGetIndexList :: "Oid \<Rightarrow> Oid list"
  relam :: "Oid \<Rightarrow> Oid option"
  amname :: "Oid \<Rightarrow> string option"
  proname :: "Oid \<Rightarrow> string option"
  oprname :: "Oid \<Rightarrow> string option"

datatype BoolExprType = AND_EXPR | OR_EXPR | NOT_EXPR

text \<open>Expression nodes with the children that \<^verbatim>\<open>expression_tree_walker\<close> visits.\<close>

datatype Node =
    NullNode
  | FuncExpr Oid "Node list"
  | OpExpr Oid "Node list"
  | BoolExpr BoolExprType "Node list"
  | OtherNode "Node list"

datatype CmdType = CMD_UNKNOWN | CMD_SELECT | CMD_UPDATE | CMD_INSERT | CMD_DELETE | CMD_MERGE | CMD_UTILITY | CMD_NOTHING

datatype RTEKind = RTE_RELATION | RTE_SUBQUERY | RTE_JOIN | RTE_FUNCTION | RTE_TABLEFUNC | RTE_VALUES | RTE_CTE
  | RTE_NAMEDTUPLESTORE | RTE_RESULT

record RangeTblEntry =
  rtekind :: RTEKind
  rte_relid :: Oid

record Query =
  commandType :: CmdType
  targetList :: Node
  join_quals :: Node
  rtable :: "RangeTblEntry list"

text \<open>A path of a relation; \<open>Some\<close> index for an \<^verbatim>\<open>IndexPath\<close>.\<close>

record Path =
  path_index :: "Oid option"
  startup_cost :: f64
  total_cost :: f64

record RelOptInfo =
  baserestrictinfo :: "Node list"
  pathlist :: "Path list"

section \<open>The state of the module\<close>

text \<open>A hook variable holds the hook of this module or that of another one.\<close>

datatype hook = TrtreeHook | OtherHook nat

datatype log_entry =
    PlannerLog bool bool "string option"
  | ExecutorLog string
  | BiasLog
  | UnloadLog

record hook_state =
  trtree_enable_hook_debug :: bool
  trtree_force_rtree_paths :: bool
  trtree_log_dml :: bool
  hook_stats_planner_hits :: "64 word"
  hook_stats_planner_rtree_eligible_hits :: "64 word"
  hook_stats_executor_dml_hits :: "64 word"
  hook_stats_executor_target_with_rtree_hits :: "64 word"
  hook_stats_path_bias_applied :: "64 word"
  planner_hook :: "hook option"
  prev_planner_hook :: "hook option"
  ExecutorStart_hook :: "hook option"
  prev_ExecutorStart_hook :: "hook option"
  set_rel_pathlist_hook :: "hook option"
  prev_set_rel_pathlist_hook :: "hook option"
  server_log :: "log_entry list"

section \<open>Detection\<close>

definition is_rtree_index :: "catalog \<Rightarrow> Oid \<Rightarrow> bool" where
  "is_rtree_index cat indexOid =
     (case relam cat indexOid of
        None \<Rightarrow> False
      | Some amOid \<Rightarrow> if amOid \<noteq> InvalidOid then amname cat amOid = Some ''temporal_rtree'' else False)"

definition trtree_has_temporal_rtree_index :: "catalog \<Rightarrow> Oid \<Rightarrow> bool" where
  "trtree_has_temporal_rtree_index cat relationOid = list_ex (is_rtree_index cat) (RelationGetIndexList cat relationOid)"

definition trtree_get_rtree_index_oid :: "catalog \<Rightarrow> Oid \<Rightarrow> Oid" where
  "trtree_get_rtree_index_oid cat relationOid =
     (case find (is_rtree_index cat) (RelationGetIndexList cat relationOid) of None \<Rightarrow> InvalidOid | Some oid \<Rightarrow> oid)"

fun trtree_contains_temporalbox :: "catalog \<Rightarrow> Node \<Rightarrow> bool" where
  "trtree_contains_temporalbox cat NullNode = False"
| "trtree_contains_temporalbox cat (FuncExpr funcid args) =
     (if proname cat funcid = Some ''temporalbox'' then True else list_ex (trtree_contains_temporalbox cat) args)"
| "trtree_contains_temporalbox cat (OpExpr opno args) = list_ex (trtree_contains_temporalbox cat) args"
| "trtree_contains_temporalbox cat (BoolExpr op args) = list_ex (trtree_contains_temporalbox cat) args"
| "trtree_contains_temporalbox cat (OtherNode children) = list_ex (trtree_contains_temporalbox cat) children"

definition trtree_is_compatible_operator :: "catalog \<Rightarrow> Oid \<Rightarrow> bool" where
  "trtree_is_compatible_operator cat opoid =
     (case oprname cat opoid of None \<Rightarrow> False | Some opname \<Rightarrow> opname = ''&&'' \<or> opname = ''@>'' \<or> opname = ''<@'')"

fun trtree_clause_is_temporal_rtree_compatible :: "catalog \<Rightarrow> Node \<Rightarrow> bool" where
  "trtree_clause_is_temporal_rtree_compatible cat (OpExpr opno args) =
     (case args of
        [leftarg, rightarg] \<Rightarrow>
          if trtree_contains_temporalbox cat leftarg \<and> trtree_is_compatible_operator cat opno then True
          else trtree_contains_temporalbox cat rightarg \<and> trtree_is_compatible_operator cat opno
      | _ \<Rightarrow> False)"
| "trtree_clause_is_temporal_rtree_compatible cat (BoolExpr boolop args) =
     (if boolop = AND_EXPR then list_ex (trtree_clause_is_temporal_rtree_compatible cat) args else False)"
| "trtree_clause_is_temporal_rtree_compatible cat clause = False"

definition trtree_has_compatible_clauses :: "catalog \<Rightarrow> RelOptInfo \<Rightarrow> bool" where
  "trtree_has_compatible_clauses cat rel = list_ex (trtree_clause_is_temporal_rtree_compatible cat) (baserestrictinfo rel)"

section \<open>The hooks\<close>

definition log_if :: "bool \<Rightarrow> log_entry \<Rightarrow> hook_state \<Rightarrow> hook_state" where
  "log_if c entry s = (if c then s\<lparr>server_log := server_log s @ [entry]\<rparr> else s)"

text \<open>\<open>call\<close> calls the hook of another module, \<open>standard_planner\<close> the planner itself.\<close>

definition trtree_planner_hook ::
  "catalog \<Rightarrow> (hook \<Rightarrow> Query \<Rightarrow> hook_state \<Rightarrow> 'r \<times> hook_state) \<Rightarrow> (Query \<Rightarrow> hook_state \<Rightarrow> 'r \<times> hook_state) \<Rightarrow>
   Query \<Rightarrow> string option \<Rightarrow> hook_state \<Rightarrow> 'r \<times> hook_state" where
  "trtree_planner_hook cat call standard_planner parse query_string s =
     (let has_temporalbox = (if trtree_contains_temporalbox cat (targetList parse) then True
                             else trtree_contains_temporalbox cat (join_quals parse));
          has_rtree_indexed_rel = list_ex (\<lambda>rte. rtekind rte = RTE_RELATION \<and> rte_relid rte \<noteq> InvalidOid \<and>
                                     trtree_has_temporal_rtree_index cat (rte_relid rte)) (rtable parse);
          s = (if has_temporalbox \<or> has_rtree_indexed_rel
               then let s = s\<lparr>hook_stats_planner_hits := hook_stats_planner_hits s + 1\<rparr>
                    in if has_temporalbox \<and> has_rtree_indexed_rel
                       then s\<lparr>hook_stats_planner_rtree_eligible_hits := hook_stats_planner_rtree_eligible_hits s + 1\<rparr> else s
               else s);
          s = log_if (trtree_enable_hook_debug s \<and> (has_temporalbox \<or> has_rtree_indexed_rel))
                (PlannerLog has_temporalbox has_rtree_indexed_rel query_string) s
      in case prev_planner_hook s of
           Some h \<Rightarrow> call h parse s
         | None \<Rightarrow> standard_planner parse s)"

definition executor_rte :: "catalog \<Rightarrow> CmdType \<Rightarrow> bool \<times> hook_state \<Rightarrow> RangeTblEntry \<Rightarrow> bool \<times> hook_state" where
  "executor_rte cat operation acc rte =
     (case acc of (has_rtree_idx, s) \<Rightarrow>
        if rtekind rte = RTE_RELATION \<and> rte_relid rte \<noteq> InvalidOid \<and> operation \<noteq> CMD_SELECT then
          let s = s\<lparr>hook_stats_executor_dml_hits := hook_stats_executor_dml_hits s + 1\<rparr>
          in if trtree_has_temporal_rtree_index cat (rte_relid rte)
             then (True, s\<lparr>hook_stats_executor_target_with_rtree_hits := hook_stats_executor_target_with_rtree_hits s + 1\<rparr>)
             else (has_rtree_idx, s)
        else (has_rtree_idx, s))"

fun command_name :: "CmdType \<Rightarrow> string" where
  "command_name CMD_SELECT = ''SELECT''"
| "command_name CMD_INSERT = ''INSERT''"
| "command_name CMD_UPDATE = ''UPDATE''"
| "command_name CMD_DELETE = ''DELETE''"
| "command_name _ = ''OTHER''"

text \<open>The query descriptor: its operation, and the range table of its plan if it has one. \<open>call\<close> is as above.\<close>

definition trtree_executor_start_hook ::
  "catalog \<Rightarrow> (hook \<Rightarrow> hook_state \<Rightarrow> 'r \<times> hook_state) \<Rightarrow> (hook_state \<Rightarrow> 'r \<times> hook_state) \<Rightarrow>
   CmdType \<Rightarrow> RangeTblEntry list option \<Rightarrow> hook_state \<Rightarrow> 'r \<times> hook_state" where
  "trtree_executor_start_hook cat call standard_ExecutorStart operation plan_rtable s =
     (case foldl (executor_rte cat operation) (False, s) (case plan_rtable of None \<Rightarrow> [] | Some rtes \<Rightarrow> rtes) of
        (has_rtree_idx, s) \<Rightarrow>
          let s = log_if (trtree_enable_hook_debug s \<and> trtree_log_dml s \<and> has_rtree_idx) (ExecutorLog (command_name operation)) s
          in case prev_ExecutorStart_hook s of
               Some h \<Rightarrow> call h s
             | None \<Rightarrow> standard_ExecutorStart s)"

definition COST_BIAS_FACTOR :: f64 where "COST_BIAS_FACTOR = f64_lit 5 100"

definition bias_path :: "Path \<Rightarrow> Path" where
  "bias_path path = path\<lparr>startup_cost := f_mul (startup_cost path) COST_BIAS_FACTOR,
     total_cost := f_mul (total_cost path) COST_BIAS_FACTOR\<rparr>"

fun bias_paths :: "Oid \<Rightarrow> Path list \<Rightarrow> hook_state \<Rightarrow> Path list \<times> hook_state" where
  "bias_paths oid [] s = ([], s)"
| "bias_paths oid (path # paths) s =
     (let (path, s) = (if path_index path = Some oid
                       then let s = log_if (trtree_enable_hook_debug s) BiasLog s
                            in (bias_path path, s\<lparr>hook_stats_path_bias_applied := hook_stats_path_bias_applied s + 1\<rparr>)
                       else (path, s));
          (paths, s) = bias_paths oid paths s
      in (path # paths, s))"

definition trtree_set_rel_pathlist_hook ::
  "catalog \<Rightarrow> (hook \<Rightarrow> RelOptInfo \<Rightarrow> hook_state \<Rightarrow> RelOptInfo \<times> hook_state) \<Rightarrow> CmdType \<Rightarrow> RangeTblEntry \<Rightarrow>
   RelOptInfo \<Rightarrow> hook_state \<Rightarrow> RelOptInfo \<times> hook_state" where
  "trtree_set_rel_pathlist_hook cat call command rte rel s =
     (let (rel, s) = (case prev_set_rel_pathlist_hook s of Some h \<Rightarrow> call h rel s | None \<Rightarrow> (rel, s))
      in if \<not> trtree_force_rtree_paths s then (rel, s)
         else if command \<noteq> CMD_SELECT \<and> command \<noteq> CMD_UPDATE \<and> command \<noteq> CMD_DELETE then (rel, s)
         else if rtekind rte \<noteq> RTE_RELATION \<or> rte_relid rte = InvalidOid then (rel, s)
         else
         let rtree_index_oid = trtree_get_rtree_index_oid cat (rte_relid rte)
         in if rtree_index_oid = InvalidOid then (rel, s)
            else if \<not> trtree_has_compatible_clauses cat rel then (rel, s)
            else let (paths, s) = bias_paths rtree_index_oid (pathlist rel) s
                 in (rel\<lparr>pathlist := paths\<rparr>, s))"

section \<open>Statistics and installation\<close>

definition temporal_rtree_hook_stats :: "hook_state \<Rightarrow> int list" where
  "temporal_rtree_hook_stats s =
     [sint (hook_stats_planner_hits s), sint (hook_stats_planner_rtree_eligible_hits s), sint (hook_stats_executor_dml_hits s),
      sint (hook_stats_executor_target_with_rtree_hits s), sint (hook_stats_path_bias_applied s)]"

definition temporal_rtree_hook_reset :: "hook_state \<Rightarrow> hook_state" where
  "temporal_rtree_hook_reset s = s\<lparr>hook_stats_planner_hits := 0, hook_stats_planner_rtree_eligible_hits := 0,
     hook_stats_executor_dml_hits := 0, hook_stats_executor_target_with_rtree_hits := 0, hook_stats_path_bias_applied := 0\<rparr>"

text \<open>A variable gets the value the configuration has for it, or the default of its definition.\<close>

definition DefineCustomBoolVariable :: "(string \<rightharpoonup> bool) \<Rightarrow> string \<Rightarrow> bool \<Rightarrow> bool" where
  "DefineCustomBoolVariable conf name bootValue = (case conf name of None \<Rightarrow> bootValue | Some v \<Rightarrow> v)"

definition PG_init :: "(string \<rightharpoonup> bool) \<Rightarrow> hook_state \<Rightarrow> hook_state" where
  "PG_init conf s =
     (let s = s\<lparr>trtree_enable_hook_debug := DefineCustomBoolVariable conf ''temporal_rtree.enable_hook_debug'' False\<rparr>;
          s = s\<lparr>trtree_force_rtree_paths := DefineCustomBoolVariable conf ''temporal_rtree.force_rtree_paths'' False\<rparr>;
          s = s\<lparr>trtree_log_dml := DefineCustomBoolVariable conf ''temporal_rtree.log_dml'' False\<rparr>;
          s = s\<lparr>prev_planner_hook := planner_hook s\<rparr>;
          s = s\<lparr>planner_hook := Some TrtreeHook\<rparr>;
          s = s\<lparr>prev_ExecutorStart_hook := ExecutorStart_hook s\<rparr>;
          s = s\<lparr>ExecutorStart_hook := Some TrtreeHook\<rparr>;
          s = s\<lparr>prev_set_rel_pathlist_hook := set_rel_pathlist_hook s\<rparr>
      in s\<lparr>set_rel_pathlist_hook := Some TrtreeHook\<rparr>)"

definition PG_fini :: "hook_state \<Rightarrow> hook_state" where
  "PG_fini s =
     log_if True UnloadLog (s\<lparr>planner_hook := prev_planner_hook s, ExecutorStart_hook := prev_ExecutorStart_hook s,
       set_rel_pathlist_hook := prev_set_rel_pathlist_hook s\<rparr>)"

section \<open>Counting statements\<close>

text \<open>What the server does, as far as the hooks see it, with no other module installed: it plans a query, starts a plan, or looks
  for the paths of a relation.\<close>

datatype hook_event =
    Planned Query "string option"
  | Started CmdType "RangeTblEntry list option"
  | PathsSet CmdType RangeTblEntry RelOptInfo

fun hook_event_run :: "catalog \<Rightarrow> hook_event \<Rightarrow> hook_state \<Rightarrow> hook_state" where
  "hook_event_run cat (Planned q qs) s = snd (trtree_planner_hook cat (\<lambda>_ _ s. ((), s)) (\<lambda>_ s. ((), s)) q qs s)"
| "hook_event_run cat (Started op rtes) s = snd (trtree_executor_start_hook cat (\<lambda>_ s. ((), s)) (\<lambda>s. ((), s)) op rtes s)"
| "hook_event_run cat (PathsSet cmd rte rel) s = snd (trtree_set_rel_pathlist_hook cat (\<lambda>_ rel s. (rel, s)) cmd rte rel s)"

definition table_entry :: "RangeTblEntry \<Rightarrow> bool" where
  "table_entry rte \<longleftrightarrow> rtekind rte = RTE_RELATION \<and> rte_relid rte \<noteq> InvalidOid"

definition indexed_entry :: "catalog \<Rightarrow> RangeTblEntry \<Rightarrow> bool" where
  "indexed_entry cat rte \<longleftrightarrow> table_entry rte \<and> trtree_has_temporal_rtree_index cat (rte_relid rte)"

definition uses_box :: "catalog \<Rightarrow> Query \<Rightarrow> bool" where
  "uses_box cat q \<longleftrightarrow> trtree_contains_temporalbox cat (targetList q) \<or> trtree_contains_temporalbox cat (join_quals q)"

definition reads_indexed :: "catalog \<Rightarrow> Query \<Rightarrow> bool" where
  "reads_indexed cat q \<longleftrightarrow> list_ex (indexed_entry cat) (rtable q)"

fun candidate :: "catalog \<Rightarrow> hook_event \<Rightarrow> bool" where
  "candidate cat (Planned q qs) \<longleftrightarrow> uses_box cat q \<or> reads_indexed cat q"
| "candidate cat ev \<longleftrightarrow> False"

fun eligible :: "catalog \<Rightarrow> hook_event \<Rightarrow> bool" where
  "eligible cat (Planned q qs) \<longleftrightarrow> uses_box cat q \<and> reads_indexed cat q"
| "eligible cat ev \<longleftrightarrow> False"

text \<open>The range table entries of a statement that is not a SELECT.\<close>

fun dml_entries :: "hook_event \<Rightarrow> RangeTblEntry list" where
  "dml_entries (Started op (Some rtes)) = (if op = CMD_SELECT then [] else filter table_entry rtes)"
| "dml_entries ev = []"

lemma log_if_fields [simp]:
  "hook_stats_planner_hits (log_if c e s) = hook_stats_planner_hits s"
  "hook_stats_planner_rtree_eligible_hits (log_if c e s) = hook_stats_planner_rtree_eligible_hits s"
  "hook_stats_executor_dml_hits (log_if c e s) = hook_stats_executor_dml_hits s"
  "hook_stats_executor_target_with_rtree_hits (log_if c e s) = hook_stats_executor_target_with_rtree_hits s"
  "hook_stats_path_bias_applied (log_if c e s) = hook_stats_path_bias_applied s"
  "planner_hook (log_if c e s) = planner_hook s" "ExecutorStart_hook (log_if c e s) = ExecutorStart_hook s"
  "set_rel_pathlist_hook (log_if c e s) = set_rel_pathlist_hook s"
  by (simp_all add: log_if_def)

lemma executor_step:
  assumes "executor_rte cat op (has, s) rte = (has', s')"
  shows "hook_stats_executor_dml_hits s' =
      hook_stats_executor_dml_hits s + of_bool (op \<noteq> CMD_SELECT \<and> table_entry rte)"
    "hook_stats_executor_target_with_rtree_hits s' =
      hook_stats_executor_target_with_rtree_hits s + of_bool (op \<noteq> CMD_SELECT \<and> indexed_entry cat rte)"
    "hook_stats_planner_hits s' = hook_stats_planner_hits s"
    "hook_stats_planner_rtree_eligible_hits s' = hook_stats_planner_rtree_eligible_hits s"
  using assms by (simp_all add: executor_rte_def table_entry_def indexed_entry_def Let_def split: if_splits) auto

lemma executor_entries:
  assumes "foldl (executor_rte cat op) (has, s) rtes = (has', s')"
  shows "hook_stats_executor_dml_hits s' =
      hook_stats_executor_dml_hits s + of_nat (length (filter (\<lambda>rte. op \<noteq> CMD_SELECT \<and> table_entry rte) rtes)) \<and>
    hook_stats_executor_target_with_rtree_hits s' =
      hook_stats_executor_target_with_rtree_hits s + of_nat (length (filter (\<lambda>rte. op \<noteq> CMD_SELECT \<and> indexed_entry cat rte) rtes)) \<and>
    hook_stats_planner_hits s' = hook_stats_planner_hits s \<and>
    hook_stats_planner_rtree_eligible_hits s' = hook_stats_planner_rtree_eligible_hits s"
  using assms
proof (induction rtes arbitrary: has s)
  case (Cons rte rtes)
  obtain has1 s1 where 1: "executor_rte cat op (has, s) rte = (has1, s1)" by fastforce
  from Cons.IH [of has1 s1] Cons.prems 1 executor_step [OF 1] show ?case by (simp del: not_None_eq)
qed simp

lemma bias_paths_stats:
  "hook_stats_planner_hits (snd (bias_paths oid paths s)) = hook_stats_planner_hits s"
  "hook_stats_planner_rtree_eligible_hits (snd (bias_paths oid paths s)) = hook_stats_planner_rtree_eligible_hits s"
  "hook_stats_executor_dml_hits (snd (bias_paths oid paths s)) = hook_stats_executor_dml_hits s"
  "hook_stats_executor_target_with_rtree_hits (snd (bias_paths oid paths s)) = hook_stats_executor_target_with_rtree_hits s"
  by (induction oid paths s rule: bias_paths.induct) (simp_all add: Let_def split_beta)

definition counted :: "catalog \<Rightarrow> hook_state \<Rightarrow> hook_event list \<Rightarrow> hook_state \<Rightarrow> bool" where
  "counted cat s evs s' \<longleftrightarrow>
     hook_stats_planner_hits s' = hook_stats_planner_hits s + of_nat (length (filter (candidate cat) evs)) \<and>
     hook_stats_planner_rtree_eligible_hits s' =
       hook_stats_planner_rtree_eligible_hits s + of_nat (length (filter (eligible cat) evs)) \<and>
     hook_stats_executor_dml_hits s' = hook_stats_executor_dml_hits s + of_nat (length (concat (map dml_entries evs))) \<and>
     hook_stats_executor_target_with_rtree_hits s' =
       hook_stats_executor_target_with_rtree_hits s + of_nat (length (filter (indexed_entry cat) (concat (map dml_entries evs))))"

lemma indexed_among_tables: "filter (\<lambda>rte. table_entry rte \<and> indexed_entry cat rte) rtes = filter (indexed_entry cat) rtes"
  by (rule filter_cong) (auto simp: indexed_entry_def)

lemma planned_counted: "counted cat s [Planned q qs] (hook_event_run cat (Planned q qs) s)"
proof -
  have idx: "list_ex (\<lambda>rte. rtekind rte = RTE_RELATION \<and> rte_relid rte \<noteq> InvalidOid \<and>
      trtree_has_temporal_rtree_index cat (rte_relid rte)) (rtable q) = reads_indexed cat q"
    by (simp add: reads_indexed_def indexed_entry_def [abs_def] table_entry_def conj_assoc)
  have box: "(if trtree_contains_temporalbox cat (targetList q) then True else trtree_contains_temporalbox cat (join_quals q)) =
      uses_box cat q"
    by (simp add: uses_box_def)
  show ?thesis
    by (cases "uses_box cat q"; cases "reads_indexed cat q")
      (simp_all add: counted_def trtree_planner_hook_def idx box Let_def split: option.split)
qed

lemma started_counted: "counted cat s [Started op rtes] (hook_event_run cat (Started op rtes) s)"
proof -
  define rs where "rs = (case rtes of None \<Rightarrow> [] | Some rtes \<Rightarrow> rtes)"
  obtain has s1 where 1: "foldl (executor_rte cat op) (False, s) rs = (has, s1)" by fastforce
  have ents: "dml_entries (Started op rtes) = (if op = CMD_SELECT then [] else filter table_entry rs)"
    by (cases rtes) (simp_all add: rs_def)
  have run: "hook_event_run cat (Started op rtes) s =
      log_if (trtree_enable_hook_debug s1 \<and> trtree_log_dml s1 \<and> has) (ExecutorLog (command_name op)) s1"
    using 1 by (simp add: trtree_executor_start_hook_def rs_def Let_def split: option.split)
  show ?thesis using executor_entries [OF 1]
    unfolding counted_def run by (simp add: ents indexed_among_tables del: dml_entries.simps)
qed

lemma paths_counted: "counted cat s [PathsSet cmd rte rel] (hook_event_run cat (PathsSet cmd rte rel) s)"
  using bias_paths_stats
  by (simp add: counted_def trtree_set_rel_pathlist_hook_def Let_def split_beta split: option.split)

lemma events_counted: "counted cat s evs (fold (hook_event_run cat) evs s)"
proof (induction evs arbitrary: s)
  case (Cons ev evs)
  have "counted cat s [ev] (hook_event_run cat ev s)"
    by (cases ev) (simp_all only: planned_counted started_counted paths_counted)
  with Cons [of "hook_event_run cat ev s"] show ?case by (simp add: counted_def)
qed (simp add: counted_def)

lemma sint_of_count: "n < 2 ^ 63 \<Longrightarrow> sint (of_nat n :: 64 word) = int n"
proof -
  assume n: "n < 2 ^ 63"
  have "take_bit 64 (int n) = int n" using n by (intro take_bit_int_eq_self) simp_all
  moreover have "signed_take_bit 63 (int n) = int n" using n by (intro signed_take_bit_int_eq_self) simp_all
  ultimately show ?thesis by (simp add: sint_uint unsigned_of_nat of_nat_take_bit)
qed

section \<open>Path costs\<close>

definition cost_value :: "f64 \<Rightarrow> bool" where
  "cost_value x \<longleftrightarrow> (\<exists>a. x = F_Fin a \<and> representable a \<and> 0 \<le> a \<and> a < 2 ^ 1024)"

lemma bias_factor: "\<exists>f. COST_BIAS_FACTOR = F_Fin f \<and> 0 \<le> f \<and> f \<le> 1"
  using of_rat_at_least [of 0 "5 / 100" 0] by (simp add: COST_BIAS_FACTOR_def f64_lit_def)

lemma bias_cheapens: "cost_value x \<Longrightarrow> f_le (f_mul x COST_BIAS_FACTOR) x"
proof -
  assume "cost_value x"
  then obtain a where a: "x = F_Fin a" "representable a" "0 \<le> a" "a < 2 ^ 1024" by (auto simp: cost_value_def)
  obtain f where f: "COST_BIAS_FACTOR = F_Fin f" "0 \<le> f" "f \<le> 1" using bias_factor by blast
  have "a * f \<le> a * 1" using a(3) f(3) by (rule mult_left_mono [rotated])
  then obtain v where "f64_of_rat (a * f) = F_Fin v" "v \<le> a"
    using a f(2) by (auto intro: f64_of_rat_bounded [OF representable_0 a(2), of "a * f"])
  then show ?thesis unfolding a(1) f(1) by (simp add: f_le_Fin)
qed

lemma bias_keeps_order: "cost_value x \<Longrightarrow> cost_value y \<Longrightarrow> f_le x y \<Longrightarrow> f_le (f_mul x COST_BIAS_FACTOR) (f_mul y COST_BIAS_FACTOR)"
proof -
  assume "cost_value x" "cost_value y" "f_le x y"
  then obtain a b where ab: "x = F_Fin a" "y = F_Fin b" "a \<le> b" by (auto simp: cost_value_def f_le_Fin)
  obtain f where f: "COST_BIAS_FACTOR = F_Fin f" "0 \<le> f" using bias_factor by blast
  show ?thesis unfolding ab f(1) using f64_of_rat_mono [OF mult_right_mono [OF ab(3) f(2)]] by simp
qed

definition biased :: "Oid \<Rightarrow> Path \<Rightarrow> Path" where
  "biased oid path = (if path_index path = Some oid then bias_path path else path)"

lemma bias_paths_map: "fst (bias_paths oid paths s) = map (biased oid) paths"
  by (induction oid paths s rule: bias_paths.induct) (simp_all add: Let_def split_beta biased_def)

lemma bias_paths_count:
  "hook_stats_path_bias_applied (snd (bias_paths oid paths s)) =
     hook_stats_path_bias_applied s + of_nat (length (filter (\<lambda>p. path_index p = Some oid) paths))"
  by (induction oid paths s rule: bias_paths.induct) (simp_all add: Let_def split_beta)

definition bias_applies :: "catalog \<Rightarrow> hook_state \<Rightarrow> CmdType \<Rightarrow> RangeTblEntry \<Rightarrow> RelOptInfo \<Rightarrow> bool" where
  "bias_applies cat s command rte rel \<longleftrightarrow> trtree_force_rtree_paths s \<and> command \<in> {CMD_SELECT, CMD_UPDATE, CMD_DELETE} \<and>
     table_entry rte \<and> trtree_has_temporal_rtree_index cat (rte_relid rte) \<and> trtree_has_compatible_clauses cat rel"

lemma index_lookup_agrees:
  assumes "InvalidOid \<notin> set (RelationGetIndexList cat r)"
  shows "trtree_get_rtree_index_oid cat r \<noteq> InvalidOid \<longleftrightarrow> trtree_has_temporal_rtree_index cat r"
proof (cases "find (is_rtree_index cat) (RelationGetIndexList cat r)")
  case None
  then have "\<not> trtree_has_temporal_rtree_index cat r"
    by (auto simp: find_None_iff trtree_has_temporal_rtree_index_def list_ex_iff)
  with None show ?thesis by (simp add: trtree_get_rtree_index_oid_def)
next
  case (Some oid)
  then have "oid \<in> set (RelationGetIndexList cat r)" "is_rtree_index cat oid" by (auto simp: find_Some_iff)
  with Some assms show ?thesis
    by (auto simp: trtree_get_rtree_index_oid_def trtree_has_temporal_rtree_index_def list_ex_iff)
qed

lemma pathlist_hook_effect:
  assumes "prev_set_rel_pathlist_hook s = None" "InvalidOid \<notin> set (RelationGetIndexList cat (rte_relid rte))"
    "trtree_set_rel_pathlist_hook cat call command rte rel s = (rel', s')"
  defines "oid \<equiv> trtree_get_rtree_index_oid cat (rte_relid rte)"
  shows "rel' = (if bias_applies cat s command rte rel then rel\<lparr>pathlist := map (biased oid) (pathlist rel)\<rparr> else rel)"
    "hook_stats_path_bias_applied s' = hook_stats_path_bias_applied s +
       (if bias_applies cat s command rte rel then of_nat (length (filter (\<lambda>p. path_index p = Some oid) (pathlist rel))) else 0)"
  using assms(3) index_lookup_agrees [OF assms(2)] bias_paths_map [of oid "pathlist rel" s] bias_paths_count [of oid "pathlist rel" s]
  by (auto simp: trtree_set_rel_pathlist_hook_def assms(1) bias_applies_def table_entry_def oid_def Let_def
      split: prod.splits if_splits)

section \<open>Properties\<close>

text \<open>C30. With the path bias a path never gets more expensive: only the paths of the first temporal R-tree index of the relation change,
  only when the setting asks for it and a clause suits the index, and a startup cost stays below its total cost.
  Each change is counted.\<close>

theorem path_bias_only_cheapens:
  assumes "prev_set_rel_pathlist_hook s = None" "InvalidOid \<notin> set (RelationGetIndexList cat (rte_relid rte))"
    and "trtree_set_rel_pathlist_hook cat call command rte rel s = (rel', s')"
    and "\<forall>p \<in> set (pathlist rel). cost_value (startup_cost p) \<and> cost_value (total_cost p) \<and> f_le (startup_cost p) (total_cost p)"
  shows "list_all2 (\<lambda>p p'. path_index p' = path_index p \<and> f_le (startup_cost p') (startup_cost p) \<and> f_le (total_cost p') (total_cost p) \<and>
      f_le (startup_cost p') (total_cost p') \<and>
      (p' = p \<or> bias_applies cat s command rte rel \<and> path_index p = Some (trtree_get_rtree_index_oid cat (rte_relid rte))))
    (pathlist rel) (pathlist rel') \<and>
    hook_stats_path_bias_applied s' = hook_stats_path_bias_applied s + (if bias_applies cat s command rte rel then
      of_nat (length (filter (\<lambda>p. path_index p = Some (trtree_get_rtree_index_oid cat (rte_relid rte))) (pathlist rel))) else 0)"
proof -
  have refl_le: "cost_value x \<Longrightarrow> f_le x x" for x by (auto simp: cost_value_def f_le_Fin)
  show ?thesis
    using pathlist_hook_effect [OF assms(1-3)] assms(4) bias_cheapens bias_keeps_order refl_le
    by (auto simp: list_all2_conv_all_nth biased_def bias_path_def)
qed

text \<open>C31. The statistics that are shown are the numbers of events since the reset, in 64 bits. A planned statement counts for the planner when
  it uses \<^verbatim>\<open>temporalbox\<close> or its range table has an indexed relation, so also an \<^verbatim>\<open>INSERT\<close>, \<^verbatim>\<open>UPDATE\<close> or \<^verbatim>\<open>DELETE\<close> on
  an indexed table, which the expected output of the tests (\<^verbatim>\<open>temporal_rtree_hook_executor.out\<close>, \<^verbatim>\<open>temporal_rtree_hooks.out\<close>) does not count. For a started
  statement that is not a \<^verbatim>\<open>SELECT\<close> every relation of its range table is counted as a target, not just the one it modifies.\<close>

theorem hook_stats_count_events:
  assumes "length evs < 2 ^ 63" "length (concat (map dml_entries evs)) < 2 ^ 63"
  shows "take 4 (temporal_rtree_hook_stats (fold (hook_event_run cat) evs (temporal_rtree_hook_reset s))) =
    map int [length (filter (candidate cat) evs), length (filter (eligible cat) evs), length (concat (map dml_entries evs)),
      length (filter (indexed_entry cat) (concat (map dml_entries evs)))]"
proof -
  let ?ds = "concat (map dml_entries evs)"
  have "length (filter (candidate cat) evs) < 2 ^ 63" "length (filter (eligible cat) evs) < 2 ^ 63"
    "length (filter (indexed_entry cat) ?ds) < 2 ^ 63"
    using assms le_less_trans [OF length_filter_le] by blast+
  with assms(2) show ?thesis
    using events_counted [of cat "temporal_rtree_hook_reset s" evs]
    by (simp add: counted_def temporal_rtree_hook_stats_def temporal_rtree_hook_reset_def sint_of_count)
qed

text \<open>Installing the module puts its hooks in front of those that were there, and unloading it restores them.\<close>

lemma hooks_restored:
  "planner_hook (PG_fini (PG_init conf s)) = planner_hook s \<and>
   ExecutorStart_hook (PG_fini (PG_init conf s)) = ExecutorStart_hook s \<and>
   set_rel_pathlist_hook (PG_fini (PG_init conf s)) = set_rel_pathlist_hook s \<and>
   planner_hook (PG_init conf s) = Some TrtreeHook \<and> prev_planner_hook (PG_init conf s) = planner_hook s"
  by (simp add: PG_fini_def PG_init_def Let_def)

section \<open>Examples\<close>

text \<open>Relation 10 with an ordinary index 19 and the indexes 20 and 21 of the access method 30; function 40 is \<^verbatim>\<open>temporalbox\<close>, operator 50 is \<open>&&\<close>.\<close>

definition demo_catalog :: catalog where
  "demo_catalog = \<lparr>RelationGetIndexList = (\<lambda>r. if r = 10 then [19, 20, 21] else []),
     relam = [19 \<mapsto> 29, 20 \<mapsto> 30, 21 \<mapsto> 30], amname = [29 \<mapsto> ''btree'', 30 \<mapsto> ''temporal_rtree''],
     proname = [40 \<mapsto> ''temporalbox''], oprname = [50 \<mapsto> ''&&'']\<rparr>"

definition demo_hooks :: hook_state where
  "demo_hooks = \<lparr>trtree_enable_hook_debug = False, trtree_force_rtree_paths = True, trtree_log_dml = False,
     hook_stats_planner_hits = 0, hook_stats_planner_rtree_eligible_hits = 0, hook_stats_executor_dml_hits = 0,
     hook_stats_executor_target_with_rtree_hits = 0, hook_stats_path_bias_applied = 0,
     planner_hook = None, prev_planner_hook = None, ExecutorStart_hook = None, prev_ExecutorStart_hook = None,
     set_rel_pathlist_hook = None, prev_set_rel_pathlist_hook = None, server_log = []\<rparr>"

definition demo_rte :: "Oid \<Rightarrow> RangeTblEntry" where
  "demo_rte oid = \<lparr>rtekind = RTE_RELATION, rte_relid = oid\<rparr>"

definition demo_opt :: RelOptInfo where
  "demo_opt = \<lparr>baserestrictinfo = [OpExpr 50 [FuncExpr 40 [], NullNode]],
     pathlist = [\<lparr>path_index = None, startup_cost = F_Fin 0, total_cost = F_Fin 8\<rparr>,
                 \<lparr>path_index = Some 20, startup_cost = F_Fin 1, total_cost = F_Fin 64\<rparr>,
                 \<lparr>path_index = Some 21, startup_cost = F_Fin 1, total_cost = F_Fin 32\<rparr>]\<rparr>"

lemmas demo_hook_defs = demo_catalog_def demo_hooks_def demo_rte_def demo_opt_def InvalidOid_def

lemma demo_index_found: "trtree_get_rtree_index_oid demo_catalog 10 = 20"
  by (simp add: demo_hook_defs trtree_get_rtree_index_oid_def is_rtree_index_def)

theorem path_bias_only_cheapens_witness:
  "\<exists>rel' s'. trtree_set_rel_pathlist_hook demo_catalog (\<lambda>_ rel s. (rel, s)) CMD_SELECT (demo_rte 10) demo_opt demo_hooks = (rel', s') \<and>
     f_le (total_cost (pathlist rel' ! 1)) (F_Fin 64) \<and> pathlist rel' ! 2 = pathlist demo_opt ! 2 \<and>
     hook_stats_path_bias_applied s' = 1"
proof -
  obtain rel' s' where run: "trtree_set_rel_pathlist_hook demo_catalog (\<lambda>_ rel s. (rel, s)) CMD_SELECT (demo_rte 10) demo_opt
      demo_hooks = (rel', s')" by fastforce
  have costs: "\<forall>p \<in> set (pathlist demo_opt). cost_value (startup_cost p) \<and> cost_value (total_cost p) \<and> f_le (startup_cost p) (total_cost p)"
    using representable_int [of 8] representable_int [of 32] representable_int [of 64]
    by (simp add: demo_opt_def cost_value_def f_le_Fin)
  have applies: "bias_applies demo_catalog demo_hooks CMD_SELECT (demo_rte 10) demo_opt"
    by (simp add: bias_applies_def table_entry_def demo_hook_defs trtree_has_temporal_rtree_index_def is_rtree_index_def
        trtree_has_compatible_clauses_def trtree_is_compatible_operator_def)
  have oid: "trtree_get_rtree_index_oid demo_catalog (rte_relid (demo_rte 10)) = 20"
    using demo_index_found by (simp add: demo_rte_def)
  from path_bias_only_cheapens [OF _ _ run costs] show ?thesis
    using run applies unfolding oid by (auto simp: demo_hook_defs list_all2_Cons1)
qed

theorem hook_stats_count_events_witness:
  "take 4 (temporal_rtree_hook_stats (fold (hook_event_run demo_catalog)
     [Planned \<lparr>commandType = CMD_SELECT, targetList = FuncExpr 40 [], join_quals = NullNode, rtable = [demo_rte 10]\<rparr> None,
      Planned \<lparr>commandType = CMD_DELETE, targetList = NullNode, join_quals = NullNode, rtable = [demo_rte 10]\<rparr> None,
      Started CMD_INSERT (Some [demo_rte 7, demo_rte 10, demo_rte 10])] (temporal_rtree_hook_reset demo_hooks))) = [2, 1, 3, 2]"
proof -
  let ?evs = "[Planned \<lparr>commandType = CMD_SELECT, targetList = FuncExpr 40 [], join_quals = NullNode, rtable = [demo_rte 10]\<rparr> None,
      Planned \<lparr>commandType = CMD_DELETE, targetList = NullNode, join_quals = NullNode, rtable = [demo_rte 10]\<rparr> None,
      Started CMD_INSERT (Some [demo_rte 7, demo_rte 10, demo_rte 10])]"
  have e: "length (filter (candidate demo_catalog) ?evs) = 2" "length (filter (eligible demo_catalog) ?evs) = 1"
    "length (concat (map dml_entries ?evs)) = 3" "length (filter (indexed_entry demo_catalog) (concat (map dml_entries ?evs))) = 2"
    by (simp_all add: uses_box_def reads_indexed_def indexed_entry_def table_entry_def demo_hook_defs
        trtree_has_temporal_rtree_index_def is_rtree_index_def)
  have "length ?evs < 2 ^ 63" "length (concat (map dml_entries ?evs)) < 2 ^ 63" unfolding e(3) by simp_all
  from hook_stats_count_events [OF this, of demo_catalog demo_hooks] show ?thesis
    unfolding e by (simp only: list.map of_nat_1 of_nat_numeral)
qed

end
