(* ===== verification/TR_AccessMethod.thy ===== *)
theory TR_AccessMethod
  imports TR_Vacuum TR_Hooks
begin

text \<open>
  The index as its clients see it: a sequence of calls of the access method's entry points, run one after the other
  on a freshly built index, refines a specification in which the index is just a multiset of rows. The
  simulation is stated and lifted to sequences in a locale, and the entry points are an interpretation of it. The
  calls go through the table of entry points that the handler (\<^verbatim>\<open>temporal_rtree_handler.c\<close>) returns.
\<close>

section \<open>The handler\<close>

text \<open>The fields the handler sets; all others are zero. \<open>None\<close> is a null pointer.\<close>

record IndexAmRoutine =
  amstrategies :: nat
  amsupport :: nat
  amcanmulticol :: bool
  amoptionalkey :: bool
  amsearchnulls :: bool
  amcanparallel :: bool
  amcanbuildparallel :: bool
  ampredlocks :: bool
  ambuild :: "Relation \<Rightarrow> (ItemPointerData \<times> NDBOX option) list \<times> rat \<Rightarrow> IndexBuildResult op"
  ambuildempty :: "Relation \<Rightarrow> unit op"
  aminsert :: "Relation \<Rightarrow> NDBOX option \<Rightarrow> ItemPointerData \<Rightarrow> bool op"
  ambulkdelete :: "Relation \<Rightarrow> IndexBulkDeleteResult option \<Rightarrow> (ItemPointerData \<Rightarrow> bool) option \<Rightarrow> IndexBulkDeleteResult op"
  amvacuumcleanup :: "Relation \<Rightarrow> IndexVacuumInfo \<Rightarrow> IndexBulkDeleteResult option \<Rightarrow> IndexBulkDeleteResult option op"
  amcostestimate :: "cost_settings \<Rightarrow> Node PlannerInfo \<Rightarrow> IndexOptInfo \<Rightarrow> Node list \<Rightarrow> f64 \<Rightarrow> cost_estimate"
  ambeginscan :: "IndexScanDescData \<Rightarrow> ScanKeyData \<Rightarrow> nat \<Rightarrow> IndexScanDescData"
  amrescan :: "IndexScanDescData \<Rightarrow> ScanKeyData list option \<Rightarrow> IndexScanDescData op"
  amgettuple :: "Relation \<Rightarrow> IndexScanDescData \<Rightarrow> ScanDirection \<Rightarrow> (bool \<times> IndexScanDescData) op"
  amgetbitmap :: "unit option"
  amendscan :: "IndexScanDescData \<Rightarrow> IndexScanDescData op"

definition temporal_rtree_handler :: IndexAmRoutine where
  "temporal_rtree_handler =
     \<lparr>amstrategies = 3, amsupport = 0, amcanmulticol = True, amoptionalkey = True, amsearchnulls = True,
      amcanparallel = False, amcanbuildparallel = False, ampredlocks = False,
      ambuild = temporal_rtree_build, ambuildempty = temporal_rtree_buildempty, aminsert = temporal_rtree_insert,
      ambulkdelete = temporal_rtree_bulkdelete, amvacuumcleanup = temporal_rtree_vacuumcleanup,
      amcostestimate = temporal_rtree_costestimate, ambeginscan = temporal_rtree_beginscan,
      amrescan = temporal_rtree_rescan, amgettuple = temporal_rtree_gettuple, amgetbitmap = None,
      amendscan = temporal_rtree_endscan\<rparr>"

lemma handler_fields [simp]:
  "ambuild temporal_rtree_handler = temporal_rtree_build" "aminsert temporal_rtree_handler = temporal_rtree_insert"
  "ambulkdelete temporal_rtree_handler = temporal_rtree_bulkdelete"
  "amvacuumcleanup temporal_rtree_handler = temporal_rtree_vacuumcleanup"
  "ambeginscan temporal_rtree_handler = temporal_rtree_beginscan" "amrescan temporal_rtree_handler = temporal_rtree_rescan"
  "amgettuple temporal_rtree_handler = temporal_rtree_gettuple" "amendscan temporal_rtree_handler = temporal_rtree_endscan"
  by (simp_all add: temporal_rtree_handler_def)

section \<open>Calls and answers\<close>

datatype am_call =
    AmInsert ItemPointerData "NDBOX option"
  | AmVacuum "ItemPointerData \<Rightarrow> bool"
  | AmScan "ScanKeyData list" nat

datatype am_answer = Inserted bool | Vacuumed rat | Found "ItemPointerData list"

text \<open>A vacuum is a bulk delete with a callback, followed by the cleanup with the statistics of the bulk delete.\<close>

definition am_next :: "IndexAmRoutine \<Rightarrow> Relation \<Rightarrow> IndexScanDescData \<Rightarrow> (ItemPointerData option \<times> IndexScanDescData) op" where
  "am_next am rel scan = bindC (amgettuple am rel scan ForwardScanDirection) (\<lambda>(found, scan).
     ret (if found then Some (xs_heaptid scan) else None, scan))"

definition am_scan ::
  "IndexAmRoutine \<Rightarrow> Relation \<Rightarrow> IndexScanDescData \<Rightarrow> ScanKeyData \<Rightarrow> ScanKeyData list \<Rightarrow> nat \<Rightarrow> ItemPointerData list op" where
  "am_scan am rel mem uninit keys n =
     bindC (amrescan am (ambeginscan am mem uninit (length keys)) (Some keys)) (\<lambda>scan.
     bindC (fetch (am_next am rel) n scan) (\<lambda>(tids, scan).
     bindC (amendscan am scan) (\<lambda>_. ret tids)))"

fun am_exec ::
  "IndexAmRoutine \<Rightarrow> Relation \<Rightarrow> IndexVacuumInfo \<Rightarrow> IndexScanDescData \<Rightarrow> ScanKeyData \<Rightarrow> am_call \<Rightarrow> am_answer op" where
  "am_exec am rel info mem uninit (AmInsert tid value) =
     bindC (aminsert am rel value tid) (\<lambda>unique. ret (Inserted unique))"
| "am_exec am rel info mem uninit (AmVacuum callback) =
     bindC (ambulkdelete am rel None (Some callback)) (\<lambda>stats.
     bindC (amvacuumcleanup am rel info (Some stats)) (\<lambda>stats.
     ret (Vacuumed (case stats of None \<Rightarrow> 0 | Some stats \<Rightarrow> tuples_removed stats))))"
| "am_exec am rel info mem uninit (AmScan keys n) =
     bindC (am_scan am rel mem uninit keys n) (\<lambda>tids. ret (Found tids))"

lemma handler_scan [simp]: "am_scan temporal_rtree_handler = index_scan"
proof -
  have "am_next temporal_rtree_handler rel = next_tid rel" for rel by (simp add: am_next_def next_tid_def fun_eq_iff)
  then show ?thesis by (intro ext) (simp add: am_scan_def index_scan_def)
qed

fun run_calls :: "('c \<Rightarrow> ('s, 'r) comp) \<Rightarrow> 'c list \<Rightarrow> ('s, 'r list) comp" where
  "run_calls exec [] = ret []"
| "run_calls exec (c # cs) = bindC (exec c) (\<lambda>r. bindC (run_calls exec cs) (\<lambda>rs. ret (r # rs)))"

section \<open>The specification\<close>

text \<open>The rows of the index with a value, as a multiset. A scan may answer in any order, and with a limit it may choose which
  of the matching rows it returns.\<close>

type_synonym rows = "(ItemPointerData \<times> NDBOX) multiset"

definition key_matches :: "Relation \<Rightarrow> ScanKeyData \<Rightarrow> NDBOX \<Rightarrow> bool" where
  "key_matches rel key c \<longleftrightarrow> rtree_box_matches_strategy (rtree_cube_to_box (rd_cenv rel) c)
     (rtree_cube_to_box (rd_cenv rel) (sk_argument key)) (sk_strategy key)"

definition matching :: "Relation \<Rightarrow> ScanKeyData \<Rightarrow> rows \<Rightarrow> ItemPointerData multiset" where
  "matching rel key R = image_mset fst (filter_mset (\<lambda>row. key_matches rel key (snd row)) R)"

inductive spec_step :: "Relation \<Rightarrow> rows \<Rightarrow> am_call \<Rightarrow> am_answer \<Rightarrow> rows \<Rightarrow> bool" for rel where
  insert_row: "spec_step rel R (AmInsert tid (Some c)) (Inserted True) (add_mset (tid, c) R)"
| insert_null: "spec_step rel R (AmInsert tid None) (Inserted True) R"
| vacuum: "spec_step rel R (AmVacuum cb) (Vacuumed (of_nat (size (filter_mset (\<lambda>row. cb (fst row)) R))))
    (filter_mset (\<lambda>row. \<not> cb (fst row)) R)"
| scan: "find usable_key keys = Some key \<Longrightarrow> mset tids \<subseteq># matching rel key R \<Longrightarrow>
    length tids = min n (size (matching rel key R)) \<Longrightarrow> spec_step rel R (AmScan keys n) (Found tids) R"
| scan_no_key: "find usable_key keys = None \<Longrightarrow> spec_step rel R (AmScan keys n) (Found []) R"

inductive_cases spec_insertE: "spec_step rel R (AmInsert tid v) r R'"
inductive_cases spec_vacuumE: "spec_step rel R (AmVacuum cb) r R'"
inductive_cases spec_scanE: "spec_step rel R (AmScan keys n) r R'"

inductive steps :: "('a \<Rightarrow> 'c \<Rightarrow> 'r \<Rightarrow> 'a \<Rightarrow> bool) \<Rightarrow> 'a \<Rightarrow> 'c list \<Rightarrow> 'r list \<Rightarrow> 'a \<Rightarrow> bool" for step where
  steps_Nil: "steps step a [] [] a"
| steps_Cons: "step a c r b \<Longrightarrow> steps step b cs rs d \<Longrightarrow> steps step a (c # cs) (r # rs) d"

inductive_simps steps_simps [simp]: "steps step a [] rs d" "steps step a (c # cs) rs d"

lemma steps_append: "steps step a (cs @ ds) rs d \<longleftrightarrow>
    (\<exists>b ps qs. rs = ps @ qs \<and> steps step a cs ps b \<and> steps step b ds qs d)"
proof (induction cs arbitrary: a rs)
  case (Cons c cs)
  then show ?case by (simp, metis append_Cons)
qed simp

section \<open>Simulation\<close>

text \<open>A call that is legal is simulated as long as there is room: \<open>cost\<close> is what a call takes of it.\<close>

locale call_simulation =
  fixes exec :: "'c \<Rightarrow> ('s, 'r) comp"
    and step :: "'a \<Rightarrow> 'c \<Rightarrow> 'r \<Rightarrow> 'a \<Rightarrow> bool"
    and rep :: "nat \<Rightarrow> 'a \<Rightarrow> 's \<Rightarrow> bool"
    and legal :: "'c \<Rightarrow> bool"
    and cost :: "'c \<Rightarrow> nat"
  assumes simulates: "rep (cost c + k) a s \<Longrightarrow> legal c \<Longrightarrow>
      \<exists>r s' a'. exec c s = (Inr r, s') \<and> step a c r a' \<and> rep k a' s'"
begin

lemma run_simulates:
  assumes "rep (sum_list (map cost cs) + k) a s" "list_all legal cs"
  shows "\<exists>rs s' a'. run_calls exec cs s = (Inr rs, s') \<and> steps step a cs rs a' \<and> rep k a' s'"
  using assms
proof (induction cs arbitrary: a s)
  case Nil
  then show ?case by auto
next
  case (Cons c cs)
  then have "rep (cost c + (sum_list (map cost cs) + k)) a s" "legal c" "list_all legal cs" by (simp_all add: add.assoc)
  from simulates [OF this(1,2)] obtain r s1 a1 where
      1: "exec c s = (Inr r, s1)" "step a c r a1" "rep (sum_list (map cost cs) + k) a1 s1" by (elim exE conjE)
  from Cons.IH [OF this(3) \<open>list_all legal cs\<close>] obtain rs s2 a2 where
      2: "run_calls exec cs s1 = (Inr rs, s2)" "steps step a1 cs rs a2" "rep k a2 s2" by (elim exE conjE)
  have "run_calls exec (c # cs) s = (Inr (r # rs), s2)" using 1(1) 2(1) by (simp add: bindC_def)
  with 1(2) 2(2,3) show ?case by (intro exI [of _ "r # rs"] exI [of _ s2] exI [of _ a2]) auto
qed

end

section \<open>The representation of the rows\<close>

definition row_item :: "ItemPointerData \<times> NDBOX \<Rightarrow> IndexTupleData" where
  "row_item row = row_tuple (fst row) (snd row)"

definition represents :: "Relation \<Rightarrow> nat \<Rightarrow> nat \<Rightarrow> rows \<Rightarrow> istate \<Rightarrow> bool" where
  "represents rel sz k R s \<longleftrightarrow> wf_index rel sz s \<and> held s = [] \<and> room_for k s \<and> 24 \<le> sz \<and>
     llround_env (rd_cenv rel) \<and> mset (index_tuples s) = image_mset row_item R"

fun legal_call :: "Relation \<Rightarrow> nat \<Rightarrow> am_call \<Rightarrow> bool" where
  "legal_call rel sz (AmInsert tid (Some c)) = indexable rel sz c"
| "legal_call rel sz call = True"

fun call_cost :: "am_call \<Rightarrow> nat" where
  "call_cost (AmInsert tid v) = 1"
| "call_cost call = 0"

lemma matches_row_item:
  "matches rel (rtree_cube_to_box (rd_cenv rel) (sk_argument key)) (sk_strategy key) (row_item row) = key_matches rel key (snd row)"
  by (simp add: matches_def row_item_def key_matches_def rtree_index_tuple_box_def index_getattr_def row_tuple_def)

lemma row_item_tid [simp]: "t_tid (row_item row) = fst row"
  by (simp add: row_item_def)

lemma represents_facts:
  assumes "represents rel sz k R s"
  shows "wf_index rel sz s" "held s = []" "room_for k s" "length (blocks s) < MaxBlockNumber" "shared_only (held s)"
    "mset (index_tuples s) = image_mset row_item R" "24 \<le> sz" "llround_env (rd_cenv rel)"
  using assms by (auto simp: represents_def room_for_def shared_only_def)

lemma insert_simulates:
  assumes "represents rel sz (Suc k) R s" "legal_call rel sz (AmInsert tid v)"
  shows "\<exists>r s' R'. am_exec temporal_rtree_handler rel info mem uninit (AmInsert tid v) s = (Inr r, s') \<and>
    spec_step rel R (AmInsert tid v) r R' \<and> represents rel sz k R' s'"
proof (cases v)
  case None
  have "temporal_rtree_insert rel None tid s = (Inr True, s)"
    using insert_null_run [of s rel tid] represents_facts(1) [OF assms(1)] by (simp add: wf_index_def)
  moreover have "represents rel sz k R s" using assms(1) by (auto simp: represents_def dest: room_for_Suc)
  ultimately show ?thesis using None spec_step.insert_null
    by (intro exI [of _ "Inserted True"] exI [of _ s] exI [of _ R]) (simp add: bindC_def)
next
  case (Some c)
  note r = represents_facts [OF assms(1)]
  have "indexable rel sz c" using assms(2) Some by simp
  from insert_row_ok [OF r(1) this r(8) r(2,3), of tid] obtain s' where
      s': "temporal_rtree_insert rel (Some c) tid s = (Inr True, s')" "wf_index rel sz s'" "held s' = []" "room_for k s'"
      "mset (index_tuples s') = add_mset (row_tuple tid c) (mset (index_tuples s))"
    by (elim exE conjE)
  have "represents rel sz k (add_mset (tid, c) R) s'" using s' r(6-8) by (simp add: represents_def row_item_def)
  with s'(1) Some spec_step.insert_row show ?thesis
    by (intro exI [of _ "Inserted True"] exI [of _ s'] exI [of _ "add_mset (tid, c) R"]) (simp add: bindC_def)
qed

lemma filter_image_mset: "filter_mset P (image_mset f M) = image_mset f (filter_mset (\<lambda>x. P (f x)) M)"
  by (induction M) simp_all

lemma vacuum_simulates:
  assumes "represents rel sz k R s"
  shows "\<exists>r s' R'. am_exec temporal_rtree_handler rel info mem uninit (AmVacuum cb) s = (Inr r, s') \<and>
    spec_step rel R (AmVacuum cb) r R' \<and> represents rel sz k R' s'"
proof -
  note r = represents_facts [OF assms(1)]
  let ?R = "filter_mset (\<lambda>row. \<not> cb (fst row)) R" and ?n = "size (filter_mset (\<lambda>row. cb (fst row)) R)"
  from bulkdelete_ok [OF r(1,4,2,7,8), of None "Some cb"] obtain st s' where
      s': "temporal_rtree_bulkdelete rel None (Some cb) s = (Inr st, s')" "wf_index rel sz s'"
      "index_tuples s' = filter (live (Some cb)) (index_tuples s)" "held s' = []"
      "length (blocks s') = length (blocks s)" "root_level (index_meta s') \<le> root_level (index_meta s)"
      "tuples_removed st = 0 + removed (Some cb) (index_tuples s)"
    by (auto)
  have "mset (index_tuples s') = image_mset row_item ?R"
    using r(6) by (simp add: s'(3) dead_def filter_image_mset)
  moreover have "room_for k s'"
  proof -
    have "k * (root_level (index_meta s') + k + 1) \<le> k * (root_level (index_meta s) + k + 1)" using s'(6) by simp
    then show ?thesis using r(3) s'(5,6) unfolding room_for_def by linarith
  qed
  ultimately have "represents rel sz k ?R s'" using s' r(7,8) by (simp add: represents_def)
  moreover have "tuples_removed st = of_nat ?n"
  proof -
    have "length (filter (dead (Some cb)) (index_tuples s)) = size (filter_mset (\<lambda>it. cb (t_tid it)) (mset (index_tuples s)))"
      by (simp add: dead_def size_mset [symmetric] del: size_mset)
    also have "\<dots> = ?n" by (simp add: r(6) filter_image_mset)
    finally show ?thesis using s'(7) by (simp add: removed_def)
  qed
  moreover have "am_exec temporal_rtree_handler rel info mem uninit (AmVacuum cb) s = (Inr (Vacuumed (tuples_removed st)), s')"
    using s'(1) by (simp add: bindC_def temporal_rtree_vacuumcleanup_def RelationGetNumberOfBlocks_run Let_def)
  ultimately show ?thesis using spec_step.vacuum
    by (intro exI [of _ "Vacuumed (of_nat ?n)"] exI [of _ s'] exI [of _ ?R]) simp
qed

lemma scan_simulates:
  assumes "represents rel sz k R s"
  shows "\<exists>r s' R'. am_exec temporal_rtree_handler rel info mem uninit (AmScan keys n) s = (Inr r, s') \<and>
    spec_step rel R (AmScan keys n) r R' \<and> represents rel sz k R' s'"
proof (cases "find usable_key keys")
  case None
  then show ?thesis using assms index_scan_no_key [OF None, of rel mem uninit n s] spec_step.scan_no_key [OF None]
    by (intro exI [of _ "Found []"] exI [of _ s] exI [of _ R]) (simp add: bindC_def)
next
  case (Some key)
  note r = represents_facts [OF assms]
  let ?hits = "map t_tid (filter (matches rel (rtree_cube_to_box (rd_cenv rel) (sk_argument key)) (sk_strategy key)) (index_tuples s))"
  have hits: "mset ?hits = matching rel key R"
    by (simp add: r(6) filter_image_mset matches_row_item matching_def image_mset.compositionality comp_def)
  then have "length ?hits = size (matching rel key R)" by (metis size_mset)
  then have "length (take n ?hits) = min n (size (matching rel key R))" by (simp add: min.commute)
  moreover have "mset (take n ?hits) \<subseteq># matching rel key R"
    unfolding hits [symmetric] by (metis append_take_drop_id mset_append mset_subset_eq_add_left)
  ultimately have "spec_step rel R (AmScan keys n) (Found (take n ?hits)) R" by (intro spec_step.scan [OF Some])
  moreover have "am_exec temporal_rtree_handler rel info mem uninit (AmScan keys n) s = (Inr (Found (take n ?hits)), s)"
    using index_scan_take [OF r(1,4,5) Some refl, of mem uninit n] by (simp add: bindC_def)
  ultimately show ?thesis using assms by blast
qed

interpretation am: call_simulation "am_exec temporal_rtree_handler rel info mem uninit" "spec_step rel" "represents rel sz" "legal_call rel sz" call_cost
  for rel info mem uninit sz
proof
  show "\<exists>r s' R'. am_exec temporal_rtree_handler rel info mem uninit c s = (Inr r, s') \<and> spec_step rel R c r R' \<and> represents rel sz k R' s'"
    if "represents rel sz (call_cost c + k) R s" "legal_call rel sz c" for c k R s
    using that insert_simulates vacuum_simulates scan_simulates by (cases c) simp_all
qed

section \<open>The contents after a sequence of calls\<close>

definition rows_of :: "(ItemPointerData \<times> NDBOX option) list \<Rightarrow> rows" where
  "rows_of rows = mset [(tid, c). (tid, Some c) \<leftarrow> rows]"

fun after_call :: "rows \<Rightarrow> am_call \<Rightarrow> rows" where
  "after_call R (AmInsert tid v) = (case v of None \<Rightarrow> R | Some c \<Rightarrow> add_mset (tid, c) R)"
| "after_call R (AmVacuum cb) = filter_mset (\<lambda>row. \<not> cb (fst row)) R"
| "after_call R (AmScan keys n) = R"

lemma row_tuples_rows: "mset (row_tuples rows) = image_mset row_item (rows_of rows)"
  by (induction rows) (auto simp: rows_of_def row_tuples_def row_item_def split: option.splits)

lemma size_rows_of: "size (rows_of rows) \<le> length rows"
  by (induction rows) (auto simp: rows_of_def split: option.splits)

lemma spec_step_contents: "spec_step rel R c r R' \<Longrightarrow> R' = after_call R c"
  by (induction rule: spec_step.induct) simp_all

lemma steps_contents: "steps (spec_step rel) R cs rs R' \<Longrightarrow> R' = foldl after_call R cs"
  by (induction rule: steps.induct) (auto dest!: spec_step_contents)

lemma size_after_call: "size (after_call R c) \<le> size R + call_cost c"
  by (cases c) (auto simp: size_filter_mset_lesseq split: option.split)

lemma size_contents: "size (foldl after_call R cs) \<le> size R + sum_list (map call_cost cs)"
proof (induction cs arbitrary: R)
  case (Cons c cs)
  from Cons.IH [of "after_call R c"] size_after_call [of R c] show ?case by simp
qed simp

fun keeps :: "ItemPointerData \<Rightarrow> am_call \<Rightarrow> bool" where
  "keeps tid (AmVacuum cb) \<longleftrightarrow> \<not> cb tid"
| "keeps tid call \<longleftrightarrow> True"

lemma kept: "list_all (keeps tid) cs \<Longrightarrow> (tid, c) \<in># R \<Longrightarrow> (tid, c) \<in># foldl after_call R cs"
proof (induction cs arbitrary: R)
  case (Cons call cs)
  then have "(tid, c) \<in># after_call R call" by (cases call) (auto split: option.split)
  with Cons show ?case by simp
qed simp

lemma build_and_run:
  assumes "blocks s = []" "held s = []" "rows_indexable rel sz rows" "list_all (legal_call rel sz) calls" "24 \<le> sz"
    "llround_env (rd_cenv rel)" "length rows + sum_list (map call_cost calls) \<le> 60000"
  obtains res s0 rs s' where "ambuild temporal_rtree_handler rel (rows, reltuples) s = (Inr res, s0)"
    "run_calls (am_exec temporal_rtree_handler rel info mem uninit) calls s0 = (Inr rs, s')"
    "steps (spec_step rel) (rows_of rows) calls rs (foldl after_call (rows_of rows) calls)"
    "represents rel sz 0 (foldl after_call (rows_of rows) calls) s'"
proof -
  let ?k = "sum_list (map call_cost calls)"
  from build_ok [OF assms(1-3,6,7), of reltuples] obtain s0 res where
      b: "temporal_rtree_build rel (rows, reltuples) s = (Inr res, s0)" "wf_index rel sz s0"
      "mset (index_tuples s0) = mset (row_tuples rows)" "held s0 = []" "room_for ?k s0" by blast
  have "represents rel sz (?k + 0) (rows_of rows) s0"
    using b assms(5,6) by (simp add: represents_def row_tuples_rows)
  from am.run_simulates [OF this assms(4), of info mem uninit] obtain rs s' R where
      r: "run_calls (am_exec temporal_rtree_handler rel info mem uninit) calls s0 = (Inr rs, s')" "steps (spec_step rel) (rows_of rows) calls rs R"
      "represents rel sz 0 R s'" by (elim exE conjE)
  show ?thesis using that [OF _ r(1)] b(1) r(2,3) steps_contents [OF r(2)] by simp
qed

lemma usable_key_strategy: "usable_key key \<Longrightarrow> sk_strategy key \<in> {1, 2, 3}"
  by (auto simp: usable_key_def TRTREE_STRATEGY_OVERLAP_def TRTREE_STRATEGY_CONTAINED_def)

text \<open>A scan at the end whose limit is no less than the number of rows returns all the matching rows.\<close>

lemma build_run_scan:
  assumes "blocks s = []" "held s = []" "rows_indexable rel sz rows" "list_all (legal_call rel sz) calls" "24 \<le> sz"
    "llround_env (rd_cenv rel)" "length rows + sum_list (map call_cost calls) \<le> 60000"
    "usable_key key" "length rows + sum_list (map call_cost calls) \<le> n"
  obtains res s0 rs tids s' where "ambuild temporal_rtree_handler rel (rows, reltuples) s = (Inr res, s0)"
    "run_calls (am_exec temporal_rtree_handler rel info mem uninit) (calls @ [AmScan [key] n]) s0 = (Inr (rs @ [Found tids]), s')"
    "mset tids = matching rel key (foldl after_call (rows_of rows) calls)"
proof -
  let ?calls = "calls @ [AmScan [key] n]" and ?R = "foldl after_call (rows_of rows) calls"
  have legal: "list_all (legal_call rel sz) ?calls" "length rows + sum_list (map call_cost ?calls) \<le> 60000"
    using assms(4,7) by simp_all
  obtain res s0 rs s' where run: "ambuild temporal_rtree_handler rel (rows, reltuples) s = (Inr res, s0)"
      "run_calls (am_exec temporal_rtree_handler rel info mem uninit) ?calls s0 = (Inr rs, s')" "steps (spec_step rel) (rows_of rows) ?calls rs ?R"
    by (rule build_and_run [OF assms(1-3) legal(1) assms(5,6) legal(2), of reltuples info mem uninit]) simp
  from run(3) obtain R1 ps r where rs: "rs = ps @ [r]" "steps (spec_step rel) (rows_of rows) calls ps R1"
      "spec_step rel R1 (AmScan [key] n) r ?R"
    by (auto simp: steps_append)
  have R1: "R1 = ?R" by (rule steps_contents [OF rs(2)])
  have "size (matching rel key ?R) \<le> size ?R" by (simp add: matching_def)
  also have "\<dots> \<le> n" using size_contents [of "rows_of rows" calls] size_rows_of [of rows] assms(9) by linarith
  finally have all: "size (matching rel key ?R) \<le> n" .
  obtain tids where tids: "r = Found tids" "mset tids \<subseteq># matching rel key ?R" "length tids = min n (size (matching rel key ?R))"
    using rs(3) assms(8) unfolding R1 by (auto elim!: spec_scanE)
  have "size (mset tids) = size (matching rel key ?R)" using tids(3) all by simp
  with tids(2) have "mset tids = matching rel key ?R" by (metis mset_subset_size nat_neq_iff subset_mset.less_le)
  with that run(1,2) rs(1) tids(1) show ?thesis by blast
qed

section \<open>Properties\<close>

text \<open>C1. For indexable values, that is tuples of one size with a spread box (see \<open>indexable\<close>), and at most 60000 rows and insertions in all,
  building the index and running any sequence of insertions, vacuums and scans on it succeeds and refines the specification: the answers are
  those of a multiset of rows, scans in some order. The out-of-range result of \<^verbatim>\<open>llround\<close> is taken as on x86-64 or a saturating platform.\<close>

theorem index_refines_rows:
  assumes "blocks s = []" "held s = []" "rows_indexable rel sz rows" "list_all (legal_call rel sz) calls" "24 \<le> sz"
    "llround_env (rd_cenv rel)" "length rows + sum_list (map call_cost calls) \<le> 60000"
  shows "\<exists>res s0 rs s' R. ambuild temporal_rtree_handler rel (rows, reltuples) s = (Inr res, s0) \<and>
    run_calls (am_exec temporal_rtree_handler rel info mem uninit) calls s0 = (Inr rs, s') \<and>
    steps (spec_step rel) (rows_of rows) calls rs R \<and> represents rel sz 0 R s'"
  by (rule build_and_run [OF assms, of reltuples info mem uninit]) blast

text \<open>C2. A row that was inserted and that no later vacuum removes is found in the end: a scan with a usable key returns it whenever the
  SQL operator of the key holds for its value, whatever calls were made before and in between. The value and the key's argument are
  temporal cubes, all values are indexable (tuples of one size with a spread box), and there are at most 60000 rows and insertions in all.\<close>

theorem inserted_row_found:
  assumes "blocks s = []" "held s = []" "rows_indexable rel sz rows" "24 \<le> sz" "llround_env (rd_cenv rel)"
    and "calls = before @ AmInsert tid (Some c) # after" "list_all (legal_call rel sz) calls" "list_all (keeps tid) after"
    and "length rows + sum_list (map call_cost calls) \<le> 60000" "length rows + sum_list (map call_cost calls) \<le> n"
    and "usable_key key" "temporal_cube c" "temporal_cube (sk_argument key)"
    and "sql_operator (rd_cenv rel) (sk_strategy key) c (sk_argument key)"
  shows "\<exists>res s0 rs tids s'. ambuild temporal_rtree_handler rel (rows, reltuples) s = (Inr res, s0) \<and>
    run_calls (am_exec temporal_rtree_handler rel info mem uninit) (calls @ [AmScan [key] n]) s0 = (Inr (rs @ [Found tids]), s') \<and> tid \<in> set tids"
proof -
  let ?R = "foldl after_call (rows_of rows) calls"
  obtain res s0 rs tids s' where run: "ambuild temporal_rtree_handler rel (rows, reltuples) s = (Inr res, s0)"
      "run_calls (am_exec temporal_rtree_handler rel info mem uninit) (calls @ [AmScan [key] n]) s0 = (Inr (rs @ [Found tids]), s')"
      "mset tids = matching rel key ?R"
    by (rule build_run_scan [OF assms(1-3,7,4,5,9,11,10), of reltuples info mem uninit])
  have "(tid, c) \<in># ?R" unfolding assms(6) using kept [OF assms(8)] by simp
  moreover have "key_matches rel key c"
    unfolding key_matches_def by (rule strategy_box(1) [OF assms(12,13) usable_key_strategy [OF assms(11)] assms(14)])
  ultimately have "tid \<in># matching rel key ?R" by (force simp: matching_def)
  then have "tid \<in> set tids" unfolding run(3) [symmetric] by simp
  with run(1,2) show ?thesis by blast
qed

text \<open>C3. On temporal cubes whose coordinates are whole numbers (whole seconds) or infinite the scan is exact: after any sequence of calls it
  returns the rows that a sequential scan of the rows with the SQL operator returns. All values are indexable (tuples of one size with
  a spread box, so no instants), and there are at most 60000 rows and insertions in all.\<close>

theorem index_scan_is_table_scan:
  assumes "blocks s = []" "held s = []" "rows_indexable rel sz rows" "list_all (legal_call rel sz) calls" "24 \<le> sz"
    "llround_env (rd_cenv rel)" "length rows + sum_list (map call_cost calls) \<le> 60000"
    "usable_key key" "length rows + sum_list (map call_cost calls) \<le> n"
    and "\<forall>row \<in># foldl after_call (rows_of rows) calls. temporal_cube (snd row) \<and> whole_cube (snd row)"
    and "temporal_cube (sk_argument key)" "whole_cube (sk_argument key)"
  shows "\<exists>res s0 rs tids s'. ambuild temporal_rtree_handler rel (rows, reltuples) s = (Inr res, s0) \<and>
    run_calls (am_exec temporal_rtree_handler rel info mem uninit) (calls @ [AmScan [key] n]) s0 = (Inr (rs @ [Found tids]), s') \<and>
    mset tids = image_mset fst (filter_mset (\<lambda>row. sql_operator (rd_cenv rel) (sk_strategy key) (snd row) (sk_argument key))
      (foldl after_call (rows_of rows) calls))"
proof -
  let ?R = "foldl after_call (rows_of rows) calls"
  obtain res s0 rs tids s' where run: "ambuild temporal_rtree_handler rel (rows, reltuples) s = (Inr res, s0)"
      "run_calls (am_exec temporal_rtree_handler rel info mem uninit) (calls @ [AmScan [key] n]) s0 = (Inr (rs @ [Found tids]), s')"
      "mset tids = matching rel key ?R"
    by (rule build_run_scan [OF assms(1-9), of reltuples info mem uninit])
  have "key_matches rel key (snd row) = sql_operator (rd_cenv rel) (sk_strategy key) (snd row) (sk_argument key)"
    if "row \<in># ?R" for row
    unfolding key_matches_def using assms(10) that
    by (intro strategy_box(2) [OF _ assms(11) usable_key_strategy [OF assms(8)] _ assms(12)]) simp_all
  then have "filter_mset (\<lambda>row. key_matches rel key (snd row)) ?R =
      filter_mset (\<lambda>row. sql_operator (rd_cenv rel) (sk_strategy key) (snd row) (sk_argument key)) ?R"
    by (intro filter_mset_cong refl)
  with run show ?thesis unfolding matching_def by metis
qed

section \<open>Examples\<close>

definition demo_info :: IndexVacuumInfo where
  "demo_info = \<lparr>analyze_only = False, info_estimated_count = True, num_heap_tuples = 0\<rparr>"

definition demo_calls :: "am_call list" where
  "demo_calls = [AmInsert (demo_tid 6) (Some row_cube), AmVacuum (\<lambda>tid. tid = demo_tid 5)]"

definition demo_rows :: "(ItemPointerData \<times> NDBOX option) list" where
  "demo_rows = [(demo_tid 5, Some row_cube), (demo_tid 7, None)]"

lemmas demo_run = empty_relation_def demo_rows_def demo_calls_def rows_indexable_def demo_row demo_env rows_of_def

theorem index_refines_rows_witness:
  "\<exists>res s0 rs s' R. ambuild temporal_rtree_handler demo_rel (demo_rows, 2) empty_relation = (Inr res, s0) \<and>
     run_calls (am_exec temporal_rtree_handler demo_rel demo_info demo_mem demo_key) demo_calls s0 = (Inr rs, s') \<and>
     steps (spec_step demo_rel) (rows_of demo_rows) demo_calls rs R \<and> represents demo_rel 48 0 R s'"
  by (rule index_refines_rows) (simp_all add: demo_run)

lemma demo_point_usable: "usable_key (demo_key\<lparr>sk_strategy := 2, sk_argument := point_cube\<rparr>)"
  by (simp add: usable_key_def demo_key_def SK_ISNULL_def TRTREE_STRATEGY_OVERLAP_def TRTREE_STRATEGY_CONTAINED_def)

theorem inserted_row_found_witness:
  "\<exists>res s0 rs tids s'. ambuild temporal_rtree_handler demo_rel (demo_rows, 2) empty_relation = (Inr res, s0) \<and>
     run_calls (am_exec temporal_rtree_handler demo_rel demo_info demo_mem demo_key) (demo_calls @ [AmScan [demo_key\<lparr>sk_strategy := 2, sk_argument := point_cube\<rparr>] 9])
       s0 = (Inr (rs @ [Found tids]), s') \<and> demo_tid 6 \<in> set tids"
  by (rule inserted_row_found [where sz = 48 and before = "[]" and after = "[AmVacuum (\<lambda>tid. tid = demo_tid 5)]" and c = row_cube])
    (simp_all add: demo_run demo_tid_def demo_point_usable row_cube_wf point_cube_wf row_contains_point)

theorem index_scan_is_table_scan_witness:
  "\<exists>res s0 rs tids s'. ambuild temporal_rtree_handler demo_rel (demo_rows, 2) empty_relation = (Inr res, s0) \<and>
     run_calls (am_exec temporal_rtree_handler demo_rel demo_info demo_mem demo_key) (demo_calls @ [AmScan [demo_key\<lparr>sk_strategy := 2, sk_argument := point_cube\<rparr>] 9])
       s0 = (Inr (rs @ [Found tids]), s') \<and> mset tids = {# demo_tid 6 #}"
proof -
  let ?key = "demo_key\<lparr>sk_strategy := 2, sk_argument := point_cube\<rparr>"
  have R: "foldl after_call (rows_of demo_rows) demo_calls = {# (demo_tid 6, row_cube) #}"
    by (simp add: demo_run demo_tid_def)
  have "\<exists>res s0 rs tids s'. ambuild temporal_rtree_handler demo_rel (demo_rows, 2) empty_relation = (Inr res, s0) \<and>
     run_calls (am_exec temporal_rtree_handler demo_rel demo_info demo_mem demo_key) (demo_calls @ [AmScan [?key] 9])
       s0 = (Inr (rs @ [Found tids]), s') \<and>
     mset tids = image_mset fst (filter_mset (\<lambda>row. sql_operator (rd_cenv demo_rel) (sk_strategy ?key) (snd row) (sk_argument ?key))
      (foldl after_call (rows_of demo_rows) demo_calls))"
    by (rule index_scan_is_table_scan [where sz = 48], unfold R)
      (simp_all add: demo_run demo_point_usable row_cube_wf point_cube_wf)
  then show ?thesis unfolding R by (simp add: row_contains_point)
qed

end
