(* ===== verification/TR_Crash.thy ===== *)
theory TR_Crash
  imports TR_Vacuum
begin

text \<open>
  Crash recovery of the index: what replay of the log makes of the blocks as they were before an
  operation, when none of the buffers the operation changed was written out. An insertion that does not
  split the root and a bulk delete that does not empty the tree are recovered exactly. After a
  root split the replayed index has lost the right half, because the promotion of the root is not logged.
\<close>

section \<open>Partial correctness of computations\<close>

definition gives :: "('s \<Rightarrow> bool) \<Rightarrow> ('s, 'a) comp \<Rightarrow> ('a \<Rightarrow> 's \<Rightarrow> bool) \<Rightarrow> bool" where
  "gives P m Q \<longleftrightarrow> (\<forall>s x s'. P s \<longrightarrow> m s = (Inr x, s') \<longrightarrow> Q x s')"

lemma givesD: "gives P m Q \<Longrightarrow> P s \<Longrightarrow> m s = (Inr x, s') \<Longrightarrow> Q x s'"
  by (auto simp: gives_def)

lemma gives_bind: "gives P m Q \<Longrightarrow> (\<And>x. gives (Q x) (f x) R) \<Longrightarrow> gives P (bindC m f) R"
  unfolding gives_def by (meson bindC_InrE)

lemma gives_ret: "(\<And>s. P s \<Longrightarrow> Q x s) \<Longrightarrow> gives P (ret x) Q"
  by (simp add: gives_def)

lemma gives_raise: "gives P (raise e) Q"
  by (simp add: gives_def)

lemma gives_liftE: "gives P (liftE r) (\<lambda>_. P)"
  by (simp add: gives_def)

lemma gives_weaken: "gives P m Q \<Longrightarrow> (\<And>s. P' s \<Longrightarrow> P s) \<Longrightarrow> (\<And>x s. Q x s \<Longrightarrow> Q' x s) \<Longrightarrow> gives P' m Q'"
  unfolding gives_def by blast

lemma gives_foldC: "(\<And>acc x. gives P (f acc x) (\<lambda>_. P)) \<Longrightarrow> gives P (foldC f acc xs) (\<lambda>_. P)"
  by (induction xs arbitrary: acc) (auto intro!: gives_bind [where Q = "\<lambda>_. P"] gives_ret)

lemma gives_if: "(c \<Longrightarrow> gives P m Q) \<Longrightarrow> (\<not> c \<Longrightarrow> gives P m' Q) \<Longrightarrow> gives P (if c then m else m') Q"
  by simp

lemma gives_prod: "(\<And>a b. x = (a, b) \<Longrightarrow> gives P (f a b) Q) \<Longrightarrow> gives P (case x of (a, b) \<Rightarrow> f a b) Q"
  by (cases x) simp

lemma gives_prod_fun:
  "(\<And>a b. x = (a, b) \<Longrightarrow> gives P (f a b y) Q) \<Longrightarrow> gives P ((case x of (a, b) \<Rightarrow> f a b) y) Q"
  by (cases x) simp

lemma gives_option:
  "(x = None \<Longrightarrow> gives P m Q) \<Longrightarrow> (\<And>a. x = Some a \<Longrightarrow> gives P (f a) Q) \<Longrightarrow>
   gives P (case x of None \<Rightarrow> m | Some a \<Rightarrow> f a) Q"
  by (cases x) simp_all

lemma gives_let: "(\<And>y. y = x \<Longrightarrow> gives P (f y) Q) \<Longrightarrow> gives P (let y = x in f y) Q"
  by simp

lemma gives_pre: "(A \<Longrightarrow> gives P m Q) \<Longrightarrow> gives (\<lambda>s. A \<and> P s) m Q"
  unfolding gives_def by blast

lemmas gives_intros = gives_if gives_prod gives_option gives_let gives_pre gives_raise

section \<open>Recovery\<close>

text \<open>Replay of the records written since the state \<open>s0\<close> over the blocks of \<open>s0\<close>.\<close>

definition recovered :: "istate \<Rightarrow> istate \<Rightarrow> rpage list" where
  "recovered s0 s = wal_redo (blocks s0) (drop (length (wal s0)) (wal s))"

text \<open>The first list of blocks is the second, up to the blocks \<open>U\<close>.\<close>

definition agree :: "nat set \<Rightarrow> rpage list \<Rightarrow> rpage list \<Rightarrow> bool" where
  "agree U rs bs \<longleftrightarrow> length rs \<le> length bs \<and> (\<forall>b < length bs. b \<notin> U \<longrightarrow> b < length rs \<and> rs ! b = bs ! b)"

text \<open>Replay gives the blocks of the state, up to the blocks \<open>U\<close> that have unlogged changes; the blocks \<open>V\<close>
  exist.\<close>

definition off :: "nat set \<Rightarrow> nat set \<Rightarrow> istate \<Rightarrow> istate \<Rightarrow> bool" where
  "off U V s0 s \<longleftrightarrow> length (wal s0) \<le> length (wal s) \<and> agree U (recovered s0 s) (blocks s) \<and> (\<forall>b\<in>V. b < length (blocks s))"

lemma off_start: "off {} {} s s"
  by (simp add: off_def agree_def recovered_def wal_redo_def)

lemma off_recovered: "off {} V s0 s \<Longrightarrow> recovered s0 s = blocks s"
  unfolding off_def agree_def by (auto intro!: nth_equalityI) (metis le_antisym linorder_not_le nat_less_le)

lemma off_mono: "off U V s0 s \<Longrightarrow> U \<subseteq> U' \<Longrightarrow> V' \<subseteq> V \<Longrightarrow> off U' V' s0 s"
  unfolding off_def agree_def by blast

lemma off_cong: "off U V s0 s \<Longrightarrow> blocks s' = blocks s \<Longrightarrow> wal s' = wal s \<Longrightarrow> off U V s0 s'"
  by (simp add: off_def recovered_def)

text \<open>Changing a block, adding one, and logging.\<close>

lemma off_put: "off U V s0 s \<Longrightarrow> b \<in> V \<Longrightarrow> off (insert b U) V s0 (s\<lparr>blocks := (blocks s)[b := p]\<rparr>)"
  by (auto simp: off_def agree_def recovered_def)

lemma off_new:
  "off U V s0 s \<Longrightarrow> off (insert (length (blocks s)) U) (insert (length (blocks s)) V) s0 (s\<lparr>blocks := blocks s @ [p]\<rparr>)"
  by (auto simp: off_def agree_def recovered_def nth_append less_Suc_eq)

lemma agree_redo: "agree U rs bs \<Longrightarrow> b < length bs \<Longrightarrow> agree (U - {b}) (redo_image rs (b, p)) (bs[b := p])"
  by (auto simp: agree_def redo_image_def Let_def nth_append nth_list_update)

lemma agree_redo_all:
  "agree U rs bs \<Longrightarrow> \<forall>x\<in>set imgs. fst x < length bs \<Longrightarrow>
   agree (U - fst ` set imgs) (foldl redo_image rs imgs) (foldl (\<lambda>bs (b, p). bs[b := p]) bs imgs)"
proof (induction imgs arbitrary: U rs bs)
  case (Cons x imgs)
  obtain b p where x: "x = (b, p)" by (cases x)
  have "agree (U - {b} - fst ` set imgs) (foldl redo_image (redo_image rs (b, p)) imgs)
      (foldl (\<lambda>bs (b, p). bs[b := p]) (bs[b := p]) imgs)"
    using Cons.prems x by (intro Cons.IH) (auto intro: agree_redo)
  then show ?case by (simp add: x Diff_insert [symmetric] insert_commute) (metis Diff_insert2)
qed simp

lemma foldl_update_length: "length (foldl (\<lambda>bs (b, p). bs[b := p]) bs imgs) = length bs"
  by (induction imgs arbitrary: bs) auto

lemma off_log:
  assumes "off U V s0 s" "fst ` set imgs \<subseteq> V" "blocks s' = foldl (\<lambda>bs (b, p). bs[b := p]) (blocks s) imgs"
    "wal s' = wal s @ [imgs]"
  shows "off (U - fst ` set imgs) V s0 s'"
proof -
  have "recovered s0 s' = foldl redo_image (recovered s0 s) imgs"
    using assms(1,4) by (simp add: recovered_def off_def wal_redo_def)
  moreover have "\<forall>x\<in>set imgs. fst x < length (blocks s)" using assms(1,2) unfolding off_def by blast
  ultimately show ?thesis
    using assms(1,3,4) agree_redo_all [of U "recovered s0 s" "blocks s" imgs]
    by (simp add: off_def foldl_update_length)
qed

section \<open>The storage operations\<close>

lemma off_ReadBuffer: "gives (off U V s0) (ReadBuffer b) (\<lambda>r s. r = b \<and> off U (insert b V) s0 s)"
  by (auto simp: gives_def ReadBuffer_def off_def recovered_def split: if_splits)

lemma off_locks:
  "gives (off U V s0) (LockBuffer b ex) (\<lambda>_. off U V s0)"
  "gives (off U V s0) (UnlockBuffer b) (\<lambda>_. off U V s0)"
  "gives (off U V s0) (ReleaseBuffer b) (\<lambda>_. off U V s0)"
  "gives (off U V s0) (UnlockReleaseBuffer b) (\<lambda>_. off U V s0)"
  "gives (off U V s0) (MarkBufferDirty b) (\<lambda>_. off U V s0)"
  "gives (off U V s0) (BufferGetPage b) (\<lambda>_. off U V s0)"
  by (auto simp: gives_def LockBuffer_def UnlockBuffer_run ReleaseBuffer_run UnlockReleaseBuffer_run
      MarkBufferDirty_run BufferGetPage_run split: if_splits elim: off_cong)

lemma off_ReadBufferNew:
  "gives (off U V s0) ReadBufferNew (\<lambda>b. off (insert b U) (insert b V) s0)"
  unfolding gives_def
proof (intro allI impI)
  fix s b s' assume *: "off U V s0 s" "ReadBufferNew s = (Inr b, s')"
  then show "off (insert b U) (insert b V) s0 s'"
    using off_cong [OF off_new [OF *(1)]] by (auto simp: ReadBufferNew_def Let_def split: if_splits)
qed

lemma off_put_page: "b \<in> V \<Longrightarrow> gives (off U V s0) (put_page b p) (\<lambda>_. off (insert b U) V s0)"
  by (auto simp: gives_def put_page_run off_put)

lemma off_AddItem: "b \<in> V \<Longrightarrow> gives (off U V s0) (BufferAddItem b it off') (\<lambda>_. off (insert b U) V s0)"
  unfolding BufferAddItem_def
  by (intro gives_bind [OF off_locks(6)] gives_bind [OF gives_liftE] gives_prod gives_bind [OF off_put_page] gives_ret)

lemma finish_run:
  "foldC (\<lambda>_ (blk, img). bindC (put_page blk (zero_hole img)) (\<lambda>_. MarkBufferDirty blk)) () imgs s =
     (Inr (), s\<lparr>blocks := foldl (\<lambda>bs (b, p). bs[b := zero_hole p]) (blocks s) imgs, dirty := fst ` set imgs \<union> dirty s\<rparr>)"
  by (induction imgs arbitrary: s) (auto simp: bindC_def put_page_run MarkBufferDirty_run)

lemma off_xlog:
  assumes "RelationNeedsWAL rel" "set bufs \<subseteq> V"
  shows "gives (off U V s0) (if RelationNeedsWAL rel then generic_xlog rel bufs else ret ()) (\<lambda>_. off (U - set bufs) V s0)"
  unfolding gives_def
proof (intro allI impI)
  fix s x s' assume *: "off U V s0 s" "(if RelationNeedsWAL rel then generic_xlog rel bufs else ret ()) s = (Inr x, s')"
  let ?imgs = "map (\<lambda>b. (b, zero_hole (blocks s ! b))) (remdups bufs)"
  have "blocks s' = foldl (\<lambda>bs (b, p). bs[b := p]) (blocks s) ?imgs" "wal s' = wal s @ [?imgs]"
    using *(2) assms(1)
    by (auto simp: generic_xlog_def GenericXLogFinish_def finish_run foldl_map comp_def)
  from off_log [OF *(1) _ this] assms(2) show "off (U - set bufs) V s0 s'" by (simp add: image_image)
qed


section \<open>Insertion\<close>

lemma off_AddItem_in: "b \<in> U \<Longrightarrow> b \<in> V \<Longrightarrow> gives (off U V s0) (BufferAddItem b it off') (\<lambda>_. off U V s0)"
  using off_AddItem [of b V U s0 it off'] by (simp add: insert_absorb)

lemma off_add_all: "b \<in> U \<Longrightarrow> b \<in> V \<Longrightarrow> gives (off U V s0) (add_all b its) (\<lambda>_. off U V s0)"
  unfolding add_all_def by (intro gives_foldC gives_bind [OF off_AddItem_in] gives_ret)

lemma off_split_page:
  assumes "RelationNeedsWAL rel" "buf \<in> V"
  shows "gives (off U V s0) (rtree_split_page rel buf it box l fl) (\<lambda>_. off (U - {buf}) V s0)"
proof -
  have log: "gives (off (insert r (insert buf (insert r U))) (insert r V) s0)
      (if RelationNeedsWAL rel then rtree_wal_split rel buf r else ret ()) (\<lambda>_. off (U - {buf}) V s0)" for r
    unfolding rtree_wal_split_def
    by (rule gives_weaken [OF off_xlog [OF assms(1)]]) (use assms in \<open>auto elim: off_mono\<close>)
  show ?thesis
    unfolding rtree_split_page_def Let_def
    by (intro gives_bind [OF off_locks(6)] gives_prod gives_if gives_raise gives_bind [OF off_ReadBufferNew]
        gives_bind [OF off_put_page] gives_bind [OF off_add_all] gives_bind [OF off_locks(5)] gives_bind [OF log]
        gives_bind [OF off_locks(4)] gives_ret)
      (use assms in auto)
qed

lemma off_log_buf:
  assumes "RelationNeedsWAL rel" "buf \<in> V"
  shows "gives (off (insert buf U) V s0) (if RelationNeedsWAL rel then rtree_wal_insert rel buf else ret ()) (\<lambda>_. off (U - {buf}) V s0)"
    "gives (off (insert buf U) V s0) (if RelationNeedsWAL rel then rtree_wal_vacuum rel buf else ret ()) (\<lambda>_. off (U - {buf}) V s0)"
proof -
  have "gives (off (insert buf U) V s0) (if RelationNeedsWAL rel then generic_xlog rel [buf] else ret ())
      (\<lambda>_. off (U - {buf}) V s0)"
    by (rule gives_weaken [OF off_xlog [OF assms(1), of "[buf]" V "insert buf U"]]) (use assms in \<open>auto elim: off_mono\<close>)
  then show "gives (off (insert buf U) V s0) (if RelationNeedsWAL rel then rtree_wal_insert rel buf else ret ())
      (\<lambda>_. off (U - {buf}) V s0)"
    "gives (off (insert buf U) V s0) (if RelationNeedsWAL rel then rtree_wal_vacuum rel buf else ret ())
      (\<lambda>_. off (U - {buf}) V s0)"
    unfolding rtree_wal_insert_def rtree_wal_vacuum_def by blast+
qed

lemma off_insert_leaf:
  assumes "RelationNeedsWAL rel" "buf \<in> V"
  shows "gives (off U V s0) (rtree_insert_leaf rel buf it box) (\<lambda>_. off (U - {buf}) V s0)"
proof -
  note split = off_split_page [OF assms]
  have split': "gives (off (insert buf U) V s0) (rtree_split_page rel buf it box l fl) (\<lambda>_. off (U - {buf}) V s0)" for l fl
    using split [of "insert buf U"] by simp
  show ?thesis
    unfolding rtree_insert_leaf_def Let_def
    by (intro gives_bind [OF off_locks(6)] gives_if split split' gives_bind [OF off_AddItem]
        gives_bind [OF off_locks(5)] gives_bind [OF off_log_buf(1)] gives_ret) (use assms in auto)
qed

lemma off_insert_finish:
  assumes "RelationNeedsWAL rel" "buf \<in> V"
  shows "gives (off (insert buf U) V s0) (insert_finish rel buf) (\<lambda>_. off (U - {buf}) V s0)"
  unfolding insert_finish_def
  by (intro gives_bind [OF off_locks(5)] gives_bind [OF off_log_buf(1)] gives_bind [OF off_locks(6)]
      gives_bind [OF off_locks(4)] gives_ret) (use assms in auto)

lemma off_insert_right:
  assumes "RelationNeedsWAL rel" "buf \<in> V"
  shows "gives (off (insert buf U) V s0) (insert_right rel buf l box it) (\<lambda>_. off (U - {buf}) V s0)"
proof -
  have split: "gives (off (insert buf U) V s0) (rtree_split_page rel buf it box l fl) (\<lambda>_. off (U - {buf}) V s0)" for l fl
    using off_split_page [OF assms, of "insert buf U"] by simp
  show ?thesis
    unfolding insert_right_def
    by (intro gives_bind [OF off_locks(6)] gives_if gives_bind [OF split] gives_bind [OF off_locks(4)] gives_ret
        gives_bind [OF off_AddItem_in] off_insert_finish [OF assms]) (use assms in auto)
qed

lemma off_replace_tuple:
  "buf \<in> V \<Longrightarrow> gives (off U V s0) (rtree_replace_tuple buf k it) (\<lambda>_. off (insert buf U) V s0)"
  unfolding rtree_replace_tuple_def
  by (intro gives_bind [OF off_locks(6)] gives_bind [OF gives_liftE] gives_bind [OF off_put_page]
      gives_bind [OF off_AddItem_in] gives_if gives_raise gives_ret) auto

lemma off_after_child:
  assumes "RelationNeedsWAL rel" "buf \<in> V"
  shows "gives (off U V s0) (insert_after_child rel buf l k res) (\<lambda>_. off (U - {buf}) V s0)"
  unfolding insert_after_child_def
  by (intro gives_bind [OF off_locks(6)] gives_bind [OF gives_liftE] gives_bind [OF off_replace_tuple] gives_if
      off_insert_right [OF assms] off_insert_finish [OF assms]) (use assms in auto)

lemma off_insert_page:
  assumes "RelationNeedsWAL rel"
  shows "gives (off U V s0) (rtree_insert_page rel l b it box) (\<lambda>_. off U V s0)"
proof (induction l arbitrary: b U V)
  case 0
  show ?case
    by (simp, intro gives_bind [OF off_ReadBuffer] gives_pre gives_bind [OF off_locks(1)]
        gives_bind [OF off_insert_leaf [OF assms]] gives_bind [OF off_locks(4)] gives_ret) (auto elim: off_mono)
next
  case (Suc l)
  show ?case
    by (simp, intro gives_bind [OF off_ReadBuffer] gives_pre gives_bind [OF off_locks(1)]
        gives_bind [OF off_locks(6)] gives_if gives_let gives_raise gives_bind [OF off_insert_leaf [OF assms]]
        gives_bind [OF off_locks(4)] gives_ret gives_bind [OF Suc.IH] gives_weaken [OF off_after_child [OF assms]])
      (auto elim: off_mono)
qed


text \<open>The promotion of the root writes no record and changes the root that the meta page names.\<close>

definition size_log :: "nat \<Rightarrow> (nat \<times> rpage) list list \<Rightarrow> istate \<Rightarrow> bool" where
  "size_log n w s \<longleftrightarrow> length (blocks s) = n \<and> wal s = w"

lemma size_log_storage:
  "gives (size_log n w) (ReadBuffer b) (\<lambda>r s. (r = b \<and> b < n) \<and> size_log n w s)"
  "gives (size_log n w) (LockBuffer b ex) (\<lambda>_. size_log n w)"
  "gives (size_log n w) (UnlockReleaseBuffer b) (\<lambda>_. size_log n w)"
  "gives (size_log n w) (MarkBufferDirty b) (\<lambda>_. size_log n w)"
  "gives (size_log n w) (BufferGetPage b) (\<lambda>_. size_log n w)"
  "gives (size_log n w) (put_page b p) (\<lambda>_. size_log n w)"
  "gives (size_log n w) ReadBufferNew (\<lambda>r s. (r = n \<and> n < MaxBlockNumber) \<and> size_log (Suc n) w s)"
  by (auto simp: gives_def size_log_def ReadBuffer_def LockBuffer_def UnlockReleaseBuffer_run MarkBufferDirty_run
      BufferGetPage_run put_page_run ReadBufferNew_def Let_def split: if_splits)

lemma size_log_AddItem: "gives (size_log n w) (BufferAddItem b it k) (\<lambda>_. size_log n w)"
  unfolding BufferAddItem_def
  by (intro gives_bind [OF size_log_storage(5)] gives_bind [OF gives_liftE] gives_prod
      gives_bind [OF size_log_storage(6)] gives_ret)

lemma root_promote_new:
  "gives (size_log n w) (rtree_root_promote rel b res l)
     (\<lambda>r s. (r = n \<and> b < n \<and> n < MaxBlockNumber) \<and> size_log (Suc n) w s)"
  unfolding rtree_root_promote_def
  by (intro gives_bind [OF size_log_storage(1)] gives_pre gives_bind [OF size_log_storage(2)]
      gives_bind [OF size_log_storage(7)] gives_bind [OF gives_liftE] gives_bind [OF size_log_storage(6)]
      gives_bind [OF size_log_AddItem] gives_bind [OF size_log_storage(4)] gives_bind [OF size_log_storage(5)]
      gives_bind [OF size_log_storage(3)] gives_ret) auto

lemma insert_promote_new:
  "gives (size_log n w) (insert_promote rel b l res) (\<lambda>_ s. meta_root (index_meta s) \<noteq> b \<and> wal s = w)"
proof -
  let ?Q = "\<lambda>s. meta_root (index_meta s) \<noteq> b \<and> wal s = w"
  have put: "gives (size_log (Suc n) w) (put_page 0 (set_meta (m\<lparr>meta_root := n, root_level := k\<rparr>) p)) (\<lambda>_. ?Q)"
    if "b < n" "n < MaxBlockNumber" for m k p
    using that by (auto simp: gives_def size_log_def put_page_run index_meta_def MaxBlockNumber_def)
  have rest: "gives ?Q (MarkBufferDirty 0) (\<lambda>_. ?Q)" "gives ?Q (UnlockReleaseBuffer 0) (\<lambda>_. ?Q)"
    by (auto simp: gives_def MarkBufferDirty_run UnlockReleaseBuffer_run index_meta_def)
  show ?thesis
    unfolding insert_promote_def
    by (intro gives_bind [OF root_promote_new] gives_pre gives_bind [OF size_log_storage(1)]
        gives_bind [OF size_log_storage(2)] gives_bind [OF size_log_storage(5)]) 
      (auto intro!: gives_bind [OF put] gives_bind [OF rest(1)] gives_bind [OF rest(2)] gives_ret)
qed


text \<open>An insertion that comes to a result is the insertion into the tree, followed by the promotion of the
  root when the root was split.\<close>

lemma insert_runs:
  assumes nb: "2 \<le> length (blocks s)" and run: "temporal_rtree_insert rel v tid s = (Inr r, s')"
  obtains "s' = s"
  | it it0 box res s1 where "index_form_tuple v = Inr it0" "it = it0\<lparr>t_tid := tid\<rparr>"
      "rtree_insert_page rel (root_level (index_meta s)) (meta_root (index_meta s)) it box s = (Inr res, s1)"
      "if res_split res then insert_promote rel (meta_root (index_meta s)) (root_level (index_meta s)) res s1 = (Inr r, s')
       else s' = s1"
proof -
  have n: "0 < length (blocks s)" using nb by linarith
  obtain it where it: "index_form_tuple v = Inr it"
    using run nb by (cases "index_form_tuple v") (auto simp: temporal_rtree_insert_def RelationGetNumberOfBlocks_run)
  let ?it = "it\<lparr>t_tid := tid\<rparr>"
  show thesis
  proof (cases "rtree_index_tuple_box rel ?it")
    case None
    then show thesis
      using run nb it by (intro that(1)) (simp add: temporal_rtree_insert_def RelationGetNumberOfBlocks_run)
  next
    case (Some box)
    define m where "m = index_meta s"
    note storage = temporal_rtree_insert_def RelationGetNumberOfBlocks_run ReadBuffer_run LockBuffer_def bindC_def
      BufferGetPage_run UnlockBuffer_run ReleaseBuffer_run m_def [unfolded index_meta_def, symmetric] Let_def
    obtain a s1 where ins: "rtree_insert_page rel (root_level m) (meta_root m) ?it box s = (a, s1)" by fastforce
    show thesis
    proof (cases a)
      case (Inl e)
      with run nb n it Some ins show thesis by (simp add: storage split: if_splits)
    next
      case (Inr res)
      with run nb n it Some ins have "(if res_split res then insert_promote rel (meta_root m) (root_level m) res
          else ret True) s1 = (Inr r, s')"
        by (simp add: storage split: if_splits)
      with it ins Inr show thesis unfolding m_def by (intro that(2) [OF it refl]) (auto split: if_splits)
    qed
  qed
qed

text \<open>What replay gives after an insertion.\<close>

lemma insert_recovered:
  assumes rel: "RelationNeedsWAL rel"
    and ins: "rtree_insert_page rel l b it box s = (Inr res, s1)"
    and pro: "if res_split res then insert_promote rel b l res s1 = (Inr r, s') else s' = s1"
  shows "recovered s s' = blocks s1" "res_split res \<Longrightarrow> meta_root (index_meta s') \<noteq> b"
proof -
  have "recovered s s1 = blocks s1"
    using off_recovered givesD [OF off_insert_page [OF rel] off_start ins] by blast
  moreover have "meta_root (index_meta s') \<noteq> b \<and> wal s' = wal s1" if "res_split res"
    using givesD [OF insert_promote_new, of "length (blocks s1)" "wal s1" s1] pro that by (auto simp: size_log_def)
  ultimately show "recovered s s' = blocks s1" "res_split res \<Longrightarrow> meta_root (index_meta s') \<noteq> b"
    using pro by (auto simp: recovered_def split: if_splits)
qed

lemma leaf_split_halves:
  assumes wf: "wf_tree rel sz (blocks s) 0 b" "held s = []" and it: "entry_ok rel sz it" "24 \<le> sz" "MAXALIGN sz \<le> 8000"
    and lim: "length (blocks s) + 1 < MaxBlockNumber"
    and ins: "rtree_insert_page rel 0 b it box s = (Inr res, s1)" "res_split res"
  shows "tuples (blocks s1 ! b) \<noteq> []" "tuples (blocks s1 ! right_blkno res) \<noteq> []"
proof -
  let ?s = "s\<lparr>pins := b # pins s, held := [(b, True)]\<rparr>"
  have b: "b < length (blocks s)" "node_page rel sz 0 (blocks s ! b)" using wf(1) by simp_all
  from insert_leaf_step [of b ?s rel sz it box] b it lim obtain res' s2 where
    leaf: "rtree_insert_leaf rel b it box ?s = (Inr res', s2)"
    "page_step rel sz 0 (blocks s) (blocks s2) b res' (add_mset it (mset (tuples (blocks s ! b))))"
    by auto
  have "res' = res" "blocks s2 = blocks s1"
    using ins(1) leaf(1) b(1) wf(2)
    by (auto simp: bindC_def ReadBuffer_run LockBuffer_run lock_conflict_def UnlockReleaseBuffer_run)
  then show "tuples (blocks s1 ! b) \<noteq> []" "tuples (blocks s1 ! right_blkno res) \<noteq> []"
    using leaf(2) ins(2) b(1) by (auto simp: page_step_def nth_append)
qed

text \<open>A root split: the old root is the left half, the new root holds both.\<close>

lemma root_split_run:
  assumes wf: "wf_index rel sz s" and c: "indexable rel sz c" and env: "llround_env (rd_cenv rel)"
    and lim: "held s = []" "room_for (Suc k) s"
    and run: "temporal_rtree_insert rel (Some c) tid s = (Inr r, s')"
  obtains it box res s1 where
    "rtree_insert_page rel (root_level (index_meta s)) (meta_root (index_meta s)) it box s = (Inr res, s1)"
    "if res_split res then insert_promote rel (meta_root (index_meta s)) (root_level (index_meta s)) res s1 = (Inr r, s')
     else s' = s1"
    "entry_ok rel sz it" "page_meta (blocks s1 ! 0) = index_meta s" "held s1 = []"
    "ins_post rel sz (root_level (index_meta s)) (blocks s) (blocks s1) (meta_root (index_meta s)) res it"
    "0 \<notin> set (forest_nodes (blocks s1) (root_level (index_meta s)) (roots (meta_root (index_meta s)) res))"
proof -
  have nb: "2 \<le> length (blocks s)" using wf by (simp add: wf_index_def)
  from insert_row_ok [OF wf c env lim, of tid] run have new: "index_tuples s' \<noteq> index_tuples s" by auto
  obtain it0 where it0: "index_form_tuple (Some c) = Inr it0" "row_tuple tid c = it0\<lparr>t_tid := tid\<rparr>"
      "entry_ok rel sz (row_tuple tid c)" "24 \<le> sz" "MAXALIGN sz \<le> 8000"
    by (rule indexable_tuple [OF c])
  have lim': "length (blocks s) + root_level (index_meta s) + 2 < MaxBlockNumber" using lim(2) by (simp add: room_for_def)
  from nb run show thesis
  proof (cases rule: insert_runs)
    case 1
    with new show thesis by simp
  next
    case (2 it it1 box res s1)
    then have it: "it = row_tuple tid c" using it0 by simp
    from insert_tree_ok [OF wf refl it0(3-5) env lim(1) lim', of box] 2(3) show thesis
      unfolding it by (intro that [OF 2(3,4) [unfolded it] it0(3)]) (auto simp: it)
  qed
qed

section \<open>Vacuum\<close>

lemma off_add_copy: "b \<in> U \<Longrightarrow> b \<in> V \<Longrightarrow> gives (off U V s0) (rtree_add_tuple_copy b it) (\<lambda>_. off U V s0)"
  unfolding rtree_add_tuple_copy_def by (intro gives_bind [OF off_AddItem_in] gives_if gives_raise gives_ret)

lemma off_rebuild:
  assumes "RelationNeedsWAL rel" "buf \<in> V"
  shows "gives (off U V s0) (vacuum_rebuild rel buf op acc) (\<lambda>_. off (U - {buf}) V s0)"
  unfolding vacuum_rebuild_def
  by (intro gives_prod gives_let gives_bind [OF off_put_page] gives_bind [OF gives_foldC] gives_bind [OF off_locks(5)]
      gives_bind [OF off_log_buf(2)] gives_bind [OF off_locks(2)] gives_bind [OF off_locks(3)] gives_ret off_add_copy)
    (use assms in auto)

lemma off_keep: "gives (off U V s0) (vacuum_keep it box acc) (\<lambda>_. off U V s0)"
  unfolding vacuum_keep_def by (intro gives_prod gives_if gives_raise gives_ret)

lemma off_leaf_item: "gives (off U V s0) (vacuum_leaf_item rel callback acc ent) (\<lambda>_. off U V s0)"
  unfolding vacuum_leaf_item_def by (intro gives_prod gives_if gives_option gives_ret off_keep)

lemma off_vacuum_page:
  assumes "RelationNeedsWAL rel"
  shows "gives (off U V s0) (rtree_vacuum_page fuel rel b callback stats) (\<lambda>_. off U V s0)"
proof (induction fuel arbitrary: b stats U V)
  case 0
  show ?case by (simp add: gives_def)
next
  case (Suc fuel)
  have kids: "gives (off U (insert b V) s0) (foldC (\<lambda>(items, stats) (offset, itup).
      let childblk = ip_blkid (t_tid itup) in
      bindC (rtree_vacuum_page fuel rel childblk callback stats) (\<lambda>(res, stats).
      case res of
        None \<Rightarrow> ret (items, stats)
      | Some child_box \<Rightarrow>
          bindC (liftE (rtree_form_tuple child_box \<lparr>ip_blkid = childblk, ip_posid = FirstOffsetNumber\<rparr>)) (\<lambda>tuple.
          vacuum_keep tuple child_box (items, stats)))) acc its) (\<lambda>_. off U (insert b V) s0)" for acc its
    by (intro gives_foldC gives_prod_fun gives_prod gives_let gives_bind [OF Suc.IH] gives_option gives_ret gives_bind [OF gives_liftE] off_keep)
  have leaf: "gives (off U (insert b V) s0) (foldC (vacuum_leaf_item rel callback) acc its) (\<lambda>_. off U (insert b V) s0)" for acc its
    by (intro gives_foldC off_leaf_item)
  have rebuild: "gives (off U (insert b V) s0) (vacuum_rebuild rel b op acc) (\<lambda>_. off U V s0)" for op acc
    by (rule gives_weaken [OF off_rebuild [OF assms]]) (auto elim: off_mono)
  show ?case
    unfolding rtree_vacuum_page.simps
    by (intro gives_bind [OF off_ReadBuffer] gives_pre gives_bind [OF off_locks(1)] gives_bind [OF off_locks(6)] gives_let
        gives_bind [where Q = "\<lambda>_. off U (insert b V) s0"] gives_if kids leaf) (simp add: rebuild)
qed

text \<open>Shrinking the root: everything is logged, unless the root was emptied; then the meta page says that the tree is a
  single leaf, and the root is an empty page.\<close>

definition emptied :: "nat \<Rightarrow> istate \<Rightarrow> bool" where
  "emptied rb s \<longleftrightarrow> root_level (index_meta s) = 0 \<and> tuples (blocks s ! rb) = []"

lemma emptied_locks:
  "gives (emptied rb) (UnlockBuffer b) (\<lambda>_. emptied rb)" "gives (emptied rb) (ReleaseBuffer b) (\<lambda>_. emptied rb)"
  by (auto simp: gives_def emptied_def UnlockBuffer_run ReleaseBuffer_run index_meta_def)

lemma put_emptied:
  assumes "rb \<noteq> 0" "rb \<in> V" "0 \<in> V"
  shows "gives (off U V s0) (put_page rb (rtree_init_datapage fl 0)) (\<lambda>_ s. 0 < length (blocks s) \<and> tuples (blocks s ! rb) = [])"
    "gives (\<lambda>s. 0 < length (blocks s) \<and> tuples (blocks s ! rb) = []) (put_page 0 (set_meta (m\<lparr>root_level := 0\<rparr>) p)) (\<lambda>_. emptied rb)"
  using assms init_datapage_ok(2) [of fl 0]
  by (auto simp: gives_def off_def put_page_run emptied_def index_meta_def)

text \<open>The meta page is locked when the root is locked, so that the root is another page.\<close>

definition meta_locked :: "nat set \<Rightarrow> istate \<Rightarrow> istate \<Rightarrow> bool" where
  "meta_locked V s0 s \<longleftrightarrow> off {} V s0 s \<and> (0, True) \<in> set (held s)"

lemma meta_locked_storage:
  "gives (off {} V s0) (LockBuffer 0 True) (\<lambda>_. meta_locked V s0)"
  "gives (meta_locked V s0) (BufferGetPage b) (\<lambda>_. meta_locked V s0)"
  "gives (meta_locked V s0) (ReadBuffer b) (\<lambda>r s. r = b \<and> meta_locked (insert b V) s0 s)"
  "gives (meta_locked V s0) (LockBuffer b True) (\<lambda>_ s. b \<noteq> 0 \<and> off {} V s0 s)"
  by (auto simp: gives_def meta_locked_def LockBuffer_def BufferGetPage_run ReadBuffer_def lock_conflict_def off_def
      recovered_def intro!: gr0I split: if_splits)

lemma off_shrink:
  assumes "RelationNeedsWAL rel"
  shows "gives (off {} V s0) (rtree_vacuum_shrink_root rel rb l) (\<lambda>_ s. off {} {} s0 s \<or> l \<noteq> 0 \<and> emptied rb s)"
proof -
  let ?Q = "\<lambda>(_ :: bool) s. off {} {} s0 s \<or> l \<noteq> 0 \<and> emptied rb s"
  have stop: "gives (off U W s0) (ret x) ?Q" if "U = {}" for U W x
    using that off_mono [of "{}" W s0 _ "{}" "{}"] by (auto simp: gives_def)
  have unlock: "gives (off U W s0) (bindC (UnlockBuffer rb) (\<lambda>_. bindC (ReleaseBuffer rb) (\<lambda>_.
      bindC (UnlockBuffer 0) (\<lambda>_. bindC (ReleaseBuffer 0) (\<lambda>_. ret x))))) ?Q" if "U = {}" for U W x
    by (intro gives_bind [OF off_locks(2)] gives_bind [OF off_locks(3)] stop that)
  have mismatch: "gives (meta_locked W s0) (bindC (UnlockBuffer 0) (\<lambda>_. bindC (ReleaseBuffer 0) (\<lambda>_. ret x))) ?Q" for W x
  proof (rule gives_weaken)
    show "gives (off {} W s0) (bindC (UnlockBuffer 0) (\<lambda>_. bindC (ReleaseBuffer 0) (\<lambda>_. ret x))) ?Q"
      by (intro gives_bind [OF off_locks(2)] gives_bind [OF off_locks(3)] stop refl)
  qed (simp_all add: meta_locked_def)
  have empty: "gives (emptied rb) (bindC (UnlockBuffer rb) (\<lambda>_. bindC (ReleaseBuffer rb) (\<lambda>_.
      bindC (UnlockBuffer 0) (\<lambda>_. bindC (ReleaseBuffer 0) (\<lambda>_. ret x))))) ?Q" if "l \<noteq> 0" for x
    by (intro gives_bind [OF emptied_locks(1)] gives_bind [OF emptied_locks(2)] gives_ret) (use that in simp)
  have start: "gives (off {} V s0) (ReadBuffer 0) (\<lambda>r s. r = 0 \<and> off {} (insert 0 V) s0 s)"
    using off_ReadBuffer [of "{}" V s0 0] .
  have clear: "gives (off {} W s0) (bindC (put_page rb (rtree_init_datapage fl 0)) (\<lambda>_.
      bindC (put_page 0 (set_meta (m\<lparr>root_level := 0\<rparr>) p)) (\<lambda>_. bindC (UnlockBuffer rb) (\<lambda>_. bindC (ReleaseBuffer rb) (\<lambda>_.
      bindC (UnlockBuffer 0) (\<lambda>_. bindC (ReleaseBuffer 0) (\<lambda>_. ret x))))))) ?Q"
    if "l \<noteq> 0" "rb \<noteq> 0" "rb \<in> W" "0 \<in> W" for W fl m p x
    by (intro gives_bind [OF put_emptied(1) [OF that(2-)]] gives_bind [OF put_emptied(2) [OF that(2-)]] empty that)
  show ?thesis
    unfolding rtree_vacuum_shrink_root_def Let_def
    by (intro gives_if stop gives_bind [OF start] gives_pre; (simp only:)?;
        (intro gives_bind [OF meta_locked_storage(1)] gives_bind [OF meta_locked_storage(2)] gives_if mismatch
          gives_bind [OF meta_locked_storage(3)] gives_pre gives_bind [OF meta_locked_storage(4)] gives_bind [OF off_locks(6)])?;
        (simp only:)?;
        (intro gives_if unlock clear
          gives_bind [OF off_ReadBuffer] gives_pre gives_bind [OF off_locks(1)] gives_bind [OF off_locks(6)]
          gives_bind [OF off_put_page] gives_bind [OF off_locks(5)] gives_bind [OF off_xlog [OF assms]] gives_bind [OF off_locks(4)])?)
      (auto)
qed


section \<open>Properties\<close>

text \<open>C9. An insertion into a logged index that does not change the root is recovered exactly: replay of the log over
  the blocks before the insertion gives the blocks after it, in every state of the index.\<close>

theorem insert_durable:
  assumes "RelationNeedsWAL rel" "2 \<le> length (blocks s)" "temporal_rtree_insert rel v tid s = (Inr r, s')"
    "meta_root (index_meta s') = meta_root (index_meta s)"
  shows "recovered s s' = blocks s'"
  using assms(2,3)
proof (cases rule: insert_runs)
  case 1
  then show ?thesis using off_recovered [OF off_start] by simp
next
  case (2 it it0 box res s1)
  with insert_recovered [OF assms(1) 2(3,4)] assms(4) show ?thesis by (cases "res_split res") auto
qed


text \<open>C33. Root promotion is not logged: when an insertion into a logged well-formed index splits the root, replay over the
  blocks before it gives a well-formed index that still has the old root as its root. The rows it loses are exactly those below the
  right half of the split, the second child of the new root: the page of that half is replayed, but nothing refers to it. When
  the root was a leaf, at least one row is lost.\<close>

theorem root_split_loses_rows:
  assumes wf: "wf_index rel sz s" and c: "indexable rel sz c" and env: "llround_env (rd_cenv rel)"
    and lim: "held s = []" "room_for (Suc k) s" and rel: "RelationNeedsWAL rel"
    and run: "temporal_rtree_insert rel (Some c) tid s = (Inr r, s')"
    and split: "meta_root (index_meta s') \<noteq> meta_root (index_meta s)"
    and after: "after = s\<lparr>blocks := recovered s s'\<rparr>"
  shows "wf_index rel sz after \<and> index_meta after = index_meta s \<and>
    (\<exists>right. map child (tuples (blocks s' ! meta_root (index_meta s'))) = [meta_root (index_meta s), right] \<and>
      index_tuples s' = index_tuples after @ leaves (blocks after) (root_level (index_meta s)) right \<and>
      (root_level (index_meta s) = 0 \<longrightarrow> leaves (blocks after) (root_level (index_meta s)) right \<noteq> []))"
proof -
  define m where "m = index_meta s"
  let ?l = "root_level m" and ?b = "meta_root m"
  from root_split_run [OF wf c env lim run, folded m_def] obtain it box res s1 where
    ins: "rtree_insert_page rel ?l ?b it box s = (Inr res, s1)"
    and pro: "if res_split res then insert_promote rel ?b ?l res s1 = (Inr r, s') else s' = s1"
    and it: "entry_ok rel sz it" and s1: "page_meta (blocks s1 ! 0) = m" "held s1 = []"
    and post: "ins_post rel sz ?l (blocks s) (blocks s1) ?b res it"
    and zero: "0 \<notin> set (forest_nodes (blocks s1) ?l (roots ?b res))" by blast
  have "meta_root (index_meta s1) = ?b" using s1(1) by (simp add: index_meta_def)
  then have sp: "res_split res" using pro split by (cases "res_split res") (auto simp: m_def)
  have blocks: "blocks after = blocks s1" using insert_recovered(1) [OF rel ins pro] by (simp add: after)
  have meta: "index_meta after = m" using s1(1) by (simp add: index_meta_def blocks)
  have i: "2 \<le> length (blocks s)" "magic m = TRTREE_META_MAGIC" "wf_tree rel sz (blocks s) ?l ?b"
    using wf by (simp_all add: wf_index_def m_def)
  have r: "length (blocks s) + ?l + 2 < MaxBlockNumber" "Suc ?l < 65536"
    using lim(2) by (simp_all add: room_for_def m_def)
  have sz: "24 \<le> sz" "MAXALIGN sz \<le> 8000" using indexable_tuple [OF c] by blast+
  have p: "length (blocks s) \<le> length (blocks s1)" "length (blocks s1) \<le> length (blocks s) + Suc ?l"
      "list_all (wf_tree rel sz (blocks s1) ?l) (roots ?b res)" "distinct (forest_nodes (blocks s1) ?l (roots ?b res))"
      "spread_box (left_box res)" "spread_box (right_box res)"
    using post sp by (simp_all add: ins_post_def)
  have len: "2 \<le> length (blocks s1)" "length (blocks s1) + 1 < MaxBlockNumber" using i(1) p(1,2) r(1) by linarith+
  from insert_promote_ok [OF len(1) s1(1) i(2) p(3,4) zero sp p(5,6) env s1(2) len(2) r(2)] pro sp
  have s': "index_tuples s' = leaves (blocks s1) ?l ?b @ leaves (blocks s1) ?l (right_blkno res)"
      "map child (tuples (blocks s' ! meta_root (index_meta s'))) = [?b, right_blkno res]"
    by (auto simp: roots_def)
  have after': "index_tuples after = leaves (blocks s1) ?l ?b" by (simp add: index_tuples_def meta blocks)
  have "wf_index rel sz after"
    by (rule wf_indexI [where m = m]) (use meta i p zero sp len in \<open>auto simp: blocks roots_def index_meta_def\<close>)
  moreover have "leaves (blocks s1) ?l (right_blkno res) \<noteq> []" if "?l = 0"
    using leaf_split_halves [of rel sz s ?b it box res s1] i(3) lim(1) it sz ins sp r(1) that by simp
  ultimately show ?thesis
    using meta s' after' by (simp add: m_def blocks)
qed

text \<open>C10. A bulk delete on a logged index is recovered exactly, in every state of the index, unless it emptied the tree: then
  the level of the tree has become zero and its root is an empty page.\<close>

theorem bulkdelete_durable:
  assumes "RelationNeedsWAL rel" "temporal_rtree_bulkdelete rel st cb s = (Inr st', s')"
  shows "recovered s s' = blocks s' \<or> root_level (index_meta s) \<noteq> 0 \<and> emptied (meta_root (index_meta s)) s'"
proof -
  let ?Q = "\<lambda>_ s'. off {} {} s s' \<or> root_level (index_meta s) \<noteq> 0 \<and> emptied (meta_root (index_meta s)) s'"
  have stop: "gives (off {} W s) (ret x) ?Q" for W x
    using off_mono [of "{}" W s _ "{}" "{}"] by (auto simp: gives_def)
  have count: "gives (\<lambda>t. t = s) RelationGetNumberOfBlocks (\<lambda>_ t. t = s)"
    by (auto simp: gives_def RelationGetNumberOfBlocks_run)
  have read: "rtree_read_meta s = (Inr m, t) \<Longrightarrow> m = index_meta s \<and> blocks t = blocks s \<and> wal t = wal s" for m t
    by (auto simp: rtree_read_meta_def bindC_def ReadBuffer_def LockBuffer_def BufferGetPage_run UnlockBuffer_run
        ReleaseBuffer_run ret_def index_meta_def Let_def split: if_splits)
  have meta: "gives (\<lambda>t. t = s) rtree_read_meta (\<lambda>m t. m = index_meta s \<and> off {} {} s t)"
    unfolding gives_def by (intro allI impI) (blast dest: read intro: off_cong [OF off_start])
  have shrink: "gives (off {} V s) (bindC (rtree_vacuum_shrink_root rel (meta_root (index_meta s)) (root_level (index_meta s)))
      (\<lambda>_. ret x)) ?Q" for V x
    by (intro gives_bind [OF off_shrink [OF assms(1)]] gives_ret)
  have vacuum: "gives (off {} {} s) (bindC (rtree_vacuum_page fuel rel (meta_root (index_meta s)) cb st0) (\<lambda>(_, st).
      bindC (rtree_vacuum_shrink_root rel (meta_root (index_meta s)) (root_level (index_meta s))) (\<lambda>_. ret st))) ?Q" for fuel st0
    by (intro gives_bind [OF off_vacuum_page [OF assms(1)]] gives_prod shrink)
  have same: "gives (\<lambda>t. t = s) (ret x) ?Q" for x
    using off_start by (auto simp: gives_def)
  have "gives (\<lambda>t. t = s) (temporal_rtree_bulkdelete rel st cb) ?Q"
    unfolding temporal_rtree_bulkdelete_def Let_def
    by (intro gives_bind [OF count] gives_if same gives_bind [OF meta] gives_pre; (simp only:)?; (intro gives_if stop vacuum)?)
  from givesD [OF this refl assms(2)] show ?thesis using off_recovered by blast
qed

text \<open>For the example: inserting rows into an empty index splits its root at last, because a page has no room for
  160 tuples.\<close>

lemma fill_or_split:
  assumes wf: "wf_index rel sz s" and c: "indexable rel sz c" and env: "llround_env (rd_cenv rel)"
    and s: "held s = []" "room_for (Suc k) s" "root_level (index_meta s) = 0"
  obtains s' where "temporal_rtree_insert rel (Some c) tid s = (Inr True, s')" "wf_index rel sz s'" "held s' = []"
    "room_for k s'" "length (index_tuples s') = Suc (length (index_tuples s))"
    "meta_root (index_meta s') = meta_root (index_meta s) \<Longrightarrow> root_level (index_meta s') = 0"
proof -
  from insert_row_ok [OF wf c env s(1,2), of tid] obtain s' where
    s': "temporal_rtree_insert rel (Some c) tid s = (Inr True, s')" "wf_index rel sz s'"
    "mset (index_tuples s') = add_mset (row_tuple tid c) (mset (index_tuples s))" "held s' = []" "room_for k s'"
    by (elim exE conjE)
  obtain it box res s1 where
    r: "rtree_insert_page rel (root_level (index_meta s)) (meta_root (index_meta s)) it box s = (Inr res, s1)"
      "if res_split res then insert_promote rel (meta_root (index_meta s)) (root_level (index_meta s)) res s1 = (Inr True, s')
       else s' = s1"
      "entry_ok rel sz it" "page_meta (blocks s1 ! 0) = index_meta s" "held s1 = []"
      "ins_post rel sz (root_level (index_meta s)) (blocks s) (blocks s1) (meta_root (index_meta s)) res it"
      "0 \<notin> set (forest_nodes (blocks s1) (root_level (index_meta s)) (roots (meta_root (index_meta s)) res))"
    by (rule root_split_run [OF wf c env s(1,2) s'(1)])
  have "root_level (index_meta s') = 0" if same: "meta_root (index_meta s') = meta_root (index_meta s)"
  proof (cases "res_split res")
    case True
    with r(2) givesD [OF insert_promote_new, of "length (blocks s1)" "wal s1" s1] same show ?thesis
      by (simp add: size_log_def)
  next
    case False
    with r(2,4) s(3) show ?thesis by (simp add: index_meta_def)
  qed
  moreover have "length (index_tuples s') = Suc (length (index_tuples s))"
    using arg_cong [OF s'(3), of size] by simp
  ultimately show thesis using s' by (intro that)
qed

lemma leaf_root_small:
  assumes "wf_index rel 48 s" "root_level (index_meta s) = 0"
  shows "length (index_tuples s) < 160"
proof -
  let ?p = "blocks s ! meta_root (index_meta s)"
  have "node_page rel 48 0 ?p" "index_tuples s = tuples ?p" using assms by (simp_all add: wf_index_def index_tuples_def)
  then show ?thesis
    using rpage_space [of ?p] entries_space [of rel 48 "tuples ?p"]
    by (simp add: node_page_def entry_size_def MAXALIGN_def)
qed


definition splits_root :: "Relation \<Rightarrow> NDBOX \<Rightarrow> ItemPointerData \<Rightarrow> istate \<Rightarrow> istate \<Rightarrow> bool" where
  "splits_root rel c tid s s' \<longleftrightarrow> wf_index rel 48 s \<and> held s = [] \<and> room_for (Suc 0) s \<and> root_level (index_meta s) = 0 \<and>
     temporal_rtree_insert rel (Some c) tid s = (Inr True, s') \<and> meta_root (index_meta s') \<noteq> meta_root (index_meta s)"

lemma fill_until_split:
  assumes "indexable rel 48 c" "llround_env (rd_cenv rel)" "wf_index rel 48 s" "held s = []" "room_for (Suc n) s"
    "root_level (index_meta s) = 0"
  shows "(\<exists>t t'. splits_root rel c tid t t') \<or>
    (\<exists>t. wf_index rel 48 t \<and> root_level (index_meta t) = 0 \<and> length (index_tuples t) = n + length (index_tuples s))"
  using assms(3-)
proof (induction n arbitrary: s)
  case 0
  then show ?case by auto
next
  case (Suc n)
  obtain s' where s': "temporal_rtree_insert rel (Some c) tid s = (Inr True, s')" "wf_index rel 48 s'" "held s' = []"
      "room_for (Suc n) s'" "length (index_tuples s') = Suc (length (index_tuples s))"
      "meta_root (index_meta s') = meta_root (index_meta s) \<Longrightarrow> root_level (index_meta s') = 0"
    by (rule fill_or_split [OF Suc.prems(1) assms(1,2) Suc.prems(2-4), where tid = tid]) blast
  show ?case
  proof (cases "meta_root (index_meta s') = meta_root (index_meta s)")
    case True
    with Suc.IH [OF s'(2-4) s'(6)] s'(5) show ?thesis by simp
  next
    case False
    with Suc.prems s'(1) have "splits_root rel c tid s s'"
      unfolding splits_root_def by (auto intro: room_for_mono)
    then show ?thesis by blast
  qed
qed

lemma demo_split: "\<exists>s s'. splits_root demo_rel row_cube (demo_tid 5) s s'"
proof -
  obtain s where s: "wf_index demo_rel 48 s" "index_tuples s = [row_tuple (demo_tid 5) row_cube]" "held s = []"
      "length (blocks s) = 2" "root_level (index_meta s) = 0"
    by (rule demo_index)
  have "room_for (Suc 160) s" using s by (simp add: room_for_def MaxBlockNumber_def)
  from fill_until_split [OF demo_row demo_env s(1,3) this s(5), of "demo_tid 5"] leaf_root_small s(2) show ?thesis by fastforce
qed

theorem root_split_loses_rows_witness:
  "\<exists>s s'. temporal_rtree_insert demo_rel (Some row_cube) (demo_tid 5) s = (Inr True, s') \<and>
     wf_index demo_rel 48 (s\<lparr>blocks := recovered s s'\<rparr>) \<and>
     length (index_tuples (s\<lparr>blocks := recovered s s'\<rparr>)) < length (index_tuples s')"
proof -
  obtain s s' where s: "wf_index demo_rel 48 s" "held s = []" "room_for (Suc 0) s" "root_level (index_meta s) = 0"
      "temporal_rtree_insert demo_rel (Some row_cube) (demo_tid 5) s = (Inr True, s')"
      "meta_root (index_meta s') \<noteq> meta_root (index_meta s)"
    using demo_split unfolding splits_root_def by blast
  have "RelationNeedsWAL demo_rel" by (simp add: demo_rel_def)
  from root_split_loses_rows [OF s(1) demo_row demo_env s(2,3) this s(5,6) refl] s(4) obtain lost where
      l: "wf_index demo_rel 48 (s\<lparr>blocks := recovered s s'\<rparr>)" "index_tuples s' = index_tuples (s\<lparr>blocks := recovered s s'\<rparr>) @ lost" "lost \<noteq> []"
    by blast
  then have "length (index_tuples (s\<lparr>blocks := recovered s s'\<rparr>)) < length (index_tuples s')" by simp
  with l(1) s(5) show ?thesis by blast
qed

lemma first_insert_keeps_root:
  assumes wf: "wf_index rel sz s" and c: "indexable rel sz c" and env: "llround_env (rd_cenv rel)"
    and s: "held s = []" "room_for (Suc k) s" "root_level (index_meta s) = 0" "index_tuples s = []"
    and run: "temporal_rtree_insert rel (Some c) tid s = (Inr r, s')"
  shows "meta_root (index_meta s') = meta_root (index_meta s)"
proof -
  let ?b = "meta_root (index_meta s)"
  obtain it box res s1 where
    r: "rtree_insert_page rel (root_level (index_meta s)) ?b it box s = (Inr res, s1)"
      "if res_split res then insert_promote rel ?b (root_level (index_meta s)) res s1 = (Inr r, s') else s' = s1"
      "entry_ok rel sz it" "page_meta (blocks s1 ! 0) = index_meta s" "held s1 = []"
      "ins_post rel sz (root_level (index_meta s)) (blocks s) (blocks s1) ?b res it"
      "0 \<notin> set (forest_nodes (blocks s1) (root_level (index_meta s)) (roots ?b res))"
    by (rule root_split_run [OF wf c env s(1,2) run])
  have wft: "wf_tree rel sz (blocks s) 0 ?b" using wf s(3) by (simp add: wf_index_def)
  have sz: "24 \<le> sz" "MAXALIGN sz \<le> 8000" using indexable_tuple [OF c] by blast+
  have lim: "length (blocks s) + 1 < MaxBlockNumber" using s(2) by (simp add: room_for_def)
  have "\<not> res_split res"
  proof
    assume sp: "res_split res"
    note h = leaf_split_halves [OF wft s(1) r(3) sz lim r(1) [unfolded s(3)] sp]
    have "size (mset (forest_leaves (blocks s1) 0 (roots ?b res))) = 1"
      using r(6) s(3,4) by (simp add: ins_post_def index_tuples_def)
    then show False using h sp by (cases "tuples (blocks s1 ! ?b)"; cases "tuples (blocks s1 ! right_blkno res)") (auto simp: roots_def)
  qed
  then show ?thesis using r(2,4) by (simp add: index_meta_def)
qed

theorem insert_durable_witness:
  "\<exists>s s'. temporal_rtree_insert demo_rel (Some row_cube) (demo_tid 5) s = (Inr True, s') \<and>
     index_tuples s = [] \<and> mset (index_tuples s') = {# row_tuple (demo_tid 5) row_cube #} \<and> recovered s s' = blocks s'"
proof -
  from buildempty_ok [of empty_relation demo_rel 48] obtain s where
    s: "wf_index demo_rel 48 s" "index_tuples s = []" "held s = []" "length (blocks s) = 2" "root_level (index_meta s) = 0"
    by (auto simp: empty_relation_def)
  have room: "room_for (Suc 0) s" using s by (simp add: room_for_def MaxBlockNumber_def)
  from insert_row_ok [OF s(1) demo_row demo_env s(3) room, of "demo_tid 5"] s(2) obtain s' where
    s': "temporal_rtree_insert demo_rel (Some row_cube) (demo_tid 5) s = (Inr True, s')"
    "mset (index_tuples s') = {# row_tuple (demo_tid 5) row_cube #}" by auto
  have "recovered s s' = blocks s'"
    by (rule insert_durable [OF _ _ s'(1) first_insert_keeps_root [OF s(1) demo_row demo_env s(3) room s(5,2) s'(1)]])
      (use s(4) in \<open>simp_all add: demo_rel_def\<close>)
  with s s' show ?thesis by blast
qed

theorem bulkdelete_durable_witness:
  "\<exists>s st' s'. index_tuples s = [row_tuple (demo_tid 5) row_cube] \<and> root_level (index_meta s) = 0 \<and>
     temporal_rtree_bulkdelete demo_rel None (Some (\<lambda>tid. tid = demo_tid 5)) s = (Inr st', s') \<and>
     index_tuples s' = [] \<and> recovered s s' = blocks s'"
proof -
  obtain s where s: "wf_index demo_rel 48 s" "index_tuples s = [row_tuple (demo_tid 5) row_cube]" "held s = []"
      "length (blocks s) = 2" "root_level (index_meta s) = 0"
    by (rule demo_index)
  have "length (blocks s) < MaxBlockNumber" using s by (simp add: MaxBlockNumber_def)
  from bulkdelete_ok [OF s(1) this s(3) _ demo_env, of None "Some (\<lambda>tid. tid = demo_tid 5)"] obtain st' s' where
    s': "temporal_rtree_bulkdelete demo_rel None (Some (\<lambda>tid. tid = demo_tid 5)) s = (Inr st', s')"
      "index_tuples s' = filter (live (Some (\<lambda>tid. tid = demo_tid 5))) (index_tuples s)"
    by auto
  have "recovered s s' = blocks s'" using bulkdelete_durable [OF _ s'(1)] s(5) by (simp add: demo_rel_def)
  with s s' show ?thesis by (auto simp: dead_def)
qed

end
