(* ===== verification/TR_Delta.thy ===== *)
theory TR_Delta
  imports TR_Bufpage
begin

text \<open>
  The delta between two images of a page (\<^verbatim>\<open>generic_xlog.c\<close>) on the bytes of the pages. The main results
  are that applying the delta of a change to any page that agrees with the old page outside its hole
  gives the page the change wrote, byte by byte, and that the delta is at most two fragment headers
  longer than the two parts of the page it describes.
\<close>

type_synonym byte = "8 word"
type_synonym bytes = "byte list"

section \<open>Bytes of a page\<close>

text \<open>Two-byte fields, little-endian.\<close>

definition le16 :: "nat \<Rightarrow> bytes" where
  "le16 n = [of_nat n, of_nat (n div 2 ^ 8)]"

definition get16 :: "bytes \<Rightarrow> nat \<Rightarrow> nat" where
  "get16 p a = unat (p ! a) + 2 ^ 8 * unat (p ! (a + 1))"

text \<open>\<^verbatim>\<open>memcpy\<close> of a block of bytes into a page.\<close>

definition put_bytes :: "bytes \<Rightarrow> nat \<Rightarrow> bytes \<Rightarrow> bytes" where
  "put_bytes p a bs = take a p @ bs @ drop (a + length bs) p"

definition get_bytes :: "bytes \<Rightarrow> nat \<Rightarrow> nat \<Rightarrow> bytes" where
  "get_bytes p a n = take n (drop a p)"

text \<open>The header fields the code reads and writes: \<^verbatim>\<open>pd_lsn\<close> at offset 0 (its two halves, high half
  first), \<^verbatim>\<open>pd_lower\<close> at 12 and \<^verbatim>\<open>pd_upper\<close> at 14.\<close>

definition lower_of :: "bytes \<Rightarrow> nat" where "lower_of p = get16 p 12"
definition upper_of :: "bytes \<Rightarrow> nat" where "upper_of p = get16 p 14"

definition lsn_bytes :: "nat \<Rightarrow> bytes" where
  "lsn_bytes lsn = (let xlogid = lsn div 2 ^ 32; xrecoff = lsn in
     map (\<lambda>k. of_nat (xlogid div 2 ^ (8 * k))) [0..<4] @ map (\<lambda>k. of_nat (xrecoff div 2 ^ (8 * k))) [0..<4])"

definition PageSetLSN :: "bytes \<Rightarrow> nat \<Rightarrow> bytes" where
  "PageSetLSN p lsn = put_bytes p 0 (lsn_bytes lsn)"

definition PageGetLSN :: "bytes \<Rightarrow> nat" where
  "PageGetLSN p =
     (let half = (\<lambda>a. sum_list (map (\<lambda>k. unat (p ! (a + k)) * 2 ^ (8 * k)) [0..<4]))
      in half 0 * 2 ^ 32 + half 4)"

section \<open>Computing a delta\<close>

definition FRAGMENT_HEADER_SIZE :: nat where "FRAGMENT_HEADER_SIZE = 2 * 2"
definition MATCH_THRESHOLD :: nat where "MATCH_THRESHOLD = FRAGMENT_HEADER_SIZE"
definition MAX_DELTA_SIZE :: nat where "MAX_DELTA_SIZE = BLCKSZ + 2 * FRAGMENT_HEADER_SIZE"

text \<open>The delta is the used part of the field \<^verbatim>\<open>delta\<close>; \<^verbatim>\<open>deltaLen\<close> is its length.\<close>

definition writeFragment :: "bytes \<Rightarrow> nat \<Rightarrow> nat \<Rightarrow> bytes \<Rightarrow> bytes" where
  "writeFragment delta offset len data = delta @ le16 offset @ le16 len @ take len data"

text \<open>The tight loops: advance while the bytes differ, or while they agree.\<close>

function run_while :: "(nat \<Rightarrow> bool) \<Rightarrow> nat \<Rightarrow> nat \<Rightarrow> nat" where
  "run_while P i loopEnd = (if i < loopEnd \<and> P i then run_while P (i + 1) loopEnd else i)"
  by pat_completeness auto
termination by (relation "measure (\<lambda>(P, i, e). e - i)") auto

declare run_while.simps [simp del]

lemma run_while_ge: "i \<le> run_while P i e"
  by (induction P i e rule: run_while.induct) (subst run_while.simps, auto)

lemma run_while_gt: "i < run_while P (Suc i) e" "i < run_while Q (Suc (run_while P (Suc i) e)) e"
  using run_while_ge [of "Suc i" P e] run_while_ge [of "Suc (run_while P (Suc i) e)" Q e] by auto

lemma run_while_le: "i \<le> e \<Longrightarrow> run_while P i e \<le> e"
  by (induction P i e rule: run_while.induct) (subst run_while.simps, auto)

lemma run_while_holds: "i \<le> a \<Longrightarrow> a < run_while P i e \<Longrightarrow> P a"
proof (induction P i e rule: run_while.induct)
  case (1 P i e)
  show ?case
  proof (cases "i < e \<and> P i")
    case True
    with 1 show ?thesis by (cases "a = i") (auto simp: run_while.simps [of P i e])
  next
    case False
    with 1(2,3) show ?thesis by (simp add: run_while.simps [of P i e])
  qed
qed

lemma run_while_stops: "run_while P i e < e \<Longrightarrow> \<not> P (run_while P i e)"
proof (induction P i e rule: run_while.induct)
  case (1 P i e)
  show ?case
    by (cases "i < e \<and> P i") (use 1 in \<open>auto simp: run_while.simps [of P i e]\<close>)
qed

text \<open>The main loop. \<open>None\<close> for \<^verbatim>\<open>fragmentBegin\<close> or \<^verbatim>\<open>fragmentEnd\<close> is the value -1 of the code.\<close>

function region_loop ::
  "bytes \<Rightarrow> bytes \<Rightarrow> nat \<Rightarrow> nat \<Rightarrow> nat option \<Rightarrow> nat option \<Rightarrow> bytes \<Rightarrow> nat option \<times> nat option \<times> bytes" where
  "region_loop curpage targetpage loopEnd i fragmentBegin fragmentEnd delta =
     (if i < loopEnd then
        let differs = curpage ! i \<noteq> targetpage ! i;
            fragmentBegin = (if differs \<and> fragmentBegin = None then Some i else fragmentBegin);
            fragmentEnd = (if differs then None else fragmentEnd);
            i = (if differs then run_while (\<lambda>k. curpage ! k \<noteq> targetpage ! k) (i + 1) loopEnd else i)
        in if differs \<and> i \<ge> loopEnd then (fragmentBegin, fragmentEnd, delta)
           else
             let fragmentEnd = i;
                 i = run_while (\<lambda>k. curpage ! k = targetpage ! k) (i + 1) loopEnd
             in case fragmentBegin of
                  Some b \<Rightarrow>
                    if i - fragmentEnd > MATCH_THRESHOLD
                    then region_loop curpage targetpage loopEnd i None None
                           (writeFragment delta b (fragmentEnd - b) (drop b targetpage))
                    else region_loop curpage targetpage loopEnd i (Some b) (Some fragmentEnd) delta
                | None \<Rightarrow> region_loop curpage targetpage loopEnd i None (Some fragmentEnd) delta
      else (fragmentBegin, fragmentEnd, delta))"
  by pat_completeness auto
termination
proof (relation "measure (\<lambda>(c, t, e, i, _). e - i)", goal_cases)
  case 1
  show ?case by simp
qed (auto simp: Let_def run_while_gt split: if_splits intro!: diff_less_mono2)


declare region_loop.simps [simp del]

definition computeRegionDelta ::
  "bytes \<Rightarrow> bytes \<Rightarrow> bytes \<Rightarrow> nat \<Rightarrow> nat \<Rightarrow> nat \<Rightarrow> nat \<Rightarrow> bytes" where
  "computeRegionDelta delta curpage targetpage targetStart targetEnd validStart validEnd =
     (let fragmentBegin = (if validStart > targetStart then Some targetStart else None);
          start = (if validStart > targetStart then validStart else targetStart);
          loopEnd = min targetEnd validEnd
      in case region_loop curpage targetpage loopEnd start fragmentBegin None delta of
           (fragmentBegin, fragmentEnd, delta) \<Rightarrow>
             let fragmentBegin = (if loopEnd < targetEnd \<and> fragmentBegin = None then Some loopEnd
                                  else fragmentBegin);
                 fragmentEnd = (if loopEnd < targetEnd then Some targetEnd else fragmentEnd)
             in case fragmentBegin of
                  None \<Rightarrow> delta
                | Some b \<Rightarrow>
                    let e = (case fragmentEnd of None \<Rightarrow> targetEnd | Some e \<Rightarrow> e)
                    in writeFragment delta b (e - b) (drop b targetpage))"

definition computeDelta :: "bytes \<Rightarrow> bytes \<Rightarrow> bytes" where
  "computeDelta curpage targetpage =
     computeRegionDelta
       (computeRegionDelta [] curpage targetpage 0 (lower_of targetpage) 0 (lower_of curpage))
       curpage targetpage (upper_of targetpage) BLCKSZ (upper_of curpage) BLCKSZ"

section \<open>Applying a delta\<close>

function applyPageRedo :: "bytes \<Rightarrow> bytes \<Rightarrow> bytes" where
  "applyPageRedo page delta =
     (if delta \<noteq> [] then
        let offset = get16 delta 0; len = get16 delta 2
        in applyPageRedo (put_bytes page offset (get_bytes delta 4 len)) (drop (4 + len) delta)
      else page)"
  by pat_completeness auto
termination by (relation "measure (\<lambda>(p, d). length d)") (auto simp: Let_def)

declare applyPageRedo.simps [simp del]

text \<open>The image copied over the page with the hole zeroed.\<close>

definition apply_image :: "bytes \<Rightarrow> bytes \<Rightarrow> bytes" where
  "apply_image page img =
     (let lower = lower_of img; upper = upper_of img;
          page = put_bytes page 0 (get_bytes img 0 lower);
          page = put_bytes page lower (replicate (upper - lower) 0)
      in put_bytes page upper (get_bytes img upper (BLCKSZ - upper)))"

section \<open>Correctness of the delta\<close>

lemma get16_le16: "n < 2 ^ 16 \<Longrightarrow> get16 (le16 n @ r) 0 = n"
  by (simp add: get16_def le16_def unat_of_nat)

lemma length_le16 [simp]: "length (le16 n) = 2"
  by (simp add: le16_def)

lemma length_put_bytes: "a + length bs \<le> length p \<Longrightarrow> length (put_bytes p a bs) = length p"
  by (simp add: put_bytes_def)

lemma nth_put_bytes:
  "a + length bs \<le> length p \<Longrightarrow> k < length p \<Longrightarrow>
   put_bytes p a bs ! k = (if a \<le> k \<and> k < a + length bs then bs ! (k - a) else p ! k)"
  by (auto simp: put_bytes_def nth_append min_def)

text \<open>A list of fragments of the target page, as pairs of an offset and a length, and its encoding.\<close>

type_synonym frags = "(nat \<times> nat) list"

definition frag_bytes :: "bytes \<Rightarrow> frags \<Rightarrow> bytes" where
  "frag_bytes t fs = concat (map (\<lambda>(a, n). le16 a @ le16 n @ get_bytes t a n) fs)"

definition covered :: "frags \<Rightarrow> nat \<Rightarrow> bool" where
  "covered fs a \<longleftrightarrow> (\<exists>(b, n)\<in>set fs. b \<le> a \<and> a < b + n)"

definition frags_in :: "nat \<Rightarrow> nat \<Rightarrow> frags \<Rightarrow> bool" where
  "frags_in s e fs \<longleftrightarrow> (\<forall>(b, n)\<in>set fs. s \<le> b \<and> b + n \<le> e)"

definition frags_size :: "frags \<Rightarrow> nat" where
  "frags_size fs = sum_list (map (\<lambda>(b, n). FRAGMENT_HEADER_SIZE + n) fs)"

lemma covered_simps [simp]:
  "covered [] a = False" "covered (fs @ gs) a = (covered fs a \<or> covered gs a)"
  "covered ((b, n) # fs) a = (b \<le> a \<and> a < b + n \<or> covered fs a)"
  by (auto simp: covered_def)

lemma frags_in_simps [simp]:
  "frags_in s e []" "frags_in s e (fs @ gs) = (frags_in s e fs \<and> frags_in s e gs)"
  "frags_in s e ((b, n) # fs) = (s \<le> b \<and> b + n \<le> e \<and> frags_in s e fs)"
  by (auto simp: frags_in_def)

lemma frags_in_mono: "frags_in s e fs \<Longrightarrow> s' \<le> s \<Longrightarrow> e \<le> e' \<Longrightarrow> frags_in s' e' fs"
  by (force simp: frags_in_def)

lemma frags_size_simps [simp]:
  "frags_size [] = 0" "frags_size (fs @ gs) = frags_size fs + frags_size gs"
  "frags_size ((b, n) # fs) = FRAGMENT_HEADER_SIZE + n + frags_size fs"
  by (simp_all add: frags_size_def)

lemma frag_bytes_simps [simp]:
  "frag_bytes t [] = []" "frag_bytes t (fs @ gs) = frag_bytes t fs @ frag_bytes t gs"
  "frag_bytes t ((a, n) # fs) = le16 a @ le16 n @ get_bytes t a n @ frag_bytes t fs"
  by (simp_all add: frag_bytes_def)

lemma writeFragment_frags: "writeFragment d b n (drop b t) = d @ frag_bytes t [(b, n)]"
  by (simp add: writeFragment_def get_bytes_def)

lemma length_frag_bytes: "frags_in s (length t) fs \<Longrightarrow> length (frag_bytes t fs) = frags_size fs"
  by (induction fs) (auto simp: get_bytes_def FRAGMENT_HEADER_SIZE_def)

lemma apply_frags:
  assumes "frags_in 0 (length t) fs" "length t = length p" "length t < 2 ^ 16"
  shows "length (applyPageRedo p (frag_bytes t fs)) = length p \<and>
    (\<forall>a<length p. applyPageRedo p (frag_bytes t fs) ! a = (if covered fs a then t ! a else p ! a))"
  using assms
proof (induction fs arbitrary: p)
  case Nil
  show ?case by (simp add: applyPageRedo.simps)
next
  case (Cons f fs)
  obtain b n where f: "f = (b, n)" by (cases f)
  have bn: "b + n \<le> length t" using Cons.prems f by simp
  have len: "length (get_bytes t b n) = n" using bn by (simp add: get_bytes_def)
  let ?p = "put_bytes p b (get_bytes t b n)"
  have *: "get16 (frag_bytes t (f # fs)) 0 = b" "get16 (frag_bytes t (f # fs)) 2 = n"
    using bn Cons.prems f get16_le16 [of b] get16_le16 [of n]
    by (auto simp: get16_def nth_append)
  have "drop (4 + n) (frag_bytes t (f # fs)) = frag_bytes t fs" using f len by simp
  moreover have "get_bytes (frag_bytes t (f # fs)) 4 n = get_bytes t b n"
    using f len by (simp add: get_bytes_def)
  moreover have "frag_bytes t (f # fs) \<noteq> []" using f by (simp add: le16_def)
  ultimately have step: "applyPageRedo p (frag_bytes t (f # fs)) = applyPageRedo ?p (frag_bytes t fs)"
    using * by (subst applyPageRedo.simps) (simp add: Let_def)
  have lp: "length ?p = length p" using bn len Cons.prems by (simp add: length_put_bytes)
  have np: "?p ! a = (if b \<le> a \<and> a < b + n then t ! a else p ! a)" if "a < length p" for a
    using that bn len Cons.prems by (auto simp: nth_put_bytes get_bytes_def)
  show ?case unfolding step using Cons.IH [of ?p] Cons.prems lp np f by simp
qed


text \<open>
  The invariant of the main loop, for the region from \<open>s\<close> whose bytes are valid from \<open>v\<close> on, with
  the fragments \<open>fs\<close> written: every byte before \<open>i\<close> is in a fragment, or in the pending one, or
  agrees; the bytes from \<^verbatim>\<open>fragmentEnd\<close> on agree; and the written fragments leave room for the header of the
  pending one.
\<close>

definition region_inv ::
  "bytes \<Rightarrow> bytes \<Rightarrow> nat \<Rightarrow> nat \<Rightarrow> frags \<Rightarrow> nat \<Rightarrow> nat option \<Rightarrow> nat option \<Rightarrow> bool" where
  "region_inv c t s v fs i fb fe \<longleftrightarrow>
     s \<le> i \<and> v \<le> i \<and> frags_in s i fs \<and>
     (\<forall>b. fb = Some b \<longrightarrow> s \<le> b \<and> b \<le> i) \<and>
     (\<forall>b e. fb = Some b \<and> fe = Some e \<longrightarrow> b \<le> e) \<and>
     (\<forall>e. fe = Some e \<longrightarrow> v \<le> e \<and> e \<le> i \<and> (\<forall>a. e \<le> a \<and> a < i \<longrightarrow> c ! a = t ! a)) \<and>
     (\<forall>a. s \<le> a \<and> a < i \<longrightarrow> covered fs a \<or> (\<exists>b. fb = Some b \<and> b \<le> a) \<or> v \<le> a \<and> c ! a = t ! a) \<and>
     s + frags_size fs \<le> (case fb of None \<Rightarrow> i | Some b \<Rightarrow> b)"

lemma region_inv_differ:
  assumes "region_inv c t s v fs i fb fe" "c ! i \<noteq> t ! i" "i \<le> j"
  shows "region_inv c t s v fs j (if fb = None then Some i else fb) None"
proof (cases fb)
  case None
  with assms show ?thesis
    unfolding region_inv_def by (auto intro: frags_in_mono)
next
  case (Some b)
  with assms show ?thesis
    unfolding region_inv_def by (auto intro: frags_in_mono)
qed

lemma region_inv_match:
  assumes "region_inv c t s v fs i fb fe" "i \<le> j" "\<And>a. i \<le> a \<Longrightarrow> a < j \<Longrightarrow> c ! a = t ! a"
  shows "region_inv c t s v fs j fb (Some i)"
proof -
  have "covered fs a \<or> (\<exists>b. fb = Some b \<and> b \<le> a) \<or> v \<le> a \<and> c ! a = t ! a" if "s \<le> a" "a < j" for a
    using assms that unfolding region_inv_def by (cases "a < i") auto
  moreover have "s + frags_size fs \<le> (case fb of None \<Rightarrow> j | Some b \<Rightarrow> b)"
    using assms unfolding region_inv_def by (cases fb) auto
  ultimately show ?thesis
    using assms unfolding region_inv_def by (auto intro: frags_in_mono)
qed

lemma region_inv_write:
  assumes "region_inv c t s v fs i (Some b) (Some e)" "i - e > MATCH_THRESHOLD"
  shows "region_inv c t s v (fs @ [(b, e - b)]) i None None"
proof -
  have "b \<le> e" "e \<le> i" "s \<le> b" "v \<le> e" "s + frags_size fs \<le> b"
    using assms unfolding region_inv_def by auto
  moreover have "covered (fs @ [(b, e - b)]) a \<or> v \<le> a \<and> c ! a = t ! a" if "s \<le> a" "a < i" for a
    using assms that calculation unfolding region_inv_def by (cases "e \<le> a") auto
  ultimately show ?thesis
    using assms unfolding region_inv_def by (auto simp: MATCH_THRESHOLD_def)
qed

text \<open>One round of the loop: the bytes from \<open>j\<close> to \<open>k\<close> agree.\<close>

lemma region_round:
  assumes inv: "region_inv c t s v fs i fb fe" and i: "i < loopEnd"
    and j: "j = (if c ! i \<noteq> t ! i then run_while (\<lambda>k. c ! k \<noteq> t ! k) (i + 1) loopEnd else i)"
    and b: "b = (if c ! i \<noteq> t ! i \<and> fb = None then Some i else fb)"
    and k: "k = run_while (\<lambda>k. c ! k = t ! k) (j + 1) loopEnd"
  shows "i \<le> j" "j \<le> loopEnd" "c ! i \<noteq> t ! i \<Longrightarrow> region_inv c t s v fs j b None"
    "j < loopEnd \<Longrightarrow> j < k \<and> k \<le> loopEnd \<and> region_inv c t s v fs k b (Some j)"
proof -
  show ij: "i \<le> j" using run_while_gt(1) [of i] by (simp add: j less_imp_le)
  show "j \<le> loopEnd" using i by (simp add: j run_while_le)
  have inv1: "region_inv c t s v fs j b (if c ! i \<noteq> t ! i then None else fe)"
    using region_inv_differ [OF inv _ ij] inv by (auto simp: b j)
  then show "region_inv c t s v fs j b None" if "c ! i \<noteq> t ! i" using that by simp
  assume jl: "j < loopEnd"
  have jk: "j < k" unfolding k using run_while_gt(1) [of j] by simp
  have "c ! a = t ! a" if a: "j \<le> a" "a < k" for a
  proof (cases "a = j")
    case True
    then show ?thesis
      using jl run_while_stops [of "\<lambda>k. c ! k \<noteq> t ! k" "i + 1" loopEnd] by (auto simp: j split: if_splits)
  next
    case False
    with a show ?thesis using run_while_holds [of "j + 1" a "\<lambda>k. c ! k = t ! k" loopEnd] by (simp add: k)
  qed
  then have "region_inv c t s v fs k b (Some j)" using region_inv_match [OF inv1 less_imp_le [OF jk]] by blast
  with jk jl show "j < k \<and> k \<le> loopEnd \<and> region_inv c t s v fs k b (Some j)" by (simp add: k run_while_le)
qed

lemma region_loop_round:
  assumes i: "i < loopEnd"
    and j: "j = (if c ! i \<noteq> t ! i then run_while (\<lambda>k. c ! k \<noteq> t ! k) (i + 1) loopEnd else i)"
    and b: "b = (if c ! i \<noteq> t ! i \<and> fb = None then Some i else fb)"
    and k: "k = run_while (\<lambda>k. c ! k = t ! k) (j + 1) loopEnd"
  shows "region_loop c t loopEnd i fb fe delta =
    (if c ! i \<noteq> t ! i \<and> j \<ge> loopEnd then (b, if c ! i \<noteq> t ! i then None else fe, delta)
     else case b of Some b \<Rightarrow> if k - j > MATCH_THRESHOLD
                      then region_loop c t loopEnd k None None (writeFragment delta b (j - b) (drop b t))
                      else region_loop c t loopEnd k (Some b) (Some j) delta
                  | None \<Rightarrow> region_loop c t loopEnd k None (Some j) delta)"
  unfolding k j b by (subst region_loop.simps) (simp only: i Let_def if_True)

lemma region_loop_ok:
  assumes "region_inv c t s v fs i fb fe" "i \<le> loopEnd"
  shows "\<exists>gs fb' fe'. region_loop c t loopEnd i fb fe delta = (fb', fe', delta @ frag_bytes t gs) \<and>
    region_inv c t s v (fs @ gs) loopEnd fb' fe'"
  using assms
proof (induction "loopEnd - i" arbitrary: i fb fe delta fs rule: less_induct)
  case less
  define j where "j = (if c ! i \<noteq> t ! i then run_while (\<lambda>k. c ! k \<noteq> t ! k) (i + 1) loopEnd else i)"
  define b where "b = (if c ! i \<noteq> t ! i \<and> fb = None then Some i else fb)"
  define k where "k = run_while (\<lambda>k. c ! k = t ! k) (j + 1) loopEnd"
  have exit: ?case if "region_loop c t loopEnd i fb fe delta = (fb', fe', delta)"
      "region_inv c t s v fs loopEnd fb' fe'" for fb' fe'
    using that by (intro exI [of _ "[]"]) auto
  consider "i = loopEnd" | "i < loopEnd" "c ! i \<noteq> t ! i \<and> j \<ge> loopEnd" | "i < loopEnd" "\<not> (c ! i \<noteq> t ! i \<and> j \<ge> loopEnd)"
    using less.prems by linarith
  then show ?case
  proof cases
    case 1
    with less.prems show ?thesis by (intro exit [of fb fe]) (simp_all add: region_loop.simps [of c t loopEnd loopEnd])
  next
    case 2
    then have "region_loop c t loopEnd i fb fe delta = (b, None, delta)"
      by (simp add: region_loop_round [OF 2(1) j_def b_def k_def])
    with 2 region_round(2,3) [OF less.prems(1) _ j_def b_def k_def] show ?thesis by (intro exit) auto
  next
    case 3
    have ij: "i \<le> j" by (rule region_round [OF less.prems(1) 3(1) j_def b_def k_def])
    have jl: "j < loopEnd" using 3 by (auto simp: j_def)
    note r = region_round(4) [OF less.prems(1) 3(1) j_def b_def k_def jl]
    have smaller: "loopEnd - k < loopEnd - i" using ij r by (auto intro!: diff_less_mono2)
    have run: "region_loop c t loopEnd i fb fe delta =
        (case b of Some b \<Rightarrow> if k - j > MATCH_THRESHOLD
                     then region_loop c t loopEnd k None None (delta @ frag_bytes t [(b, j - b)])
                     else region_loop c t loopEnd k (Some b) (Some j) delta
                 | None \<Rightarrow> region_loop c t loopEnd k None (Some j) delta)"
      using region_loop_round [OF 3(1) j_def b_def k_def, of fe delta] 3(2)
      by (simp only: writeFragment_frags if_False)
    show ?thesis
    proof (cases "\<exists>a. b = Some a \<and> k - j > MATCH_THRESHOLD")
      case True
      then obtain a where a: "b = Some a" "k - j > MATCH_THRESHOLD" by auto
      with r have "region_inv c t s v (fs @ [(a, j - a)]) k None None" by (intro region_inv_write) auto
      from less.hyps [OF smaller this, of "delta @ frag_bytes t [(a, j - a)]"] r obtain gs fb' fe' where
        "region_loop c t loopEnd k None None (delta @ frag_bytes t [(a, j - a)]) =
           (fb', fe', (delta @ frag_bytes t [(a, j - a)]) @ frag_bytes t gs)"
        "region_inv c t s v ((fs @ [(a, j - a)]) @ gs) loopEnd fb' fe'" by blast
      then show ?thesis unfolding run using a by (intro exI [of _ "(a, j - a) # gs"]) auto
    next
      case False
      then have "region_loop c t loopEnd i fb fe delta = region_loop c t loopEnd k b (Some j) delta"
        unfolding run by (auto split: option.splits)
      with less.hyps [OF smaller, of fs b "Some j" delta] r show ?thesis by simp
    qed
  qed
qed


lemma region_delta_ok:
  assumes "ts \<le> te" "vs \<le> te" "vs \<le> ve" "ts \<le> ve"
  shows "\<exists>fs. computeRegionDelta delta c t ts te vs ve = delta @ frag_bytes t fs \<and> frags_in ts te fs \<and>
    (\<forall>a. ts \<le> a \<and> a < te \<longrightarrow> covered fs a \<or> vs \<le> a \<and> a < ve \<and> c ! a = t ! a) \<and>
    frags_size fs \<le> te - ts + FRAGMENT_HEADER_SIZE"
proof -
  let ?fb = "if vs > ts then Some ts else None"
  let ?stop = "min te ve"
  have "region_inv c t ts vs [] (max vs ts) ?fb None" by (auto simp: region_inv_def)
  from region_loop_ok [OF this, of ?stop delta] assms obtain gs fb fe where
    loop: "region_loop c t ?stop (max vs ts) ?fb None delta = (fb, fe, delta @ frag_bytes t gs)"
    and inv: "region_inv c t ts vs gs ?stop fb fe" by auto
  have max: "(if vs > ts then vs else ts) = max vs ts" by (simp add: max_def)
  let ?b = "if ?stop < te \<and> fb = None then Some ?stop else fb"
  let ?e = "if ?stop < te then te else case fe of None \<Rightarrow> te | Some e \<Rightarrow> e"
  have run: "computeRegionDelta delta c t ts te vs ve =
      delta @ frag_bytes t (gs @ (case ?b of None \<Rightarrow> [] | Some b \<Rightarrow> [(b, ?e - b)]))"
    unfolding computeRegionDelta_def Let_def max loop
    by (auto simp: writeFragment_frags split: option.splits)
  define fs where "fs = gs @ (case ?b of None \<Rightarrow> [] | Some b \<Rightarrow> [(b, ?e - b)])"
  have b: "ts \<le> b \<and> b \<le> ?e \<and> ?e \<le> te \<and> ts + frags_size gs \<le> b" if "?b = Some b" for b
    using inv that assms unfolding region_inv_def by (cases fe; cases fb) (auto split: if_splits)
  have "covered fs a \<or> vs \<le> a \<and> a < ve \<and> c ! a = t ! a" if a: "ts \<le> a" "a < te" for a
  proof (cases "a < ?stop")
    case True
    then have "covered gs a \<or> (\<exists>b. fb = Some b \<and> b \<le> a) \<or> vs \<le> a \<and> c ! a = t ! a"
      using inv a unfolding region_inv_def by blast
    moreover have "a < ?e \<or> vs \<le> a \<and> c ! a = t ! a"
      using inv a True unfolding region_inv_def by (cases fe) auto
    ultimately show ?thesis using True by (auto simp: fs_def split: option.splits)
  next
    case False
    with a have "?stop < te" "?e = te" by auto
    moreover have "\<exists>b. ?b = Some b \<and> b \<le> ?stop"
    proof (cases fb)
      case None
      with \<open>?stop < te\<close> show ?thesis by simp
    next
      case (Some b)
      with inv show ?thesis unfolding region_inv_def by simp
    qed
    ultimately show ?thesis using False a by (auto simp: fs_def)
  qed
  moreover have "frags_in ts te fs"
    using inv b unfolding region_inv_def fs_def by (auto intro: frags_in_mono split: option.splits)
  moreover have "frags_size fs \<le> te - ts + FRAGMENT_HEADER_SIZE"
    using inv b assms unfolding region_inv_def fs_def by (auto split: option.splits)
  ultimately show ?thesis using run unfolding fs_def by blast
qed


section \<open>Replay of a page\<close>

definition page_bytes :: "bytes \<Rightarrow> bool" where
  "page_bytes p \<longleftrightarrow> length p = BLCKSZ \<and> lower_of p \<le> upper_of p \<and> upper_of p \<le> BLCKSZ"

text \<open>Two pages that agree outside the hole of the first.\<close>

definition same_outside_hole :: "bytes \<Rightarrow> bytes \<Rightarrow> bool" where
  "same_outside_hole p q \<longleftrightarrow> length q = length p \<and>
     (\<forall>a < length p. a < lower_of p \<or> upper_of p \<le> a \<longrightarrow> q ! a = p ! a)"

lemma computeDelta_frags:
  assumes "page_bytes c" "page_bytes t"
  obtains fs where "computeDelta c t = frag_bytes t fs" "frags_in 0 BLCKSZ fs"
    "\<And>a. a < BLCKSZ \<Longrightarrow> a < lower_of t \<or> upper_of t \<le> a \<Longrightarrow>
      covered fs a \<or> (a < lower_of c \<or> upper_of c \<le> a) \<and> c ! a = t ! a"
    "frags_size fs \<le> lower_of t + (BLCKSZ - upper_of t) + 2 * FRAGMENT_HEADER_SIZE"
proof -
  have c: "lower_of c \<le> upper_of c" "upper_of c \<le> BLCKSZ"
    and t: "lower_of t \<le> upper_of t" "upper_of t \<le> BLCKSZ" using assms by (auto simp: page_bytes_def)
  obtain fs where fs: "computeRegionDelta [] c t 0 (lower_of t) 0 (lower_of c) = [] @ frag_bytes t fs"
    "frags_in 0 (lower_of t) fs"
    "\<forall>a. 0 \<le> a \<and> a < lower_of t \<longrightarrow> covered fs a \<or> 0 \<le> a \<and> a < lower_of c \<and> c ! a = t ! a"
    "frags_size fs \<le> lower_of t - 0 + FRAGMENT_HEADER_SIZE"
    using region_delta_ok [of 0 "lower_of t" 0 "lower_of c" "[]" c t] by auto
  obtain gs where gs: "computeRegionDelta (frag_bytes t fs) c t (upper_of t) BLCKSZ (upper_of c) BLCKSZ =
      frag_bytes t fs @ frag_bytes t gs" "frags_in (upper_of t) BLCKSZ gs"
    "\<forall>a. upper_of t \<le> a \<and> a < BLCKSZ \<longrightarrow> covered gs a \<or> upper_of c \<le> a \<and> a < BLCKSZ \<and> c ! a = t ! a"
    "frags_size gs \<le> BLCKSZ - upper_of t + FRAGMENT_HEADER_SIZE"
    using region_delta_ok [of "upper_of t" BLCKSZ "upper_of c" BLCKSZ "frag_bytes t fs" c t] c t by auto
  show thesis
  proof (rule that [of "fs @ gs"])
    show "computeDelta c t = frag_bytes t (fs @ gs)" using fs(1) gs(1) by (simp add: computeDelta_def)
    show "frags_in 0 BLCKSZ (fs @ gs)" using fs(2) gs(2) t by (auto intro: frags_in_mono)
    show "covered (fs @ gs) a \<or> (a < lower_of c \<or> upper_of c \<le> a) \<and> c ! a = t ! a"
      if "a < BLCKSZ" "a < lower_of t \<or> upper_of t \<le> a" for a
      using that fs(3) gs(3) by auto
    show "frags_size (fs @ gs) \<le> lower_of t + (BLCKSZ - upper_of t) + 2 * FRAGMENT_HEADER_SIZE"
      using fs(4) gs(4) by simp
  qed
qed

lemma delta_apply:
  assumes "page_bytes c" "page_bytes t" "same_outside_hole c p"
  shows "length (applyPageRedo p (computeDelta c t)) = BLCKSZ" (is "length ?r = _")
    "a < BLCKSZ \<Longrightarrow> a < lower_of t \<or> upper_of t \<le> a \<Longrightarrow> applyPageRedo p (computeDelta c t) ! a = t ! a"
proof -
  obtain fs where fs: "computeDelta c t = frag_bytes t fs" "frags_in 0 BLCKSZ fs"
    "\<And>a. a < BLCKSZ \<Longrightarrow> a < lower_of t \<or> upper_of t \<le> a \<Longrightarrow>
      covered fs a \<or> (a < lower_of c \<or> upper_of c \<le> a) \<and> c ! a = t ! a"
    using computeDelta_frags [OF assms(1,2)] by metis
  have len: "length t = BLCKSZ" "length p = BLCKSZ" "length c = BLCKSZ"
    using assms by (auto simp: page_bytes_def same_outside_hole_def)
  note app = apply_frags [of t fs p, folded fs(1)]
  show "length ?r = BLCKSZ" using app fs(2) len by (simp add: BLCKSZ_def)
  assume a: "a < BLCKSZ" "a < lower_of t \<or> upper_of t \<le> a"
  have "?r ! a = (if covered fs a then t ! a else p ! a)" using app fs(2) len a by (simp add: BLCKSZ_def)
  then show "?r ! a = t ! a" using fs(3) [OF a] assms(3) len a by (auto simp: same_outside_hole_def)
qed

lemma apply_image_nth:
  assumes "page_bytes c" "page_bytes t"
  shows "length (apply_image c t) = BLCKSZ"
    "a < BLCKSZ \<Longrightarrow> apply_image c t ! a = (if lower_of t \<le> a \<and> a < upper_of t then 0 else t ! a)"
  using assms by (auto simp: apply_image_def page_bytes_def Let_def get_bytes_def length_put_bytes nth_put_bytes)

lemma apply_image_header:
  assumes "page_bytes c" "page_bytes t" "SizeOfPageHeaderData \<le> lower_of t"
  shows "lower_of (apply_image c t) = lower_of t" "upper_of (apply_image c t) = upper_of t"
  using assms(3) apply_image_nth(2) [OF assms(1,2)] by (simp_all add: lower_of_def upper_of_def get16_def page_consts)

text \<open>Replay of the delta and zeroing of the hole gives the page that the change wrote.\<close>

lemma delta_redo:
  assumes "page_bytes c" "page_bytes t" "SizeOfPageHeaderData \<le> lower_of t" "same_outside_hole c p"
    and r: "r = applyPageRedo p (computeDelta c t)"
  shows "put_bytes r (lower_of r) (replicate (upper_of r - lower_of r) 0) = apply_image c t"
proof -
  note d = delta_apply [OF assms(1,2,4), folded r]
  have hdr: "lower_of r = lower_of t" "upper_of r = upper_of t"
    using d(2) assms(3) by (simp_all add: lower_of_def upper_of_def get16_def page_consts)
  have t: "lower_of t \<le> upper_of t" "upper_of t \<le> BLCKSZ" using assms by (auto simp: page_bytes_def)
  show ?thesis unfolding hdr
    by (rule nth_equalityI)
      (use d t apply_image_nth [OF assms(1,2)] in \<open>auto simp: length_put_bytes nth_put_bytes\<close>)
qed

end
