(* ===== verification/TR_GenericXLog.thy ===== *)
theory TR_GenericXLog
  imports TR_Delta
begin

text \<open>
  The generic WAL records of \<^verbatim>\<open>generic_xlog.c\<close>: the construction of a record over up to four buffers and
  its replay. Replaying the record of a change gives the pages the change wrote, whether the record holds
  deltas or images.
  The dirty flags of the buffers are part of the page-level model, where the index writes its records.
\<close>

section \<open>Generic records\<close>

definition MAX_GENERIC_XLOG_PAGES :: nat where "MAX_GENERIC_XLOG_PAGES = 4"
definition GENERIC_XLOG_FULL_IMAGE :: "32 word" where "GENERIC_XLOG_FULL_IMAGE = 0x0001"

text \<open>One entry of the array \<^verbatim>\<open>pages\<close>; \<open>None\<close> is \<^verbatim>\<open>InvalidBuffer\<close>. A buffer is identified with the block it holds.\<close>

record xlog_slot =
  sl_buffer :: "nat option"
  sl_flags :: "32 word"
  sl_image :: bytes
  sl_delta :: bytes

record GenericXLogState =
  gx_pages :: "xlog_slot list"
  gx_isLogged :: bool

text \<open>The memory of the state is not cleared: \<open>mem\<close> is what it holds.\<close>

definition GenericXLogStart :: "(nat \<Rightarrow> xlog_slot) \<Rightarrow> bool \<Rightarrow> GenericXLogState" where
  "GenericXLogStart mem needsWAL =
     \<lparr>gx_pages = map (\<lambda>i. (mem i)\<lparr>sl_buffer := None\<rparr>) [0..<MAX_GENERIC_XLOG_PAGES], gx_isLogged = needsWAL\<rparr>"

text \<open>The search for the entry of the buffer or the first unused one; \<open>None\<close> when all are in use.\<close>

fun register_slot :: "(nat \<Rightarrow> bytes) \<Rightarrow> nat \<Rightarrow> 32 word \<Rightarrow> xlog_slot list \<Rightarrow> (nat \<times> xlog_slot list) option" where
  "register_slot bufs buffer flags [] = None"
| "register_slot bufs buffer flags (page # pages) =
     (if sl_buffer page = None
      then Some (0, page\<lparr>sl_buffer := Some buffer, sl_flags := flags, sl_image := bufs buffer\<rparr> # pages)
      else if sl_buffer page = Some buffer then Some (0, page # pages)
      else map_option (\<lambda>(k, pages). (Suc k, page # pages)) (register_slot bufs buffer flags pages))"

text \<open>The number of the entry whose image the caller modifies, and the state; \<open>None\<close> is the error that
  too many buffers are registered.\<close>

definition GenericXLogRegisterBuffer ::
  "(nat \<Rightarrow> bytes) \<Rightarrow> GenericXLogState \<Rightarrow> nat \<Rightarrow> 32 word \<Rightarrow> (nat \<times> GenericXLogState) option" where
  "GenericXLogRegisterBuffer bufs state buffer flags =
     map_option (\<lambda>(k, pages). (k, state\<lparr>gx_pages := pages\<rparr>)) (register_slot bufs buffer flags (gx_pages state))"

text \<open>The loop that writes the pages and registers them for the record: the block, whether its image
  is forced into the record, and its delta.\<close>

fun finish_pages :: "(nat \<Rightarrow> bytes) \<Rightarrow> xlog_slot list \<Rightarrow> (nat \<Rightarrow> bytes) \<times> (nat \<times> bool \<times> bytes) list" where
  "finish_pages bufs [] = (bufs, [])"
| "finish_pages bufs (page # pages) =
     (case sl_buffer page of
        None \<Rightarrow> finish_pages bufs pages
      | Some b \<Rightarrow>
          let full = sl_flags page AND GENERIC_XLOG_FULL_IMAGE \<noteq> 0;
              delta = (if full then [] else computeDelta (bufs b) (sl_image page))
          in case finish_pages (bufs(b := apply_image (bufs b) (sl_image page))) pages of
               (bufs, regs) \<Rightarrow> (bufs, (b, full, delta) # regs))"

text \<open>
  What \<^verbatim>\<open>XLogInsert\<close> puts in the record of a block: the image of the page when it is forced or when the page has not
  been changed since the last checkpoint, the delta otherwise. \<open>ctl\<close> holds \<^verbatim>\<open>doPageWrites\<close> and \<^verbatim>\<open>RedoRecPtr\<close>. The hole is left
  out of an image and restored as zeroes, which is what it holds.
\<close>

type_synonym insert_ctl = "bool \<times> nat"

datatype block_data = FullImage bytes | BlockDelta bytes

definition needs_backup :: "insert_ctl \<Rightarrow> bool \<Rightarrow> bytes \<Rightarrow> bool" where
  "needs_backup ctl force_image page =
     (if force_image then True
      else if \<not> fst ctl then False
      else PageGetLSN page \<le> snd ctl)"

definition XLogInsert :: "insert_ctl \<Rightarrow> (nat \<Rightarrow> bytes) \<Rightarrow> (nat \<times> bool \<times> bytes) list \<Rightarrow> (nat \<times> block_data) list" where
  "XLogInsert ctl bufs regs =
     map (\<lambda>(b, full, delta). (b, if needs_backup ctl full (bufs b) then FullImage (bufs b) else BlockDelta delta)) regs"

definition set_lsns :: "nat \<Rightarrow> (nat \<Rightarrow> bytes) \<Rightarrow> xlog_slot list \<Rightarrow> nat \<Rightarrow> bytes" where
  "set_lsns lsn bufs pages = fold (\<lambda>page bufs. case sl_buffer page of
     None \<Rightarrow> bufs | Some b \<Rightarrow> bufs(b := PageSetLSN (bufs b) lsn)) pages bufs"

definition copy_images :: "(nat \<Rightarrow> bytes) \<Rightarrow> xlog_slot list \<Rightarrow> nat \<Rightarrow> bytes" where
  "copy_images bufs pages = fold (\<lambda>page bufs. case sl_buffer page of
     None \<Rightarrow> bufs | Some b \<Rightarrow> bufs(b := sl_image page)) pages bufs"

text \<open>The pages after \<^verbatim>\<open>GenericXLogFinish\<close> and the record it wrote, whose position \<^verbatim>\<open>XLogInsert\<close> returned as \<open>lsn\<close>.\<close>

definition GenericXLogFinish_bytes ::
  "insert_ctl \<Rightarrow> nat \<Rightarrow> (nat \<Rightarrow> bytes) \<Rightarrow> GenericXLogState \<Rightarrow> (nat \<Rightarrow> bytes) \<times> (nat \<times> block_data) list option" where
  "GenericXLogFinish_bytes ctl lsn bufs state =
     (if gx_isLogged state then
        case finish_pages bufs (gx_pages state) of
          (bufs, regs) \<Rightarrow> (set_lsns lsn bufs (gx_pages state), Some (XLogInsert ctl bufs regs))
      else (copy_images bufs (gx_pages state), None))"

section \<open>Replay\<close>

datatype XLogRedoAction = BLK_NEEDS_REDO | BLK_DONE | BLK_RESTORED | BLK_NOTFOUND

text \<open>
  \<^verbatim>\<open>XLogReadBufferForRedo\<close>: an image is restored, and gets the position of the record unless the page is new; a block
  that does not exist or that has the change already is skipped.
\<close>

definition XLogReadBufferForRedo :: "nat \<Rightarrow> (nat \<rightharpoonup> bytes) \<Rightarrow> nat \<times> block_data \<Rightarrow> XLogRedoAction \<times> (nat \<rightharpoonup> bytes)" where
  "XLogReadBufferForRedo lsn disk blk =
     (case blk of
        (b, FullImage img) \<Rightarrow> (BLK_RESTORED, disk(b \<mapsto> if upper_of img \<noteq> 0 then PageSetLSN img lsn else img))
      | (b, BlockDelta delta) \<Rightarrow>
          (case disk b of
             None \<Rightarrow> (BLK_NOTFOUND, disk)
           | Some page \<Rightarrow> if lsn \<le> PageGetLSN page then (BLK_DONE, disk) else (BLK_NEEDS_REDO, disk)))"

text \<open>The body of the loop of \<^verbatim>\<open>generic_redo\<close>. The data of a block with an image is not applied.\<close>

definition redo_block :: "nat \<Rightarrow> (nat \<rightharpoonup> bytes) \<Rightarrow> nat \<times> block_data \<Rightarrow> (nat \<rightharpoonup> bytes)" where
  "redo_block lsn disk blk =
     (case XLogReadBufferForRedo lsn disk blk of (action, disk) \<Rightarrow>
        if action = BLK_NEEDS_REDO then
          (case blk of
             (b, BlockDelta delta) \<Rightarrow>
               let page = applyPageRedo (the (disk b)) delta;
                   page = put_bytes page (lower_of page) (replicate (upper_of page - lower_of page) 0)
               in disk(b \<mapsto> PageSetLSN page lsn)
           | _ \<Rightarrow> disk)
        else disk)"

definition generic_redo :: "nat \<Rightarrow> (nat \<rightharpoonup> bytes) \<Rightarrow> (nat \<times> block_data) list \<Rightarrow> (nat \<rightharpoonup> bytes)" where
  "generic_redo lsn disk record = foldl (redo_block lsn) disk record"

lemma redo_block_eq:
  "redo_block lsn disk blk =
     (case blk of
        (b, FullImage img) \<Rightarrow> disk(b \<mapsto> if upper_of img \<noteq> 0 then PageSetLSN img lsn else img)
      | (b, BlockDelta delta) \<Rightarrow>
          (case disk b of
             None \<Rightarrow> disk
           | Some page \<Rightarrow>
               if lsn \<le> PageGetLSN page then disk
               else let page = applyPageRedo page delta;
                        page = put_bytes page (lower_of page) (replicate (upper_of page - lower_of page) 0)
                    in disk(b \<mapsto> PageSetLSN page lsn)))"
  by (simp add: redo_block_def XLogReadBufferForRedo_def split: prod.split block_data.split option.split)

section \<open>Replay of a record\<close>

definition slot_buffers :: "xlog_slot list \<Rightarrow> nat list" where
  "slot_buffers pages = List.map_filter sl_buffer pages"

definition slot_of :: "xlog_slot list \<Rightarrow> nat \<Rightarrow> xlog_slot option" where
  "slot_of pages b = find (\<lambda>page. sl_buffer page = Some b) pages"

lemma slot_buffers_simps [simp]:
  "slot_buffers [] = []"
  "slot_buffers (page # pages) = (case sl_buffer page of None \<Rightarrow> slot_buffers pages | Some b \<Rightarrow> b # slot_buffers pages)"
  by (simp_all add: slot_buffers_def map_filter_simps split: option.splits)

lemma slot_of_simps [simp]:
  "slot_of [] b = None"
  "slot_of (page # pages) b = (if sl_buffer page = Some b then Some page else slot_of pages b)"
  by (simp_all add: slot_of_def)

lemma slot_of_None: "slot_of pages b = None \<longleftrightarrow> b \<notin> set (slot_buffers pages)"
  by (induction pages) (auto split: option.splits)

lemma slot_of_Some: "slot_of pages b = Some page \<Longrightarrow> page \<in> set pages \<and> sl_buffer page = Some b"
  by (induction pages) (auto split: if_splits)

definition slot_entry :: "(nat \<Rightarrow> bytes) \<Rightarrow> nat \<Rightarrow> xlog_slot \<Rightarrow> bool \<times> bytes" where
  "slot_entry bufs b page =
     (let full = sl_flags page AND GENERIC_XLOG_FULL_IMAGE \<noteq> 0
      in (full, if full then [] else computeDelta (bufs b) (sl_image page)))"

lemma finish_pages_eq:
  "distinct (slot_buffers pages) \<Longrightarrow>
   finish_pages bufs pages =
     (\<lambda>b. case slot_of pages b of None \<Rightarrow> bufs b | Some page \<Rightarrow> apply_image (bufs b) (sl_image page),
      map (\<lambda>b. (b, slot_entry bufs b (the (slot_of pages b)))) (slot_buffers pages))"
proof (induction pages arbitrary: bufs)
  case (Cons page pages)
  show ?case
  proof (cases "sl_buffer page")
    case None
    with Cons show ?thesis by (simp add: fun_eq_iff)
  next
    case (Some b)
    with Cons.prems have "b \<notin> set (slot_buffers pages)" "distinct (slot_buffers pages)" by auto
    define bufs1 where "bufs1 = bufs(b := apply_image (bufs b) (sl_image page))"
    have "map (\<lambda>a. (a, slot_entry bufs1 a (the (slot_of pages a)))) (slot_buffers pages) =
        map (\<lambda>a. (a, slot_entry bufs a (the (slot_of (page # pages) a)))) (slot_buffers pages)"
      using Some \<open>b \<notin> _\<close> by (intro map_cong) (auto simp: bufs1_def slot_entry_def Let_def)
    moreover have "(\<lambda>a. case slot_of pages a of None \<Rightarrow> bufs1 a | Some q \<Rightarrow> apply_image (bufs1 a) (sl_image q)) =
        (\<lambda>a. case slot_of (page # pages) a of None \<Rightarrow> bufs a | Some q \<Rightarrow> apply_image (bufs a) (sl_image q))"
    proof (rule ext, goal_cases)
      case (1 a)
      show ?case
        by (cases "a = b") (use Some slot_of_None [THEN iffD2, OF \<open>b \<notin> _\<close>] in \<open>simp_all add: bufs1_def split: option.split\<close>)
    qed
    moreover have "finish_pages bufs (page # pages) =
        (case finish_pages bufs1 pages of (bufs2, regs) \<Rightarrow> (bufs2, (b, slot_entry bufs b page) # regs))"
      using Some by (simp add: Let_def slot_entry_def bufs1_def)
    moreover have "slot_of (page # pages) b = Some page" "slot_buffers (page # pages) = b # slot_buffers pages"
      using Some by simp_all
    ultimately show ?thesis
      using Cons.IH [OF \<open>distinct (slot_buffers pages)\<close>, of bufs1] by (simp only: list.map option.sel prod.case)
  qed
qed simp

lemma set_lsns_eq:
  "distinct (slot_buffers pages) \<Longrightarrow>
   set_lsns lsn bufs pages b = (if b \<in> set (slot_buffers pages) then PageSetLSN (bufs b) lsn else bufs b)"
  by (induction pages arbitrary: bufs) (auto simp: set_lsns_def split: option.splits)

lemma redo_block_other: "b \<noteq> fst e \<Longrightarrow> redo_block lsn disk e b = disk b"
  by (auto simp: redo_block_eq Let_def split: prod.splits block_data.splits option.splits)

lemma redo_block_local: "disk b = disk' b \<Longrightarrow> redo_block lsn disk (b, d) b = redo_block lsn disk' (b, d) b"
  by (auto simp: redo_block_eq Let_def split: block_data.splits option.splits)

lemma generic_redo_eq:
  "distinct (map fst recs) \<Longrightarrow>
   generic_redo lsn disk recs b =
     (case map_of recs b of None \<Rightarrow> disk b | Some d \<Rightarrow> redo_block lsn disk (b, d) b)"
proof (induction recs arbitrary: disk)
  case (Cons e recs)
  obtain b' d where e: "e = (b', d)" by (cases e)
  with Cons have "generic_redo lsn disk (e # recs) b =
      (case map_of recs b of None \<Rightarrow> redo_block lsn disk e b
         | Some d \<Rightarrow> redo_block lsn (redo_block lsn disk e) (b, d) b)"
    by (simp add: generic_redo_def split: option.splits)
  with e Cons.prems show ?case
    using redo_block_local [of "redo_block lsn disk e" b disk] redo_block_other [of b e lsn disk]
    by (cases "b = b'") (auto simp: map_of_eq_None_iff [THEN iffD2] split: option.splits)
qed (simp add: generic_redo_def)

text \<open>The position stored in a page is read back.\<close>

lemma le32_sum: "(n mod 256) + (n div 256 mod 256) * 256 + (n div 65536 mod 256) * 65536 +
    (n div 16777216 mod 256) * 16777216 = n mod 4294967296" for n :: nat
proof -
  have "n mod (256 * 16777216) = 256 * (n div 256 mod 16777216) + n mod 256" for n :: nat
    by (rule mod_mult2_eq)
  moreover have "n mod (256 * 65536) = 256 * (n div 256 mod 65536) + n mod 256" for n :: nat
    by (rule mod_mult2_eq)
  moreover have "n mod (256 * 256) = 256 * (n div 256 mod 256) + n mod 256" for n :: nat
    by (rule mod_mult2_eq)
  ultimately show ?thesis by (simp add: div_mult2_eq [symmetric])
qed

lemma half_word:
  "(\<Sum>k\<leftarrow>[0..<4]. unat (word_of_nat (n div 2 ^ (8 * k)) :: byte) * 2 ^ (8 * k)) = n mod 2 ^ 32"
proof -
  have "[0..<4] = [0, 1, 2, 3 :: nat]" by (simp add: upt_rec)
  then show ?thesis using le32_sum [of n] by (simp add: unat_of_nat)
qed

lemma lsn_bytes_nth:
  assumes "k < 4"
  shows "PageSetLSN p lsn ! k = of_nat (lsn div 2 ^ 32 div 2 ^ (8 * k))"
    "PageSetLSN p lsn ! (4 + k) = of_nat (lsn div 2 ^ (8 * k))"
  using assms by (simp_all add: PageSetLSN_def put_bytes_def lsn_bytes_def nth_append)

lemma PageGetLSN_set:
  assumes "lsn < 2 ^ 64"
  shows "PageGetLSN (PageSetLSN p lsn) = lsn"
proof -
  have "PageGetLSN (PageSetLSN p lsn) = lsn div 2 ^ 32 mod 2 ^ 32 * 2 ^ 32 + lsn mod 2 ^ 32"
    unfolding PageGetLSN_def Let_def half_word [symmetric]
    by (intro arg_cong2 [where f = "(+)"] arg_cong2 [where f = "(*)"] arg_cong [where f = sum_list] map_cong)
      (simp_all add: lsn_bytes_nth)
  moreover have "lsn div 2 ^ 32 mod 2 ^ 32 = lsn div 2 ^ 32" using assms by simp
  ultimately show ?thesis by (simp only: div_mult_mod_eq)
qed

text \<open>The entries in use come first, each for another buffer.\<close>

definition slots_ok :: "xlog_slot list \<Rightarrow> nat list \<Rightarrow> bool" where
  "slots_ok pages bs \<longleftrightarrow> distinct bs \<and> length bs \<le> length pages \<and>
     map sl_buffer pages = map Some bs @ replicate (length pages - length bs) None"

lemma slots_ok_buffers:
  assumes "slots_ok pages bs"
  shows "slot_buffers pages = bs"
proof -
  have "slot_buffers pages = List.map_filter id (map sl_buffer pages)"
    by (induction pages) (simp_all add: map_filter_simps split: option.splits)
  moreover have "List.map_filter id (replicate n None) = ([] :: nat list)" for n
    by (induction n) (simp_all add: map_filter_simps)
  then have "List.map_filter id (map Some bs @ replicate n None) = bs" for n
    by (induction bs) (simp_all add: map_filter_simps)
  ultimately show ?thesis using assms by (simp add: slots_ok_def)
qed

lemma slots_ok_simps:
  "slots_ok (page # pages) [] \<longleftrightarrow> sl_buffer page = None \<and> slots_ok pages []"
  "slots_ok (page # pages) (b # bs) \<longleftrightarrow> sl_buffer page = Some b \<and> b \<notin> set bs \<and> slots_ok pages bs"
  "slots_ok [] bs \<longleftrightarrow> bs = []"
  by (auto simp: slots_ok_def)

text \<open>A buffer that is registered keeps its entry, another one takes the first free entry.\<close>

lemma register_slot_ok:
  "slots_ok pages bs \<Longrightarrow>
   (case register_slot bufs b flags pages of
      None \<Rightarrow> b \<notin> set bs \<and> length bs = length pages
    | Some (k, pages') \<Rightarrow> length pages' = length pages \<and>
        (if b \<in> set bs then pages' = pages else slots_ok pages' (bs @ [b])))"
proof (induction pages arbitrary: bs)
  case (Cons page pages)
  show ?case
  proof (cases bs)
    case Nil
    with Cons.prems show ?thesis by (simp add: slots_ok_simps)
  next
    case (Cons c cs)
    with Cons.prems Cons.IH [of cs] show ?thesis
      by (auto simp: slots_ok_simps split: option.splits if_splits)
  qed
qed (simp add: slots_ok_simps)

section \<open>Properties\<close>

text \<open>The blocks of a change: every registered page is a page image, the new image has a header, and the
  block on disk agrees with the buffer before the change outside the hole and does not yet have the
  change.\<close>

definition change_ok :: "nat \<Rightarrow> (nat \<Rightarrow> bytes) \<Rightarrow> (nat \<rightharpoonup> bytes) \<Rightarrow> GenericXLogState \<Rightarrow> bool" where
  "change_ok lsn bufs disk state \<longleftrightarrow> gx_isLogged state \<and> distinct (slot_buffers (gx_pages state)) \<and>
     (\<forall>page\<in>set (gx_pages state). \<forall>b. sl_buffer page = Some b \<longrightarrow>
        page_bytes (bufs b) \<and> page_bytes (sl_image page) \<and> SizeOfPageHeaderData \<le> lower_of (sl_image page) \<and>
        (\<exists>p. disk b = Some p \<and> same_outside_hole (bufs b) p \<and> PageGetLSN p < lsn))"

text \<open>The registration of several buffers, one after the other.\<close>

fun register_all :: "(nat \<Rightarrow> bytes) \<Rightarrow> GenericXLogState \<Rightarrow> (nat \<times> 32 word) list \<Rightarrow> GenericXLogState option" where
  "register_all bufs state [] = Some state"
| "register_all bufs state ((b, flags) # regs) =
     (case GenericXLogRegisterBuffer bufs state b flags of
        None \<Rightarrow> None
      | Some (k, state) \<Rightarrow> register_all bufs state regs)"

lemma register_all_ok:
  "slots_ok (gx_pages state) bs \<Longrightarrow>
   (case register_all bufs state regs of
      None \<Rightarrow> card (set bs \<union> fst ` set regs) > length (gx_pages state)
    | Some state' \<Rightarrow> card (set bs \<union> fst ` set regs) \<le> length (gx_pages state) \<and>
        (\<exists>bs'. slots_ok (gx_pages state') bs' \<and> set bs' = set bs \<union> fst ` set regs))"
proof (induction regs arbitrary: state bs)
  case Nil
  then show ?case by (auto simp: slots_ok_def distinct_card)
next
  case (Cons reg regs)
  obtain b flags where reg: "reg = (b, flags)" by (cases reg)
  note r = register_slot_ok [OF Cons.prems, where bufs = bufs and b = b and flags = flags]
  show ?case
  proof (cases "register_slot bufs b flags (gx_pages state)")
    case None
    have "Suc (length bs) = card (set (b # bs))" using r None Cons.prems by (simp add: slots_ok_def distinct_card)
    also have "\<dots> \<le> card (set bs \<union> fst ` set (reg # regs))" by (intro card_mono) (auto simp: reg)
    finally show ?thesis using r None by (simp add: reg GenericXLogRegisterBuffer_def)
  next
    case (Some a)
    obtain k pages where a: "a = (k, pages)" by (cases a)
    define cs where "cs = (if b \<in> set bs then bs else bs @ [b])"
    have "slots_ok (gx_pages (state\<lparr>gx_pages := pages\<rparr>)) cs" "length pages = length (gx_pages state)"
      using r Some a Cons.prems by (auto simp: cs_def split: if_splits)
    moreover have u: "set bs \<union> fst ` set (reg # regs) = set cs \<union> fst ` set regs" by (auto simp: cs_def reg)
    moreover have "register_all bufs state (reg # regs) = register_all bufs (state\<lparr>gx_pages := pages\<rparr>) regs"
      using Some a reg by (simp add: GenericXLogRegisterBuffer_def)
    ultimately show ?thesis
      using Cons.IH [of "state\<lparr>gx_pages := pages\<rparr>" cs] unfolding u by (simp split: option.splits)
  qed
qed

text \<open>C8. Replay of the record of a change gives, for every block of the record, the page that the change
  left in the buffer, byte by byte, whether the record holds deltas or images and whatever the holes of the
  old blocks held; no other block changes.\<close>

theorem redo_reproduces_change:
  assumes "change_ok lsn bufs disk state" "GenericXLogFinish_bytes ctl lsn bufs state = (bufs', Some recs)"
  shows "generic_redo lsn disk recs b =
    (if b \<in> set (slot_buffers (gx_pages state)) then Some (bufs' b) else disk b)"
proof -
  let ?pages = "gx_pages state"
  let ?bufs = "\<lambda>b. case slot_of ?pages b of None \<Rightarrow> bufs b | Some page \<Rightarrow> apply_image (bufs b) (sl_image page)"
  let ?data = "\<lambda>b. case slot_entry bufs b (the (slot_of ?pages b)) of (full, delta) \<Rightarrow>
    if needs_backup ctl full (?bufs b) then FullImage (?bufs b) else BlockDelta delta"
  have dist: "distinct (slot_buffers ?pages)" and log: "gx_isLogged state"
    using assms(1) by (auto simp: change_ok_def)
  have recs: "recs = map (\<lambda>b. (b, ?data b)) (slot_buffers ?pages)" "bufs' = set_lsns lsn ?bufs ?pages"
    using assms(2) unfolding GenericXLogFinish_bytes_def finish_pages_eq [OF dist]
    by (auto simp: log XLogInsert_def split: prod.splits)
  have redo: "generic_redo lsn disk recs b =
      (if b \<in> set (slot_buffers ?pages) then redo_block lsn disk (b, ?data b) b else disk b)"
    using generic_redo_eq [of recs lsn disk b] dist unfolding recs
    by (simp add: comp_def map_of_map_restrict restrict_map_def)
  show ?thesis
  proof (cases "slot_of ?pages b")
    case None
    then show ?thesis using redo slot_of_None [of ?pages b] by simp
  next
    case (Some page)
    then have b: "b \<in> set (slot_buffers ?pages)" by (metis slot_of_None option.distinct(1))
    obtain p where ok: "page_bytes (bufs b)" "page_bytes (sl_image page)"
        "SizeOfPageHeaderData \<le> lower_of (sl_image page)"
        "disk b = Some p" "same_outside_hole (bufs b) p" "PageGetLSN p < lsn"
      using assms(1) slot_of_Some [OF Some] unfolding change_ok_def by blast
    have "upper_of (apply_image (bufs b) (sl_image page)) \<noteq> 0"
      using ok apply_image_header [OF ok(1-3)] by (auto simp: page_bytes_def page_consts)
    then have "redo_block lsn disk (b, ?data b) b = Some (PageSetLSN (apply_image (bufs b) (sl_image page)) lsn)"
      using Some ok(4,6) delta_redo [OF ok(1-3,5) refl]
      by (simp add: redo_block_eq Let_def slot_entry_def needs_backup_def)
    then show ?thesis using redo b Some by (simp add: recs(2) set_lsns_eq [OF dist])
  qed
qed


text \<open>C27. Replaying a record twice is replaying it once: the position stored in a block tells that it has the
  change.\<close>

theorem redo_idempotent:
  assumes "lsn < 2 ^ 64" "distinct (map fst recs)"
  shows "generic_redo lsn (generic_redo lsn disk recs) recs = generic_redo lsn disk recs"
proof
  fix b
  show "generic_redo lsn (generic_redo lsn disk recs) recs b = generic_redo lsn disk recs b"
  proof (cases "map_of recs b")
    case None
    then show ?thesis by (simp add: generic_redo_eq [OF assms(2)])
  next
    case (Some d)
    have "redo_block lsn (redo_block lsn disk (b, d)) (b, d) b = redo_block lsn disk (b, d) b"
      using PageGetLSN_set [OF assms(1)]
      by (auto simp: redo_block_eq Let_def split: block_data.splits option.splits)
    with Some show ?thesis
      using redo_block_local [of "generic_redo lsn disk recs" b "redo_block lsn disk (b, d)" lsn d]
      by (simp add: generic_redo_eq [OF assms(2)])
  qed
qed

text \<open>A record can be built for at most four buffers: registering buffers fails exactly when they are more
  than four, and otherwise every buffer has one entry.\<close>

lemma register_buffers:
  "case register_all bufs (GenericXLogStart mem w) regs of
     None \<Rightarrow> card (fst ` set regs) > MAX_GENERIC_XLOG_PAGES
   | Some state \<Rightarrow> card (fst ` set regs) \<le> MAX_GENERIC_XLOG_PAGES \<and>
       distinct (slot_buffers (gx_pages state)) \<and> set (slot_buffers (gx_pages state)) = fst ` set regs"
proof -
  have "slots_ok (gx_pages (GenericXLogStart mem w)) []"
    by (auto simp: slots_ok_def GenericXLogStart_def map_replicate_const comp_def)
  note ok = register_all_ok [OF this, where bufs = bufs and regs = regs]
  have len: "length (gx_pages (GenericXLogStart mem w)) = MAX_GENERIC_XLOG_PAGES"
    by (simp add: GenericXLogStart_def)
  show ?thesis
  proof (cases "register_all bufs (GenericXLogStart mem w) regs")
    case None
    with ok len show ?thesis by simp
  next
    case (Some state)
    with ok len obtain bs where "slots_ok (gx_pages state) bs" "set bs = fst ` set regs"
        "card (fst ` set regs) \<le> MAX_GENERIC_XLOG_PAGES" by auto
    with Some slots_ok_buffers [of "gx_pages state" bs] show ?thesis by (simp add: slots_ok_def)
  qed
qed

text \<open>C28. The delta of a change is at most two fragment headers longer than the part of the new page
  outside its hole, and so fits the buffer for it.\<close>

theorem delta_fits:
  assumes "page_bytes c" "page_bytes t"
  shows "length (computeDelta c t) \<le> lower_of t + (BLCKSZ - upper_of t) + 2 * FRAGMENT_HEADER_SIZE \<and>
    length (computeDelta c t) \<le> MAX_DELTA_SIZE"
proof -
  obtain fs where fs: "computeDelta c t = frag_bytes t fs" "frags_in 0 BLCKSZ fs"
    "frags_size fs \<le> lower_of t + (BLCKSZ - upper_of t) + 2 * FRAGMENT_HEADER_SIZE"
    using computeDelta_frags [OF assms] by metis
  then show ?thesis
    using assms length_frag_bytes [of 0 t fs] by (auto simp: page_bytes_def MAX_DELTA_SIZE_def)
qed

section \<open>An example\<close>

text \<open>An empty page and the page with one line pointer and an item of eight bytes.\<close>

definition sample_image :: "nat \<Rightarrow> nat \<Rightarrow> bytes" where
  "sample_image lower upper = put_bytes (replicate BLCKSZ 0) 12 (le16 lower @ le16 upper)"

definition sample_change :: GenericXLogState where
  "sample_change = \<lparr>gx_pages = [\<lparr>sl_buffer = Some 0, sl_flags = 0, sl_image = sample_image 28 8184, sl_delta = []\<rparr>],
     gx_isLogged = True\<rparr>"

lemma sample_image_ok:
  assumes "lower \<le> upper" "upper \<le> BLCKSZ"
  shows "page_bytes (sample_image lower upper)" "lower_of (sample_image lower upper) = lower"
    "PageGetLSN (sample_image lower upper) = 0"
proof -
  have nth: "sample_image lower upper ! k =
      (if 12 \<le> k \<and> k < 16 then (le16 lower @ le16 upper) ! (k - 12) else 0)" if "k < BLCKSZ" for k
    using that by (auto simp: sample_image_def nth_put_bytes BLCKSZ_def)
  have hdr: "lower_of (sample_image lower upper) = lower" "upper_of (sample_image lower upper) = upper"
    using assms by (auto simp: lower_of_def upper_of_def get16_def nth le16_def unat_of_nat BLCKSZ_def)
  show "lower_of (sample_image lower upper) = lower" by (rule hdr)
  show "page_bytes (sample_image lower upper)"
    using assms hdr by (simp add: page_bytes_def sample_image_def length_put_bytes BLCKSZ_def)
  show "PageGetLSN (sample_image lower upper) = 0"
    by (simp add: PageGetLSN_def Let_def nth BLCKSZ_def sum_list_0 cong: map_cong)
qed

lemma sample_change_ok: "change_ok 1 (\<lambda>_. sample_image 24 8192) [0 \<mapsto> sample_image 24 8192] sample_change"
  using sample_image_ok [of 24 8192] sample_image_ok [of 28 8184]
  by (auto simp: change_ok_def sample_change_def page_consts same_outside_hole_def)

theorem redo_reproduces_change_witness:
  "\<exists>bufs' recs. GenericXLogFinish_bytes (True, 0) 1 (\<lambda>_. sample_image 24 8192) sample_change = (bufs', Some recs) \<and>
     generic_redo 1 [0 \<mapsto> sample_image 24 8192] recs 0 = Some (bufs' 0)"
proof -
  obtain bufs' recs where
    "GenericXLogFinish_bytes (True, 0) 1 (\<lambda>_. sample_image 24 8192) sample_change = (bufs', Some recs)"
    by (auto simp: GenericXLogFinish_bytes_def sample_change_def split: prod.splits)
  with redo_reproduces_change [OF sample_change_ok this, of 0] show ?thesis
    by (auto simp: sample_change_def)
qed

theorem redo_idempotent_witness:
  "generic_redo 1 (generic_redo 1 [0 \<mapsto> sample_image 24 8192] [(0, FullImage (sample_image 28 8184))])
     [(0, FullImage (sample_image 28 8184))] =
   generic_redo 1 [0 \<mapsto> sample_image 24 8192] [(0, FullImage (sample_image 28 8184))]"
  by (rule redo_idempotent) simp_all

theorem delta_fits_witness:
  "length (computeDelta (sample_image 24 8192) (sample_image 28 8184)) \<le> MAX_DELTA_SIZE"
  using delta_fits [of "sample_image 24 8192" "sample_image 28 8184"] sample_image_ok(1) [of 24 8192]
    sample_image_ok(1) [of 28 8184] by (simp add: BLCKSZ_def)

end
