(* ===== verification/TR_Compact.thy ===== *)
theory TR_Compact
  imports TR_Bufpage
begin

text \<open>
  Removing several items of a page at once and closing the gaps (\<^verbatim>\<open>compactify_tuples\<close> and
  \<^verbatim>\<open>PageIndexMultiDelete\<close> of \<^verbatim>\<open>bufpage.c\<close>). The delayed block moves of the compaction put every item
  at its place with its bytes unchanged, in both variants, and removing items at once leaves the same items as removing them one by one.
\<close>

section \<open>Compaction\<close>

record itemIdCompactData =
  offsetindex :: nat
  itemoff :: nat
  alignedlen :: nat

definition sizeof_IndexTupleData :: nat where "sizeof_IndexTupleData = 8"

definition MaxIndexTuplesPerPage :: nat where
  "MaxIndexTuplesPerPage = (BLCKSZ - SizeOfPageHeaderData) div (MAXALIGN (sizeof_IndexTupleData + 1) + sizeof_ItemIdData)"

text \<open>Copying from another buffer.\<close>

definition copy_from :: "(nat \<Rightarrow> 'a) \<Rightarrow> (nat \<Rightarrow> 'a) \<Rightarrow> nat \<Rightarrow> nat \<Rightarrow> nat \<Rightarrow> nat \<Rightarrow> 'a" where
  "copy_from buf m dst src n = (\<lambda>a. if dst \<le> a \<and> a < dst + n then buf (src + (a - dst)) else m a)"

text \<open>The items at the end of the page that are in place already: the new end of the free space, the
  item at which the loop stopped, and the items from there on.\<close>

fun skip_placed :: "nat \<Rightarrow> itemIdCompactData \<Rightarrow> itemIdCompactData list \<Rightarrow> nat \<times> itemIdCompactData \<times> itemIdCompactData list" where
  "skip_placed upper i its =
     (if upper \<noteq> itemoff i + alignedlen i then (upper, i, i # its)
      else case its of
             [] \<Rightarrow> (upper - alignedlen i, i, [])
           | j # js \<Rightarrow> skip_placed (upper - alignedlen i) j js)"

text \<open>The main loop with the final move: the pending chunk is \<open>[head, tail)\<close>; \<open>copy\<close> moves within the page or from the
  temporary buffer.\<close>

fun compact_loop ::
  "((nat \<Rightarrow> 'b) \<Rightarrow> nat \<Rightarrow> nat \<Rightarrow> nat \<Rightarrow> nat \<Rightarrow> 'b) \<Rightarrow> itemIdCompactData list \<Rightarrow> nat \<Rightarrow> nat \<Rightarrow> nat \<Rightarrow> (nat \<Rightarrow> 'b) \<Rightarrow>
   (nat \<Rightarrow> ItemIdData) \<Rightarrow> nat \<times> (nat \<Rightarrow> 'b) \<times> (nat \<Rightarrow> ItemIdData)" where
  "compact_loop copy [] upper head tail cells linp = (upper, copy cells upper head (tail - head), linp)"
| "compact_loop copy (i # its) upper head tail cells linp =
     (let gap = (head \<noteq> itemoff i + alignedlen i);
          cells = (if gap then copy cells upper head (tail - head) else cells);
          tail = (if gap then itemoff i + alignedlen i else tail);
          upper = upper - alignedlen i;
          head = itemoff i;
          linp = linp(offsetindex i := (linp (offsetindex i))\<lparr>lp_off := upper\<rparr>)
      in compact_loop copy its upper head tail cells linp)"

text \<open>The temporary buffer holds \<open>scratch\<close> at first.\<close>

definition compactify_tuples ::
  "(nat \<Rightarrow> 'b) \<Rightarrow> itemIdCompactData list \<Rightarrow> ('b, 's) PageData \<Rightarrow> bool \<Rightarrow> ('b, 's) PageData" where
  "compactify_tuples scratch itemidbase p presorted =
     (if presorted then
        case skip_placed (pd_special p) (hd itemidbase) (tl itemidbase) of
          (upper, itemidptr, items) \<Rightarrow>
            let start = itemoff itemidptr + alignedlen itemidptr in
            case compact_loop memmove items upper start start (pd_cells p) (pd_linp p) of
              (upper, cells, linp) \<Rightarrow> p\<lparr>pd_cells := cells, pd_linp := linp, pd_upper := upper\<rparr>
      else
        case (if length itemidbase < PageGetMaxOffsetNumber p div 4
              then (foldl (\<lambda>scratch i. copy_from (pd_cells p) scratch (itemoff i) (itemoff i) (alignedlen i)) scratch itemidbase,
                    pd_special p, hd itemidbase, itemidbase)
              else case skip_placed (pd_special p) (hd itemidbase) (tl itemidbase) of
                     (upper, itemidptr, items) \<Rightarrow>
                       (copy_from (pd_cells p) scratch (pd_upper p) (pd_upper p) (upper - pd_upper p), upper, itemidptr, items)) of
          (scratch, upper, itemidptr, items) \<Rightarrow>
            let start = itemoff itemidptr + alignedlen itemidptr in
            case compact_loop (copy_from scratch) items upper start start (pd_cells p) (pd_linp p) of
              (upper, cells, linp) \<Rightarrow> p\<lparr>pd_cells := cells, pd_linp := linp, pd_upper := upper\<rparr>)"

section \<open>Deleting several items\<close>

text \<open>Deleting them one by one.\<close>

fun delete_each :: "('b, 's) PageData \<Rightarrow> nat list \<Rightarrow> pg_error + ('b, 's) PageData" where
  "delete_each p [] = Inr p"
| "delete_each p (offnum # offnums) =
     (case PageIndexTupleDelete p offnum of Inl e \<Rightarrow> Inl e | Inr p \<Rightarrow> delete_each p offnums)"

text \<open>The scan of the line pointers: the item numbers not met yet, whether the kept items are sorted, and for each kept item its entry for the
  compaction and its line pointer. Writing beyond the arrays is an error of its own.\<close>

fun multi_scan ::
  "('b, 's) PageData \<Rightarrow> nat list \<Rightarrow> nat list \<Rightarrow> nat \<Rightarrow> bool \<Rightarrow> (itemIdCompactData \<times> ItemIdData) list \<Rightarrow>
   pg_error + nat list \<times> bool \<times> (itemIdCompactData \<times> ItemIdData) list" where
  "multi_scan p [] itemnos last_offset presorted kept = Inr (itemnos, presorted, kept)"
| "multi_scan p (offnum # offnums) itemnos last_offset presorted kept =
     (let lp = PageGetItemId p offnum; size = lp_len lp; offset = lp_off lp
      in if offset < pd_upper p \<or> offset + size > pd_special p \<or> offset \<noteq> MAXALIGN offset then Inl CorruptLinePointer
         else if itemnos \<noteq> [] \<and> offnum = hd itemnos then multi_scan p offnums (tl itemnos) last_offset presorted kept
         else if length kept \<ge> MaxIndexTuplesPerPage then Inl ArrayOverrun
         else multi_scan p offnums itemnos (if last_offset > offset then offset else last_offset)
                (if last_offset > offset then presorted else False)
                (kept @ [(\<lparr>offsetindex = length kept, itemoff = offset, alignedlen = MAXALIGN size\<rparr>, lp)]))"

definition PageIndexMultiDelete ::
  "(nat \<Rightarrow> 'b) \<Rightarrow> ('b, 's) PageData \<Rightarrow> nat list \<Rightarrow> pg_error + ('b, 's) PageData" where
  "PageIndexMultiDelete scratch p itemnos =
     (if length itemnos \<le> 2 then delete_each p (rev itemnos)
      else if corrupted_page_pointers p then Inl CorruptPagePointers
      else case multi_scan p [FirstOffsetNumber..<PageGetMaxOffsetNumber p + 1] itemnos (pd_special p) True [] of
             Inl e \<Rightarrow> Inl e
           | Inr (left, presorted, kept) \<Rightarrow>
               if left \<noteq> [] then Inl IncorrectOffsets
               else if sum_list (map (alignedlen \<circ> fst) kept) > pd_special p - pd_lower p then Inl CorruptItemLengths
               else
                 let p = p\<lparr>pd_linp := memcpy (pd_linp p) 0 (map snd kept),
                           pd_lower := SizeOfPageHeaderData + length kept * sizeof_ItemIdData\<rparr>
                 in Inr (if kept \<noteq> [] then compactify_tuples scratch (map fst kept) p presorted
                         else p\<lparr>pd_upper := pd_special p\<rparr>))"

section \<open>The loop puts the items in place\<close>

text \<open>Where the items go, and the line pointers that say so.\<close>

fun targets :: "nat \<Rightarrow> itemIdCompactData list \<Rightarrow> nat list" where
  "targets upper [] = []"
| "targets upper (i # its) = (upper - alignedlen i) # targets (upper - alignedlen i) its"

fun set_targets :: "(nat \<Rightarrow> ItemIdData) \<Rightarrow> itemIdCompactData list \<Rightarrow> nat list \<Rightarrow> nat \<Rightarrow> ItemIdData" where
  "set_targets linp (i # its) (t # ts) = set_targets (linp(offsetindex i := (linp (offsetindex i))\<lparr>lp_off := t\<rparr>)) its ts"
| "set_targets linp _ _ = linp"

abbreviation total_len :: "itemIdCompactData list \<Rightarrow> nat" where
  "total_len its \<equiv> sum_list (map alignedlen its)"

definition moved :: "(nat \<Rightarrow> 'b) \<Rightarrow> (nat \<Rightarrow> 'b) \<Rightarrow> itemIdCompactData list \<Rightarrow> nat list \<Rightarrow> bool" where
  "moved old new its ts \<longleftrightarrow> (\<forall>(i, t) \<in> set (zip its ts). \<forall>j < alignedlen i. new (t + j) = old (itemoff i + j))"

lemma compact_loop_ok:
  assumes "compact_loop (copy_from buf) its upper head tail cells linp = (upper', cells', linp')" "total_len its \<le> upper" "head \<le> tail"
  shows "upper' = upper - total_len its \<and> linp' = set_targets linp its (targets upper its) \<and> moved buf cells' its (targets upper its) \<and>
    (\<forall>a < tail - head. cells' (upper + a) = buf (head + a)) \<and> (\<forall>a \<ge> upper + (tail - head). cells' a = cells a)"
  using assms
proof (induction its arbitrary: upper head tail cells linp)
  case Nil
  then show ?case by (auto simp: copy_from_def moved_def)
next
  case (Cons i its)
  define up1 where "up1 = upper - alignedlen i"
  define linp1 where "linp1 = linp(offsetindex i := (linp (offsetindex i))\<lparr>lp_off := up1\<rparr>)"
  have up: "upper = up1 + alignedlen i" "total_len its \<le> up1" using Cons.prems(2) by (simp_all add: up1_def)
  have ts: "targets upper (i # its) = up1 # targets up1 its" by (simp add: up1_def)
  have split: "moved buf new (i # its) (up1 # targets up1 its) \<longleftrightarrow>
      (\<forall>j < alignedlen i. new (up1 + j) = buf (itemoff i + j)) \<and> moved buf new its (targets up1 its)" for new
    by (auto simp: moved_def)
  show ?case
  proof (cases "head = itemoff i + alignedlen i")
    case True
    have run: "compact_loop (copy_from buf) its up1 (itemoff i) tail cells linp1 = (upper', cells', linp')"
      using Cons.prems(1) True by (simp add: Let_def up1_def linp1_def)
    have le: "itemoff i \<le> tail" "tail - itemoff i = alignedlen i + (tail - head)" using True Cons.prems(3) by auto
    note ih = Cons.IH [OF run up(2) le(1)]
    have chunk: "cells' (up1 + a) = buf (itemoff i + a)" if "a < alignedlen i + (tail - head)" for a
      using ih le(2) that by simp
    have "cells' (upper + a) = buf (head + a)" if "a < tail - head" for a
      using chunk [of "alignedlen i + a"] that up(1) True by (simp add: add.assoc)
    moreover have "cells' a = cells a" if "a \<ge> upper + (tail - head)" for a
      using ih that up(1) le(2) by (simp add: add.assoc)
    ultimately show ?thesis using ih chunk up(1) unfolding ts split by (simp add: linp1_def fun_upd_def)
  next
    case False
    let ?cells = "copy_from buf cells upper head (tail - head)"
    have run: "compact_loop (copy_from buf) its up1 (itemoff i) (itemoff i + alignedlen i) ?cells linp1 = (upper', cells', linp')"
      using Cons.prems(1) False by (simp add: Let_def up1_def linp1_def)
    note ih = Cons.IH [OF run up(2) le_add1]
    have "cells' a = ?cells a" if "a \<ge> upper" for a using ih that up(1) by simp
    then show ?thesis using ih up(1) unfolding ts split by (auto simp: linp1_def copy_from_def fun_upd_def)
  qed
qed

text \<open>Moves within the page are as good as moves from a copy of the old page, when every item moves up.\<close>

lemma compact_loop_in_place:
  assumes "\<forall>a < tail. cells a = old a" "head \<le> tail" "head \<le> upper"
    and "sorted_wrt (\<lambda>i j. itemoff j + alignedlen j \<le> itemoff i) its" "\<forall>i \<in> set its. itemoff i + alignedlen i \<le> head"
  shows "compact_loop memmove its upper head tail cells linp = compact_loop (copy_from old) its upper head tail cells linp"
  using assms
proof (induction its arbitrary: upper head tail cells linp)
  case Nil
  then show ?case by (auto simp: memmove_def copy_from_def fun_eq_iff)
next
  case (Cons i its)
  have mv: "memmove cells upper head (tail - head) = copy_from old cells upper head (tail - head)"
    using Cons.prems(1) by (auto simp: memmove_def copy_from_def fun_eq_iff)
  have le: "itemoff i + alignedlen i \<le> head" "itemoff i \<le> upper - alignedlen i" using Cons.prems(3,5) by auto
  have rest: "sorted_wrt (\<lambda>i j. itemoff j + alignedlen j \<le> itemoff i) its" "\<forall>j \<in> set its. itemoff j + alignedlen j \<le> itemoff i"
    using Cons.prems(4) by auto
  show ?case
  proof (cases "head = itemoff i + alignedlen i")
    case True
    then have "itemoff i \<le> tail" using Cons.prems(2) by simp
    from Cons.IH [OF Cons.prems(1) this le(2) rest] True show ?thesis by (simp add: Let_def fun_upd_def)
  next
    case False
    have "\<forall>a < itemoff i + alignedlen i. copy_from old cells upper head (tail - head) a = old a"
      using Cons.prems(1-3) le by (auto simp: copy_from_def)
    from Cons.IH [OF this le_add1 le(2) rest] False mv show ?thesis by (simp add: Let_def fun_upd_def)
  qed
qed

lemma length_targets [simp]: "length (targets upper its) = length its"
  by (induction its arbitrary: upper) simp_all

lemma targets_append: "targets upper (its @ js) = targets upper its @ targets (upper - total_len its) js"
  by (induction its arbitrary: upper) simp_all

lemma targets_ge: "t \<in> set (targets upper its) \<Longrightarrow> upper - total_len its \<le> t"
proof (induction its arbitrary: upper)
  case (Cons i its)
  then show ?case by (auto dest: Cons.IH)
qed simp

lemma set_targets_append:
  "length ts = length its \<Longrightarrow> set_targets linp (its @ js) (ts @ us) = set_targets (set_targets linp its ts) js us"
  by (induction linp its ts rule: set_targets.induct) auto

lemma set_targets_placed:
  assumes "\<forall>(i, t) \<in> set (zip its ts). lp_off (linp (offsetindex i)) = t"
  shows "set_targets linp its ts = linp"
  using assms
proof (induction linp its ts rule: set_targets.induct)
  case (1 linp i its t ts)
  then have "linp(offsetindex i := (linp (offsetindex i))\<lparr>lp_off := t\<rparr>) = linp" by auto
  with 1 show ?case by simp
qed auto

lemma skip_placed_ok:
  assumes "skip_placed upper i its = (upper', ptr, rest)" "total_len (i # its) \<le> upper"
  shows "\<exists>ps. i # its = ps @ rest \<and> upper' = upper - total_len ps \<and> map itemoff ps = targets upper ps \<and> (rest \<noteq> [] \<longrightarrow> ptr = hd rest)"
  using assms
proof (induction upper i its rule: skip_placed.induct)
  case (1 upper i its)
  show ?case
  proof (cases "upper = itemoff i + alignedlen i")
    case False
    then show ?thesis using 1(2) by (intro exI [of _ "[]"]) auto
  next
    case True
    show ?thesis
    proof (cases its)
      case Nil
      then show ?thesis using True 1(2) by (intro exI [of _ "[i]"]) auto
    next
      case (Cons j js)
      then obtain ps where "j # js = ps @ rest" "upper' = upper - alignedlen i - total_len ps"
          "map itemoff ps = targets (upper - alignedlen i) ps" "rest \<noteq> [] \<longrightarrow> ptr = hd rest"
        using 1(1) [of j js] 1(2,3) True by auto
      then show ?thesis using Cons True by (intro exI [of _ "i # ps"]) auto
    qed
  qed
qed

declare skip_placed.simps [simp del]

text \<open>What the callers pass: the items of the page that are kept, apart from each other.\<close>

definition compact_items :: "('b, 's) PageData \<Rightarrow> itemIdCompactData list \<Rightarrow> bool \<Rightarrow> bool" where
  "compact_items p its presorted \<longleftrightarrow> its \<noteq> [] \<and> distinct (map offsetindex its) \<and> total_len its \<le> pd_special p \<and>
     sorted_wrt (\<lambda>i j. itemoff i + alignedlen i \<le> itemoff j \<or> itemoff j + alignedlen j \<le> itemoff i) its \<and>
     (\<forall>i \<in> set its. 0 < alignedlen i \<and> pd_upper p \<le> itemoff i \<and> itemoff i + alignedlen i \<le> pd_special p \<and> lp_off (pd_linp p (offsetindex i)) = itemoff i) \<and>
     (presorted \<longrightarrow> sorted_wrt (\<lambda>i j. itemoff j < itemoff i) its)"

definition compacted :: "('b, 's) PageData \<Rightarrow> itemIdCompactData list \<Rightarrow> ('b, 's) PageData \<Rightarrow> bool" where
  "compacted p its p' \<longleftrightarrow> (\<exists>cells. moved (pd_cells p) cells its (targets (pd_special p) its) \<and>
     p' = p\<lparr>pd_cells := cells, pd_linp := set_targets (pd_linp p) its (targets (pd_special p) its),
            pd_upper := pd_special p - total_len its\<rparr>)"

text \<open>A loop that starts after the placed items and copies from a buffer that has the items to move.\<close>

lemma loop_compacts:
  assumes "its = ps @ rest" "map itemoff ps = targets (pd_special p) ps" "total_len its \<le> pd_special p"
    and "\<forall>i \<in> set ps. lp_off (pd_linp p (offsetindex i)) = itemoff i"
    and "\<forall>i \<in> set rest. \<forall>j < alignedlen i. buf (itemoff i + j) = pd_cells p (itemoff i + j)"
    and "compact_loop (copy_from buf) rest (pd_special p - total_len ps) start start (pd_cells p) (pd_linp p) = (upper, cells, linp)"
  shows "compacted p its (p\<lparr>pd_cells := cells, pd_linp := linp, pd_upper := upper\<rparr>)"
proof -
  let ?u = "pd_special p - total_len ps"
  have "total_len rest \<le> ?u" using assms(1,3) by simp
  note loop = compact_loop_ok [OF assms(6) this order_refl]
  have ts: "targets (pd_special p) (ps @ rest) = map itemoff ps @ targets ?u rest"
    using assms(2) by (simp add: targets_append)
  have "set_targets (pd_linp p) ps (map itemoff ps) = pd_linp p"
    using assms(4) by (intro set_targets_placed) (auto simp: zip_map2 zip_same_conv_map)
  then have linp: "linp = set_targets (pd_linp p) its (targets (pd_special p) its)"
    using loop unfolding assms(1) ts by (simp add: set_targets_append)
  have "moved (pd_cells p) cells its (targets (pd_special p) its)"
    unfolding moved_def assms(1) ts
  proof (clarsimp, elim disjE)
    fix i t j assume it: "(i, t) \<in> set (zip ps (map itemoff ps))" and j: "j < alignedlen i"
    have t: "t = itemoff i" using it by (auto simp: zip_map2 zip_same_conv_map)
    moreover have "t \<in> set (targets (pd_special p) ps)" using it unfolding assms(2) by (rule set_zip_rightD)
    ultimately have "?u \<le> t + j" using targets_ge [of t "pd_special p" ps] by simp
    then show "cells (t + j) = pd_cells p (itemoff i + j)" using loop t by simp
  next
    fix i t j assume it: "(i, t) \<in> set (zip rest (targets ?u rest))" and j: "j < alignedlen i"
    then have "i \<in> set rest" by (auto dest: set_zip_leftD)
    with it j loop assms(5) show "cells (t + j) = pd_cells p (itemoff i + j)" by (auto simp: moved_def)
  qed
  with loop linp assms(1) show ?thesis unfolding compacted_def by (intro exI [of _ cells]) simp
qed

lemma descending_apart:
  assumes "sorted_wrt (\<lambda>i j. itemoff i + alignedlen i \<le> itemoff j \<or> itemoff j + alignedlen j \<le> itemoff i) its"
    "sorted_wrt (\<lambda>i j. itemoff j < itemoff i) its"
  shows "sorted_wrt (\<lambda>i j. itemoff j + alignedlen j \<le> itemoff i) its"
  using assms by (induction its) fastforce+

lemma copied_item:
  "foldl (\<lambda>scratch i. copy_from cells scratch (itemoff i) (itemoff i) (alignedlen i)) scratch its a =
     (if \<exists>i \<in> set its. itemoff i \<le> a \<and> a < itemoff i + alignedlen i then cells a else scratch a)"
  by (induction its arbitrary: scratch) (auto simp: copy_from_def)

lemma below_placed:
  assumes "map itemoff ps = targets u ps" "total_len ps \<le> u" "itemoff i + alignedlen i \<le> u" "0 < alignedlen i"
    "\<forall>k \<in> set ps. itemoff k + alignedlen k \<le> itemoff i \<or> itemoff i + alignedlen i \<le> itemoff k"
  shows "itemoff i + alignedlen i \<le> u - total_len ps"
  using assms
proof (induction ps arbitrary: u)
  case (Cons k ps)
  then have k: "itemoff k = u - alignedlen k" "map itemoff ps = targets (u - alignedlen k) ps" "total_len ps \<le> u - alignedlen k" by auto
  have "itemoff i + alignedlen i \<le> u - alignedlen k" using Cons.prems(2-5) k(1) by auto
  from Cons.IH [OF k(2,3) this Cons.prems(4)] Cons.prems(5) show ?case by simp
qed simp

text \<open>The placed items and the rest, which lies below them.\<close>

lemma skip_cases:
  assumes "compact_items p its presorted"
  obtains upper ptr ps rest where "skip_placed (pd_special p) (hd its) (tl its) = (upper, ptr, rest)"
    "its = ps @ rest" "upper = pd_special p - total_len ps" "map itemoff ps = targets (pd_special p) ps"
    "rest \<noteq> [] \<longrightarrow> ptr = hd rest" "\<forall>i \<in> set rest. itemoff i + alignedlen i \<le> upper"
proof -
  have its: "hd its # tl its = its" "total_len its \<le> pd_special p"
      "sorted_wrt (\<lambda>i j. itemoff i + alignedlen i \<le> itemoff j \<or> itemoff j + alignedlen j \<le> itemoff i) its"
    using assms by (simp_all add: compact_items_def)
  have item: "0 < alignedlen i" "itemoff i + alignedlen i \<le> pd_special p" if "i \<in> set its" for i
    using assms that by (auto simp: compact_items_def)
  obtain upper ptr rest where skip: "skip_placed (pd_special p) (hd its) (tl its) = (upper, ptr, rest)"
    by (cases "skip_placed (pd_special p) (hd its) (tl its)")
  from skip_placed_ok [OF this] its(1,2) obtain ps where
      ps: "its = ps @ rest" "upper = pd_special p - total_len ps" "map itemoff ps = targets (pd_special p) ps"
      "rest \<noteq> [] \<longrightarrow> ptr = hd rest" by auto
  have "itemoff i + alignedlen i \<le> upper" if "i \<in> set rest" for i
    unfolding ps(2) using that item [of i] its(2,3) ps(1)
    by (intro below_placed [OF ps(3)]) (auto simp: sorted_wrt_append)
  then show ?thesis using that [OF skip ps] by blast
qed

lemma compact_items_linp: "compact_items p its presorted \<Longrightarrow> i \<in> set its \<Longrightarrow> lp_off (pd_linp p (offsetindex i)) = itemoff i"
  by (simp add: compact_items_def)

lemma compactify_presorted:
  assumes "compact_items p its True"
  shows "compacted p its (compactify_tuples scratch its p True)"
proof -
  obtain upper ptr ps rest where skip: "skip_placed (pd_special p) (hd its) (tl its) = (upper, ptr, rest)"
    and ps: "its = ps @ rest" "upper = pd_special p - total_len ps" "map itemoff ps = targets (pd_special p) ps"
      "rest \<noteq> [] \<longrightarrow> ptr = hd rest" and below: "\<forall>i \<in> set rest. itemoff i + alignedlen i \<le> upper"
    using skip_cases [OF assms] by metis
  let ?s = "itemoff ptr + alignedlen ptr"
  have "sorted_wrt (\<lambda>i j. itemoff j + alignedlen j \<le> itemoff i) its"
    using assms by (intro descending_apart) (simp_all add: compact_items_def)
  then have desc: "sorted_wrt (\<lambda>i j. itemoff j + alignedlen j \<le> itemoff i) rest" using ps(1) by (simp add: sorted_wrt_append)
  have eq: "compact_loop memmove rest upper ?s ?s (pd_cells p) (pd_linp p) =
      compact_loop (copy_from (pd_cells p)) rest upper ?s ?s (pd_cells p) (pd_linp p)"
  proof (cases rest)
    case (Cons i js)
    then show ?thesis using desc below ps(4) by (intro compact_loop_in_place) fastforce+
  qed (simp add: memmove_def copy_from_def)
  obtain u cells linp where run: "compact_loop (copy_from (pd_cells p)) rest upper ?s ?s (pd_cells p) (pd_linp p) = (u, cells, linp)"
    by (cases "compact_loop (copy_from (pd_cells p)) rest upper ?s ?s (pd_cells p) (pd_linp p)")
  have "compacted p its (p\<lparr>pd_cells := cells, pd_linp := linp, pd_upper := u\<rparr>)"
    using run ps(1,2) compact_items_linp [OF assms] assms by (intro loop_compacts [OF ps(1,3)]) (auto simp: compact_items_def)
  then show ?thesis using run eq by (simp add: compactify_tuples_def skip Let_def)
qed

lemma compactify_unsorted:
  assumes "compact_items p its False"
  shows "compacted p its (compactify_tuples scratch its p False)"
proof (cases "length its < PageGetMaxOffsetNumber p div 4")
  case True
  let ?buf = "foldl (\<lambda>scratch i. copy_from (pd_cells p) scratch (itemoff i) (itemoff i) (alignedlen i)) scratch its"
  let ?h = "itemoff (hd its) + alignedlen (hd its)"
  obtain u cells linp where run: "compact_loop (copy_from ?buf) its (pd_special p) ?h ?h (pd_cells p) (pd_linp p) = (u, cells, linp)"
    by (cases "compact_loop (copy_from ?buf) its (pd_special p) ?h ?h (pd_cells p) (pd_linp p)")
  have "total_len its \<le> pd_special p" using assms by (simp add: compact_items_def)
  then have "compacted p its (p\<lparr>pd_cells := cells, pd_linp := linp, pd_upper := u\<rparr>)"
    by (intro loop_compacts [where ps = "[]" and rest = its and buf = ?buf and start = ?h]) (use run in \<open>auto simp: copied_item\<close>)
  then show ?thesis using True run by (simp add: compactify_tuples_def Let_def)
next
  case False
  obtain upper ptr ps rest where skip: "skip_placed (pd_special p) (hd its) (tl its) = (upper, ptr, rest)"
    and ps: "its = ps @ rest" "upper = pd_special p - total_len ps" "map itemoff ps = targets (pd_special p) ps"
    and below: "\<forall>i \<in> set rest. itemoff i + alignedlen i \<le> upper"
    using skip_cases [OF assms] by metis
  let ?buf = "copy_from (pd_cells p) scratch (pd_upper p) (pd_upper p) (upper - pd_upper p)" and ?s = "itemoff ptr + alignedlen ptr"
  obtain u cells linp where run: "compact_loop (copy_from ?buf) rest upper ?s ?s (pd_cells p) (pd_linp p) = (u, cells, linp)"
    by (cases "compact_loop (copy_from ?buf) rest upper ?s ?s (pd_cells p) (pd_linp p)")
  have "?buf (itemoff i + j) = pd_cells p (itemoff i + j)" if "i \<in> set rest" "j < alignedlen i" for i j
  proof -
    have "pd_upper p \<le> itemoff i" using assms ps(1) that(1) by (auto simp: compact_items_def)
    then show ?thesis using bspec [OF below that(1)] that(2) by (simp add: copy_from_def)
  qed
  then have "compacted p its (p\<lparr>pd_cells := cells, pd_linp := linp, pd_upper := u\<rparr>)"
    using run ps(1,2) compact_items_linp [OF assms] assms
    by (intro loop_compacts [OF ps(1,3), where buf = ?buf]) (auto simp: compact_items_def)
  then show ?thesis using False run by (simp add: compactify_tuples_def skip Let_def)
qed

lemma compactify_ok:
  "compact_items p its presorted \<Longrightarrow> compacted p its (compactify_tuples scratch its p presorted)"
  by (cases presorted) (simp_all add: compactify_presorted compactify_unsorted)

section \<open>The page after a compaction\<close>

lemma set_targets_other: "k \<notin> offsetindex ` set its \<Longrightarrow> set_targets linp its ts k = linp k"
  by (induction linp its ts rule: set_targets.induct) auto

lemma set_targets_nth:
  "distinct (map offsetindex its) \<Longrightarrow> length ts = length its \<Longrightarrow> k < length its \<Longrightarrow>
     set_targets linp its ts (offsetindex (its ! k)) = (linp (offsetindex (its ! k)))\<lparr>lp_off := ts ! k\<rparr>"
proof (induction linp its ts arbitrary: k rule: set_targets.induct)
  case (1 linp i its t ts)
  show ?case
  proof (cases k)
    case 0
    then show ?thesis using 1(2) by (simp add: set_targets_other)
  next
    case (Suc j)
    then have "offsetindex (its ! j) \<noteq> offsetindex i" using 1(2,4) by (auto simp: image_iff) (metis nth_mem)
    then show ?thesis using 1(1) [of j] 1(2-4) Suc by (simp add: fun_upd_def)
  qed
qed auto

lemma targets_nth: "k < length its \<Longrightarrow> targets u its ! k = u - total_len (take (Suc k) its)"
proof (induction its arbitrary: u k)
  case (Cons i its)
  then show ?case by (cases k) simp_all
qed simp

section \<open>The scan of the line pointers\<close>

definition compact_entry :: "nat \<times> ItemIdData \<Rightarrow> itemIdCompactData \<times> ItemIdData" where
  "compact_entry x = (\<lparr>offsetindex = fst x, itemoff = lp_off (snd x), alignedlen = MAXALIGN (lp_len (snd x))\<rparr>, snd x)"

lemma multi_scan_ok:
  assumes "distinct offs" "itemnos = filter (\<lambda>o'. o' \<in> S) offs"
    and "\<forall>o' \<in> set offs. item_ok (pd_upper p) (pd_special p) (PageGetItemId p o')"
    and "length kept + length offs \<le> MaxIndexTuplesPerPage"
  defines "lps \<equiv> map (PageGetItemId p) (filter (\<lambda>o'. o' \<notin> S) offs)"
  shows "\<exists>pres'. multi_scan p offs itemnos last_offset pres kept =
      Inr ([], pres', kept @ map compact_entry (List.enumerate (length kept) lps)) \<and>
    (pres' \<longrightarrow> pres \<and> sorted_wrt (\<lambda>a b. b < a) (last_offset # map lp_off lps))"
  unfolding lps_def using assms(1-4)
proof (induction offs arbitrary: itemnos last_offset pres kept)
  case Nil
  then show ?case by simp
next
  case (Cons off offs)
  have lp: "item_ok (pd_upper p) (pd_special p) (PageGetItemId p off)" using Cons.prems(3) by simp
  let ?lp = "PageGetItemId p off"
  have fine: "\<not> (lp_off ?lp < pd_upper p \<or> lp_off ?lp + lp_len ?lp > pd_special p \<or> lp_off ?lp \<noteq> MAXALIGN (lp_off ?lp))"
    using lp MAXALIGN_ge [of "lp_len ?lp"] MAXALIGN_id [of "lp_off ?lp"] by (auto simp: item_ok_def)
  show ?case
  proof (cases "off \<in> S")
    case True
    have "\<exists>pres'. multi_scan p offs (filter (\<lambda>o'. o' \<in> S) offs) last_offset pres kept =
        Inr ([], pres', kept @ map compact_entry (List.enumerate (length kept) (map (PageGetItemId p) (filter (\<lambda>o'. o' \<notin> S) offs)))) \<and>
        (pres' \<longrightarrow> pres \<and> sorted_wrt (\<lambda>a b. b < a) (last_offset # map lp_off (map (PageGetItemId p) (filter (\<lambda>o'. o' \<notin> S) offs))))"
      by (rule Cons.IH) (use Cons.prems in auto)
    then show ?thesis using True fine Cons.prems(2) by (simp add: Let_def)
  next
    case False
    have rem: "itemnos = filter (\<lambda>o'. o' \<in> S) offs" using Cons.prems(2) False by simp
    then have no: "\<not> (itemnos \<noteq> [] \<and> off = hd itemnos)"
      using Cons.prems(1) list.set_sel(1) [of itemnos] by auto
    let ?kept = "kept @ [compact_entry (length kept, ?lp)]"
    let ?last = "if last_offset > lp_off ?lp then lp_off ?lp else last_offset"
    let ?pres = "if last_offset > lp_off ?lp then pres else False"
    let ?lps = "map (PageGetItemId p) (filter (\<lambda>o'. o' \<notin> S) offs)"
    have "\<exists>pres'. multi_scan p offs itemnos ?last ?pres ?kept =
        Inr ([], pres', ?kept @ map compact_entry (List.enumerate (length ?kept) ?lps)) \<and>
        (pres' \<longrightarrow> ?pres \<and> sorted_wrt (\<lambda>a b. b < a) (?last # map lp_off ?lps))"
      by (rule Cons.IH) (use Cons.prems rem in auto)
    then obtain pres' where ih: "multi_scan p offs itemnos ?last ?pres ?kept =
        Inr ([], pres', ?kept @ map compact_entry (List.enumerate (length ?kept) ?lps))"
      "pres' \<longrightarrow> ?pres \<and> sorted_wrt (\<lambda>a b. b < a) (?last # map lp_off ?lps)" by (elim exE conjE)
    have "multi_scan p (off # offs) itemnos last_offset pres kept = multi_scan p offs itemnos ?last ?pres ?kept"
      using fine no Cons.prems(4) by (auto simp: Let_def compact_entry_def)
    moreover have "pres' \<longrightarrow> pres \<and> sorted_wrt (\<lambda>a b. b < a) (last_offset # map lp_off (?lp # ?lps))"
      using ih(2) by (auto split: if_splits)
    ultimately show ?thesis using ih(1) False by (intro exI [of _ pres']) simp
  qed
qed

text \<open>The items numbered in ascending order are what the scan takes out.\<close>

lemma sorted_itemnos:
  assumes "sorted_wrt (<) itemnos" "set itemnos \<subseteq> set [a..<b]"
  shows "itemnos = filter (\<lambda>k. k \<in> set itemnos) [a..<b]"
proof (rule sorted_distinct_set_unique)
  show "sorted itemnos" "distinct itemnos" using assms(1) by (simp_all add: strict_sorted_iff)
  show "set itemnos = set (filter (\<lambda>k. k \<in> set itemnos) [a..<b])" using assms(2) by auto
qed (simp_all add: sorted_wrt_filter)

text \<open>The page with the kept line pointers, before its tuples are moved.\<close>

definition kept_page :: "('b, 's) PageData \<Rightarrow> ItemIdData list \<Rightarrow> ('b, 's) PageData" where
  "kept_page p lps = p\<lparr>pd_linp := memcpy (pd_linp p) 0 lps, pd_lower := SizeOfPageHeaderData + length lps * sizeof_ItemIdData\<rparr>"

abbreviation kept_items :: "ItemIdData list \<Rightarrow> itemIdCompactData list" where
  "kept_items lps \<equiv> map (fst \<circ> compact_entry) (List.enumerate 0 lps)"

abbreviation aligned_sum :: "ItemIdData list \<Rightarrow> nat" where
  "aligned_sum lps \<equiv> sum_list (map (\<lambda>lp. MAXALIGN (lp_len lp)) lps)"

lemma kept_item:
  "k < length lps \<Longrightarrow> kept_items lps ! k = \<lparr>offsetindex = k, itemoff = lp_off (lps ! k), alignedlen = MAXALIGN (lp_len (lps ! k))\<rparr>"
  by (simp add: compact_entry_def nth_enumerate_eq)

lemma kept_offsets: "map offsetindex (kept_items lps) = [0..<length lps]"
  by (rule nth_equalityI) (simp_all add: compact_entry_def nth_enumerate_eq)

lemma kept_lens: "map alignedlen (kept_items lps) = map (\<lambda>lp. MAXALIGN (lp_len lp)) lps"
  by (rule nth_equalityI) (simp_all add: compact_entry_def nth_enumerate_eq)

lemma kept_linp: "k < length lps \<Longrightarrow> pd_linp (kept_page p lps) k = lps ! k"
  by (simp add: kept_page_def memcpy_def)

lemma kept_compact_items:
  assumes "lps \<noteq> []" "list_all (item_ok (pd_upper p) (pd_special p)) lps" "sorted_wrt apart lps" "aligned_sum lps \<le> pd_special p"
    and "presorted \<longrightarrow> sorted_wrt (\<lambda>a b. b < a) (map lp_off lps)"
  shows "compact_items (kept_page p lps) (kept_items lps) presorted"
  unfolding compact_items_def
proof (intro conjI)
  have nth: "list_all (item_ok (pd_upper p) (pd_special p)) lps \<longleftrightarrow> (\<forall>k < length lps. item_ok (pd_upper p) (pd_special p) (lps ! k))"
    by (rule list_all_length)
  show "distinct (map offsetindex (kept_items lps))" by (simp only: kept_offsets distinct_upt)
  show "total_len (kept_items lps) \<le> pd_special (kept_page p lps)"
    using assms(4) by (simp only: kept_lens) (simp add: kept_page_def)
  show "sorted_wrt (\<lambda>i j. itemoff i + alignedlen i \<le> itemoff j \<or> itemoff j + alignedlen j \<le> itemoff i) (kept_items lps)"
    using assms(3) by (auto simp: sorted_wrt_iff_nth_less kept_item apart_def simp del: nth_map)
  show "\<forall>i \<in> set (kept_items lps). 0 < alignedlen i \<and> pd_upper (kept_page p lps) \<le> itemoff i \<and>
      itemoff i + alignedlen i \<le> pd_special (kept_page p lps) \<and> lp_off (pd_linp (kept_page p lps) (offsetindex i)) = itemoff i"
  proof
    fix i assume "i \<in> set (kept_items lps)"
    then obtain k where k: "k < length lps" "i = kept_items lps ! k" by (auto simp only: in_set_conv_nth length_map length_enumerate)
    then have i: "i = \<lparr>offsetindex = k, itemoff = lp_off (lps ! k), alignedlen = MAXALIGN (lp_len (lps ! k))\<rparr>"
      by (simp only: kept_item)
    have ok: "item_ok (pd_upper p) (pd_special p) (lps ! k)" using assms(2) k(1) nth by blast
    show "0 < alignedlen i \<and> pd_upper (kept_page p lps) \<le> itemoff i \<and>
      itemoff i + alignedlen i \<le> pd_special (kept_page p lps) \<and> lp_off (pd_linp (kept_page p lps) (offsetindex i)) = itemoff i"
      using ok MAXALIGN_pos [of "lp_len (lps ! k)"] k(1) unfolding i by (auto simp: item_ok_def kept_page_def memcpy_def)
  qed
  show "presorted \<longrightarrow> sorted_wrt (\<lambda>i j. itemoff j < itemoff i) (kept_items lps)"
    using assms(5) unfolding sorted_wrt_map [of _ lp_off] by (auto simp: sorted_wrt_iff_nth_less kept_item simp del: nth_map)
qed (use assms(1) in \<open>simp add: enumerate_eq_zip\<close>)

text \<open>The page the compaction leaves: packed again, with the items kept.\<close>

lemma kept_targets:
  assumes "k < length lps"
  shows "targets u (kept_items lps) ! k = u - aligned_sum (take (Suc k) lps)"
proof -
  have "total_len (take (Suc k) (kept_items lps)) = aligned_sum (take (Suc k) lps)"
    by (simp only: take_map [symmetric] kept_lens)
  then show ?thesis using assms targets_nth [of k "kept_items lps" u] by (simp del: map_map)
qed

lemma aligned_sum_le: "m \<le> n \<Longrightarrow> aligned_sum (take m lps) \<le> aligned_sum (take n lps)"
  by (auto simp: le_iff_add take_add)

lemma aligned_sum_Suc: "k < length lps \<Longrightarrow> aligned_sum (take (Suc k) lps) = aligned_sum (take k lps) + MAXALIGN (lp_len (lps ! k))"
  by (simp add: take_Suc_conv_app_nth)

lemma aligned_sum_dvd: "8 dvd aligned_sum lps"
  by (induction lps) (simp_all add: MAXALIGN_dvd)

lemma packed_line_pointers:
  assumes "8 dvd special" "aligned_sum lps \<le> special" "list_all (\<lambda>lp. lp_flags lp = LP_NORMAL \<and> 0 < lp_len lp) lps" "length qs = length lps"
    and "\<forall>k < length lps. qs ! k = (lps ! k)\<lparr>lp_off := special - aligned_sum (take (Suc k) lps)\<rparr>"
  shows "list_all (item_ok (special - aligned_sum lps) special) qs \<and> sorted_wrt apart qs \<and> aligned_sum qs = aligned_sum lps"
proof -
  have le: "aligned_sum (take m lps) \<le> aligned_sum lps" for m using aligned_sum_le [of m "max m (length lps)" lps] by simp
  have "item_ok (special - aligned_sum lps) special (qs ! k)" if "k < length qs" for k
  proof -
    have qk: "qs ! k = (lps ! k)\<lparr>lp_off := special - aligned_sum (take (Suc k) lps)\<rparr>" "lp_flags (lps ! k) = LP_NORMAL" "0 < lp_len (lps ! k)"
      using that assms(3-5) by (auto simp: list_all_length)
    have "special - aligned_sum (take (Suc k) lps) + MAXALIGN (lp_len (lps ! k)) \<le> special"
      using that assms(2,4) le [of "Suc k"] aligned_sum_Suc [of k lps] by linarith
    then show ?thesis
      using qk(2,3) le [of "Suc k"] aligned_sum_dvd [of "take (Suc k) lps"] assms(1)
      unfolding qk(1) item_ok_def by (simp add: diff_le_mono2 dvd_diff_nat)
  qed
  moreover have "apart (qs ! i) (qs ! j)" if "i < j" "j < length qs" for i j
  proof -
    have "special - aligned_sum (take (Suc j) lps) + MAXALIGN (lp_len (lps ! j)) \<le> special - aligned_sum (take (Suc i) lps)"
      using that assms(2,4) le [of "Suc j"] aligned_sum_Suc [of j lps] aligned_sum_le [of "Suc i" j lps] by linarith
    then show ?thesis using that assms(4,5) by (simp only: apart_def) simp
  qed
  moreover have "map (\<lambda>lp. MAXALIGN (lp_len lp)) qs = map (\<lambda>lp. MAXALIGN (lp_len lp)) lps"
    using assms(4,5) by (intro nth_equalityI) simp_all
  ultimately show ?thesis by (simp add: list_all_length sorted_wrt_iff_nth_less)
qed

lemma compacted_page:
  assumes ok: "page_ok p" and n: "length lps \<le> PageGetMaxOffsetNumber p"
    and lps: "list_all (item_ok (pd_upper p) (pd_special p)) lps" and sum: "aligned_sum lps \<le> pd_special p - pd_lower p"
    and comp: "compacted (kept_page p lps) (kept_items lps) p'"
  shows "page_ok p' \<and> page_items p' = map (PageGetItem p) lps"
proof -
  let ?ts = "targets (pd_special p) (kept_items lps)"
  obtain cells where mv: "moved (pd_cells p) cells (kept_items lps) ?ts"
    and p': "p' = (kept_page p lps)\<lparr>pd_cells := cells, pd_linp := set_targets (pd_linp (kept_page p lps)) (kept_items lps) ?ts,
        pd_upper := pd_special p - aligned_sum lps\<rparr>"
    using comp unfolding compacted_def kept_lens by (auto simp: kept_page_def)
  have max: "PageGetMaxOffsetNumber p' = length lps"
    unfolding p' by (simp add: PageGetMaxOffsetNumber_def kept_page_def page_consts)
  have q: "line_pointers p' ! k = (lps ! k)\<lparr>lp_off := pd_special p - aligned_sum (take (Suc k) lps)\<rparr>" if "k < length lps" for k
  proof -
    have "set_targets (pd_linp (kept_page p lps)) (kept_items lps) ?ts (offsetindex (kept_items lps ! k)) =
        (pd_linp (kept_page p lps) (offsetindex (kept_items lps ! k)))\<lparr>lp_off := ?ts ! k\<rparr>"
      using that by (intro set_targets_nth) (simp_all only: kept_offsets distinct_upt length_targets length_map length_enumerate)
    then show ?thesis using that max kept_item [of k lps] by (simp only: kept_targets nth_line_pointers) (simp add: p' kept_linp)
  qed
  have flags: "list_all (\<lambda>lp. lp_flags lp = LP_NORMAL \<and> 0 < lp_len lp) lps" using lps by (auto simp: list_all_iff item_ok_def)
  have sp: "8 dvd pd_special p" "pd_lower p \<le> pd_special p" using ok by (auto simp: page_ok_def)
  have "aligned_sum lps \<le> pd_special p" using sum by simp
  then have packed: "list_all (item_ok (pd_upper p') (pd_special p')) (line_pointers p') \<and> sorted_wrt apart (line_pointers p') \<and>
      aligned_sum (line_pointers p') = aligned_sum lps"
    using packed_line_pointers [OF sp(1) _ flags, of "line_pointers p'"] q max by (simp add: p' kept_page_def)
  have "SizeOfPageHeaderData + sizeof_ItemIdData * length lps \<le> pd_lower p" using ok n by (simp add: page_ok_def)
  then have lower: "pd_lower p' = SizeOfPageHeaderData + sizeof_ItemIdData * length lps" "pd_lower p' + aligned_sum lps \<le> pd_special p"
    using sum sp(2) by (simp_all add: p' kept_page_def mult.commute)
  have "page_ok p'"
    unfolding page_ok_def using packed max lower sp ok aligned_sum_dvd [of lps]
    by (simp add: p' kept_page_def page_ok_def PageHasFreeLinePointers_def dvd_diff_nat)
  moreover have "page_items p' = map (PageGetItem p) lps"
  proof (rule nth_equalityI)
    fix k assume "k < length (page_items p')"
    then have k: "k < length lps" using max by simp
    have "(kept_items lps ! k, ?ts ! k) \<in> set (zip (kept_items lps) ?ts)"
      using k by (auto simp: in_set_zip simp del: nth_map map_map)
    then have "cells (?ts ! k + j) = pd_cells p (lp_off (lps ! k) + j)" if "j < lp_len (lps ! k)" for j
      using mv that MAXALIGN_ge [of "lp_len (lps ! k)"] kept_item [OF k] by (fastforce simp: moved_def)
    then have "PageGetItem p' (line_pointers p' ! k) = PageGetItem p (lps ! k)"
      using q [OF k] kept_targets [OF k] by (intro PageGetItem_shift) (simp_all add: p' del: map_map)
    then show "page_items p' ! k = map (PageGetItem p) lps ! k" using k max by (simp add: page_items_def)
  qed (simp add: max)
  ultimately show ?thesis ..
qed

text \<open>Deletion from the highest number down is the deletion of the set.\<close>

lemma nths_below: "length xs \<le> k \<Longrightarrow> nths xs (- insert k B) = nths xs (- B)"
  unfolding nths_def by (intro arg_cong [where f = "map fst"] filter_cong) (auto dest: set_zip_rightD)

lemma nths_without:
  assumes "k < length xs" "\<forall>b \<in> B. b < k"
  shows "nths (take k xs @ drop (Suc k) xs) (- B) = nths xs (- insert k B)"
proof -
  have "{j. j + k \<in> - B} = UNIV" "{j. Suc j + k \<in> - insert k B} = UNIV" using assms(2) by auto
  then have "nths (take k xs @ drop (Suc k) xs) (- B) = nths (take k xs @ xs ! k # drop (Suc k) xs) (- insert k B)"
    using assms(1) by (simp add: nths_append nths_Cons nths_below min_def nths_all)
  then show ?thesis using id_take_nth_drop [OF assms(1)] by simp
qed

lemma delete_each_ok:
  assumes "sorted_wrt (>) offs" "set offs \<subseteq> {1..PageGetMaxOffsetNumber p}" "page_ok p"
  shows "\<exists>p'. delete_each p offs = Inr p' \<and> page_ok p' \<and> page_items p' = nths (page_items p) (- (\<lambda>o'. o' - 1) ` set offs)"
  using assms
proof (induction offs arbitrary: p)
  case Nil
  then show ?case by (simp add: nths_all)
next
  case (Cons off offs)
  obtain k where k: "off = Suc k" "k < PageGetMaxOffsetNumber p" using Cons.prems(2) by (cases off) auto
  obtain q where q: "PageIndexTupleDelete p off = Inr q" "page_ok q"
      "page_items q = take k (page_items p) @ drop (Suc k) (page_items p)"
    using PageIndexTupleDelete_ok [OF Cons.prems(3) k(2)] k(1) by auto
  have "PageGetMaxOffsetNumber q = PageGetMaxOffsetNumber p - 1" using arg_cong [OF q(3), of length] k(2) by simp
  then have "set offs \<subseteq> {1..PageGetMaxOffsetNumber q}" using Cons.prems(1,2) k by fastforce
  from Cons.IH [OF _ this q(2)] Cons.prems(1) obtain p' where p': "delete_each q offs = Inr p'" "page_ok p'"
      "page_items p' = nths (page_items q) (- (\<lambda>o'. o' - 1) ` set offs)" by auto
  moreover have "\<forall>b \<in> (\<lambda>o'. o' - 1) ` set offs. b < k" using Cons.prems(1,2) k by fastforce
  ultimately show ?case using q(1,3) k nths_without [of k "page_items p"] by simp
qed

lemma nths_filter: "nths xs A = map ((!) xs) (filter (\<lambda>k. k \<in> A) [0..<length xs])"
proof -
  have "zip xs [0..<length xs] = map (\<lambda>k. (xs ! k, k)) [0..<length xs]" by (rule nth_equalityI) simp_all
  then show ?thesis by (simp add: nths_def filter_map comp_def)
qed

lemma kept_line_pointers:
  fixes B :: "nat set"
  assumes "page_ok p"
  defines "lps \<equiv> map (pd_linp p) (filter (\<lambda>k. k \<notin> B) [0..<PageGetMaxOffsetNumber p])"
  shows "list_all (item_ok (pd_upper p) (pd_special p)) lps" "sorted_wrt apart lps" "aligned_sum lps \<le> pd_special p - pd_lower p"
    "length lps \<le> PageGetMaxOffsetNumber p" "map (PageGetItem p) lps = nths (page_items p) (- B)"
proof -
  show "list_all (item_ok (pd_upper p) (pd_special p)) lps"
    using page_okD [OF assms(1)] by (auto simp: lps_def list_all_iff)
  have "sorted_wrt apart (map (pd_linp p) [0..<PageGetMaxOffsetNumber p])"
    using assms(1) by (simp add: page_ok_def line_pointers_def)
  then show "sorted_wrt apart lps" unfolding lps_def sorted_wrt_map by (rule sorted_wrt_filter)
  have "aligned_sum lps \<le> aligned_sum (line_pointers p)"
    using sum_list_filter_le_nat [of "\<lambda>k. MAXALIGN (lp_len (pd_linp p k))"] by (simp add: lps_def line_pointers_def comp_def)
  then show "aligned_sum lps \<le> pd_special p - pd_lower p" using assms(1) by (auto simp: page_ok_def)
  show "length lps \<le> PageGetMaxOffsetNumber p"
    using length_filter_le [of "\<lambda>k. k \<notin> B" "[0..<PageGetMaxOffsetNumber p]"] by (simp add: lps_def)
  show "map (PageGetItem p) lps = nths (page_items p) (- B)"
    by (simp add: nths_filter lps_def page_items_def)
qed

lemma multi_scan_kept:
  assumes "page_ok p" "sorted_wrt (<) itemnos" "set itemnos \<subseteq> {1..PageGetMaxOffsetNumber p}" "PageGetMaxOffsetNumber p \<le> MaxIndexTuplesPerPage"
  defines "lps \<equiv> map (pd_linp p) (filter (\<lambda>k. k \<notin> (\<lambda>o'. o' - 1) ` set itemnos) [0..<PageGetMaxOffsetNumber p])"
  shows "\<exists>pres. multi_scan p [FirstOffsetNumber..<PageGetMaxOffsetNumber p + 1] itemnos (pd_special p) True [] =
      Inr ([], pres, map compact_entry (List.enumerate 0 lps)) \<and> (pres \<longrightarrow> sorted_wrt (\<lambda>a b. b < a) (map lp_off lps))"
proof -
  let ?n = "PageGetMaxOffsetNumber p"
  have offs: "[FirstOffsetNumber..<?n + 1] = map Suc [0..<?n]" by (simp add: FirstOffsetNumber_def map_Suc_upt)
  have img: "Suc k \<in> set itemnos \<longleftrightarrow> k \<in> (\<lambda>o'. o' - 1) ` set itemnos" for k
  proof
    assume "k \<in> (\<lambda>o'. o' - 1) ` set itemnos"
    then obtain o' where "o' \<in> set itemnos" "k = o' - 1" by auto
    then show "Suc k \<in> set itemnos" using assms(3) by (cases o') auto
  qed force
  have lps: "map (PageGetItemId p) (filter (\<lambda>o'. o' \<notin> set itemnos) [FirstOffsetNumber..<?n + 1]) = lps"
    unfolding offs lps_def by (simp add: filter_map comp_def img PageGetItemId_def)
  have fine: "\<forall>o' \<in> set [FirstOffsetNumber..<?n + 1]. item_ok (pd_upper p) (pd_special p) (PageGetItemId p o')"
    unfolding offs using page_okD [OF assms(1)] by (auto simp: PageGetItemId_def)
  have nos: "itemnos = filter (\<lambda>o'. o' \<in> set itemnos) [FirstOffsetNumber..<?n + 1]"
    using assms(2,3) by (intro sorted_itemnos) (auto simp: FirstOffsetNumber_def)
  have len: "length ([] :: (itemIdCompactData \<times> ItemIdData) list) + length [FirstOffsetNumber..<?n + 1] \<le> MaxIndexTuplesPerPage"
    using assms(4) by (simp add: FirstOffsetNumber_def del: upt_Suc)
  show ?thesis
    using multi_scan_ok [OF distinct_upt nos fine len, of "pd_special p" True, unfolded lps]
    by (elim ex_forward) (simp del: upt_Suc)
qed

lemma multi_delete_ok:
  assumes "page_ok p" "sorted_wrt (<) itemnos" "set itemnos \<subseteq> {1..PageGetMaxOffsetNumber p}" "PageGetMaxOffsetNumber p \<le> MaxIndexTuplesPerPage"
  shows "\<exists>p'. PageIndexMultiDelete scratch p itemnos = Inr p' \<and> page_ok p' \<and>
    page_items p' = nths (page_items p) (- (\<lambda>o'. o' - 1) ` set itemnos)"
proof (cases "length itemnos \<le> 2")
  case True
  have "sorted_wrt (>) (rev itemnos)" using assms(2) by (simp add: sorted_wrt_rev)
  from delete_each_ok [OF this _ assms(1)] show ?thesis using True assms(3) by (simp add: PageIndexMultiDelete_def)
next
  case False
  define lps where "lps = map (pd_linp p) (filter (\<lambda>k. k \<notin> (\<lambda>o'. o' - 1) ` set itemnos) [0..<PageGetMaxOffsetNumber p])"
  note kept = kept_line_pointers [OF assms(1), of "(\<lambda>o'. o' - 1) ` set itemnos", folded lps_def]
  obtain pres where scan: "multi_scan p [FirstOffsetNumber..<PageGetMaxOffsetNumber p + 1] itemnos (pd_special p) True [] =
      Inr ([], pres, map compact_entry (List.enumerate 0 lps))" "pres \<longrightarrow> sorted_wrt (\<lambda>a b. b < a) (map lp_off lps)"
    using multi_scan_kept [OF assms] unfolding lps_def by blast
  have snds: "map snd (map compact_entry (List.enumerate 0 lps)) = lps" by (simp add: compact_entry_def comp_def)
  have lens: "sum_list (map (alignedlen \<circ> fst) (map compact_entry (List.enumerate 0 lps))) = aligned_sum lps"
    using kept_lens [of lps] by (metis map_map)
  let ?p' = "if lps \<noteq> [] then compactify_tuples scratch (kept_items lps) (kept_page p lps) pres else (kept_page p lps)\<lparr>pd_upper := pd_special p\<rparr>"
  have "PageIndexMultiDelete scratch p itemnos = Inr ?p'"
    using False page_not_corrupted [OF assms(1)] kept(3) lens snds
    unfolding PageIndexMultiDelete_def scan(1) by (simp add: kept_page_def Let_def enumerate_eq_zip del: map_map) simp
  moreover have "compacted (kept_page p lps) (kept_items lps) ?p'"
  proof (cases "lps = []")
    case True
    then show ?thesis by (auto simp: compacted_def moved_def kept_page_def intro!: exI [of _ "pd_cells p"])
  next
    case False
    have "aligned_sum lps \<le> pd_special p" using kept(3) by simp
    from compactify_ok [OF kept_compact_items [OF False kept(1,2) this scan(2)]] False show ?thesis by simp
  qed
  from compacted_page [OF assms(1) kept(4,1,3) this] have "page_ok ?p' \<and> page_items ?p' = map (PageGetItem p) lps" .
  ultimately show ?thesis using kept(5) by auto
qed

text \<open>C19. Deleting several index entries of a page at once gives the items that deleting them one by one, from the last to the first, gives:
  whichever way the tuples are compacted, the page is well formed, keeps the other items in their order, and the deletion succeeds.\<close>

theorem multi_delete_correct:
  assumes "page_ok p" "sorted_wrt (<) itemnos" "set itemnos \<subseteq> {1..PageGetMaxOffsetNumber p}" "PageGetMaxOffsetNumber p \<le> MaxIndexTuplesPerPage"
  shows "\<exists>p' p''. PageIndexMultiDelete scratch p itemnos = Inr p' \<and> page_ok p' \<and>
    delete_each p (rev itemnos) = Inr p'' \<and> page_items p' = page_items p'' \<and>
    page_items p' = nths (page_items p) (- (\<lambda>o'. o' - 1) ` set itemnos)"
proof -
  have "sorted_wrt (>) (rev itemnos)" using assms(2) by (simp add: sorted_wrt_rev)
  from delete_each_ok [OF this _ assms(1)] multi_delete_ok [OF assms, of scratch] show ?thesis using assms(3) by auto
qed

text \<open>A page with given items, to instantiate the theorem.\<close>

lemma page_with:
  assumes "list_all (\<lambda>x. x \<noteq> []) xs" "sum_list (map item_space xs) \<le> 8152"
  shows "\<exists>p :: (nat, nat) PageData. page_ok p \<and> page_items p = xs \<and> page_room p = 8152"
proof -
  define f :: "(nat, nat) PageData \<Rightarrow> nat list \<Rightarrow> pg_error + (nat, nat) PageData" where
    "f = (\<lambda>q x. case PageAddItem q x 0 False False of Inl e \<Rightarrow> Inl e | Inr (off, q') \<Rightarrow> if off = 0 then Inr q' else Inr q')"
  have "page_room sample_page = 8152" using page_fits_iff [OF sample_page_ok(1)] sample_page_ok(3)
    by (simp add: page_room_def sample_page_def PageInit_def MAXALIGN_def page_consts)
  then show ?thesis
    using bufpage.fill_ok [of sample_page xs f Inr] sample_page_ok(1,2) assms by (auto simp: f_def)
qed

theorem multi_delete_correct_witness:
  "\<exists>p p' :: (nat, nat) PageData. page_items p = [[1], [2, 3], [4], [5, 6]] \<and> PageIndexMultiDelete (\<lambda>_. 0) p [1, 2, 4] = Inr p' \<and>
     page_items p' = [[4]]"
proof -
  obtain p :: "(nat, nat) PageData" where p: "page_ok p" "page_items p = [[1], [2, 3], [4], [5, 6]]"
    using page_with [of "[[1], [2, 3], [4], [5, 6]]"] by (auto simp: item_space_def MAXALIGN_def page_consts)
  have n: "PageGetMaxOffsetNumber p = 4" using arg_cong [OF p(2), of length] by simp
  have "nths [[1], [2, 3], [4], [5, 6]] (- (\<lambda>o'. o' - 1) ` set [1, 2, 4 :: nat]) = [[4 :: nat]]"
    by (simp add: nths_Cons)
  then show ?thesis
    using multi_delete_correct [OF p(1), of "[1, 2, 4]" "\<lambda>_. 0"] n p(2) by (auto simp: MaxIndexTuplesPerPage_def sizeof_IndexTupleData_def MAXALIGN_def page_consts)
qed

end
