(* ===== verification/TR_HeapPage.thy ===== *)
theory TR_HeapPage
  imports TR_Compact
begin

text \<open>
  The two routines of \<^verbatim>\<open>bufpage.c\<close> that clean a heap page: \<^verbatim>\<open>PageRepairFragmentation\<close>, which compacts the
  tuples and cuts the unused line pointers at the end of the array, and \<^verbatim>\<open>PageTruncateLinePointerArray\<close>, which only cuts.
  A heap page differs from an index page: line pointers are unused, normal, or used without storage (dead or redirected).
\<close>

section \<open>The routines\<close>

definition PageSetHasFreeLinePointers :: "('b, 's) PageData \<Rightarrow> ('b, 's) PageData" where
  "PageSetHasFreeLinePointers p = p\<lparr>pd_flags := pd_flags p OR PD_HAS_FREE_LINES\<rparr>"

text \<open>The run through the line pointers: the page with the unused ones reset, whether the items are sorted, the items, the last used offset
  and the number of unused line pointers.\<close>

fun repair_scan ::
  "('b, 's) PageData \<Rightarrow> nat list \<Rightarrow> nat \<Rightarrow> bool \<Rightarrow> itemIdCompactData list \<Rightarrow> nat \<Rightarrow> nat \<Rightarrow>
   pg_error + ('b, 's) PageData \<times> bool \<times> itemIdCompactData list \<times> nat \<times> nat" where
  "repair_scan p [] last_offset presorted items finalusedlp nunused = Inr (p, presorted, items, finalusedlp, nunused)"
| "repair_scan p (i # offs) last_offset presorted items finalusedlp nunused =
     (let lp = PageGetItemId p i
      in if ItemIdIsUsed lp then
           if ItemIdHasStorage lp then
             if length items \<ge> MaxHeapTuplesPerPage then Inl ArrayOverrun
             else if lp_off lp < pd_upper p \<or> lp_off lp \<ge> pd_special p then Inl CorruptLinePointer
             else repair_scan p offs (if last_offset > lp_off lp then lp_off lp else last_offset)
                    (if last_offset > lp_off lp then presorted else False)
                    (items @ [\<lparr>offsetindex = i - 1, itemoff = lp_off lp, alignedlen = MAXALIGN (lp_len lp)\<rparr>]) i nunused
           else repair_scan p offs last_offset presorted items i nunused
         else repair_scan (p\<lparr>pd_linp := (pd_linp p)(i - 1 := ItemIdSetUnused)\<rparr>) offs last_offset presorted items finalusedlp (nunused + 1))"

definition PageRepairFragmentation :: "(nat \<Rightarrow> 'b) \<Rightarrow> ('b, 's) PageData \<Rightarrow> pg_error + ('b, 's) PageData" where
  "PageRepairFragmentation scratch p =
     (if corrupted_page_pointers p then Inl CorruptPagePointers
      else
        let nline = PageGetMaxOffsetNumber p in
        case repair_scan p [FirstOffsetNumber..<nline + 1] (pd_special p) True [] InvalidOffsetNumber 0 of
          Inl e \<Rightarrow> Inl e
        | Inr (p, presorted, items, finalusedlp, nunused) \<Rightarrow>
            case (if items = [] then Inr (p\<lparr>pd_upper := pd_special p\<rparr>)
                  else if sum_list (map alignedlen items) > pd_special p - pd_lower p then Inl CorruptItemLengths
                  else Inr (compactify_tuples scratch items p presorted)) of
              Inl e \<Rightarrow> Inl e
            | Inr p \<Rightarrow>
                let nunusedend = nline - finalusedlp;
                    nunused = (if finalusedlp \<noteq> nline then nunused - nunusedend else nunused);
                    p = (if finalusedlp \<noteq> nline then p\<lparr>pd_lower := pd_lower p - sizeof_ItemIdData * nunusedend\<rparr> else p)
                in Inr (if nunused > 0 then PageSetHasFreeLinePointers p else PageClearHasFreeLinePointers p))"

text \<open>The scan from the end of the array: how many line pointers to cut, and whether an unused one stays.\<close>

fun truncate_scan :: "('b, 's) PageData \<Rightarrow> nat list \<Rightarrow> bool \<Rightarrow> nat \<Rightarrow> nat \<times> bool" where
  "truncate_scan p [] countdone nunusedend = (nunusedend, False)"
| "truncate_scan p (i # offs) countdone nunusedend =
     (if \<not> countdone \<and> i > FirstOffsetNumber then
        if \<not> ItemIdIsUsed (PageGetItemId p i) then truncate_scan p offs countdone (nunusedend + 1)
        else truncate_scan p offs True nunusedend
      else if \<not> ItemIdIsUsed (PageGetItemId p i) then (nunusedend, True)
      else truncate_scan p offs countdone nunusedend)"

definition PageTruncateLinePointerArray :: "('b, 's) PageData \<Rightarrow> ('b, 's) PageData" where
  "PageTruncateLinePointerArray p =
     (case truncate_scan p (rev [FirstOffsetNumber..<PageGetMaxOffsetNumber p + 1]) False 0 of
        (nunusedend, sethint) \<Rightarrow>
          let p = (if nunusedend > 0 then p\<lparr>pd_lower := pd_lower p - sizeof_ItemIdData * nunusedend\<rparr> else p)
          in if sethint then PageSetHasFreeLinePointers p else PageClearHasFreeLinePointers p)"

section \<open>Heap pages\<close>

text \<open>The line pointers with their tuples, as a reader of the page sees them; those of the unused ones at the end count for nothing.\<close>

definition LP_REDIRECT :: nat where "LP_REDIRECT = 2"

definition heap_line :: "('b, 's) PageData \<Rightarrow> ItemIdData \<Rightarrow> nat \<times> 'b list \<times> nat" where
  "heap_line p lp = (lp_flags lp, PageGetItem p lp, if lp_flags lp = LP_REDIRECT then lp_off lp else 0)"

definition heap_lines :: "('b, 's) PageData \<Rightarrow> (nat \<times> 'b list \<times> nat) list" where
  "heap_lines p = map (heap_line p) (line_pointers p)"

abbreviation unused_line :: "nat \<times> 'b list \<times> nat \<Rightarrow> bool" where
  "unused_line l \<equiv> fst l = LP_UNUSED"

definition strip_unused :: "(nat \<times> 'b list \<times> nat) list \<Rightarrow> (nat \<times> 'b list \<times> nat) list" where
  "strip_unused ls = rev (dropWhile unused_line (rev ls))"

definition stored :: "('b, 's) PageData \<Rightarrow> ItemIdData list" where
  "stored p = filter ItemIdHasStorage (line_pointers p)"

definition heap_page_ok :: "('b, 's) PageData \<Rightarrow> bool" where
  "heap_page_ok p \<longleftrightarrow>
     pd_lower p = SizeOfPageHeaderData + sizeof_ItemIdData * PageGetMaxOffsetNumber p \<and>
     PageGetMaxOffsetNumber p \<le> MaxHeapTuplesPerPage \<and>
     pd_lower p \<le> pd_upper p \<and> pd_upper p \<le> pd_special p \<and> pd_special p \<le> BLCKSZ \<and> 8 dvd pd_special p \<and>
     list_all (item_ok (pd_upper p) (pd_special p)) (stored p) \<and> sorted_wrt apart (stored p) \<and>
     pd_upper p + aligned_sum (stored p) \<le> pd_special p"

text \<open>The hint says whether a line pointer can be used again.\<close>

definition hint_exact :: "('b, 's) PageData \<Rightarrow> bool" where
  "hint_exact p \<longleftrightarrow> (PageHasFreeLinePointers p \<longleftrightarrow> (\<exists>l \<in> set (heap_lines p). unused_line l))"

section \<open>The run through the line pointers\<close>

abbreviation used_off :: "('b, 's) PageData \<Rightarrow> nat \<Rightarrow> bool" where
  "used_off p i \<equiv> ItemIdIsUsed (PageGetItemId p i)"

abbreviation stored_off :: "('b, 's) PageData \<Rightarrow> nat \<Rightarrow> bool" where
  "stored_off p i \<equiv> used_off p i \<and> ItemIdHasStorage (PageGetItemId p i)"

definition off_entry :: "('b, 's) PageData \<Rightarrow> nat \<Rightarrow> itemIdCompactData" where
  "off_entry p i = \<lparr>offsetindex = i - 1, itemoff = lp_off (PageGetItemId p i), alignedlen = MAXALIGN (lp_len (PageGetItemId p i))\<rparr>"

definition reset_linp :: "(nat \<Rightarrow> ItemIdData) \<Rightarrow> nat list \<Rightarrow> nat \<Rightarrow> ItemIdData" where
  "reset_linp linp offs k = (if Suc k \<in> set offs \<and> \<not> ItemIdIsUsed (linp k) then ItemIdSetUnused else linp k)"

definition reset_unused :: "('b, 's) PageData \<Rightarrow> nat list \<Rightarrow> ('b, 's) PageData" where
  "reset_unused p offs = p\<lparr>pd_linp := reset_linp (pd_linp p) offs\<rparr>"

lemma reset_linp_Nil [simp]: "reset_linp linp [] = linp"
  by (simp add: reset_linp_def fun_eq_iff)

lemma reset_unused_used:
  assumes "used_off p i"
  shows "reset_unused p (i # offs) = reset_unused p offs"
proof -
  have "reset_linp (pd_linp p) (i # offs) = reset_linp (pd_linp p) offs"
    using assms by (auto simp: reset_linp_def fun_eq_iff PageGetItemId_def)
  then show ?thesis by (simp add: reset_unused_def)
qed

lemma reset_unused_Cons:
  assumes "\<not> used_off p i" "0 < i" "i \<notin> set offs"
  shows "reset_unused (p\<lparr>pd_linp := (pd_linp p)(i - 1 := ItemIdSetUnused)\<rparr>) offs = reset_unused p (i # offs)"
proof -
  have "reset_linp ((pd_linp p)(i - 1 := ItemIdSetUnused)) offs = reset_linp (pd_linp p) (i # offs)"
    using assms by (auto simp: reset_linp_def fun_eq_iff PageGetItemId_def)
  then show ?thesis by (simp add: reset_unused_def)
qed

lemma repair_scan_ok:
  assumes "\<forall>i \<in> set offs. 0 < i \<and> (stored_off p i \<longrightarrow> pd_upper p \<le> lp_off (PageGetItemId p i) \<and> lp_off (PageGetItemId p i) < pd_special p)"
    and "distinct offs" "length its + length offs \<le> MaxHeapTuplesPerPage"
  shows "\<exists>pres'. repair_scan p offs last_offset pres its fin nun =
      Inr (reset_unused p offs, pres', its @ map (off_entry p) (filter (stored_off p) offs), last (fin # filter (used_off p) offs),
        nun + length (filter (\<lambda>i. \<not> used_off p i) offs)) \<and>
    (pres' \<longrightarrow> pres \<and> sorted_wrt (\<lambda>a b. b < a) (last_offset # map (itemoff \<circ> off_entry p) (filter (stored_off p) offs)))"
  using assms
proof (induction offs arbitrary: p last_offset pres its fin nun)
  case Nil
  then show ?case by (simp add: reset_unused_def)
next
  case (Cons i offs)
  show ?case
  proof (cases "used_off p i")
    case used: True
    show ?thesis
    proof (cases "ItemIdHasStorage (PageGetItemId p i)")
      case True
      let ?lp = "PageGetItemId p i"
      let ?last = "if last_offset > lp_off ?lp then lp_off ?lp else last_offset" and ?pres = "if last_offset > lp_off ?lp then pres else False"
      have "\<exists>pres'. repair_scan p offs ?last ?pres (its @ [off_entry p i]) i nun =
          Inr (reset_unused p offs, pres', (its @ [off_entry p i]) @ map (off_entry p) (filter (stored_off p) offs),
            last (i # filter (used_off p) offs), nun + length (filter (\<lambda>i. \<not> used_off p i) offs)) \<and>
        (pres' \<longrightarrow> ?pres \<and> sorted_wrt (\<lambda>a b. b < a) (?last # map (itemoff \<circ> off_entry p) (filter (stored_off p) offs)))"
        using Cons.prems by (intro Cons.IH) auto
      then obtain pres' where ih: "repair_scan p offs ?last ?pres (its @ [off_entry p i]) i nun =
          Inr (reset_unused p offs, pres', (its @ [off_entry p i]) @ map (off_entry p) (filter (stored_off p) offs),
            last (i # filter (used_off p) offs), nun + length (filter (\<lambda>i. \<not> used_off p i) offs))"
        "pres' \<longrightarrow> ?pres \<and> sorted_wrt (\<lambda>a b. b < a) (?last # map (itemoff \<circ> off_entry p) (filter (stored_off p) offs))"
        by (elim exE conjE)
      have "repair_scan p (i # offs) last_offset pres its fin nun = repair_scan p offs ?last ?pres (its @ [off_entry p i]) i nun"
        using used True Cons.prems(1,3) by (simp add: Let_def off_entry_def)
      moreover have "pres' \<longrightarrow> pres \<and> sorted_wrt (\<lambda>a b. b < a) (last_offset # map (itemoff \<circ> off_entry p) (filter (stored_off p) (i # offs)))"
        using ih(2) used True by (auto simp: off_entry_def split: if_splits)
      ultimately show ?thesis using ih(1) used True by (intro exI [of _ pres']) (simp add: reset_unused_used comp_def)
    next
      case False
      then show ?thesis using Cons.IH [of p its last_offset pres i nun] Cons.prems used by (simp add: reset_unused_used)
    qed
  next
    case False
    let ?p = "p\<lparr>pd_linp := (pd_linp p)(i - 1 := ItemIdSetUnused)\<rparr>"
    have same: "PageGetItemId ?p j = PageGetItemId p j" if "j \<in> set offs" for j
      using Cons.prems(1,2) that by (cases "j = i") (auto simp: PageGetItemId_def)
    have eqs: "filter (stored_off ?p) offs = filter (stored_off p) offs" "filter (used_off ?p) offs = filter (used_off p) offs"
        "filter (\<lambda>j. \<not> used_off ?p j) offs = filter (\<lambda>j. \<not> used_off p j) offs"
        "map (off_entry ?p) (filter (stored_off p) offs) = map (off_entry p) (filter (stored_off p) offs)"
        "map (itemoff \<circ> off_entry ?p) (filter (stored_off p) offs) = map (itemoff \<circ> off_entry p) (filter (stored_off p) offs)"
      using same by (auto simp: off_entry_def intro!: filter_cong)
    have reset: "reset_unused ?p offs = reset_unused p (i # offs)" using Cons.prems(1,2) False by (intro reset_unused_Cons) auto
    have "\<forall>j \<in> set offs. 0 < j \<and> (stored_off ?p j \<longrightarrow> pd_upper ?p \<le> lp_off (PageGetItemId ?p j) \<and> lp_off (PageGetItemId ?p j) < pd_special ?p)"
      using Cons.prems(1) same by simp
    from Cons.IH [OF this, of its last_offset pres fin "nun + 1", unfolded eqs reset] show ?thesis
      using False Cons.prems(2,3) by (simp add: comp_def)
  qed
qed

text \<open>The last used line pointer.\<close>

lemma last_used:
  fixes P :: "nat \<Rightarrow> bool"
  defines "m \<equiv> \<lambda>n. last (0 # filter P [1..<n + 1])"
  shows "m n \<le> n \<and> (\<forall>i. m n < i \<and> i \<le> n \<longrightarrow> \<not> P i) \<and> (m n = 0 \<or> P (m n))"
proof (induction n)
  case 0
  then show ?case by (simp add: m_def)
next
  case (Suc n)
  have "m (Suc n) = (if P (Suc n) then Suc n else m n)" by (simp add: m_def)
  then show ?case using Suc.IH by (auto simp: le_Suc_eq)
qed

lemma count_unused:
  assumes "m \<le> n" "\<forall>i. m < i \<and> i \<le> n \<longrightarrow> \<not> P i"
  shows "length (filter (\<lambda>i. \<not> P i) [1..<n + 1]) - (n - m) = length (filter (\<lambda>i. \<not> P i) [1..<m + 1])"
proof -
  have "[1..<n + 1] = [1..<m + 1] @ [m + 1..<n + 1]" using assms(1) upt_add_eq_append [of 1 "m + 1" "n - m"] by simp
  moreover have "filter (\<lambda>i. \<not> P i) [m + 1..<n + 1] = [m + 1..<n + 1]" using assms(2) by (auto intro!: filter_True)
  ultimately show ?thesis by (simp del: upt_Suc)
qed

lemma strip_unused_take:
  assumes "m \<le> length ls" "\<forall>k. m \<le> k \<and> k < length ls \<longrightarrow> unused_line (ls ! k)" "m = 0 \<or> \<not> unused_line (ls ! (m - 1))"
  shows "strip_unused ls = take m ls"
proof -
  have "rev ls = rev (drop m ls) @ rev (take m ls)" by (metis append_take_drop_id rev_append)
  moreover have drop: "unused_line l" if l: "l \<in> set (rev (drop m ls))" for l
  proof -
    obtain i where "i < length ls - m" "l = ls ! (m + i)" using l assms(1) by (auto simp: in_set_conv_nth)
    then show ?thesis using assms(2) by simp
  qed
  moreover have "dropWhile unused_line (rev (take m ls)) = rev (take m ls)"
  proof (cases m)
    case (Suc j)
    then have "rev (take m ls) = ls ! j # rev (take j ls)" using assms(1) by (simp add: take_Suc_conv_app_nth)
    then show ?thesis using Suc assms(3) by simp
  qed simp
  ultimately show ?thesis by (simp only: strip_unused_def dropWhile_append2 [OF drop] rev_rev_ident)
qed

section \<open>Cutting the array\<close>

definition cut_lines :: "('b, 's) PageData \<Rightarrow> nat \<Rightarrow> bool \<Rightarrow> ('b, 's) PageData" where
  "cut_lines p m hint = (if hint then PageSetHasFreeLinePointers (p\<lparr>pd_lower := SizeOfPageHeaderData + sizeof_ItemIdData * m\<rparr>)
     else PageClearHasFreeLinePointers (p\<lparr>pd_lower := SizeOfPageHeaderData + sizeof_ItemIdData * m\<rparr>))"

lemma has_free_lines [simp]:
  "PageHasFreeLinePointers (PageSetHasFreeLinePointers p)" "\<not> PageHasFreeLinePointers (PageClearHasFreeLinePointers p)"
proof -
  have "bit ((pd_flags p OR PD_HAS_FREE_LINES) AND PD_HAS_FREE_LINES) 0" by (simp add: PD_HAS_FREE_LINES_def bit_simps)
  then show "PageHasFreeLinePointers (PageSetHasFreeLinePointers p)"
    by (auto simp: PageHasFreeLinePointers_def PageSetHasFreeLinePointers_def)
  have "(pd_flags p AND NOT PD_HAS_FREE_LINES) AND PD_HAS_FREE_LINES = 0" by (rule bit_eqI) (auto simp: bit_simps)
  then show "\<not> PageHasFreeLinePointers (PageClearHasFreeLinePointers p)"
    by (simp add: PageHasFreeLinePointers_def PageClearHasFreeLinePointers_def)
qed

lemma heap_lines_nth: "k < PageGetMaxOffsetNumber p \<Longrightarrow> heap_lines p ! k = heap_line p (pd_linp p k)"
  by (simp add: heap_lines_def)

lemma length_heap_lines [simp]: "length (heap_lines p) = PageGetMaxOffsetNumber p"
  by (simp add: heap_lines_def)

lemma unused_lines: "(\<exists>l \<in> set (heap_lines p). unused_line l) \<longleftrightarrow> (\<exists>k < PageGetMaxOffsetNumber p. \<not> ItemIdIsUsed (pd_linp p k))"
  by (auto simp: heap_lines_def line_pointers_def heap_line_def ItemIdIsUsed_def)

lemma cut_lines_ok:
  assumes "m \<le> PageGetMaxOffsetNumber p" "\<forall>k. m \<le> k \<and> k < PageGetMaxOffsetNumber p \<longrightarrow> \<not> ItemIdHasStorage (pd_linp p k)"
    and "heap_page_ok p" "hint \<longleftrightarrow> (\<exists>k < m. \<not> ItemIdIsUsed (pd_linp p k))"
  shows "heap_page_ok (cut_lines p m hint) \<and> hint_exact (cut_lines p m hint) \<and> heap_lines (cut_lines p m hint) = take m (heap_lines p) \<and>
    stored (cut_lines p m hint) = stored p"
proof -
  let ?q = "cut_lines p m hint"
  note defs = cut_lines_def PageSetHasFreeLinePointers_def PageClearHasFreeLinePointers_def
  have same: "pd_linp ?q = pd_linp p" "pd_cells ?q = pd_cells p" "pd_upper ?q = pd_upper p" "pd_special ?q = pd_special p"
      "pd_lower ?q = SizeOfPageHeaderData + sizeof_ItemIdData * m" by (simp_all add: defs)
  have max: "PageGetMaxOffsetNumber ?q = m" by (simp add: PageGetMaxOffsetNumber_def same page_consts)
  have lps: "line_pointers ?q = take m (line_pointers p)" using assms(1) by (simp add: line_pointers_def max same take_map)
  have "filter ItemIdHasStorage (drop m (line_pointers p)) = []"
    using assms(1,2) by (auto simp: filter_empty_conv in_set_conv_nth)
  then have st: "stored ?q = stored p"
    by (metis append.right_neutral append_take_drop_id filter_append lps stored_def)
  have lines: "heap_lines ?q = take m (heap_lines p)"
    by (simp add: heap_lines_def lps take_map heap_line_def PageGetItem_def same)
  have "heap_page_ok ?q" using assms(1,3) st same max by (auto simp: heap_page_ok_def page_consts)
  moreover have "PageHasFreeLinePointers ?q \<longleftrightarrow> hint" by (simp add: cut_lines_def)
  then have "hint_exact ?q"
    unfolding hint_exact_def unused_lines using assms(4) max same by simp
  ultimately show ?thesis using st lines by simp
qed

section \<open>The compaction of a heap page\<close>

definition stored_idx :: "('b, 's) PageData \<Rightarrow> nat list" where
  "stored_idx p = filter (\<lambda>k. ItemIdHasStorage (pd_linp p k)) [0..<PageGetMaxOffsetNumber p]"

abbreviation heap_items :: "('b, 's) PageData \<Rightarrow> itemIdCompactData list" where
  "heap_items p \<equiv> map (\<lambda>k. off_entry p (Suc k)) (stored_idx p)"

abbreviation all_offsets :: "('b, 's) PageData \<Rightarrow> nat list" where
  "all_offsets p \<equiv> [1..<PageGetMaxOffsetNumber p + 1]"

lemma stored_map: "stored p = map (pd_linp p) (stored_idx p)"
  by (simp add: stored_def stored_idx_def line_pointers_def filter_map comp_def)

lemma stored_idx_normal:
  assumes "heap_page_ok p" "k \<in> set (stored_idx p)"
  shows "item_ok (pd_upper p) (pd_special p) (pd_linp p k)" "ItemIdIsUsed (pd_linp p k)" "pd_linp (reset_unused p offs) k = pd_linp p k"
proof -
  show ok: "item_ok (pd_upper p) (pd_special p) (pd_linp p k)"
    using assms by (auto simp: heap_page_ok_def stored_map list_all_iff)
  then show "ItemIdIsUsed (pd_linp p k)" by (simp add: item_ok_def ItemIdIsUsed_def LP_NORMAL_def LP_UNUSED_def)
  then show "pd_linp (reset_unused p offs) k = pd_linp p k" by (simp add: reset_unused_def reset_linp_def)
qed

lemma heap_items_lens: "map alignedlen (heap_items p) = map (\<lambda>lp. MAXALIGN (lp_len lp)) (stored p)"
  by (simp add: stored_map off_entry_def PageGetItemId_def)

lemma heap_compact_items:
  assumes ok: "heap_page_ok p" and "stored_idx p \<noteq> []"
    and "presorted \<longrightarrow> sorted_wrt (\<lambda>a b. b < a) (map itemoff (heap_items p))"
  shows "compact_items (reset_unused p offs) (heap_items p) presorted"
  unfolding compact_items_def
proof (intro conjI)
  show "distinct (map offsetindex (heap_items p))" by (simp add: off_entry_def comp_def stored_idx_def)
  show "total_len (heap_items p) \<le> pd_special (reset_unused p offs)"
    using ok by (simp only: heap_items_lens) (simp add: heap_page_ok_def reset_unused_def)
  have "sorted_wrt (\<lambda>k l. apart (pd_linp p k) (pd_linp p l)) (stored_idx p)"
    using ok by (simp add: heap_page_ok_def stored_map sorted_wrt_map)
  then show "sorted_wrt (\<lambda>i j. itemoff i + alignedlen i \<le> itemoff j \<or> itemoff j + alignedlen j \<le> itemoff i) (heap_items p)"
    by (simp add: sorted_wrt_map off_entry_def PageGetItemId_def apart_def)
  show "\<forall>i \<in> set (heap_items p). 0 < alignedlen i \<and> pd_upper (reset_unused p offs) \<le> itemoff i \<and>
      itemoff i + alignedlen i \<le> pd_special (reset_unused p offs) \<and> lp_off (pd_linp (reset_unused p offs) (offsetindex i)) = itemoff i"
  proof
    fix i assume "i \<in> set (heap_items p)"
    then obtain k where k: "k \<in> set (stored_idx p)" "i = off_entry p (Suc k)" by auto
    then show "0 < alignedlen i \<and> pd_upper (reset_unused p offs) \<le> itemoff i \<and>
      itemoff i + alignedlen i \<le> pd_special (reset_unused p offs) \<and> lp_off (pd_linp (reset_unused p offs) (offsetindex i)) = itemoff i"
      using stored_idx_normal [OF ok k(1)] MAXALIGN_pos [of "lp_len (pd_linp p k)"]
      by (auto simp: off_entry_def PageGetItemId_def item_ok_def reset_unused_def)
  qed
  show "presorted \<longrightarrow> sorted_wrt (\<lambda>i j. itemoff j < itemoff i) (heap_items p)"
    using assms(3) by (simp only: sorted_wrt_map)
qed (use assms(2) in simp)

lemma heap_targets:
  assumes "j < length (stored_idx p)"
  shows "targets u (heap_items p) ! j = u - aligned_sum (take (Suc j) (stored p))"
proof -
  have "total_len (take (Suc j) (heap_items p)) = aligned_sum (take (Suc j) (stored p))"
    by (simp only: take_map [symmetric] heap_items_lens)
  then show ?thesis using assms targets_nth [of j "heap_items p" u] by (simp del: map_map)
qed

text \<open>The line pointers after the compaction.\<close>

lemma heap_compacted_linp:
  assumes ok: "heap_page_ok p" and comp: "compacted (reset_unused p (all_offsets p)) (heap_items p) p'" and k: "k < PageGetMaxOffsetNumber p"
  shows "k \<notin> set (stored_idx p) \<Longrightarrow> pd_linp p' k = (if ItemIdIsUsed (pd_linp p k) then pd_linp p k else ItemIdSetUnused)"
    and "j < length (stored_idx p) \<Longrightarrow> k = stored_idx p ! j \<Longrightarrow>
      pd_linp p' k = (pd_linp p k)\<lparr>lp_off := pd_special p - aligned_sum (take (Suc j) (stored p))\<rparr>"
proof -
  let ?ts = "targets (pd_special p) (heap_items p)" and ?linp = "pd_linp (reset_unused p (all_offsets p))"
  have linp: "pd_linp p' = set_targets ?linp (heap_items p) ?ts"
    using comp by (auto simp: compacted_def reset_unused_def)
  show "pd_linp p' k = (if ItemIdIsUsed (pd_linp p k) then pd_linp p k else ItemIdSetUnused)" if "k \<notin> set (stored_idx p)"
  proof -
    have "k \<notin> offsetindex ` set (heap_items p)" using that by (auto simp: off_entry_def)
    then show ?thesis using k by (simp add: linp set_targets_other) (simp add: reset_unused_def reset_linp_def)
  qed
  show "pd_linp p' k = (pd_linp p k)\<lparr>lp_off := pd_special p - aligned_sum (take (Suc j) (stored p))\<rparr>"
    if j: "j < length (stored_idx p)" "k = stored_idx p ! j"
  proof -
    have "k \<in> set (stored_idx p)" using j by simp
    moreover have "distinct (map offsetindex (heap_items p))" by (simp add: off_entry_def comp_def stored_idx_def)
    then have "set_targets ?linp (heap_items p) ?ts (offsetindex (heap_items p ! j)) = (?linp (offsetindex (heap_items p ! j)))\<lparr>lp_off := ?ts ! j\<rparr>"
      using j(1) by (intro set_targets_nth) simp_all
    moreover have "offsetindex (heap_items p ! j) = k" using j by (simp add: off_entry_def)
    ultimately show ?thesis using stored_idx_normal(3) [OF ok] heap_targets [OF j(1)] linp by metis
  qed
qed

lemma heap_compacted:
  assumes ok: "heap_page_ok p" and comp: "compacted (reset_unused p (all_offsets p)) (heap_items p) p'"
  shows "heap_page_ok p' \<and> heap_lines p' = heap_lines p \<and> PageGetMaxOffsetNumber p' = PageGetMaxOffsetNumber p \<and>
    pd_lower p' = pd_lower p \<and> pd_upper p' + aligned_sum (stored p') = pd_special p'"
proof -
  let ?n = "PageGetMaxOffsetNumber p" and ?ts = "targets (pd_special p) (heap_items p)"
  obtain cells where mv: "moved (pd_cells p) cells (heap_items p) ?ts" and cells: "pd_cells p' = cells"
    and hdr: "pd_special p' = pd_special p" "pd_lower p' = pd_lower p" "pd_upper p' = pd_special p - aligned_sum (stored p)"
    using comp unfolding compacted_def heap_items_lens by (auto simp: reset_unused_def)
  have max: "PageGetMaxOffsetNumber p' = ?n" by (simp add: PageGetMaxOffsetNumber_def hdr)
  note linp = heap_compacted_linp [OF ok comp]
  have idx: "k \<in> set (stored_idx p) \<longleftrightarrow> k < ?n \<and> lp_len (pd_linp p k) \<noteq> 0" for k
    by (auto simp: stored_idx_def ItemIdHasStorage_def)
  have nth: "\<exists>j < length (stored_idx p). k = stored_idx p ! j" if "k \<in> set (stored_idx p)" for k
    using that by (metis in_set_conv_nth)
  have len: "lp_len (pd_linp p' k) = lp_len (pd_linp p k)" "lp_flags (pd_linp p' k) = lp_flags (pd_linp p k)" if k: "k < ?n" for k
  proof (atomize (full), cases "k \<in> set (stored_idx p)")
    case True
    then obtain j where "j < length (stored_idx p)" "k = stored_idx p ! j" using nth by blast
    from linp(2) [OF k this] show "lp_len (pd_linp p' k) = lp_len (pd_linp p k) \<and> lp_flags (pd_linp p' k) = lp_flags (pd_linp p k)" by simp
  next
    case False
    then show "lp_len (pd_linp p' k) = lp_len (pd_linp p k) \<and> lp_flags (pd_linp p' k) = lp_flags (pd_linp p k)"
      using linp(1) [OF k False] idx [of k] k by (auto simp: ItemIdSetUnused_def ItemIdIsUsed_def)
  qed
  then have idx': "stored_idx p' = stored_idx p" unfolding stored_idx_def max ItemIdHasStorage_def by (auto intro!: filter_cong)
  have sum: "aligned_sum (stored p) \<le> pd_special p - pd_lower p" "8 dvd pd_special p" using ok by (auto simp: heap_page_ok_def)
  have "list_all (item_ok (pd_special p - aligned_sum (stored p)) (pd_special p)) (stored p') \<and> sorted_wrt apart (stored p') \<and>
      aligned_sum (stored p') = aligned_sum (stored p)"
  proof (rule packed_line_pointers)
    show "\<forall>j < length (stored p). stored p' ! j = (stored p ! j)\<lparr>lp_off := pd_special p - aligned_sum (take (Suc j) (stored p))\<rparr>"
      using linp(2) nth_mem [of _ "stored_idx p"] idx by (simp add: stored_map idx')
    show "list_all (\<lambda>lp. lp_flags lp = LP_NORMAL \<and> 0 < lp_len lp) (stored p)"
      using ok by (auto simp: heap_page_ok_def list_all_iff item_ok_def)
  qed (use sum in \<open>simp_all add: stored_map idx'\<close>)
  then have st: "list_all (item_ok (pd_upper p') (pd_special p')) (stored p')" "sorted_wrt apart (stored p')" "aligned_sum (stored p') = aligned_sum (stored p)"
    by (auto simp: hdr)
  have "heap_line p' (pd_linp p' k) = heap_line p (pd_linp p k)" if k: "k < ?n" for k
  proof (cases "k \<in> set (stored_idx p)")
    case True
    then obtain j where j: "j < length (stored_idx p)" "k = stored_idx p ! j" using nth by blast
    have "(heap_items p ! j, ?ts ! j) \<in> set (zip (heap_items p) ?ts)"
      using j(1) by (auto simp: in_set_zip simp del: nth_map map_map)
    then have "cells (?ts ! j + t) = pd_cells p (lp_off (pd_linp p k) + t)" if "t < lp_len (pd_linp p k)" for t
      using mv that j MAXALIGN_ge [of "lp_len (pd_linp p k)"] by (fastforce simp: moved_def off_entry_def PageGetItemId_def)
    then have "PageGetItem p' (pd_linp p' k) = PageGetItem p (pd_linp p k)"
      using linp(2) [OF k j] heap_targets [OF j(1)] by (intro PageGetItem_shift) (simp_all add: cells del: map_map)
    then show ?thesis using stored_idx_normal(1) [OF ok True] len(2) [OF k]
      by (simp add: heap_line_def item_ok_def LP_NORMAL_def LP_REDIRECT_def)
  next
    case False
    then show ?thesis using linp(1) [OF k False] idx [of k] k len [OF k]
      by (auto simp: heap_line_def PageGetItem_def ItemIdIsUsed_def LP_UNUSED_def LP_REDIRECT_def)
  qed
  then have "heap_lines p' = heap_lines p" by (simp add: heap_lines_def line_pointers_def max)
  moreover have "heap_page_ok p'" using ok st sum unfolding heap_page_ok_def max by (auto simp: hdr)
  moreover have "pd_upper p' + aligned_sum (stored p') = pd_special p'" using st(3) sum hdr by simp
  ultimately show ?thesis using max hdr(2) by simp
qed

lemma heap_lines_used:
  assumes "heap_lines q = heap_lines p" "k < PageGetMaxOffsetNumber p"
  shows "ItemIdIsUsed (pd_linp q k) \<longleftrightarrow> ItemIdIsUsed (pd_linp p k)"
proof -
  have "PageGetMaxOffsetNumber q = PageGetMaxOffsetNumber p" using arg_cong [OF assms(1), of length] by simp
  then have "heap_line q (pd_linp q k) = heap_line p (pd_linp p k)" using assms by (metis heap_lines_nth)
  then show ?thesis by (simp add: heap_line_def ItemIdIsUsed_def)
qed

lemma heap_scan:
  assumes "heap_page_ok p"
  obtains pres where "repair_scan p (all_offsets p) (pd_special p) True [] InvalidOffsetNumber 0 =
      Inr (reset_unused p (all_offsets p), pres, heap_items p, last (0 # filter (used_off p) (all_offsets p)),
        length (filter (\<lambda>i. \<not> used_off p i) (all_offsets p)))"
    "pres \<longrightarrow> sorted_wrt (\<lambda>a b. b < a) (map itemoff (heap_items p))"
proof -
  let ?n = "PageGetMaxOffsetNumber p"
  have offs: "all_offsets p = map Suc [0..<?n]" by (simp add: map_Suc_upt)
  have st: "stored_off p (Suc k) \<longleftrightarrow> k \<in> set (stored_idx p)" if "k < ?n" for k
    using that stored_idx_normal(2) [OF assms, of k] by (auto simp: stored_idx_def PageGetItemId_def)
  have its: "filter (stored_off p) (all_offsets p) = map Suc (stored_idx p)"
  proof -
    have "filter (stored_off p \<circ> Suc) [0..<?n] = stored_idx p"
      unfolding stored_idx_def by (rule filter_cong [OF refl]) (use st in \<open>simp add: stored_idx_def\<close>)
    then show ?thesis by (simp only: offs filter_map)
  qed
  have range: "pd_upper p \<le> lp_off (PageGetItemId p (Suc k)) \<and> lp_off (PageGetItemId p (Suc k)) < pd_special p" if "k < ?n" "stored_off p (Suc k)" for k
    using stored_idx_normal(1) [OF assms, of k] st that MAXALIGN_ge [of "lp_len (pd_linp p k)"]
    by (auto simp: item_ok_def PageGetItemId_def)
  have fine: "\<forall>i \<in> set (all_offsets p). 0 < i \<and>
      (stored_off p i \<longrightarrow> pd_upper p \<le> lp_off (PageGetItemId p i) \<and> lp_off (PageGetItemId p i) < pd_special p)"
  proof
    fix i assume i: "i \<in> set (all_offsets p)"
    obtain k where "i = Suc k" "k < ?n" using i by (intro that [of "i - 1"]) (auto simp del: upt_Suc)
    then show "0 < i \<and> (stored_off p i \<longrightarrow> pd_upper p \<le> lp_off (PageGetItemId p i) \<and> lp_off (PageGetItemId p i) < pd_special p)"
      using range by blast
  qed
  have len: "length ([] :: itemIdCompactData list) + length (all_offsets p) \<le> MaxHeapTuplesPerPage"
    using assms by (simp add: heap_page_ok_def del: upt_Suc)
  obtain pres where "repair_scan p (all_offsets p) (pd_special p) True [] InvalidOffsetNumber 0 =
      Inr (reset_unused p (all_offsets p), pres, [] @ map (off_entry p) (map Suc (stored_idx p)),
        last (InvalidOffsetNumber # filter (used_off p) (all_offsets p)), 0 + length (filter (\<lambda>i. \<not> used_off p i) (all_offsets p)))"
    "pres \<longrightarrow> True \<and> sorted_wrt (\<lambda>a b. b < a) (pd_special p # map (itemoff \<circ> off_entry p) (map Suc (stored_idx p)))"
    using repair_scan_ok [OF fine distinct_upt len, of "pd_special p" True InvalidOffsetNumber 0, unfolded its] by (elim exE conjE)
  then show ?thesis by (intro that [of pres]) (simp_all add: comp_def InvalidOffsetNumber_def del: upt_Suc)
qed

lemma cut_after:
  assumes "pd_lower q = SizeOfPageHeaderData + sizeof_ItemIdData * n" "m \<le> n"
  shows "(if m \<noteq> n then q\<lparr>pd_lower := pd_lower q - sizeof_ItemIdData * (n - m)\<rparr> else q) =
    q\<lparr>pd_lower := SizeOfPageHeaderData + sizeof_ItemIdData * m\<rparr>"
  using assms by (auto simp: diff_mult_distrib2)

lemma heap_not_corrupted: "heap_page_ok p \<Longrightarrow> \<not> corrupted_page_pointers p"
  by (auto simp: heap_page_ok_def corrupted_page_pointers_def MAXALIGN_id)

lemma heap_compaction:
  assumes "heap_page_ok p" "pres \<longrightarrow> sorted_wrt (\<lambda>a b. b < a) (map itemoff (heap_items p))"
  defines "p1 \<equiv> reset_unused p (all_offsets p)"
  shows "\<exists>p2. (if heap_items p = [] then Inr (p1\<lparr>pd_upper := pd_special p1\<rparr>)
      else if sum_list (map alignedlen (heap_items p)) > pd_special p1 - pd_lower p1 then Inl CorruptItemLengths
      else Inr (compactify_tuples scratch (heap_items p) p1 pres)) = Inr p2 \<and> compacted p1 (heap_items p) p2"
proof (cases "heap_items p = []")
  case True
  then show ?thesis by (auto simp: compacted_def moved_def intro!: exI [of _ "pd_cells p1"])
next
  case False
  have "aligned_sum (stored p) \<le> pd_special p - pd_lower p" using assms(1) by (auto simp: heap_page_ok_def)
  then have "\<not> sum_list (map alignedlen (heap_items p)) > pd_special p1 - pd_lower p1"
    unfolding heap_items_lens by (simp add: p1_def reset_unused_def)
  moreover have "compacted p1 (heap_items p) (compactify_tuples scratch (heap_items p) p1 pres)"
    unfolding p1_def using False by (intro compactify_ok heap_compact_items assms) simp
  ultimately show ?thesis using False by simp
qed

lemma hint_at:
  assumes "heap_lines q = heap_lines p" "m \<le> PageGetMaxOffsetNumber p"
  shows "0 < length (filter (\<lambda>i. \<not> used_off p i) [1..<m + 1]) \<longleftrightarrow> (\<exists>k < m. \<not> ItemIdIsUsed (pd_linp q k))"
proof -
  have "[1..<m + 1] = map Suc [0..<m]" by (simp add: map_Suc_upt)
  then have "0 < length (filter (\<lambda>i. \<not> used_off p i) [1..<m + 1]) \<longleftrightarrow> (\<exists>k < m. \<not> ItemIdIsUsed (pd_linp p k))"
    by (auto simp: filter_map comp_def PageGetItemId_def filter_empty_conv simp del: upt_Suc)
  then show ?thesis using heap_lines_used [OF assms(1)] assms(2) by (meson less_le_trans)
qed

lemma strip_at:
  assumes "m \<le> PageGetMaxOffsetNumber p" "\<forall>i. m < i \<and> i \<le> PageGetMaxOffsetNumber p \<longrightarrow> \<not> used_off p i" "m = 0 \<or> used_off p m"
  shows "strip_unused (heap_lines p) = take m (heap_lines p)"
proof (rule strip_unused_take)
  show "\<forall>k. m \<le> k \<and> k < length (heap_lines p) \<longrightarrow> unused_line (heap_lines p ! k)"
  proof (intro allI impI)
    fix k assume k: "m \<le> k \<and> k < length (heap_lines p)"
    then have "\<not> used_off p (Suc k)" using assms(2) by simp
    then show "unused_line (heap_lines p ! k)" using k by (simp add: heap_lines_nth heap_line_def PageGetItemId_def ItemIdIsUsed_def)
  qed
  show "m = 0 \<or> \<not> unused_line (heap_lines p ! (m - 1))"
    using assms(1,3) by (auto simp: heap_lines_nth heap_line_def PageGetItemId_def ItemIdIsUsed_def)
qed (use assms(1) in simp)

lemma no_storage_unused:
  assumes "heap_page_ok p" "k < PageGetMaxOffsetNumber p" "\<not> ItemIdIsUsed (pd_linp p k)"
  shows "\<not> ItemIdHasStorage (pd_linp p k)"
  using assms stored_idx_normal(2) [OF assms(1), of k] by (auto simp: stored_idx_def)

lemma repair_ok:
  assumes ok: "heap_page_ok p"
  shows "\<exists>p'. PageRepairFragmentation scratch p = Inr p' \<and> heap_page_ok p' \<and> hint_exact p' \<and>
    heap_lines p' = strip_unused (heap_lines p) \<and> pd_upper p' + aligned_sum (stored p') = pd_special p'"
proof -
  let ?n = "PageGetMaxOffsetNumber p" and ?p1 = "reset_unused p (all_offsets p)"
  define m where "m = last (0 # filter (used_off p) (all_offsets p))"
  obtain pres where scan: "repair_scan p (all_offsets p) (pd_special p) True [] InvalidOffsetNumber 0 =
      Inr (?p1, pres, heap_items p, m, length (filter (\<lambda>i. \<not> used_off p i) (all_offsets p)))"
    and pres: "pres \<longrightarrow> sorted_wrt (\<lambda>a b. b < a) (map itemoff (heap_items p))"
    using heap_scan [OF ok] unfolding m_def by blast
  have m: "m \<le> ?n" "\<forall>i. m < i \<and> i \<le> ?n \<longrightarrow> \<not> used_off p i" "m = 0 \<or> used_off p m"
    using last_used [of "used_off p" ?n, folded m_def] by blast+
  obtain p2 where move: "(if heap_items p = [] then Inr (?p1\<lparr>pd_upper := pd_special ?p1\<rparr>)
      else if sum_list (map alignedlen (heap_items p)) > pd_special ?p1 - pd_lower ?p1 then Inl CorruptItemLengths
      else Inr (compactify_tuples scratch (heap_items p) ?p1 pres)) = Inr p2" and "compacted ?p1 (heap_items p) p2"
    using heap_compaction [OF ok pres] by blast
  from heap_compacted [OF ok this(2)] have p2: "heap_page_ok p2" "heap_lines p2 = heap_lines p" "PageGetMaxOffsetNumber p2 = ?n"
      "pd_upper p2 + aligned_sum (stored p2) = pd_special p2" by auto
  define hint where "hint \<longleftrightarrow> 0 < length (filter (\<lambda>i. \<not> used_off p i) [1..<m + 1])"
  have "pd_lower p2 = SizeOfPageHeaderData + sizeof_ItemIdData * ?n" using p2(1,3) by (simp add: heap_page_ok_def)
  note cut = cut_after [OF this m(1)]
  have cnt: "(if m \<noteq> ?n then length (filter (\<lambda>i. \<not> used_off p i) (all_offsets p)) - (?n - m)
      else length (filter (\<lambda>i. \<not> used_off p i) (all_offsets p))) = length (filter (\<lambda>i. \<not> used_off p i) [1..<m + 1])"
    using count_unused [OF m(1,2)] by (cases "m = ?n") (simp_all del: upt_Suc)
  have run: "PageRepairFragmentation scratch p = Inr (cut_lines p2 m hint)"
    using heap_not_corrupted [OF ok] unfolding PageRepairFragmentation_def FirstOffsetNumber_def Let_def scan
    by (simp only: sum.case prod.case move cut cnt cut_lines_def hint_def if_False)
  have "\<not> ItemIdHasStorage (pd_linp p2 k)" if k: "m \<le> k" "k < ?n" for k
  proof -
    have "\<not> used_off p (Suc k)" using m(2) k by simp
    then have "\<not> ItemIdIsUsed (pd_linp p2 k)" using heap_lines_used [OF p2(2) k(2)] by (simp add: PageGetItemId_def)
    then show ?thesis using no_storage_unused [OF p2(1)] k(2) p2(3) by simp
  qed
  then have "heap_page_ok (cut_lines p2 m hint) \<and> hint_exact (cut_lines p2 m hint) \<and> heap_lines (cut_lines p2 m hint) = take m (heap_lines p) \<and>
      stored (cut_lines p2 m hint) = stored p2"
    using cut_lines_ok [of m p2 hint] hint_at [OF p2(2) m(1)] m(1) p2 hint_def by simp
  moreover have "pd_upper (cut_lines p2 m hint) = pd_upper p2" "pd_special (cut_lines p2 m hint) = pd_special p2"
    by (simp_all add: cut_lines_def PageSetHasFreeLinePointers_def PageClearHasFreeLinePointers_def)
  ultimately show ?thesis using run p2(4) strip_at [OF m] by simp
qed

text \<open>C20. Repairing the fragmentation of a heap page keeps every line pointer that is in use under its number, with its tuple, although the tuples
  are moved, and cuts the unused ones at the end of the array. All free space is in one piece afterwards, the page is well formed, and the hint
  bit is set exactly when an unused line pointer is left.\<close>

theorem repair_fragmentation_correct:
  assumes "heap_page_ok p"
  shows "\<exists>p'. PageRepairFragmentation scratch p = Inr p' \<and> heap_page_ok p' \<and> hint_exact p' \<and>
    heap_lines p' = strip_unused (heap_lines p) \<and> pd_upper p' + aligned_sum (stored p') = pd_special p'"
  by (rule repair_ok [OF assms])

section \<open>Truncation alone\<close>

lemma down_Suc: "rev [1..<Suc m + 1] = Suc m # rev [1..<m + 1]"
  by simp

lemma truncate_done:
  "truncate_scan p (rev [1..<m + 1]) True e = (e, \<exists>i \<in> {1..m}. \<not> used_off p i)"
proof (induction m)
  case (Suc m)
  then show ?case unfolding down_Suc by (auto simp: atLeastAtMostSuc_conv simp del: upt_Suc)
qed simp

lemma truncate_scan_ok:
  "\<exists>c. truncate_scan p (rev [1..<m + 1]) False e = (e + c, \<exists>i \<in> {1..m - c}. \<not> used_off p i) \<and> (0 < m \<longrightarrow> c < m) \<and> c \<le> m \<and>
     (\<forall>i. m - c < i \<and> i \<le> m \<longrightarrow> \<not> used_off p i) \<and> (m - c \<le> 1 \<or> used_off p (m - c))"
proof (induction m arbitrary: e)
  case 0
  show ?case by (intro exI [of _ 0]) simp
next
  case (Suc m)
  consider "m = 0" | "0 < m" "used_off p (Suc m)" | "0 < m" "\<not> used_off p (Suc m)" by auto
  then show ?case
  proof cases
    case 1
    then show ?thesis by (intro exI [of _ 0]) (auto simp: FirstOffsetNumber_def)
  next
    case 2
    have "truncate_scan p (rev [1..<Suc m + 1]) False e = (e + 0, \<exists>i \<in> {1..Suc m - 0}. \<not> used_off p i)"
      unfolding down_Suc using 2 truncate_done [of p m e]
      by (simp add: FirstOffsetNumber_def atLeastAtMostSuc_conv del: upt_Suc)
    then show ?thesis using 2 by (intro exI [of _ 0]) (auto simp del: upt_Suc truncate_scan.simps)
  next
    case 3
    obtain c where c: "truncate_scan p (rev [1..<m + 1]) False (e + 1) = (e + 1 + c, \<exists>i \<in> {1..m - c}. \<not> used_off p i)" "c < m"
        "\<forall>i. m - c < i \<and> i \<le> m \<longrightarrow> \<not> used_off p i" "m - c \<le> 1 \<or> used_off p (m - c)"
      using Suc.IH [of "e + 1"] 3(1) by blast
    have "truncate_scan p (rev [1..<Suc m + 1]) False e = (e + Suc c, \<exists>i \<in> {1..Suc m - Suc c}. \<not> used_off p i)"
      unfolding down_Suc using 3 c(1) by (simp add: FirstOffsetNumber_def del: upt_Suc)
    moreover have "\<forall>i. Suc m - Suc c < i \<and> i \<le> Suc m \<longrightarrow> \<not> used_off p i" using c(3) 3(2) by (auto simp: le_Suc_eq)
    ultimately show ?thesis using c(2,4) by (intro exI [of _ "Suc c"]) (auto simp del: upt_Suc truncate_scan.simps)
  qed
qed

lemma truncate_ok:
  assumes ok: "heap_page_ok p"
  shows "heap_page_ok (PageTruncateLinePointerArray p) \<and> hint_exact (PageTruncateLinePointerArray p) \<and>
    heap_lines (PageTruncateLinePointerArray p) = take (max 1 (length (strip_unused (heap_lines p)))) (heap_lines p)"
proof -
  let ?n = "PageGetMaxOffsetNumber p"
  obtain c where c: "truncate_scan p (rev [1..<?n + 1]) False 0 = (0 + c, \<exists>i \<in> {1..?n - c}. \<not> used_off p i)" "0 < ?n \<longrightarrow> c < ?n" "c \<le> ?n"
      "\<forall>i. ?n - c < i \<and> i \<le> ?n \<longrightarrow> \<not> used_off p i" "?n - c \<le> 1 \<or> used_off p (?n - c)"
    using truncate_scan_ok [of p ?n 0] by (elim exE conjE)
  define m where "m = ?n - c"
  define hint where "hint \<longleftrightarrow> (\<exists>i \<in> {1..m}. \<not> used_off p i)"
  have m: "m \<le> ?n" "\<forall>i. m < i \<and> i \<le> ?n \<longrightarrow> \<not> used_off p i" "m \<le> 1 \<or> used_off p m" "0 < ?n \<longrightarrow> 0 < m"
    using c(2-5) by (auto simp: m_def)
  have "pd_lower p = SizeOfPageHeaderData + sizeof_ItemIdData * ?n" using ok by (simp add: heap_page_ok_def)
  note cut = cut_after [OF this m(1)]
  have "0 < c \<longleftrightarrow> m \<noteq> ?n" "c = ?n - m" using c(3) by (auto simp: m_def)
  then have run: "PageTruncateLinePointerArray p = cut_lines p m hint"
    unfolding PageTruncateLinePointerArray_def FirstOffsetNumber_def c(1) Let_def cut_lines_def
    by (simp only: prod.case add_0 cut hint_def diff_diff_cancel [OF m(1)])
  have hint: "hint \<longleftrightarrow> (\<exists>k < m. \<not> ItemIdIsUsed (pd_linp p k))"
  proof -
    have "0 < length (filter (\<lambda>i. \<not> used_off p i) [1..<m + 1]) \<longleftrightarrow> hint" by (auto simp: hint_def filter_empty_conv simp del: upt_Suc)
    then show ?thesis using hint_at [OF refl m(1)] by simp
  qed
  have free: "\<not> ItemIdHasStorage (pd_linp p k)" if "m \<le> k" "k < ?n" for k
    using m(2) [rule_format, of "Suc k"] that no_storage_unused [OF ok, of k] by (simp add: PageGetItemId_def)
  have "take (max 1 (length (strip_unused (heap_lines p)))) (heap_lines p) = take m (heap_lines p)"
  proof (cases "m = 0 \<or> used_off p m")
    case True
    then show ?thesis using strip_at [OF m(1,2)] m(1,4) by (cases "?n = 0") (auto simp: max_def heap_lines_def line_pointers_def)
  next
    case False
    then have "m = 1" using m(3) by simp
    moreover have "\<not> used_off p i" if "0 < i" "i \<le> ?n" for i
      using that False \<open>m = 1\<close> m(2) by (cases "i = 1") simp_all
    ultimately show ?thesis using strip_at [of 0 p] by simp
  qed
  then show ?thesis using cut_lines_ok [OF m(1) _ ok hint] free unfolding run by simp
qed

text \<open>Truncating the line pointer array of a heap page cuts the unused line pointers at its end, but for the first line pointer, which stays:
  the used ones keep their tuples and their numbers, and the hint bit says whether an unused one is left.\<close>

lemma truncate_lines_correct:
  assumes "heap_page_ok p"
  shows "heap_page_ok (PageTruncateLinePointerArray p) \<and> hint_exact (PageTruncateLinePointerArray p) \<and>
    heap_lines (PageTruncateLinePointerArray p) = take (max 1 (length (strip_unused (heap_lines p)))) (heap_lines p)"
  by (rule truncate_ok [OF assms])

section \<open>A page to instantiate the theorems\<close>

text \<open>A normal tuple at each end of a hole, with an unused line pointer between them and one after them.\<close>

definition sample_heap :: "(nat, nat) PageData" where
  "sample_heap = \<lparr>pd_flags = 0, pd_lower = 40, pd_upper = 8144, pd_special = 8192, pd_pagesize_version = 4,
     pd_linp = (\<lambda>k. [\<lparr>lp_off = 8144, lp_flags = 1, lp_len = 2\<rparr>, \<lparr>lp_off = 0, lp_flags = 0, lp_len = 0\<rparr>,
        \<lparr>lp_off = 8176, lp_flags = 1, lp_len = 3\<rparr>, \<lparr>lp_off = 0, lp_flags = 0, lp_len = 0\<rparr>] ! k),
     pd_cells = (\<lambda>a. a), pd_opaque = 0\<rparr>"

lemma sample_heap_lines: "line_pointers sample_heap = [\<lparr>lp_off = 8144, lp_flags = 1, lp_len = 2\<rparr>, \<lparr>lp_off = 0, lp_flags = 0, lp_len = 0\<rparr>,
    \<lparr>lp_off = 8176, lp_flags = 1, lp_len = 3\<rparr>, \<lparr>lp_off = 0, lp_flags = 0, lp_len = 0\<rparr>]"
  "PageGetMaxOffsetNumber sample_heap = 4"
  by (simp_all add: line_pointers_def sample_heap_def PageGetMaxOffsetNumber_def page_consts upt_rec)

lemma sample_heap_ok: "heap_page_ok sample_heap"
  "heap_lines sample_heap = [(1, [8144, 8145], 0), (0, [], 0), (1, [8176, 8177, 8178], 0), (0, [], 0)]"
  unfolding heap_page_ok_def stored_def heap_lines_def sample_heap_lines
  by (simp_all add: sample_heap_def item_ok_def apart_def MAXALIGN_def ItemIdHasStorage_def page_consts MaxHeapTuplesPerPage_def
      LP_NORMAL_def heap_line_def PageGetItem_def LP_REDIRECT_def upt_rec)

theorem repair_fragmentation_correct_witness:
  "\<exists>p'. PageRepairFragmentation (\<lambda>_. 0) sample_heap = Inr p' \<and> heap_lines p' = [(1, [8144, 8145], 0), (0, [], 0), (1, [8176, 8177, 8178], 0)] \<and>
     PageHasFreeLinePointers p'"
  using repair_fragmentation_correct [OF sample_heap_ok(1), of "\<lambda>_. 0"]
  by (auto simp: sample_heap_ok(2) strip_unused_def LP_UNUSED_def hint_exact_def)

lemma truncate_lines_correct_example:
  "heap_lines (PageTruncateLinePointerArray sample_heap) = [(1, [8144, 8145], 0), (0, [], 0), (1, [8176, 8177, 8178], 0)] \<and>
     PageHasFreeLinePointers (PageTruncateLinePointerArray sample_heap)"
  using truncate_lines_correct [OF sample_heap_ok(1)]
  by (auto simp: sample_heap_ok(2) strip_unused_def LP_UNUSED_def hint_exact_def)

end
