(* ===== verification/TR_PageEdit.thy ===== *)
theory TR_PageEdit
  imports TR_HeapPage
begin

text \<open>
  The routines of \<^verbatim>\<open>bufpage.c\<close> that change one tuple in place: \<^verbatim>\<open>PageIndexTupleOverwrite\<close>, which replaces a tuple and moves the
  others as little as possible, and \<^verbatim>\<open>PageIndexTupleDeleteNoCompact\<close>, which keeps the numbers of the other tuples. With them
  \<^verbatim>\<open>PageGetHeapFreeSpace\<close>.
\<close>

section \<open>The routines\<close>

text \<open>The number of bytes by which the tuple shrinks is negative when it grows. Fields of a line pointer have 15 bits.\<close>

definition shift_off :: "ItemIdData \<Rightarrow> int \<Rightarrow> ItemIdData" where
  "shift_off lp d = lp\<lparr>lp_off := nat ((int (lp_off lp) + d) mod 2 ^ 15)\<rparr>"

definition PageIndexTupleOverwrite :: "('b, 's) PageData \<Rightarrow> nat \<Rightarrow> 'b list \<Rightarrow> pg_error + bool \<times> ('b, 's) PageData" where
  "PageIndexTupleOverwrite p offnum newtup =
     (if corrupted_page_pointers p then Inl CorruptPagePointers
      else
        let itemcount = PageGetMaxOffsetNumber p in
        if offnum = 0 \<or> offnum > itemcount then Inl (InvalidIndexOffnum offnum)
        else
          let tupid = PageGetItemId p offnum; oldsize = lp_len tupid; offset = lp_off tupid in
          if offset < pd_upper p \<or> offset + oldsize > pd_special p \<or> offset \<noteq> MAXALIGN offset then Inl CorruptLinePointer
          else
            let oldsize = MAXALIGN oldsize; alignednewsize = MAXALIGN (length newtup) in
            if alignednewsize > oldsize + (pd_upper p - pd_lower p) then Inr (False, p)
            else
              let size_diff = int oldsize - int alignednewsize;
                  p = (if size_diff \<noteq> 0
                       then p\<lparr>pd_cells := memmove (pd_cells p) (nat (int (pd_upper p) + size_diff)) (pd_upper p) (offset - pd_upper p),
                              pd_upper := nat (int (pd_upper p) + size_diff),
                              pd_linp := (\<lambda>i. if i < itemcount \<and> ItemIdHasStorage (pd_linp p i) \<and> lp_off (pd_linp p i) \<le> offset
                                              then shift_off (pd_linp p i) size_diff else pd_linp p i)\<rparr>
                       else p);
                  tupid = (PageGetItemId p offnum)\<lparr>lp_off := nat ((int offset + size_diff) mod 2 ^ 15), lp_len := length newtup mod 2 ^ 15\<rparr>
              in Inr (True, p\<lparr>pd_linp := (pd_linp p)(offnum - 1 := tupid), pd_cells := memcpy (pd_cells p) (lp_off tupid) newtup\<rparr>))"

definition PageIndexTupleDeleteNoCompact :: "('b, 's) PageData \<Rightarrow> nat \<Rightarrow> pg_error + ('b, 's) PageData" where
  "PageIndexTupleDeleteNoCompact p offnum =
     (if corrupted_page_pointers p then Inl CorruptPagePointers
      else
        let nline = PageGetMaxOffsetNumber p in
        if offnum = 0 \<or> offnum > nline then Inl (InvalidIndexOffnum offnum)
        else
          let tup = PageGetItemId p offnum; size = lp_len tup; offset = lp_off tup in
          if offset < pd_upper p \<or> offset + size > pd_special p \<or> offset \<noteq> MAXALIGN offset then Inl CorruptLinePointer
          else
            let size = MAXALIGN size;
                nline' = (if offnum < nline then nline else nline - 1);
                p = (if offnum < nline then p\<lparr>pd_linp := (pd_linp p)(offnum - 1 := ItemIdSetUnused)\<rparr>
                     else p\<lparr>pd_lower := pd_lower p - sizeof_ItemIdData\<rparr>);
                cells = (if offset > pd_upper p then memmove (pd_cells p) (pd_upper p + size) (pd_upper p) (offset - pd_upper p)
                         else pd_cells p);
                p = p\<lparr>pd_cells := cells, pd_upper := pd_upper p + size\<rparr>
            in Inr (if PageIsEmpty p then p
                    else p\<lparr>pd_linp := (\<lambda>i. if i < nline' \<and> ItemIdHasStorage (pd_linp p i) \<and> lp_off (pd_linp p i) \<le> offset
                            then shift_off (pd_linp p i) (int size) else pd_linp p i)\<rparr>))"

definition PageGetHeapFreeSpace :: "('b, 's) PageData \<Rightarrow> nat" where
  "PageGetHeapFreeSpace p =
     (let space = PageGetFreeSpace p in
      if space > 0 then
        let nline = PageGetMaxOffsetNumber p in
        if nline \<ge> MaxHeapTuplesPerPage then
          if PageHasFreeLinePointers p then
            if list_all (\<lambda>offnum. ItemIdIsUsed (PageGetItemId p offnum)) [FirstOffsetNumber..<nline + 1] then 0 else space
          else 0
        else space
      else space)"

section \<open>Replacing a tuple\<close>

text \<open>The tuples in front of the one that is replaced move by the difference of the sizes \<open>S\<close> and \<open>N\<close>.\<close>

definition move_lp :: "nat \<Rightarrow> nat \<Rightarrow> nat \<Rightarrow> ItemIdData \<Rightarrow> ItemIdData" where
  "move_lp off S N i = (if lp_off i \<le> off then i\<lparr>lp_off := lp_off i + S - N\<rparr> else i)"

lemma overwrite_page:
  fixes p :: "('b, 's) PageData"
  defines "n \<equiv> PageGetMaxOffsetNumber p"
  assumes ok: "page_ok p" and k: "k < n" and x: "x \<noteq> []"
    and os: "lp_off (pd_linp p k) = off" "MAXALIGN (lp_len (pd_linp p k)) = S" "MAXALIGN (length x) = N"
    and fits: "N \<le> S + (pd_upper p - pd_lower p)"
    and M: "\<And>i. i < n \<Longrightarrow> M i = (if i = k then \<lparr>lp_off = off + S - N, lp_flags = LP_NORMAL, lp_len = length x\<rparr> else move_lp off S N (pd_linp p i))"
    and C: "\<And>a. C a = (if off + S - N \<le> a \<and> a < off + S - N + length x then x ! (a - (off + S - N))
      else if pd_upper p + S - N \<le> a \<and> a < off + S - N then pd_cells p (a + N - S) else pd_cells p a)"
    and p': "p' = p\<lparr>pd_linp := M, pd_cells := C, pd_upper := pd_upper p + S - N\<rparr>"
  shows "page_ok p'" "page_items p' = (page_items p)[k := x]"
proof -
  have iok: "item_ok (pd_upper p) (pd_special p) (pd_linp p i)" if "i < n" for i using page_okD [OF ok] that n_def by simp
  have ap: "apart (pd_linp p i) (pd_linp p j)" if "i < n" "j < n" "i \<noteq> j" for i j
  proof -
    have "apart (line_pointers p ! min i j) (line_pointers p ! max i j)"
      using ok that by (auto simp: page_ok_def sorted_wrt_iff_nth_less n_def min_def max_def)
    then show ?thesis using that by (cases "i < j") (auto simp: n_def min_def max_def apart_sym)
  qed
  have b: "pd_upper p \<le> off" "off + S \<le> pd_special p" "pd_special p \<le> 8192" "8 dvd off" "8 dvd S" "8 dvd N" "0 < N" "length x \<le> N"
      "pd_lower p \<le> pd_upper p" "8 dvd pd_upper p" "N \<le> pd_upper p + S"
    using ok iok [OF k] os MAXALIGN_dvd [of "lp_len (pd_linp p k)"] MAXALIGN_dvd [of "length x"] MAXALIGN_pos [of "length x"] MAXALIGN_ge [of "length x"] x fits
    by (auto simp: page_ok_def item_ok_def page_consts)
  have cases: "lp_off (pd_linp p i) + MAXALIGN (lp_len (pd_linp p i)) \<le> off \<and>
        M i = (pd_linp p i)\<lparr>lp_off := lp_off (pd_linp p i) + S - N\<rparr> \<or> off + S \<le> lp_off (pd_linp p i) \<and> M i = pd_linp p i"
    if "i < n" "i \<noteq> k" for i
    using ap [OF that(1) k that(2)] M [OF that(1)] that(2) os iok [OF that(1)] iok [OF k] MAXALIGN_pos [of "lp_len (pd_linp p i)"]
      MAXALIGN_pos [of "lp_len (pd_linp p k)"]
    by (auto simp: apart_def move_lp_def item_ok_def)
  have Mk: "M k = \<lparr>lp_off = off + S - N, lp_flags = LP_NORMAL, lp_len = length x\<rparr>" using M [OF k] by simp
  have n': "PageGetMaxOffsetNumber p' = n" by (simp add: p' n_def PageGetMaxOffsetNumber_def)
  have linp: "pd_linp p' = M" "pd_cells p' = C" by (simp_all add: p')
  have get: "PageGetItem p' (M i) = (if i = k then x else PageGetItem p (pd_linp p i))" if i: "i < n" for i
  proof (cases "i = k")
    case True
    then show ?thesis by (auto simp: PageGetItem_def Mk linp C intro: nth_equalityI)
  next
    case False
    have "PageGetItem p' (M i) = PageGetItem p (pd_linp p i)"
      using cases [OF i False]
    proof (elim disjE conjE)
      assume lo: "lp_off (pd_linp p i) + MAXALIGN (lp_len (pd_linp p i)) \<le> off" and mv: "M i = (pd_linp p i)\<lparr>lp_off := lp_off (pd_linp p i) + S - N\<rparr>"
      show ?thesis unfolding mv
      proof (rule PageGetItem_shift)
        fix t assume t: "t < lp_len (pd_linp p i)"
        let ?a = "lp_off (pd_linp p i) + S - N + t"
        have "pd_upper p \<le> lp_off (pd_linp p i)" "lp_off (pd_linp p i) + t < off"
          using iok [OF i] lo t MAXALIGN_ge [of "lp_len (pd_linp p i)"] by (auto simp: item_ok_def)
        then have "pd_upper p + S - N \<le> ?a" "?a < off + S - N" "?a + N - S = lp_off (pd_linp p i) + t" using b(11) by linarith+
        then show "pd_cells p' (lp_off ((pd_linp p i)\<lparr>lp_off := lp_off (pd_linp p i) + S - N\<rparr>) + t) = pd_cells p (lp_off (pd_linp p i) + t)"
          by (simp add: linp C)
      qed simp
    next
      assume "off + S \<le> lp_off (pd_linp p i)" "M i = pd_linp p i"
      then show ?thesis using b(1,8,11) by (auto simp: linp C intro!: PageGetItem_cong)
    qed
    then show ?thesis using False by simp
  qed
  show "page_items p' = (page_items p)[k := x]"
    by (rule nth_equalityI) (use get n' in \<open>auto simp: page_items_def nth_list_update linp n_def\<close>)
  have "item_ok (pd_upper p + S - N) (pd_special p) (M i)" if i: "i < n" for i
  proof (cases "i = k")
    case True
    then show ?thesis using b x by (auto simp: Mk item_ok_def os(3) dvd_diff_nat)
  next
    case False
    then show ?thesis using cases [OF i False] iok [OF i] b by (auto simp: item_ok_def dvd_diff_nat)
  qed
  moreover have "apart (M i) (M j)" if "i < n" "j < n" "i \<noteq> j" for i j
  proof -
    consider "i = k" | "j = k" | "i \<noteq> k" "j \<noteq> k" by auto
    then show ?thesis
    proof cases
      case 1
      then show ?thesis using cases [of j] iok [OF that(2)] that b(1,11) by (auto simp: Mk apart_def os(3) item_ok_def)
    next
      case 2
      then show ?thesis using cases [of i] iok [OF that(1)] that b(1,11) by (auto simp: Mk apart_def os(3) item_ok_def)
    next
      case 3
      then show ?thesis using cases [of i] cases [of j] ap [OF that] iok [OF that(1)] iok [OF that(2)] that b(1,11)
        by (auto simp: apart_def item_ok_def)
    qed
  qed
  moreover have "pd_upper p + S - N + aligned_sum (line_pointers p') = pd_special p"
  proof -
    have lens: "map (\<lambda>i. MAXALIGN (lp_len i)) (line_pointers p') = (map (\<lambda>i. MAXALIGN (lp_len i)) (line_pointers p))[k := N]"
      by (rule nth_equalityI) (use cases Mk os(3) k in \<open>fastforce simp: n' linp nth_list_update n_def [symmetric]\<close>)+
    have "S \<le> aligned_sum (line_pointers p)"
      using member_le_sum_list [of S "map (\<lambda>i. MAXALIGN (lp_len i)) (line_pointers p)"] os(2) k
      by (force simp: n_def in_set_conv_nth)
    moreover have "aligned_sum (line_pointers p') = aligned_sum (line_pointers p) + N - S"
      unfolding lens using k os(2) by (subst sum_list_update) (simp_all add: n_def)
    moreover have "pd_upper p + aligned_sum (line_pointers p) = pd_special p" using ok by (simp add: page_ok_def)
    ultimately show ?thesis using b(11) by linarith
  qed
  moreover have "8 dvd pd_upper p + S - N" "pd_lower p \<le> pd_upper p + S - N" using b fits by (auto simp: dvd_diff_nat)
  ultimately show "page_ok p'"
    using ok b n' unfolding page_ok_def
    by (simp add: list_all_length sorted_wrt_iff_nth_less linp n_def PageHasFreeLinePointers_def) (simp add: p' page_consts)
qed

text \<open>The offsets of the code are within a page, so the bit fields lose nothing.\<close>

lemma nat_shift: "N \<le> a + S \<Longrightarrow> nat (int a + (int S - int N)) = a + S - N"
  by (simp add: nat_diff_distrib' of_nat_diff)

lemma nat_shift_mod:
  assumes "N \<le> a + S" "a + S - N < 2 ^ 15"
  shows "nat ((int a + (int S - int N)) mod 2 ^ 15) = a + S - N"
proof -
  have "int a + (int S - int N) = int (a + S - N)" using assms(1) by (simp add: of_nat_diff)
  then show ?thesis using assms(2) by (simp del: of_nat_add)
qed

lemma overwrite_cells:
  assumes "upper \<le> off" "N \<le> upper + S"
  shows "memcpy (if S \<noteq> N then memmove cells (upper + S - N) upper (off - upper) else cells) (off + S - N) x =
    (\<lambda>a. if off + S - N \<le> a \<and> a < off + S - N + length x then x ! (a - (off + S - N))
      else if upper + S - N \<le> a \<and> a < off + S - N then cells (a + N - S) else cells a)"
proof
  fix a
  have "upper + (a - (upper + S - N)) = a + N - S" if "upper + S - N \<le> a" using assms that by linarith
  moreover have "upper + S - N + (off - upper) = off + S - N" using assms by linarith
  ultimately show "memcpy (if S \<noteq> N then memmove cells (upper + S - N) upper (off - upper) else cells) (off + S - N) x a =
    (if off + S - N \<le> a \<and> a < off + S - N + length x then x ! (a - (off + S - N))
      else if upper + S - N \<le> a \<and> a < off + S - N then cells (a + N - S) else cells a)"
    by (cases "S = N") (auto simp: memcpy_def memmove_def)
qed

lemma PageIndexTupleOverwrite_ok:
  assumes ok: "page_ok p" and k: "k < PageGetMaxOffsetNumber p" and x: "x \<noteq> []"
  shows "if MAXALIGN (length x) \<le> MAXALIGN (length (page_items p ! k)) + (pd_upper p - pd_lower p)
    then \<exists>p'. PageIndexTupleOverwrite p (Suc k) x = Inr (True, p') \<and> page_ok p' \<and> page_items p' = (page_items p)[k := x] \<and>
      pd_special p' = pd_special p \<and> pd_opaque p' = pd_opaque p
    else PageIndexTupleOverwrite p (Suc k) x = Inr (False, p)"
proof -
  define n where "n = PageGetMaxOffsetNumber p"
  define off where "off = lp_off (pd_linp p k)"
  define S where "S = MAXALIGN (lp_len (pd_linp p k))"
  define N where "N = MAXALIGN (length x)"
  have d: "item_ok (pd_upper p) (pd_special p) (pd_linp p k)" by (rule page_okD [OF ok k])
  have b: "pd_lower p \<le> pd_upper p" "pd_upper p \<le> off" "8 dvd off" "lp_len (pd_linp p k) \<le> S" "off + S \<le> pd_special p" "pd_special p \<le> 8192"
      "lp_flags (pd_linp p k) = LP_NORMAL" "length x \<le> N"
    using ok d by (auto simp: page_ok_def page_consts off_def S_def item_ok_def MAXALIGN_ge N_def)
  have g: "\<not> (Suc k = 0 \<or> n < Suc k)"
    "\<not> (off < pd_upper p \<or> pd_special p < off + lp_len (pd_linp p k) \<or> off \<noteq> MAXALIGN off)"
    using k b by (auto simp: n_def MAXALIGN_id)
  have S: "MAXALIGN (length (page_items p ! k)) = S" using k by (simp add: page_items_def S_def)
  note unfolded = PageIndexTupleOverwrite_def Let_def PageGetItemId_def diff_Suc_1
      n_def [symmetric] off_def [symmetric] S_def [symmetric] N_def [symmetric]
  show ?thesis
  proof (cases "N \<le> S + (pd_upper p - pd_lower p)")
    case False
    then have "PageIndexTupleOverwrite p (Suc k) x = Inr (False, p)"
      unfolding unfolded using page_not_corrupted [OF ok] g by (simp only: if_False not_le if_True)
    then show ?thesis using False S N_def by simp
  next
    case True
    define q where "q = (if int S - int N \<noteq> 0
        then p\<lparr>pd_cells := memmove (pd_cells p) (nat (int (pd_upper p) + (int S - int N))) (pd_upper p) (off - pd_upper p),
               pd_upper := nat (int (pd_upper p) + (int S - int N)),
               pd_linp := (\<lambda>i. if i < n \<and> ItemIdHasStorage (pd_linp p i) \<and> lp_off (pd_linp p i) \<le> off
                               then shift_off (pd_linp p i) (int S - int N) else pd_linp p i)\<rparr>
        else p)"
    define tupid where "tupid = (pd_linp q k)\<lparr>lp_off := nat ((int off + (int S - int N)) mod 2 ^ 15), lp_len := length x mod 2 ^ 15\<rparr>"
    have run: "PageIndexTupleOverwrite p (Suc k) x = Inr (True, q\<lparr>pd_linp := (pd_linp q)(k := tupid), pd_cells := memcpy (pd_cells q) (lp_off tupid) x\<rparr>)"
      unfolding unfolded using page_not_corrupted [OF ok] g leD [OF True]
      by (simp only: if_False if_True q_def [symmetric] tupid_def [symmetric])
    let ?C = "memcpy (pd_cells q) (lp_off tupid) x" and ?M = "(pd_linp q)(k := tupid)"
    have N: "N \<le> pd_upper p + S" "N \<le> off + S" "length x < 32768" "off + S - N < 32768" using True b by linarith+
    have qf: "pd_cells q = (if S \<noteq> N then memmove (pd_cells p) (pd_upper p + S - N) (pd_upper p) (off - pd_upper p) else pd_cells p)"
      by (cases "S = N") (simp_all add: q_def nat_shift N)
    have qu: "q\<lparr>pd_linp := ?M, pd_cells := ?C\<rparr> = p\<lparr>pd_linp := ?M, pd_cells := ?C, pd_upper := pd_upper p + S - N\<rparr>"
      by (cases "S = N") (simp_all add: q_def nat_shift N)
    have ql: "pd_linp q i = move_lp off S N (pd_linp p i)" if i: "i < n" for i
    proof (cases "lp_off (pd_linp p i) \<le> off")
      case lo: True
      have "item_ok (pd_upper p) (pd_special p) (pd_linp p i)" using page_okD [OF ok] i n_def by simp
      then have "ItemIdHasStorage (pd_linp p i)" "N \<le> lp_off (pd_linp p i) + S" using N(1) by (auto simp: item_ok_def ItemIdHasStorage_def)
      moreover have "lp_off (pd_linp p i) + S - N < 32768" using lo b by linarith
      ultimately show ?thesis using lo i by (cases "S = N") (simp_all add: q_def move_lp_def shift_off_def nat_shift_mod)
    next
      case False
      then show ?thesis by (cases "S = N") (simp_all add: q_def move_lp_def)
    qed
    have tup: "tupid = \<lparr>lp_off = off + S - N, lp_flags = LP_NORMAL, lp_len = length x\<rparr>"
      using ql [of k] k b(7) N by (simp add: tupid_def n_def nat_shift_mod move_lp_def)
    have "page_ok (q\<lparr>pd_linp := ?M, pd_cells := ?C\<rparr>) \<and> page_items (q\<lparr>pd_linp := ?M, pd_cells := ?C\<rparr>) = (page_items p)[k := x]"
      using overwrite_page [OF ok k x off_def [symmetric] S_def [symmetric] N_def [symmetric] True, of ?M ?C] ql tup
        overwrite_cells [OF b(2) N(1), of "pd_cells p" x] qf qu n_def by simp
    then show ?thesis using run True S N_def by (simp add: qu)
  qed
qed

text \<open>C21. Overwriting a tuple gives the items that deleting it and inserting the new one under its number gives, when there is room for the
  difference of the sizes; otherwise the page is unchanged and the routine says so.\<close>

theorem overwrite_is_replace:
  assumes "page_ok p" "k < PageGetMaxOffsetNumber p" "x \<noteq> []"
  shows "if MAXALIGN (length x) \<le> MAXALIGN (length (page_items p ! k)) + (pd_upper p - pd_lower p)
    then \<exists>p' q q'. PageIndexTupleOverwrite p (Suc k) x = Inr (True, p') \<and> page_ok p' \<and>
      PageIndexTupleDelete p (Suc k) = Inr q \<and> PageAddItem q x (Suc k) False False = Inr (Suc k, q') \<and>
      page_items p' = (page_items p)[k := x] \<and> page_items q' = page_items p'
    else PageIndexTupleOverwrite p (Suc k) x = Inr (False, p)"
proof (cases "MAXALIGN (length x) \<le> MAXALIGN (length (page_items p ! k)) + (pd_upper p - pd_lower p)")
  case True
  have "sum_list (map item_space (page_items p)) + item_space x \<le> page_room p + item_space (page_items p ! k)"
    using True page_space [OF assms(1)] assms(1) by (auto simp: item_space_def page_room_def page_ok_def)
  then show ?thesis
    using bufpage.replace_ok [OF assms(1), of x k] PageIndexTupleOverwrite_ok [OF assms] assms True by auto
next
  case False
  then show ?thesis using PageIndexTupleOverwrite_ok [OF assms] by simp
qed

theorem overwrite_is_replace_witness:
  "\<exists>p p' :: (nat, nat) PageData. page_items p = [[1], [2, 3], [4]] \<and> PageIndexTupleOverwrite p 2 [5, 6, 7, 8, 9, 10, 11, 12, 13] = Inr (True, p') \<and>
     page_items p' = [[1], [5, 6, 7, 8, 9, 10, 11, 12, 13], [4]]"
proof -
  obtain p :: "(nat, nat) PageData" where p: "page_ok p" "page_items p = [[1], [2, 3], [4]]" "page_room p = 8152"
    using page_with [of "[[1], [2, 3], [4]]"] by (auto simp: item_space_def MAXALIGN_def page_consts)
  have n: "PageGetMaxOffsetNumber p = 3" using arg_cong [OF p(2), of length] by simp
  have "pd_upper p - pd_lower p = 8116"
    using page_space [OF p(1)] p(2,3) by (simp add: page_room_def item_space_def MAXALIGN_def page_consts)
  then show ?thesis
    using overwrite_is_replace [OF p(1), of 1 "[5, 6, 7, 8, 9, 10, 11, 12, 13]"] n p(2) by (auto simp: MAXALIGN_def numeral_2_eq_2)
qed

section \<open>Deleting without renumbering\<close>

lemma sorted_wrt_filter_iff: "sorted_wrt R (filter P xs) \<longleftrightarrow> sorted_wrt (\<lambda>x y. P x \<longrightarrow> P y \<longrightarrow> R x y) xs"
  by (induction xs) auto

lemma aligned_stored: "aligned_sum (stored p) = aligned_sum (line_pointers p)"
proof -
  have "aligned_sum (filter ItemIdHasStorage lps) = aligned_sum lps" for lps
    by (induction lps) (simp_all add: ItemIdHasStorage_def MAXALIGN_def)
  then show ?thesis by (simp add: stored_def)
qed

lemma heap_page_iff:
  "heap_page_ok p \<longleftrightarrow> pd_lower p = SizeOfPageHeaderData + sizeof_ItemIdData * PageGetMaxOffsetNumber p \<and>
     PageGetMaxOffsetNumber p \<le> MaxHeapTuplesPerPage \<and>
     pd_lower p \<le> pd_upper p \<and> pd_upper p \<le> pd_special p \<and> pd_special p \<le> BLCKSZ \<and> 8 dvd pd_special p \<and>
     (\<forall>i < PageGetMaxOffsetNumber p. ItemIdHasStorage (pd_linp p i) \<longrightarrow> item_ok (pd_upper p) (pd_special p) (pd_linp p i)) \<and>
     (\<forall>i < PageGetMaxOffsetNumber p. \<forall>j < i. ItemIdHasStorage (pd_linp p i) \<longrightarrow> ItemIdHasStorage (pd_linp p j) \<longrightarrow> apart (pd_linp p j) (pd_linp p i)) \<and>
     pd_upper p + aligned_sum (line_pointers p) \<le> pd_special p"
proof -
  have "list_all (item_ok (pd_upper p) (pd_special p)) (stored p) \<longleftrightarrow>
      (\<forall>i < PageGetMaxOffsetNumber p. ItemIdHasStorage (pd_linp p i) \<longrightarrow> item_ok (pd_upper p) (pd_special p) (pd_linp p i))"
    by (auto simp: stored_def list_all_iff line_pointers_def)
  moreover have "sorted_wrt apart (stored p) \<longleftrightarrow> (\<forall>i < PageGetMaxOffsetNumber p. \<forall>j < i. ItemIdHasStorage (pd_linp p i) \<longrightarrow>
      ItemIdHasStorage (pd_linp p j) \<longrightarrow> apart (pd_linp p j) (pd_linp p i))"
    unfolding stored_def sorted_wrt_filter_iff by (auto simp: sorted_wrt_iff_nth_less)
  ultimately show ?thesis unfolding heap_page_ok_def aligned_stored by simp
qed

lemma aligned_sum_lines: "aligned_sum (line_pointers p) = (\<Sum>i \<in> {..<PageGetMaxOffsetNumber p}. MAXALIGN (lp_len (pd_linp p i)))"
  by (simp add: line_pointers_def comp_def interv_sum_list_conv_sum_set_nat atLeast0LessThan)

lemma nocompact_page:
  fixes p :: "('b, 's) PageData"
  defines "n \<equiv> PageGetMaxOffsetNumber p"
  assumes ok: "heap_page_ok p" and k: "k < n" "ItemIdHasStorage (pd_linp p k)" and n': "n' = (if Suc k < n then n else n - 1)"
    and os: "lp_off (pd_linp p k) = off" "MAXALIGN (lp_len (pd_linp p k)) = S"
    and M: "\<And>i. i < n' \<Longrightarrow> M i = (if i = k then ItemIdSetUnused
      else if ItemIdHasStorage (pd_linp p i) then shift_lp off S (pd_linp p i) else pd_linp p i)"
    and C: "\<And>a. C a = (if pd_upper p + S \<le> a \<and> a < off + S then pd_cells p (a - S) else pd_cells p a)"
    and p': "p' = p\<lparr>pd_linp := M, pd_cells := C, pd_upper := pd_upper p + S, pd_lower := SizeOfPageHeaderData + sizeof_ItemIdData * n'\<rparr>"
  shows "heap_page_ok p'" "heap_lines p' = (if Suc k < n then (heap_lines p)[k := (LP_UNUSED, [], 0)] else butlast (heap_lines p))"
proof -
  note okd = ok [unfolded heap_page_iff, folded n_def]
  have iok: "item_ok (pd_upper p) (pd_special p) (pd_linp p i)" if "i < n" "ItemIdHasStorage (pd_linp p i)" for i using okd that by blast
  have ap: "apart (pd_linp p i) (pd_linp p j)" if "i < n" "j < n" "i \<noteq> j" "ItemIdHasStorage (pd_linp p i)" "ItemIdHasStorage (pd_linp p j)" for i j
    using okd that by (cases "i < j") (auto simp: apart_sym)
  have b: "pd_upper p \<le> off" "off + S \<le> pd_special p" "pd_special p \<le> 8192" "8 dvd off" "0 < S" "8 dvd S"
    using okd iok [OF k] os MAXALIGN_pos [of "lp_len (pd_linp p k)"] MAXALIGN_dvd [of "lp_len (pd_linp p k)"]
    by (auto simp: item_ok_def page_consts)
  have cases: "lp_off (pd_linp p i) + MAXALIGN (lp_len (pd_linp p i)) \<le> off \<and> M i = (pd_linp p i)\<lparr>lp_off := lp_off (pd_linp p i) + S\<rparr> \<or>
      off + S \<le> lp_off (pd_linp p i) \<and> M i = pd_linp p i" if "i < n'" "i \<noteq> k" "ItemIdHasStorage (pd_linp p i)" for i
  proof -
    have i: "i < n" using that(1) n' by (auto split: if_splits)
    show ?thesis using ap [OF i k(1) that(2,3) k(2)] iok [OF i that(3)] M [OF that(1)] that(2,3) b os MAXALIGN_pos [of "lp_len (pd_linp p i)"]
      by (auto simp: apart_def item_ok_def shift_lp_def)
  qed
  have stay: "M i = pd_linp p i" if "i < n'" "i \<noteq> k" "\<not> ItemIdHasStorage (pd_linp p i)" for i using M [OF that(1)] that by simp
  have Mk: "M k = ItemIdSetUnused" if "k < n'" using M [OF that] by simp
  have max: "PageGetMaxOffsetNumber p' = n'" by (simp add: p' PageGetMaxOffsetNumber_def page_consts)
  have linp: "pd_linp p' = M" "pd_cells p' = C" by (simp_all add: p')
  have le: "n' \<le> n" using n' by simp
  have line: "heap_line p' (M i) = (if i = k then (LP_UNUSED, [], 0) else heap_line p (pd_linp p i))" if i: "i < n'" for i
  proof (cases "i = k \<or> \<not> ItemIdHasStorage (pd_linp p i)")
    case True
    then show ?thesis using Mk stay [OF i] i
      by (cases "i = k") (auto simp: heap_line_def PageGetItem_def ItemIdSetUnused_def ItemIdHasStorage_def LP_REDIRECT_def LP_UNUSED_def)
  next
    case False
    then have st: "i \<noteq> k" "ItemIdHasStorage (pd_linp p i)" by auto
    have d: "item_ok (pd_upper p) (pd_special p) (pd_linp p i)" using iok st(2) i le by simp
    have "PageGetItem p' (M i) = PageGetItem p (pd_linp p i)"
      using cases [OF i st]
    proof (elim disjE conjE)
      assume lo: "lp_off (pd_linp p i) + MAXALIGN (lp_len (pd_linp p i)) \<le> off" and mv: "M i = (pd_linp p i)\<lparr>lp_off := lp_off (pd_linp p i) + S\<rparr>"
      show ?thesis unfolding mv
        by (rule PageGetItem_shift) (use lo d MAXALIGN_ge [of "lp_len (pd_linp p i)"] in \<open>auto simp: linp item_ok_def C\<close>)
    next
      assume "off + S \<le> lp_off (pd_linp p i)" "M i = pd_linp p i"
      then show ?thesis by (auto simp: linp C intro!: PageGetItem_cong)
    qed
    moreover have "lp_flags (M i) = LP_NORMAL" "lp_flags (pd_linp p i) = LP_NORMAL" using cases [OF i st] d by (auto simp: item_ok_def)
    ultimately show ?thesis using st by (simp add: heap_line_def LP_NORMAL_def LP_REDIRECT_def)
  qed
  show "heap_lines p' = (if Suc k < n then (heap_lines p)[k := (LP_UNUSED, [], 0)] else butlast (heap_lines p))"
    by (rule nth_equalityI) (use k(1) line max in \<open>auto simp: n' n_def [symmetric] heap_lines_nth linp nth_butlast nth_list_update\<close>)
  have len: "MAXALIGN (lp_len (M i)) = (if i = k then 0 else MAXALIGN (lp_len (pd_linp p i)))" if "i < n'" for i
    using M [OF that] by (simp add: ItemIdSetUnused_def MAXALIGN_def shift_lp_def)
  have sum: "aligned_sum (line_pointers p') + S = aligned_sum (line_pointers p)"
  proof -
    have "aligned_sum (line_pointers p') = (\<Sum>i \<in> {..<n'}. if i = k then 0 else MAXALIGN (lp_len (pd_linp p i)))"
      unfolding aligned_sum_lines max using len by (simp add: linp)
    also have "\<dots> = (\<Sum>i \<in> {..<n} - {k}. MAXALIGN (lp_len (pd_linp p i)))"
      by (rule sum.mono_neutral_cong) (use k(1) n' in \<open>auto split: if_splits\<close>)
    finally show ?thesis using sum.remove [of "{..<n}" k "\<lambda>i. MAXALIGN (lp_len (pd_linp p i))"] k(1) os(2)
      unfolding aligned_sum_lines n_def [symmetric] by simp
  qed
  have st: "i \<noteq> k \<and> ItemIdHasStorage (pd_linp p i)" if "i < n'" "ItemIdHasStorage (M i)" for i
    using that M [OF that(1)] by (auto simp: ItemIdHasStorage_def ItemIdSetUnused_def split: if_splits)
  have items: "item_ok (pd_upper p + S) (pd_special p) (M i)" if "i < n'" "ItemIdHasStorage (M i)" for i
    using cases [OF that(1)] st [OF that] iok [of i] that(1) le b by (auto simp: item_ok_def)
  have aparts: "apart (M i) (M j)" if "i < n'" "j < n'" "i \<noteq> j" "ItemIdHasStorage (M i)" "ItemIdHasStorage (M j)" for i j
    using cases [OF that(1)] cases [OF that(2)] st [OF that(1,4)] st [OF that(2,5)] ap [of i j] that(1-3) le
    by (auto simp: apart_def)
  have "pd_lower p' \<le> pd_lower p" using okd le by (simp add: p' page_consts)
  then show "heap_page_ok p'"
    unfolding heap_page_iff max linp using okd items aparts sum le b by (simp add: p' page_consts)
qed

lemma nocompact_ok:
  assumes ok: "heap_page_ok p" and k: "k < PageGetMaxOffsetNumber p" "ItemIdHasStorage (pd_linp p k)"
  shows "\<exists>p'. PageIndexTupleDeleteNoCompact p (Suc k) = Inr p' \<and> heap_page_ok p' \<and>
    heap_lines p' = (if Suc k < PageGetMaxOffsetNumber p then (heap_lines p)[k := (LP_UNUSED, [], 0)] else butlast (heap_lines p))"
proof -
  define n where "n = PageGetMaxOffsetNumber p"
  define off where "off = lp_off (pd_linp p k)"
  define S where "S = MAXALIGN (lp_len (pd_linp p k))"
  define n' where "n' = (if Suc k < n then n else n - 1)"
  have d: "item_ok (pd_upper p) (pd_special p) (pd_linp p k)" using ok k by (simp add: heap_page_iff)
  have b: "pd_lower p = SizeOfPageHeaderData + sizeof_ItemIdData * n" "pd_upper p \<le> off" "8 dvd off" "lp_len (pd_linp p k) \<le> S" "off + S \<le> pd_special p"
    using ok d by (auto simp: heap_page_ok_def n_def off_def S_def item_ok_def MAXALIGN_ge)
  have g: "\<not> (Suc k = 0 \<or> n < Suc k)"
    "\<not> (off < pd_upper p \<or> pd_special p < off + lp_len (pd_linp p k) \<or> off \<noteq> MAXALIGN off)"
    using k b by (auto simp: n_def MAXALIGN_id)
  define C where "C = (if pd_upper p < off then memmove (pd_cells p) (pd_upper p + S) (pd_upper p) (off - pd_upper p) else pd_cells p)"
  define L where "L = (if Suc k < n then (pd_linp p)(k := ItemIdSetUnused) else pd_linp p)"
  define q where "q = p\<lparr>pd_linp := L, pd_cells := C, pd_upper := pd_upper p + S, pd_lower := SizeOfPageHeaderData + sizeof_ItemIdData * n'\<rparr>"
  define M where "M = (if PageIsEmpty q then L
      else (\<lambda>i. if i < n' \<and> ItemIdHasStorage (L i) \<and> lp_off (L i) \<le> off then shift_off (L i) (int S) else L i))"
  have lower: "SizeOfPageHeaderData + sizeof_ItemIdData * n - sizeof_ItemIdData = SizeOfPageHeaderData + sizeof_ItemIdData * (n - 1)"
    using k(1) by (simp add: n_def page_consts)
  define p1 where "p1 = (if Suc k < n then p\<lparr>pd_linp := (pd_linp p)(k := ItemIdSetUnused)\<rparr> else p\<lparr>pd_lower := pd_lower p - sizeof_ItemIdData\<rparr>)"
  have p1: "pd_upper p1 = pd_upper p" "pd_cells p1 = pd_cells p" "pd_linp p1 = L" by (simp_all add: p1_def L_def)
  have q: "p1\<lparr>pd_cells := C, pd_upper := pd_upper p + S\<rparr> = q" "pd_linp q = L" "q\<lparr>pd_linp := L\<rparr> = q"
    using b(1) lower by (simp_all add: p1_def q_def L_def n'_def)
  have "PageIndexTupleDeleteNoCompact p (Suc k) = Inr (if PageIsEmpty q then q else q\<lparr>pd_linp := (\<lambda>i. if i < n' \<and> ItemIdHasStorage (pd_linp q i) \<and>
      lp_off (pd_linp q i) \<le> off then shift_off (pd_linp q i) (int S) else pd_linp q i)\<rparr>)"
    unfolding PageIndexTupleDeleteNoCompact_def Let_def PageGetItemId_def diff_Suc_1 n_def [symmetric] off_def [symmetric] S_def [symmetric]
      n'_def [symmetric] p1_def [symmetric] p1 C_def [symmetric] q(1)
    using heap_not_corrupted [OF ok] g by (simp only: if_False)
  then have "PageIndexTupleDeleteNoCompact p (Suc k) = Inr (q\<lparr>pd_linp := M\<rparr>)"
    by (cases "PageIsEmpty q") (simp_all only: M_def q(2,3) if_True if_False)
  moreover have "heap_page_ok (q\<lparr>pd_linp := M\<rparr>) \<and> heap_lines (q\<lparr>pd_linp := M\<rparr>) =
      (if Suc k < n then (heap_lines p)[k := (LP_UNUSED, [], 0)] else butlast (heap_lines p))"
  proof -
    have M: "M i = (if i = k then ItemIdSetUnused else if ItemIdHasStorage (pd_linp p i) then shift_lp off S (pd_linp p i) else pd_linp p i)"
      if "i < n'" for i
    proof -
      have "\<not> PageIsEmpty q" using that by (simp add: PageIsEmpty_def q_def page_consts)
      moreover have "nat ((int a + int S) mod 2 ^ 15) = (a + S) mod 2 ^ 15" for a :: nat
        by (simp add: nat_mod_distrib flip: of_nat_add)
      ultimately show ?thesis using that
        by (auto simp: M_def L_def n'_def shift_lp_def shift_off_def ItemIdSetUnused_def ItemIdHasStorage_def split: if_splits)
    qed
    have C: "C a = (if pd_upper p + S \<le> a \<and> a < off + S then pd_cells p (a - S) else pd_cells p a)" for a
      using b(2) by (auto simp: C_def memmove_def)
    have q': "q\<lparr>pd_linp := M\<rparr> = p\<lparr>pd_linp := M, pd_cells := C, pd_upper := pd_upper p + S, pd_lower := SizeOfPageHeaderData + sizeof_ItemIdData * n'\<rparr>"
      by (simp add: q_def)
    show ?thesis
      using nocompact_page [OF ok k, folded n_def, OF n'_def off_def [symmetric] S_def [symmetric] M C q'] by simp
  qed
  ultimately show ?thesis using n_def by simp
qed

section \<open>Free space\<close>

text \<open>After a repair or a truncation, whose hint is exact, the check of the hint finds a free line pointer.\<close>

lemma heap_free_space:
  assumes "hint_exact p"
  shows "PageGetHeapFreeSpace p = (if PageGetMaxOffsetNumber p < MaxHeapTuplesPerPage \<or> PageHasFreeLinePointers p then PageGetFreeSpace p else 0)"
proof -
  have offs: "[FirstOffsetNumber..<PageGetMaxOffsetNumber p + 1] = map Suc [0..<PageGetMaxOffsetNumber p]"
    by (simp add: FirstOffsetNumber_def map_Suc_upt)
  have "PageHasFreeLinePointers p \<longleftrightarrow> \<not> list_all (\<lambda>offnum. ItemIdIsUsed (PageGetItemId p offnum)) [FirstOffsetNumber..<PageGetMaxOffsetNumber p + 1]"
    using assms unfolding hint_exact_def unused_lines offs list.pred_map by (auto simp: list_all_iff PageGetItemId_def)
  then show ?thesis by (auto simp: PageGetHeapFreeSpace_def Let_def simp del: upt_Suc)
qed

end
