(* ===== verification/TR_Checksum.thy ===== *)
theory TR_Checksum
  imports TR_Delta
begin

text \<open>
  Page checksums: the algorithm of \<^verbatim>\<open>checksum_impl.h\<close> and the routines of \<^verbatim>\<open>bufpage.c\<close> that set the checksum of a page on
  its way to disk and verify a page that was read. A page that was written with its checksum passes the verification, and
  the checksum is the only thing of the page that writing changes.
\<close>

section \<open>The checksum\<close>

definition N_SUMS :: nat where "N_SUMS = 32"
definition FNV_PRIME :: "32 word" where "FNV_PRIME = 16777619"

definition checksumBaseOffsets :: "32 word list" where
  "checksumBaseOffsets = [
     0x5B1F36E9, 0xB8525960, 0x02AB50AA, 0x1DE66D2A, 0x79FF467A, 0x9BB9F8A3, 0x217E7CD2, 0x83E13D2C,
     0xF8D4474F, 0xE39EB970, 0x42C6AE16, 0x993216FA, 0x7B093B5D, 0x98DAFF3C, 0xF718902A, 0x0B1C9CDB,
     0xE58F764B, 0x187636BC, 0x5D7B3BB1, 0xE73DE7DE, 0x92BEC979, 0xCCA6C0B2, 0x304A0979, 0x85AA43D4,
     0x783125BB, 0x6CA8EAA2, 0xE407EAC6, 0x4B5CFC3E, 0x9FBF8C76, 0x15CA20BE, 0xF2CA9FD3, 0x959BD756]"

definition CHECKSUM_COMP :: "32 word \<Rightarrow> 32 word \<Rightarrow> 32 word" where
  "CHECKSUM_COMP checksum value' = (let tmp = checksum XOR value' in (tmp * FNV_PRIME) XOR drop_bit 17 tmp)"

text \<open>The page as an array of words, little-endian.\<close>

definition page_word :: "bytes \<Rightarrow> nat \<Rightarrow> 32 word" where
  "page_word p k = word_of_nat (unat (p ! (4 * k)) + 2 ^ 8 * unat (p ! (4 * k + 1)) + 2 ^ 16 * unat (p ! (4 * k + 2)) + 2 ^ 24 * unat (p ! (4 * k + 3)))"

definition pg_checksum_block :: "bytes \<Rightarrow> 32 word" where
  "pg_checksum_block page =
     (let acc = fold (\<lambda>i acc. map (\<lambda>j. CHECKSUM_COMP (acc ! j) (page_word page (i * N_SUMS + j))) [0..<N_SUMS])
                   [0..<BLCKSZ div (4 * N_SUMS)] checksumBaseOffsets;
          acc = fold (\<lambda>i acc. map (\<lambda>j. CHECKSUM_COMP (acc ! j) 0) [0..<N_SUMS]) [0..<2] acc
      in fold (\<lambda>i result. result XOR acc ! i) [0..<N_SUMS] 0)"

definition pg_checksum_page :: "bytes \<Rightarrow> nat \<Rightarrow> 16 word" where
  "pg_checksum_page page blkno =
     (let checksum = pg_checksum_block (put_bytes page 8 (le16 0)) XOR word_of_nat blkno
      in word_of_nat (unat checksum mod 65535 + 1))"

section \<open>Writing and verifying\<close>

definition checksum_of :: "bytes \<Rightarrow> nat" where "checksum_of p = get16 p 8"
definition flags_of :: "bytes \<Rightarrow> nat" where "flags_of p = get16 p 10"
definition special_of :: "bytes \<Rightarrow> nat" where "special_of p = get16 p 16"

definition PD_VALID_FLAG_BITS :: "16 word" where "PD_VALID_FLAG_BITS = 0x0007"

text \<open>The settings: whether the cluster has checksums, \<^verbatim>\<open>ignore_checksum_failure\<close> and \<^verbatim>\<open>zero_damaged_pages\<close>.\<close>

record page_settings =
  data_checksums :: bool
  ignore_checksum_failure :: bool
  zero_damaged_pages :: bool

definition PageSetChecksumCopy :: "page_settings \<Rightarrow> bytes \<Rightarrow> nat \<Rightarrow> bytes" where
  "PageSetChecksumCopy cfg page blkno =
     (if upper_of page = 0 \<or> \<not> data_checksums cfg then page
      else put_bytes page 8 (le16 (unat (pg_checksum_page page blkno))))"

definition header_sane :: "bytes \<Rightarrow> bool" where
  "header_sane p \<longleftrightarrow> word_of_nat (flags_of p) AND NOT PD_VALID_FLAG_BITS = 0 \<and> lower_of p \<le> upper_of p \<and> upper_of p \<le> special_of p \<and>
     special_of p \<le> BLCKSZ \<and> special_of p = MAXALIGN (special_of p)"

text \<open>The result, and whether a warning is logged and a failure is reported to the statistics.\<close>

definition PageIsVerifiedExtended :: "page_settings \<Rightarrow> bytes \<Rightarrow> nat \<Rightarrow> bool \<Rightarrow> bool \<Rightarrow> bool \<times> bool \<times> bool" where
  "PageIsVerifiedExtended cfg page blkno log_warning report_stat =
     (let checksum_failure = (upper_of page \<noteq> 0 \<and> data_checksums cfg \<and> unat (pg_checksum_page page blkno) \<noteq> checksum_of page);
          header_sane = (upper_of page \<noteq> 0 \<and> header_sane page)
      in if header_sane \<and> \<not> checksum_failure then (True, False, False)
         else if list_all (\<lambda>i. get_bytes page (8 * i) 8 = replicate 8 0) [0..<BLCKSZ div 8] then (True, False, False)
         else if checksum_failure then (header_sane \<and> ignore_checksum_failure cfg, log_warning, report_stat)
         else (False, False, False))"

section \<open>The round trip\<close>

text \<open>A page without its checksum.\<close>

definition sans_checksum :: "bytes \<Rightarrow> bytes" where
  "sans_checksum p = put_bytes p 8 (le16 0)"

lemma get16_put: "n < 2 ^ 16 \<Longrightarrow> a + 2 \<le> length p \<Longrightarrow> get16 (put_bytes p a (le16 n)) a = n"
  by (simp add: get16_def nth_put_bytes le16_def unat_of_nat)

lemma get16_put_other: "a + 2 \<le> length p \<Longrightarrow> b + 2 \<le> length p \<Longrightarrow> b + 2 \<le> a \<or> a + 2 \<le> b \<Longrightarrow> get16 (put_bytes p a (le16 n)) b = get16 p b"
  by (auto simp: get16_def nth_put_bytes le16_def)

lemma put_put: "a + 2 \<le> length p \<Longrightarrow> put_bytes (put_bytes p a (le16 n)) a (le16 m) = put_bytes p a (le16 m)"
  by (simp add: put_bytes_def le16_def)

lemma checksum_range: "1 \<le> unat (pg_checksum_page p blkno) \<and> unat (pg_checksum_page p blkno) \<le> 65535"
proof -
  let ?c = "pg_checksum_block (put_bytes p 8 (le16 0)) XOR word_of_nat blkno"
  have "unat ?c mod 65535 + 1 \<le> 65535" using mod_less_divisor [of 65535 "unat ?c"] by simp
  then have "unat (word_of_nat (unat ?c mod 65535 + 1) :: 16 word) = unat ?c mod 65535 + 1" by (subst unat_of_nat) simp
  then show ?thesis unfolding pg_checksum_page_def Let_def using \<open>unat ?c mod 65535 + 1 \<le> 65535\<close> by linarith
qed

text \<open>What writing the checksum keeps.\<close>

lemma header_put_checksum:
  assumes "length p = BLCKSZ"
  shows "upper_of (put_bytes p 8 (le16 n)) = upper_of p" "lower_of (put_bytes p 8 (le16 n)) = lower_of p"
    "special_of (put_bytes p 8 (le16 n)) = special_of p" "flags_of (put_bytes p 8 (le16 n)) = flags_of p"
    "header_sane (put_bytes p 8 (le16 n)) \<longleftrightarrow> header_sane p" "length (put_bytes p 8 (le16 n)) = BLCKSZ"
    "pg_checksum_page (put_bytes p 8 (le16 n)) blkno = pg_checksum_page p blkno"
    "sans_checksum (put_bytes p 8 (le16 n)) = sans_checksum p" "PageGetLSN (put_bytes p 8 (le16 n)) = PageGetLSN p"
proof -
  show fields: "upper_of (put_bytes p 8 (le16 n)) = upper_of p" "lower_of (put_bytes p 8 (le16 n)) = lower_of p"
    "special_of (put_bytes p 8 (le16 n)) = special_of p" "flags_of (put_bytes p 8 (le16 n)) = flags_of p"
    using assms by (simp_all add: upper_of_def lower_of_def special_of_def flags_of_def get16_put_other BLCKSZ_def)
  show "header_sane (put_bytes p 8 (le16 n)) \<longleftrightarrow> header_sane p" by (simp add: header_sane_def fields)
  show "length (put_bytes p 8 (le16 n)) = BLCKSZ" using assms by (simp add: length_put_bytes BLCKSZ_def)
  show "pg_checksum_page (put_bytes p 8 (le16 n)) blkno = pg_checksum_page p blkno"
    "sans_checksum (put_bytes p 8 (le16 n)) = sans_checksum p"
    using assms by (simp_all add: pg_checksum_page_def sans_checksum_def put_put BLCKSZ_def)
  have "put_bytes p 8 (le16 n) ! a = p ! a" if "a < 8" for a using that assms by (simp add: nth_put_bytes BLCKSZ_def)
  then show "PageGetLSN (put_bytes p 8 (le16 n)) = PageGetLSN p" by (simp add: PageGetLSN_def upt_rec)
qed

text \<open>Pages that may be written: new ones, all zero, and those with a sane header.\<close>

definition writable :: "bytes \<Rightarrow> bool" where
  "writable p \<longleftrightarrow> length p = BLCKSZ \<and> (if upper_of p = 0 then p = replicate BLCKSZ 0 else header_sane p)"

lemma zero_words: "list_all (\<lambda>i. get_bytes (replicate BLCKSZ (0 :: byte)) (8 * i) 8 = replicate 8 0) [0..<BLCKSZ div 8]"
  by (auto simp: list_all_iff get_bytes_def min_def BLCKSZ_def)

lemma written_page_verifies:
  assumes "writable p"
  shows "PageIsVerifiedExtended cfg (PageSetChecksumCopy cfg p blkno) blkno w r = (True, False, False) \<and>
    sans_checksum (PageSetChecksumCopy cfg p blkno) = sans_checksum p \<and> length (PageSetChecksumCopy cfg p blkno) = BLCKSZ \<and>
    PageGetLSN (PageSetChecksumCopy cfg p blkno) = PageGetLSN p"
proof (cases "upper_of p = 0 \<or> \<not> data_checksums cfg")
  case True
  then show ?thesis using assms zero_words by (auto simp: PageSetChecksumCopy_def PageIsVerifiedExtended_def writable_def Let_def split: if_splits)
next
  case False
  let ?c = "unat (pg_checksum_page p blkno)"
  have len: "length p = BLCKSZ" and sane: "header_sane p" using assms False by (auto simp: writable_def)
  have "checksum_of (put_bytes p 8 (le16 ?c)) = ?c"
    using checksum_range [of p blkno] len by (simp add: checksum_of_def get16_put BLCKSZ_def)
  then show ?thesis using False sane header_put_checksum [OF len]
    by (simp add: PageSetChecksumCopy_def PageIsVerifiedExtended_def Let_def)
qed

text \<open>C24. A page with a sane header, or a new one, that is written with its checksum passes the verification when it is read, without a
  warning, under every setting; writing changed nothing of it but the checksum.\<close>

theorem checksum_roundtrip:
  assumes "writable p"
  shows "PageIsVerifiedExtended cfg (PageSetChecksumCopy cfg p blkno) blkno w r = (True, False, False) \<and>
    sans_checksum (PageSetChecksumCopy cfg p blkno) = sans_checksum p"
  using written_page_verifies [OF assms] by blast

definition sample_bytes :: bytes where
  "sample_bytes = replicate 12 0 @ le16 24 @ le16 8192 @ le16 8192 @ replicate 8174 0"

lemma sample_bytes_writable: "writable sample_bytes"
proof -
  have "flags_of sample_bytes = 0" "lower_of sample_bytes = 24" "upper_of sample_bytes = 8192" "special_of sample_bytes = 8192"
    by (simp_all add: sample_bytes_def flags_of_def lower_of_def upper_of_def special_of_def get16_def le16_def nth_append)
  then show ?thesis by (simp add: writable_def header_sane_def MAXALIGN_def) (simp add: sample_bytes_def BLCKSZ_def)
qed

theorem checksum_roundtrip_witness:
  "writable sample_bytes \<and>
   PageIsVerifiedExtended \<lparr>data_checksums = True, ignore_checksum_failure = False, zero_damaged_pages = False\<rparr>
     (PageSetChecksumCopy \<lparr>data_checksums = True, ignore_checksum_failure = False, zero_damaged_pages = False\<rparr> sample_bytes 7) 7 True True =
       (True, False, False)"
  using checksum_roundtrip [OF sample_bytes_writable, of "\<lparr>data_checksums = True, ignore_checksum_failure = False, zero_damaged_pages = False\<rparr>" 7 True True]
    sample_bytes_writable by simp

end
