(* ===== verification/TR_BufState.thy ===== *)
theory TR_BufState
  imports TR_Checksum
begin

text \<open>
  The shared buffer pool: the state word of a buffer (\<^verbatim>\<open>buf_internals.h\<close>), the descriptors, the mapping table
  (\<^verbatim>\<open>buf_table.c\<close>) and the choice of a buffer to reuse by the freelist and the clock sweep (\<^verbatim>\<open>freelist.c\<close>). Operations of different
  backends follow one another, each is executed as a whole: the header spinlocks and the loops that retry a compare-and-swap are not
  visible. The sweep is shown to end, to give an unpinned buffer whenever there is one, and to change usage counts only.
\<close>

section \<open>The state word\<close>

definition BUF_REFCOUNT_ONE :: "32 word" where "BUF_REFCOUNT_ONE = 1"
definition BUF_REFCOUNT_MASK :: "32 word" where "BUF_REFCOUNT_MASK = push_bit 18 1 - 1"
definition BUF_USAGECOUNT_MASK :: "32 word" where "BUF_USAGECOUNT_MASK = 0x003C0000"
definition BUF_USAGECOUNT_ONE :: "32 word" where "BUF_USAGECOUNT_ONE = push_bit 18 1"
definition BUF_USAGECOUNT_SHIFT :: nat where "BUF_USAGECOUNT_SHIFT = 18"
definition BUF_FLAG_MASK :: "32 word" where "BUF_FLAG_MASK = 0xFFC00000"

definition BUF_STATE_GET_REFCOUNT :: "32 word \<Rightarrow> 32 word" where
  "BUF_STATE_GET_REFCOUNT st = st AND BUF_REFCOUNT_MASK"

definition BUF_STATE_GET_USAGECOUNT :: "32 word \<Rightarrow> 32 word" where
  "BUF_STATE_GET_USAGECOUNT st = drop_bit BUF_USAGECOUNT_SHIFT (st AND BUF_USAGECOUNT_MASK)"

definition BM_DIRTY :: "32 word" where "BM_DIRTY = push_bit 23 1"
definition BM_VALID :: "32 word" where "BM_VALID = push_bit 24 1"
definition BM_TAG_VALID :: "32 word" where "BM_TAG_VALID = push_bit 25 1"
definition BM_IO_IN_PROGRESS :: "32 word" where "BM_IO_IN_PROGRESS = push_bit 26 1"
definition BM_IO_ERROR :: "32 word" where "BM_IO_ERROR = push_bit 27 1"
definition BM_JUST_DIRTIED :: "32 word" where "BM_JUST_DIRTIED = push_bit 28 1"
definition BM_PIN_COUNT_WAITER :: "32 word" where "BM_PIN_COUNT_WAITER = push_bit 29 1"
definition BM_CHECKPOINT_NEEDED :: "32 word" where "BM_CHECKPOINT_NEEDED = push_bit 30 1"
definition BM_PERMANENT :: "32 word" where "BM_PERMANENT = push_bit 31 1"
definition BM_MAX_USAGE_COUNT :: "32 word" where "BM_MAX_USAGE_COUNT = 5"

definition has_flag :: "32 word \<Rightarrow> 32 word \<Rightarrow> bool" where
  "has_flag st f \<longleftrightarrow> st AND f \<noteq> 0"

section \<open>Descriptors and pool\<close>

datatype ForkNumber = InvalidForkNumber | MAIN_FORKNUM | FSM_FORKNUM | VISIBILITYMAP_FORKNUM | INIT_FORKNUM

record BufferTag =
  spcOid :: nat
  dbOid :: nat
  relNumber :: nat
  forkNum :: ForkNumber
  blockNum :: nat

definition ClearBufferTag :: BufferTag where
  "ClearBufferTag = \<lparr>spcOid = 0, dbOid = 0, relNumber = 0, forkNum = InvalidForkNumber, blockNum = 0xFFFFFFFF\<rparr>"

text \<open>The content lock is the list of its holders, with \<open>True\<close> for the exclusive mode.\<close>

record BufferDesc =
  tag :: BufferTag
  state :: "32 word"
  wait_backend_pgprocno :: int
  freeNext :: int
  content_lock :: "(nat \<times> bool) list"

text \<open>The pool, what every backend remembers of its pins, and what is outside: the latches set and signals sent, the files and the
  position up to which the log is on disk.\<close>

record pool =
  BufferDescriptors :: "BufferDesc list"
  BufferBlocks :: "bytes list"
  SharedBufHash :: "BufferTag \<Rightarrow> nat option"
  firstFreeBuffer :: int
  lastFreeBuffer :: int
  nextVictimBuffer :: "32 word"
  completePasses :: "32 word"
  numBufferAllocs :: "32 word"
  bgwprocno :: int
  PrivateRefCount :: "nat \<Rightarrow> nat \<Rightarrow> nat"
  latches :: "int list"
  signals :: "int list"
  disk :: "BufferTag \<Rightarrow> bytes option"
  flushed :: nat

abbreviation NBuffers :: "pool \<Rightarrow> nat" where
  "NBuffers p \<equiv> length (BufferDescriptors p)"

abbreviation buf_desc :: "pool \<Rightarrow> nat \<Rightarrow> BufferDesc" where
  "buf_desc p i \<equiv> BufferDescriptors p ! i"

abbreviation buf_state :: "pool \<Rightarrow> nat \<Rightarrow> 32 word" where
  "buf_state p i \<equiv> state (buf_desc p i)"

definition upd_desc :: "nat \<Rightarrow> (BufferDesc \<Rightarrow> BufferDesc) \<Rightarrow> pool \<Rightarrow> pool" where
  "upd_desc i f p = p\<lparr>BufferDescriptors := (BufferDescriptors p)[i := f (buf_desc p i)]\<rparr>"

definition set_state :: "nat \<Rightarrow> 32 word \<Rightarrow> pool \<Rightarrow> pool" where
  "set_state i st = upd_desc i (\<lambda>d. d\<lparr>state := st\<rparr>)"

section \<open>The mapping table\<close>

definition BufTableLookup :: "BufferTag \<Rightarrow> pool \<Rightarrow> nat option" where
  "BufTableLookup t p = SharedBufHash p t"

text \<open>The identifier of an entry that exists already, or \<open>None\<close> after the insertion.\<close>

definition BufTableInsert :: "BufferTag \<Rightarrow> nat \<Rightarrow> (pool, nat option) comp" where
  "BufTableInsert t i = (\<lambda>p. case SharedBufHash p t of
     Some j \<Rightarrow> (Inr (Some j), p)
   | None \<Rightarrow> (Inr None, p\<lparr>SharedBufHash := (SharedBufHash p)(t \<mapsto> i)\<rparr>))"

definition BufTableDelete :: "BufferTag \<Rightarrow> (pool, unit) comp" where
  "BufTableDelete t = (\<lambda>p. case SharedBufHash p t of
     None \<Rightarrow> (Inl CorruptBufferTable, p)
   | Some _ \<Rightarrow> (Inr (), p\<lparr>SharedBufHash := (SharedBufHash p)(t := None)\<rparr>))"

section \<open>Choosing a buffer\<close>

definition FREENEXT_END_OF_LIST :: int where "FREENEXT_END_OF_LIST = - 1"
definition FREENEXT_NOT_IN_LIST :: int where "FREENEXT_NOT_IN_LIST = - 2"

definition ClockSweepTick :: "pool \<Rightarrow> nat \<times> pool" where
  "ClockSweepTick p =
     (let victim = nextVictimBuffer p;
          p = p\<lparr>nextVictimBuffer := victim + 1\<rparr>
      in if unat victim \<ge> NBuffers p then
           let originalVictim = victim; victim = unat victim mod NBuffers p
           in if victim = 0 then
                let expected = originalVictim + 1; wrapped = word_of_nat (unat expected mod NBuffers p)
                in (victim, p\<lparr>nextVictimBuffer := wrapped, completePasses := completePasses p + 1\<rparr>)
              else (victim, p)
         else (unat victim, p))"

text \<open>The loop over the freelist. A buffer number outside the array is an error of its own.\<close>

definition pop_free :: "pool \<Rightarrow> nat \<times> pool" where
  "pop_free p =
     (let i = nat (firstFreeBuffer p)
      in (i, upd_desc i (\<lambda>d. d\<lparr>freeNext := FREENEXT_NOT_IN_LIST\<rparr>) (p\<lparr>firstFreeBuffer := freeNext (buf_desc p i)\<rparr>)))"

function take_free :: "pool \<Rightarrow> (pg_error + nat option) \<times> pool" where
  "take_free p =
     (if firstFreeBuffer p < 0 then (Inr None, p)
      else if NBuffers p \<le> nat (firstFreeBuffer p) then (Inl (BadBuffer (nat (firstFreeBuffer p))), p)
      else
        case pop_free p of (i, p) \<Rightarrow>
          if BUF_STATE_GET_REFCOUNT (buf_state p i) = 0 \<and> BUF_STATE_GET_USAGECOUNT (buf_state p i) = 0 then (Inr (Some i), p)
          else take_free p)"
  by auto

function clock_sweep :: "nat \<Rightarrow> pool \<Rightarrow> (pg_error + nat) \<times> pool" where
  "clock_sweep trycounter p =
     (case ClockSweepTick p of (v, p) \<Rightarrow>
        if NBuffers p \<le> v then (Inl (BadBuffer v), p)
        else if BUF_STATE_GET_REFCOUNT (buf_state p v) = 0 then
          if BUF_STATE_GET_USAGECOUNT (buf_state p v) \<noteq> 0
          then clock_sweep (NBuffers p) (set_state v (buf_state p v - BUF_USAGECOUNT_ONE) p)
          else (Inr v, p)
        else if trycounter - 1 = 0 then (Inl NoUnpinnedBuffers, p)
        else clock_sweep (trycounter - 1) p)"
  by auto

section \<open>Arithmetic of the state word\<close>

abbreviation refc :: "32 word \<Rightarrow> nat" where "refc st \<equiv> unat (BUF_STATE_GET_REFCOUNT st)"
abbreviation usg :: "32 word \<Rightarrow> nat" where "usg st \<equiv> unat (BUF_STATE_GET_USAGECOUNT st)"

lemma refc_mod: "refc st = unat st mod 2 ^ 18"
proof -
  have "BUF_REFCOUNT_MASK = mask 18" by (simp add: BUF_REFCOUNT_MASK_def mask_eq_exp_minus_1)
  then have "BUF_STATE_GET_REFCOUNT st = take_bit 18 st" by (simp add: BUF_STATE_GET_REFCOUNT_def take_bit_eq_mask)
  then have "refc st = take_bit 18 (unat st)" by (simp only: unsigned_take_bit_eq)
  then show ?thesis by (simp only: take_bit_eq_mod [of 18 "unat st"])
qed

lemma usg_take: "BUF_STATE_GET_USAGECOUNT st = take_bit 4 (drop_bit 18 st)"
proof -
  have eq: "BUF_USAGECOUNT_MASK = push_bit 18 (mask 4)" by (simp add: BUF_USAGECOUNT_MASK_def mask_eq_exp_minus_1 push_bit_eq_mult)
  show ?thesis
    unfolding BUF_STATE_GET_USAGECOUNT_def BUF_USAGECOUNT_SHIFT_def eq by (rule bit_word_eqI) (auto simp: bit_simps)
qed

lemma usg_mod: "usg st = unat st div 2 ^ 18 mod 2 ^ 4"
proof -
  have "usg st = take_bit 4 (drop_bit 18 (unat st))" by (simp only: usg_take unsigned_take_bit_eq unat_drop_bit_eq)
  then show ?thesis by (simp only: take_bit_eq_mod drop_bit_eq_div)
qed

lemma bit_div: "bit (st :: 32 word) n \<longleftrightarrow> odd (unat st div 2 ^ n)"
proof -
  have "bit st n \<longleftrightarrow> bit (unat st) n" by (simp add: bit_unsigned_iff)
  then show ?thesis by (simp add: bit_iff_odd)
qed

lemma counts_zero: "BUF_STATE_GET_REFCOUNT st = 0 \<longleftrightarrow> refc st = 0" "BUF_STATE_GET_USAGECOUNT st = 0 \<longleftrightarrow> usg st = 0"
  by (simp_all add: unat_eq_zero)

text \<open>Adding without a carry.\<close>

lemma carry_free:
  fixes x :: nat
  assumes "x mod 2 ^ k + d < 2 ^ k" "k \<le> n"
  shows "(x + d) mod 2 ^ k = x mod 2 ^ k + d" "(x + d) div 2 ^ n = x div 2 ^ n"
proof -
  show "(x + d) mod 2 ^ k = x mod 2 ^ k + d" using assms(1) by (metis mod_add_left_eq mod_less)
  have eq: "x + d = x div 2 ^ k * 2 ^ k + (x mod 2 ^ k + d)" by (metis add.assoc div_mult_mod_eq)
  have "(x + d) div 2 ^ k = x div 2 ^ k" unfolding eq using assms(1) by simp
  moreover have "y div 2 ^ n = y div 2 ^ k div 2 ^ (n - k)" for y :: nat
    using assms(2) by (metis div_mult2_eq le_add_diff_inverse power_add)
  ultimately show "(x + d) div 2 ^ n = x div 2 ^ n" by metis
qed

lemma unat32: "unat (st :: 32 word) < 2 ^ 32"
  using unsigned_less [of st] by simp

lemma refc_add:
  assumes "refc st + 1 < 2 ^ 18"
  shows "refc (st + BUF_REFCOUNT_ONE) = refc st + 1" "usg (st + BUF_REFCOUNT_ONE) = usg st"
    "18 \<le> n \<Longrightarrow> bit (st + BUF_REFCOUNT_ONE) n \<longleftrightarrow> bit st n"
proof -
  have c: "unat st mod 2 ^ 18 + 1 < 2 ^ 18" using assms by (simp add: refc_mod)
  have "(unat st + 1) div 2 ^ 32 = unat st div 2 ^ 32" using carry_free(2) [OF c, of 32] by simp
  then have "(unat st + 1) div 2 ^ 32 = 0" using unat32 [of st] by simp
  then have u: "unat (st + BUF_REFCOUNT_ONE) = unat st + 1"
    by (simp add: BUF_REFCOUNT_ONE_def unat_word_ariths div_eq_0_iff)
  show "refc (st + BUF_REFCOUNT_ONE) = refc st + 1" unfolding refc_mod u using carry_free(1) [OF c order_refl] .
  show "usg (st + BUF_REFCOUNT_ONE) = usg st" unfolding usg_mod u using carry_free(2) [OF c order_refl] by simp
  show "bit (st + BUF_REFCOUNT_ONE) n \<longleftrightarrow> bit st n" if "18 \<le> n" unfolding bit_div u using carry_free(2) [OF c that] by simp
qed

lemma refc_sub:
  assumes "0 < refc st"
  shows "refc (st - BUF_REFCOUNT_ONE) = refc st - 1" "usg (st - BUF_REFCOUNT_ONE) = usg st"
    "18 \<le> n \<Longrightarrow> bit (st - BUF_REFCOUNT_ONE) n \<longleftrightarrow> bit st n"
proof -
  let ?s = "st - BUF_REFCOUNT_ONE"
  have "0 < unat st" using assms by (auto simp: refc_mod intro: Nat.gr0I)
  then have "unat st = Suc (unat ?s)" by (simp add: BUF_REFCOUNT_ONE_def unat_sub_if' Suc_le_eq unat_gt_0)
  then have "Suc (unat ?s) mod 2 ^ 18 \<noteq> 0" using assms by (simp add: refc_mod)
  then have "unat ?s mod 2 ^ 18 + 1 \<noteq> 2 ^ 18" by (auto simp: mod_Suc)
  moreover have "unat ?s mod 2 ^ 18 < 2 ^ 18" by simp
  ultimately have "refc ?s + 1 < 2 ^ 18" unfolding refc_mod by linarith
  from refc_add [OF this] show "refc ?s = refc st - 1" "usg ?s = usg st" "18 \<le> n \<Longrightarrow> bit ?s n \<longleftrightarrow> bit st n" by simp_all
qed

lemma usg_add:
  assumes "usg st + 1 < 2 ^ 4"
  shows "usg (st + BUF_USAGECOUNT_ONE) = usg st + 1" "refc (st + BUF_USAGECOUNT_ONE) = refc st"
    "22 \<le> n \<Longrightarrow> bit (st + BUF_USAGECOUNT_ONE) n \<longleftrightarrow> bit st n"
proof -
  let ?x = "unat st div 2 ^ 18"
  have c: "?x mod 2 ^ 4 + 1 < 2 ^ 4" using assms by (simp add: usg_mod)
  have "?x < 2 ^ 14" using unat32 [of st] by (intro less_mult_imp_div_less) simp
  moreover have "(?x + 1) div 2 ^ 14 = ?x div 2 ^ 14" by (rule carry_free(2) [OF c]) simp
  ultimately have "(?x + 1) div 2 ^ 14 = 0" by simp
  then have "?x + 1 < 2 ^ 14" by (simp only: div_eq_0_iff) simp
  moreover have d: "(unat st + 2 ^ 18) div 2 ^ 18 = ?x + 1" by simp
  ultimately have "unat st + 2 ^ 18 < 2 ^ 14 * 2 ^ 18" by (metis div_less_iff_less_mult zero_less_numeral zero_less_power)
  then have u: "unat (st + BUF_USAGECOUNT_ONE) = unat st + 2 ^ 18" by (simp add: BUF_USAGECOUNT_ONE_def unat_word_ariths)
  show "usg (st + BUF_USAGECOUNT_ONE) = usg st + 1" unfolding usg_mod u d using carry_free(1) [OF c order_refl] .
  show "refc (st + BUF_USAGECOUNT_ONE) = refc st" unfolding refc_mod u by simp
  show "bit (st + BUF_USAGECOUNT_ONE) n \<longleftrightarrow> bit st n" if n: "22 \<le> n"
  proof -
    have e: "y div 2 ^ n = y div 2 ^ 18 div 2 ^ (n - 18)" for y :: nat
    proof -
      have "(2 :: nat) ^ n = 2 ^ (18 + (n - 18))" using n by simp
      then have "(2 :: nat) ^ n = 2 ^ 18 * 2 ^ (n - 18)" by (simp only: power_add)
      then show ?thesis by (simp only: div_mult2_eq)
    qed
    have "4 \<le> n - 18" using n by simp
    from carry_free(2) [OF c this] show ?thesis unfolding bit_div u e d by (simp only:)
  qed
qed

lemma usg_sub:
  assumes "0 < usg st"
  shows "usg (st - BUF_USAGECOUNT_ONE) = usg st - 1" "refc (st - BUF_USAGECOUNT_ONE) = refc st"
    "22 \<le> n \<Longrightarrow> bit (st - BUF_USAGECOUNT_ONE) n \<longleftrightarrow> bit st n"
proof -
  let ?s = "st - BUF_USAGECOUNT_ONE"
  have "0 < unat st div 2 ^ 18" using assms unfolding usg_mod by (metis gr0I less_irrefl mod_0)
  then have le: "2 ^ 18 \<le> unat st" by (simp add: div_greater_zero_iff)
  then have "unat st = unat ?s + 2 ^ 18" by (simp add: BUF_USAGECOUNT_ONE_def unat_sub_if')
  then have "unat st div 2 ^ 18 = Suc (unat ?s div 2 ^ 18)" by simp
  then have "Suc (unat ?s div 2 ^ 18) mod 2 ^ 4 \<noteq> 0" using assms by (simp add: usg_mod)
  then have "unat ?s div 2 ^ 18 mod 2 ^ 4 + 1 \<noteq> 2 ^ 4" by (auto simp: mod_Suc)
  moreover have "unat ?s div 2 ^ 18 mod 2 ^ 4 < 2 ^ 4" by simp
  ultimately have "usg ?s + 1 < 2 ^ 4" unfolding usg_mod by linarith
  from usg_add [OF this] show "usg ?s = usg st - 1" "refc ?s = refc st" "22 \<le> n \<Longrightarrow> bit ?s n \<longleftrightarrow> bit st n" by simp_all
qed

text \<open>Flags are single bits above the counts; setting and clearing them keeps the counts.\<close>

lemma counts_take: "refc st = refc st' \<longleftrightarrow> take_bit 18 st = take_bit 18 st'" "usg st = usg st' \<longleftrightarrow> take_bit 4 (drop_bit 18 st) = take_bit 4 (drop_bit 18 st')"
proof -
  have "BUF_STATE_GET_REFCOUNT s = take_bit 18 s" for s
    by (simp add: BUF_STATE_GET_REFCOUNT_def BUF_REFCOUNT_MASK_def take_bit_eq_mask mask_eq_exp_minus_1)
  then show "refc st = refc st' \<longleftrightarrow> take_bit 18 st = take_bit 18 st'" by (simp add: word_unat_eq_iff)
  show "usg st = usg st' \<longleftrightarrow> take_bit 4 (drop_bit 18 st) = take_bit 4 (drop_bit 18 st')" by (simp add: usg_take word_unat_eq_iff)
qed

lemma same_counts:
  assumes "\<And>n. n < 22 \<Longrightarrow> bit st n \<longleftrightarrow> bit st' n"
  shows "refc st = refc st'" "usg st = usg st'"
  unfolding counts_take using assms by (auto intro!: bit_word_eqI simp: bit_simps)

lemma has_flag_bit:
  "has_flag st BM_DIRTY \<longleftrightarrow> bit st 23" "has_flag st BM_VALID \<longleftrightarrow> bit st 24" "has_flag st BM_TAG_VALID \<longleftrightarrow> bit st 25"
  "has_flag st BM_IO_IN_PROGRESS \<longleftrightarrow> bit st 26" "has_flag st BM_IO_ERROR \<longleftrightarrow> bit st 27" "has_flag st BM_JUST_DIRTIED \<longleftrightarrow> bit st 28"
  "has_flag st BM_PIN_COUNT_WAITER \<longleftrightarrow> bit st 29" "has_flag st BM_CHECKPOINT_NEEDED \<longleftrightarrow> bit st 30" "has_flag st BM_PERMANENT \<longleftrightarrow> bit st 31"
  unfolding has_flag_def BM_DIRTY_def BM_VALID_def BM_TAG_VALID_def BM_IO_IN_PROGRESS_def BM_IO_ERROR_def BM_JUST_DIRTIED_def
    BM_PIN_COUNT_WAITER_def BM_CHECKPOINT_NEEDED_def BM_PERMANENT_def
  by (simp_all only: bit_iff_and_push_bit_not_eq_0)

section \<open>The loops end\<close>

lemma tick_frame:
  assumes "ClockSweepTick p = (v, q)"
  obtains nv cp where "q = p\<lparr>nextVictimBuffer := nv, completePasses := cp\<rparr>"
proof -
  have "q = p\<lparr>nextVictimBuffer := nextVictimBuffer q, completePasses := completePasses q\<rparr>"
    using assms by (auto simp: ClockSweepTick_def Let_def split: if_splits)
  then show ?thesis by (rule that)
qed

definition total_usage :: "pool \<Rightarrow> nat" where
  "total_usage p = sum_list (map (\<lambda>d. usg (state d)) (BufferDescriptors p))"

lemma set_state_simps [simp]:
  "BufferDescriptors (set_state i st p) = (BufferDescriptors p)[i := (buf_desc p i)\<lparr>state := st\<rparr>]"
  "BufferBlocks (set_state i st p) = BufferBlocks p" "SharedBufHash (set_state i st p) = SharedBufHash p"
  "firstFreeBuffer (set_state i st p) = firstFreeBuffer p" "PrivateRefCount (set_state i st p) = PrivateRefCount p"
  "disk (set_state i st p) = disk p" "flushed (set_state i st p) = flushed p" "nextVictimBuffer (set_state i st p) = nextVictimBuffer p"
  by (simp_all add: set_state_def upd_desc_def)

lemma total_usage_dec:
  assumes "v < NBuffers p" "0 < usg (buf_state p v)"
  shows "total_usage (set_state v (buf_state p v - BUF_USAGECOUNT_ONE) p) < total_usage p"
proof -
  have "usg (buf_state p v) \<le> total_usage p"
    unfolding total_usage_def using assms(1) by (intro member_le_sum_list) auto
  then show ?thesis using assms usg_sub(1) [OF assms(2)]
    by (simp add: total_usage_def map_update sum_list_update)
qed

termination clock_sweep
proof (relation "measures [\<lambda>(t, p). total_usage p, \<lambda>(t, p). t]")
  fix t p v q
  assume tick: "(v, q) = ClockSweepTick p" and v: "\<not> NBuffers q \<le> v" and u: "BUF_STATE_GET_USAGECOUNT (buf_state q v) \<noteq> 0"
  obtain nv cp where q: "q = p\<lparr>nextVictimBuffer := nv, completePasses := cp\<rparr>" using tick_frame [OF tick [symmetric]] .
  have "total_usage (set_state v (buf_state q v - BUF_USAGECOUNT_ONE) q) < total_usage q"
    using v u by (intro total_usage_dec) (simp_all add: counts_zero)
  then show "((NBuffers q, set_state v (buf_state q v - BUF_USAGECOUNT_ONE) q), (t, p)) \<in> measures [\<lambda>(t, p). total_usage p, \<lambda>(t, p). t]"
    by (simp add: q total_usage_def)
next
  fix t p v q
  assume tick: "(v, q) = ClockSweepTick p" and t: "t - 1 \<noteq> (0 :: nat)"
  obtain nv cp where q: "q = p\<lparr>nextVictimBuffer := nv, completePasses := cp\<rparr>" using tick_frame [OF tick [symmetric]] .
  then show "((t - 1, q), (t, p)) \<in> measures [\<lambda>(t, p). total_usage p, \<lambda>(t, p). t]"
    using t by (simp add: total_usage_def)
qed simp

definition listed :: "pool \<Rightarrow> nat" where
  "listed p = sum_list (map (\<lambda>d. if freeNext d = FREENEXT_NOT_IN_LIST then 0 else 1) (BufferDescriptors p))"

termination take_free
proof (relation "measure (\<lambda>p. listed p + (if firstFreeBuffer p < 0 then 0 else 1))")
  fix p i q
  assume first: "\<not> firstFreeBuffer p < 0" and i: "\<not> NBuffers p \<le> nat (firstFreeBuffer p)" and pop: "(i, q) = pop_free p"
  let ?one = "if freeNext (buf_desc p i) = FREENEXT_NOT_IN_LIST then 0 else 1 :: nat"
  have q: "i < NBuffers p" "firstFreeBuffer q = freeNext (buf_desc p i)"
      "BufferDescriptors q = (BufferDescriptors p)[i := (buf_desc p i)\<lparr>freeNext := FREENEXT_NOT_IN_LIST\<rparr>]"
    using pop i by (auto simp: pop_free_def upd_desc_def Let_def)
  have "?one \<le> listed p"
    using elem_le_sum_list [of i "map (\<lambda>d. if freeNext d = FREENEXT_NOT_IN_LIST then 0 else 1) (BufferDescriptors p)"] q(1)
    by (simp add: listed_def)
  moreover have "listed q = listed p - ?one"
    unfolding listed_def q(3) map_update using q(1) by (subst sum_list_update) simp_all
  ultimately show "(q, p) \<in> measure (\<lambda>p. listed p + (if firstFreeBuffer p < 0 then 0 else 1))"
    using first q(2) by (auto simp: FREENEXT_NOT_IN_LIST_def)
qed simp

declare take_free.simps [simp del] clock_sweep.simps [simp del]

definition StrategyGetBuffer :: "(pool, nat) comp" where
  "StrategyGetBuffer p =
     (let p = (if bgwprocno p \<noteq> - 1 then p\<lparr>bgwprocno := - 1, latches := bgwprocno p # latches p\<rparr> else p);
          p = p\<lparr>numBufferAllocs := numBufferAllocs p + 1\<rparr>
      in case take_free p of
           (Inl e, p) \<Rightarrow> (Inl e, p)
         | (Inr (Some i), p) \<Rightarrow> (Inr i, p)
         | (Inr None, p) \<Rightarrow> clock_sweep (NBuffers p) p)"

definition StrategyFreeBuffer :: "nat \<Rightarrow> pool \<Rightarrow> pool" where
  "StrategyFreeBuffer i p =
     (if freeNext (buf_desc p i) = FREENEXT_NOT_IN_LIST then
        let p = upd_desc i (\<lambda>d. d\<lparr>freeNext := firstFreeBuffer p\<rparr>) p;
            p = (if freeNext (buf_desc p i) < 0 then p\<lparr>lastFreeBuffer := int i\<rparr> else p)
        in p\<lparr>firstFreeBuffer := int i\<rparr>
      else p)"

section \<open>What choosing a buffer changes\<close>

text \<open>Usage counts only go down; the freelist and the clock hand move; nothing else changes.\<close>

definition kept :: "pool \<Rightarrow> pool \<Rightarrow> bool" where
  "kept p q \<longleftrightarrow> NBuffers q = NBuffers p \<and> BufferBlocks q = BufferBlocks p \<and> SharedBufHash q = SharedBufHash p \<and>
     PrivateRefCount q = PrivateRefCount p \<and> disk q = disk p \<and> flushed q = flushed p \<and>
     (\<forall>i < NBuffers p. tag (buf_desc q i) = tag (buf_desc p i) \<and> content_lock (buf_desc q i) = content_lock (buf_desc p i) \<and>
        refc (buf_state q i) = refc (buf_state p i) \<and> usg (buf_state q i) \<le> usg (buf_state p i) \<and>
        (\<forall>n \<ge> 22. bit (buf_state q i) n \<longleftrightarrow> bit (buf_state p i) n))"

lemma kept_refl [simp]: "kept p p"
  by (simp add: kept_def)

lemma kept_trans: "kept p q \<Longrightarrow> kept q r \<Longrightarrow> kept p r"
  unfolding kept_def by (auto intro: order_trans)

definition clock_ok :: "pool \<Rightarrow> bool" where
  "clock_ok p \<longleftrightarrow> 0 < NBuffers p \<and> NBuffers p < 2 ^ 31 \<and> unat (nextVictimBuffer p) \<le> NBuffers p"

definition free_ok :: "pool \<Rightarrow> bool" where
  "free_ok p \<longleftrightarrow> firstFreeBuffer p < int (NBuffers p) \<and> (\<forall>i < NBuffers p. freeNext (buf_desc p i) < int (NBuffers p))"

lemma tick_ok:
  assumes "clock_ok p" "ClockSweepTick p = (v, q)"
  shows "v = unat (nextVictimBuffer p) mod NBuffers p" "v < NBuffers p" "clock_ok q" "unat (nextVictimBuffer q) mod NBuffers p = Suc v mod NBuffers p"
    "kept p q" "BufferDescriptors q = BufferDescriptors p" "firstFreeBuffer q = firstFreeBuffer p"
proof -
  let ?n = "NBuffers p" and ?v = "unat (nextVictimBuffer p)"
  have n: "0 < ?n" "?n < 2 ^ 31" "?v \<le> ?n" using assms(1) by (auto simp: clock_ok_def)
  have inc: "unat (nextVictimBuffer p + 1) = Suc ?v" using n by (simp add: unat_word_ariths)
  obtain nv cp where q: "q = p\<lparr>nextVictimBuffer := nv, completePasses := cp\<rparr>" using tick_frame [OF assms(2)] .
  show frame: "kept p q" "BufferDescriptors q = BufferDescriptors p" "firstFreeBuffer q = firstFreeBuffer p" by (simp_all add: q kept_def)
  show v: "v = ?v mod ?n" using assms(2) n by (auto simp: ClockSweepTick_def Let_def split: if_splits)
  show "v < ?n" using n by (simp add: v)
  have "unat (nextVictimBuffer q) \<le> ?n \<and> unat (nextVictimBuffer q) mod ?n = Suc v mod ?n"
  proof (cases "?v < ?n")
    case True
    then have "nextVictimBuffer q = nextVictimBuffer p + 1" using assms(2) by (auto simp: ClockSweepTick_def Let_def)
    then show ?thesis using True inc v by simp
  next
    case False
    then have eq: "?v = ?n" using n by simp
    then have "nextVictimBuffer q = word_of_nat (Suc ?n mod ?n)"
      using assms(2) inc by (auto simp: ClockSweepTick_def Let_def)
    moreover have "Suc ?n mod ?n < 2 ^ 32" by (rule less_trans [OF mod_less_divisor [OF n(1)] less_trans [OF n(2)]]) simp
    ultimately have "unat (nextVictimBuffer q) = Suc ?n mod ?n" by (simp add: unat_of_nat)
    moreover have "v = 0" using v eq by simp
    moreover have "Suc ?n mod ?n = Suc 0 mod ?n" by (metis add_Suc mod_add_self2 add_0)
    ultimately show ?thesis using mod_less_eq_dividend [of "Suc 0" ?n] n(1) by (simp add: Suc_le_eq)
  qed
  then show "clock_ok q" "unat (nextVictimBuffer q) mod ?n = Suc v mod ?n" using n by (simp_all add: clock_ok_def frame)
qed

lemma kept_usage_dec:
  assumes "v < NBuffers p" "0 < usg (buf_state p v)"
  shows "kept p (set_state v (buf_state p v - BUF_USAGECOUNT_ONE) p)"
  using assms usg_sub [OF assms(2)] by (auto simp: kept_def nth_list_update)

lemma kept_refc: "kept p q \<Longrightarrow> i < NBuffers p \<Longrightarrow> refc (buf_state q i) = refc (buf_state p i)"
  by (simp add: kept_def)

lemma kept_N: "kept p q \<Longrightarrow> NBuffers q = NBuffers p"
  by (simp add: kept_def)

text \<open>The buffers the hand passed since the last change, \<open>N - t\<close> of them, were pinned.\<close>

definition passed_pinned :: "nat \<Rightarrow> pool \<Rightarrow> bool" where
  "passed_pinned t p \<longleftrightarrow> (\<forall>d. 1 \<le> d \<and> d \<le> NBuffers p - t \<longrightarrow>
     0 < refc (buf_state p ((unat (nextVictimBuffer p) mod NBuffers p + (NBuffers p - d)) mod NBuffers p)))"

lemma passed_step:
  assumes "clock_ok p" "ClockSweepTick p = (v, q)" "passed_pinned t p" "0 < refc (buf_state p v)" "1 \<le> t" "t \<le> NBuffers p"
  shows "passed_pinned (t - 1) q"
  unfolding passed_pinned_def
proof (intro allI impI)
  fix d assume d: "1 \<le> d \<and> d \<le> NBuffers q - (t - 1)"
  let ?n = "NBuffers p"
  note tick = tick_ok [OF assms(1,2)]
  have n: "NBuffers q = ?n" by (simp add: tick(6))
  have le: "d \<le> ?n" using d n by linarith
  have pos: "(unat (nextVictimBuffer q) mod ?n + (?n - d)) mod ?n = (v + Suc (?n - d)) mod ?n"
    using tick(4) by (metis add_Suc_right add_Suc mod_add_left_eq)
  have "0 < refc (buf_state p ((v + Suc (?n - d)) mod ?n))"
  proof (cases "d = 1")
    case True
    then have "v + Suc (?n - d) = v + ?n" using tick(2) by linarith
    then have "(v + Suc (?n - d)) mod ?n = v" using tick(2) by simp
    then show ?thesis using assms(4) by simp
  next
    case False
    then have e: "Suc (?n - d) = ?n - (d - 1)" "1 \<le> d - 1" "d - 1 \<le> ?n - t" using d le n assms(5,6) by linarith+
    then show ?thesis using assms(3) [unfolded passed_pinned_def, rule_format, of "d - 1"] tick(1,2) by simp
  qed
  then show "0 < refc (buf_state q ((unat (nextVictimBuffer q) mod NBuffers q + (NBuffers q - d)) mod NBuffers q))"
    by (simp only: n pos tick(6))
qed

lemma passed_all:
  assumes "clock_ok p" "ClockSweepTick p = (v, q)" "passed_pinned 1 p" "0 < refc (buf_state p v)" "i < NBuffers p"
  shows "0 < refc (buf_state p i)"
proof -
  let ?n = "NBuffers p"
  note tick = tick_ok [OF assms(1,2)]
  consider "i = v" | "i < v" | "v < i" by linarith
  then show ?thesis
  proof cases
    case 2
    then have "(v + (?n - (v - i))) mod ?n = i" using tick(2) assms(5) by (simp add: mod_if)
    moreover have "1 \<le> v - i \<and> v - i \<le> ?n - 1" using 2 tick(2) by linarith
    ultimately show ?thesis using assms(3) [unfolded passed_pinned_def tick(1) [symmetric], rule_format, of "v - i"] by simp
  next
    case 3
    then have "(v + (?n - (v + ?n - i))) mod ?n = i" using tick(2) assms(5) by simp
    moreover have "1 \<le> v + ?n - i \<and> v + ?n - i \<le> ?n - 1" using 3 assms(5) by linarith
    ultimately show ?thesis using assms(3) [unfolded passed_pinned_def tick(1) [symmetric], rule_format, of "v + ?n - i"] by simp
  qed (use assms(4) in simp)
qed

text \<open>A result \<open>r\<close> of a choice from \<open>p\<close> with final state \<open>q\<close>.\<close>

definition chosen :: "pool \<Rightarrow> (pg_error + nat) \<times> pool \<Rightarrow> bool" where
  "chosen p res \<longleftrightarrow> kept p (snd res) \<and> clock_ok (snd res) \<and> (free_ok p \<longrightarrow> free_ok (snd res)) \<and>
     (case fst res of
        Inl e \<Rightarrow> e = NoUnpinnedBuffers \<and> (\<forall>i < NBuffers p. 0 < refc (buf_state p i))
      | Inr v \<Rightarrow> v < NBuffers p \<and> refc (buf_state (snd res) v) = 0 \<and> usg (buf_state (snd res) v) = 0)"

lemma chosen_from:
  assumes "kept p q" "free_ok p \<longrightarrow> free_ok q" "chosen q res"
  shows "chosen p res"
  using assms kept_refc [OF assms(1)] kept_N [OF assms(1)] kept_trans [OF assms(1)]
  by (auto simp: chosen_def split: sum.splits)

lemma clock_sweep_chosen:
  assumes "clock_ok p" "1 \<le> t" "t \<le> NBuffers p" "passed_pinned t p"
  shows "chosen p (clock_sweep t p)"
  using assms
proof (induction t p rule: clock_sweep.induct)
  case (1 t p)
  obtain v q where tick: "ClockSweepTick p = (v, q)" by (cases "ClockSweepTick p")
  note t = tick_ok [OF "1.prems"(1) tick]
  have vq: "\<not> NBuffers q \<le> v" "NBuffers q = NBuffers p" using t(2,6) by auto
  have fq: "free_ok p \<longrightarrow> free_ok q" by (simp add: free_ok_def t)
  note from_q = chosen_from [OF t(5) fq]
  consider "refc (buf_state q v) = 0" "0 < usg (buf_state q v)" | "refc (buf_state q v) = 0" "usg (buf_state q v) = 0"
    | "0 < refc (buf_state q v)" "t - 1 = 0" | "0 < refc (buf_state q v)" "t - 1 \<noteq> 0" by linarith
  then show ?case
  proof cases
    case 1
    let ?q = "set_state v (buf_state q v - BUF_USAGECOUNT_ONE) q"
    have kq: "kept q ?q" using vq(1) 1(2) by (intro kept_usage_dec) auto
    have ok: "clock_ok ?q" "passed_pinned (NBuffers q) ?q" "free_ok q \<longrightarrow> free_ok ?q"
      using t(3) vq by (auto simp: clock_ok_def passed_pinned_def free_ok_def nth_list_update)
    have "chosen ?q (clock_sweep (NBuffers q) ?q)"
      using 1 ok vq "1.prems"(2,3) by (intro "1.IH"(1) [OF tick [symmetric]]) (auto simp: counts_zero)
    from from_q [OF chosen_from [OF kq ok(3) this]] show ?thesis
      using 1 vq by (subst clock_sweep.simps) (simp add: tick counts_zero)
  next
    case 2
    then have "chosen q (Inr v, q)" using vq t(3) by (simp add: chosen_def)
    from from_q [OF this] show ?thesis using 2 vq by (subst clock_sweep.simps) (simp add: tick counts_zero)
  next
    case 3
    then have "t = 1" using "1.prems"(2) by simp
    then have "\<forall>i < NBuffers p. 0 < refc (buf_state p i)"
      using passed_all [OF "1.prems"(1) tick] "1.prems"(4) 3(1) t(6) by simp
    then have "chosen p (Inl NoUnpinnedBuffers, q)" using t(3,5) fq by (simp add: chosen_def)
    then show ?thesis using 3 vq by (subst clock_sweep.simps) (simp add: tick counts_zero)
  next
    case 4
    have "passed_pinned (t - 1) q"
      using 4(1) t(6) by (intro passed_step [OF "1.prems"(1) tick "1.prems"(4) _ "1.prems"(2,3)]) simp
    then have "chosen q (clock_sweep (t - 1) q)"
      using 4 vq t(3) "1.prems"(3) by (intro "1.IH"(2) [OF tick [symmetric]]) (auto simp: counts_zero)
    from from_q [OF this] show ?thesis using 4 vq by (subst clock_sweep.simps) (simp add: tick counts_zero)
  qed
qed

lemma pop_kept:
  assumes "free_ok p" "\<not> firstFreeBuffer p < 0" "pop_free p = (i, q)"
  shows "kept p q" "free_ok q" "i < NBuffers p" "clock_ok p \<longrightarrow> clock_ok q"
proof -
  have i: "i < NBuffers p" using assms by (auto simp: pop_free_def Let_def free_ok_def)
  have "q = upd_desc i (\<lambda>d. d\<lparr>freeNext := FREENEXT_NOT_IN_LIST\<rparr>) (p\<lparr>firstFreeBuffer := freeNext (buf_desc p i)\<rparr>)"
    using assms(3) by (auto simp: pop_free_def Let_def)
  then show "kept p q" "free_ok q" "i < NBuffers p" "clock_ok p \<longrightarrow> clock_ok q"
    using i assms(1) by (auto simp: kept_def free_ok_def clock_ok_def upd_desc_def nth_list_update FREENEXT_NOT_IN_LIST_def)
qed

lemma take_free_ok:
  assumes "free_ok p" "clock_ok p"
  shows "\<exists>r q. take_free p = (Inr r, q) \<and> kept p q \<and> free_ok q \<and> clock_ok q \<and>
    (\<forall>i. r = Some i \<longrightarrow> i < NBuffers p \<and> refc (buf_state q i) = 0 \<and> usg (buf_state q i) = 0)"
  using assms
proof (induction p rule: take_free.induct)
  case (1 p)
  show ?case
  proof (cases "firstFreeBuffer p < 0")
    case True
    then show ?thesis using "1.prems" by (subst take_free.simps) simp
  next
    case first: False
    obtain i q where pop: "pop_free p = (i, q)" by (cases "pop_free p")
    note k = pop_kept [OF "1.prems"(1) first pop]
    have n: "\<not> NBuffers p \<le> nat (firstFreeBuffer p)" using "1.prems"(1) first by (auto simp: free_ok_def)
    show ?thesis
    proof (cases "BUF_STATE_GET_REFCOUNT (buf_state q i) = 0 \<and> BUF_STATE_GET_USAGECOUNT (buf_state q i) = 0")
      case True
      then show ?thesis using first n k "1.prems"(2) by (subst take_free.simps) (simp add: pop)
    next
      case False
      from "1.IH" [OF first n pop [symmetric] False k(2)] k(4) "1.prems"(2)
      obtain r q' where r: "take_free q = (Inr r, q')" "kept q q'" "free_ok q'" "clock_ok q'"
          "\<forall>i. r = Some i \<longrightarrow> i < NBuffers q \<and> refc (buf_state q' i) = 0 \<and> usg (buf_state q' i) = 0"
        by blast
      have "take_free p = (Inr r, q')" using first n False r(1) by (subst take_free.simps) (auto simp: pop)
      then show ?thesis using r kept_trans [OF k(1) r(2)] kept_N [OF k(1)] by auto
    qed
  qed
qed

lemma StrategyGetBuffer_chosen:
  assumes "clock_ok p" "free_ok p"
  shows "chosen p (StrategyGetBuffer p)"
proof -
  define p' where "p' = (let p = (if bgwprocno p \<noteq> - 1 then p\<lparr>bgwprocno := - 1, latches := bgwprocno p # latches p\<rparr> else p)
    in p\<lparr>numBufferAllocs := numBufferAllocs p + 1\<rparr>)"
  have p': "kept p p'" "clock_ok p'" "free_ok p'" using assms by (simp_all add: p'_def Let_def kept_def clock_ok_def free_ok_def)
  obtain r q where r: "take_free p' = (Inr r, q)" "kept p' q" "free_ok q" "clock_ok q"
      "\<forall>i. r = Some i \<longrightarrow> i < NBuffers p' \<and> refc (buf_state q i) = 0 \<and> usg (buf_state q i) = 0"
    using take_free_ok [OF p'(3,2)] by blast
  have eq: "StrategyGetBuffer p = (case r of Some i \<Rightarrow> (Inr i, q) | None \<Rightarrow> clock_sweep (NBuffers q) q)"
    using r(1) by (simp add: StrategyGetBuffer_def p'_def Let_def split: option.splits)
  have "chosen q (StrategyGetBuffer p)"
  proof (cases r)
    case None
    have "chosen q (clock_sweep (NBuffers q) q)"
      using r(4) by (intro clock_sweep_chosen) (auto simp: clock_ok_def passed_pinned_def Suc_le_eq)
    then show ?thesis by (simp add: eq None)
  next
    case (Some i)
    then show ?thesis using r kept_N [OF r(2)] by (simp add: eq chosen_def)
  qed
  then show ?thesis using chosen_from [OF kept_trans [OF p'(1) r(2)]] r(3) by simp
qed

definition sample_pool :: pool where
  "sample_pool =
     \<lparr>BufferDescriptors = map (\<lambda>st. \<lparr>tag = ClearBufferTag, state = st, wait_backend_pgprocno = 0, freeNext = FREENEXT_NOT_IN_LIST, content_lock = []\<rparr>)
        [BUF_REFCOUNT_ONE, 2 * BUF_USAGECOUNT_ONE, BUF_USAGECOUNT_ONE],
      BufferBlocks = [[], [], []], SharedBufHash = (\<lambda>_. None), firstFreeBuffer = FREENEXT_END_OF_LIST, lastFreeBuffer = 0,
      nextVictimBuffer = 2, completePasses = 0, numBufferAllocs = 0, bgwprocno = 7, PrivateRefCount = (\<lambda>_ _. 0), latches = [], signals = [],
      disk = (\<lambda>_. None), flushed = 0\<rparr>"

text \<open>C22. The choice of a buffer to reuse, from the freelist and then by the clock sweep, always ends. It gives a buffer that nobody has
  pinned, with usage count zero, exactly when some buffer of the pool is unpinned, and the error "no unpinned buffers available"
  otherwise. The contents of the buffers, their tags, pins, flags and locks, the mapping table and the files are as before, and no
  usage count has grown.\<close>

theorem victim_is_unpinned:
  assumes "clock_ok p" "free_ok p"
  shows "case StrategyGetBuffer p of (r, q) \<Rightarrow> kept p q \<and> clock_ok q \<and> free_ok q \<and>
    (if \<exists>i < NBuffers p. refc (buf_state p i) = 0
     then \<exists>v < NBuffers p. r = Inr v \<and> refc (buf_state p v) = 0 \<and> usg (buf_state q v) = 0
     else r = Inl NoUnpinnedBuffers)"
proof -
  obtain r q where rq: "StrategyGetBuffer p = (r, q)" by (cases "StrategyGetBuffer p")
  have c: "chosen p (r, q)" using StrategyGetBuffer_chosen [OF assms] rq by simp
  then have k: "kept p q" "clock_ok q" "free_ok q" using assms by (simp_all add: chosen_def)
  note same = kept_refc [OF k(1)]
  show ?thesis
  proof (cases r)
    case (Inl e)
    with c have "e = NoUnpinnedBuffers" "\<forall>i < NBuffers p. 0 < refc (buf_state p i)" by (simp_all add: chosen_def)
    then have "\<not> (\<exists>i < NBuffers p. refc (buf_state p i) = 0)" by (metis less_irrefl)
    then show ?thesis using k Inl \<open>e = NoUnpinnedBuffers\<close> by (simp only: rq split: prod.split) simp
  next
    case (Inr v)
    with c same [of v] have v: "v < NBuffers p" "refc (buf_state p v) = 0" "usg (buf_state q v) = 0" by (simp_all add: chosen_def)
    then have "\<exists>v < NBuffers p. r = Inr v \<and> refc (buf_state p v) = 0 \<and> usg (buf_state q v) = 0" using Inr by blast
    moreover have "\<exists>i < NBuffers p. refc (buf_state p i) = 0" using v by blast
    ultimately show ?thesis using k by (simp only: rq prod.case if_True simp_thms)
  qed
qed

lemmas state_word_defs = BUF_STATE_GET_REFCOUNT_def BUF_STATE_GET_USAGECOUNT_def BUF_REFCOUNT_MASK_def BUF_USAGECOUNT_MASK_def
  BUF_USAGECOUNT_SHIFT_def BUF_REFCOUNT_ONE_def BUF_USAGECOUNT_ONE_def

theorem victim_is_unpinned_witness:
  "fst (StrategyGetBuffer sample_pool) = Inr 2 \<and> kept sample_pool (snd (StrategyGetBuffer sample_pool))"
proof -
  have "clock_ok sample_pool" "free_ok sample_pool"
    by (simp_all add: clock_ok_def free_ok_def sample_pool_def FREENEXT_END_OF_LIST_def FREENEXT_NOT_IN_LIST_def less_Suc_eq numeral_3_eq_3)
  then have "kept sample_pool (snd (StrategyGetBuffer sample_pool))"
    using victim_is_unpinned [of sample_pool] by (simp only: split_beta)
  moreover have "fst (StrategyGetBuffer sample_pool) = Inr 2"
    by (simp add: sample_pool_def StrategyGetBuffer_def take_free.simps clock_sweep.simps ClockSweepTick_def state_word_defs
        FREENEXT_END_OF_LIST_def set_state_def upd_desc_def cong: prod.case_cong_weak if_weak_cong)
  ultimately show ?thesis by simp
qed

end
