(* ===== verification/TR_BufMgr.thy ===== *)
theory TR_BufMgr
  imports TR_BufState
begin

text \<open>
  The buffer manager (\<^verbatim>\<open>bufmgr.c\<close>): pins, content locks, the I/O flags, writing a page out, evicting it, and reading a block into
  the pool. The first part holds the operations, the second the invariant of the pool and what every operation keeps of it.
  The buffers are shared ones, the access strategy is the default one, and a read is the normal read of one block.
\<close>

section \<open>Pins\<close>

definition MAX_BACKENDS :: nat where "MAX_BACKENDS = 0x3FFFF"

definition set_pins :: "nat \<Rightarrow> nat \<Rightarrow> nat \<Rightarrow> pool \<Rightarrow> pool" where
  "set_pins me i n p = p\<lparr>PrivateRefCount := (PrivateRefCount p)(me := (PrivateRefCount p me)(i := n))\<rparr>"

definition PinBuffer :: "nat \<Rightarrow> nat \<Rightarrow> pool \<Rightarrow> bool \<times> pool" where
  "PinBuffer me i p =
     (if PrivateRefCount p me i = 0 then
        let st = buf_state p i + BUF_REFCOUNT_ONE;
            st = (if BUF_STATE_GET_USAGECOUNT st < BM_MAX_USAGE_COUNT then st + BUF_USAGECOUNT_ONE else st)
        in (has_flag st BM_VALID, set_pins me i 1 (set_state i st p))
      else (has_flag (buf_state p i) BM_VALID, set_pins me i (PrivateRefCount p me i + 1) p))"

definition PinBuffer_Locked :: "nat \<Rightarrow> nat \<Rightarrow> pool \<Rightarrow> pool" where
  "PinBuffer_Locked me i p = set_pins me i (PrivateRefCount p me i + 1) (set_state i (buf_state p i + BUF_REFCOUNT_ONE) p)"

definition UnpinBuffer :: "nat \<Rightarrow> nat \<Rightarrow> pool \<Rightarrow> pool" where
  "UnpinBuffer me i p =
     (let p = set_pins me i (PrivateRefCount p me i - 1) p
      in if PrivateRefCount p me i = 0 then
           let st = buf_state p i - BUF_REFCOUNT_ONE; p = set_state i st p
           in if has_flag st BM_PIN_COUNT_WAITER \<and> BUF_STATE_GET_REFCOUNT st = 1
              then set_state i (st AND NOT BM_PIN_COUNT_WAITER) (p\<lparr>signals := wait_backend_pgprocno (buf_desc p i) # signals p\<rparr>)
              else p
         else p)"

definition CheckBufferIsPinnedOnce :: "nat \<Rightarrow> nat \<Rightarrow> (pool, unit) comp" where
  "CheckBufferIsPinnedOnce me i = (\<lambda>p. if PrivateRefCount p me i \<noteq> 1 then (Inl (PinnedTwice i), p) else (Inr (), p))"

text \<open>A buffer number is checked first; local buffers are not modelled.\<close>

definition SharedReleaseBuffer :: "nat \<Rightarrow> nat \<Rightarrow> (pool, unit) comp" where
  "SharedReleaseBuffer me i = (\<lambda>p. if NBuffers p \<le> i then (Inl (BadBuffer i), p) else (Inr (), UnpinBuffer me i p))"

definition IncrBufferRefCount :: "nat \<Rightarrow> nat \<Rightarrow> pool \<Rightarrow> pool" where
  "IncrBufferRefCount me i p = set_pins me i (PrivateRefCount p me i + 1) p"

section \<open>Content locks\<close>

text \<open>An exclusive lock needs a free lock, a shared one needs that there is no exclusive holder.\<close>

definition set_lock :: "nat \<Rightarrow> (nat \<times> bool) list \<Rightarrow> pool \<Rightarrow> pool" where
  "set_lock i lk = upd_desc i (\<lambda>d. d\<lparr>content_lock := lk\<rparr>)"

definition lock_free :: "bool \<Rightarrow> (nat \<times> bool) list \<Rightarrow> bool" where
  "lock_free exclusive lk \<longleftrightarrow> (if exclusive then lk = [] else list_all (\<lambda>h. \<not> snd h) lk)"

definition LWLockConditionalAcquire :: "nat \<Rightarrow> nat \<Rightarrow> bool \<Rightarrow> (pool, bool) comp" where
  "LWLockConditionalAcquire me i exclusive = (\<lambda>p.
     let lk = content_lock (buf_desc p i)
     in if lock_free exclusive lk then (Inr True, set_lock i ((me, exclusive) # lk) p) else (Inr False, p))"

definition LWLockRelease :: "nat \<Rightarrow> nat \<Rightarrow> (pool, unit) comp" where
  "LWLockRelease me i = (\<lambda>p.
     case filter (\<lambda>h. fst h = me) (content_lock (buf_desc p i)) of
       [] \<Rightarrow> (Inl (LockNotHeld i), p)
     | h # _ \<Rightarrow> (Inr (), set_lock i (remove1 h (content_lock (buf_desc p i))) p))"

datatype buffer_lock_mode = BUFFER_LOCK_UNLOCK | BUFFER_LOCK_SHARE | BUFFER_LOCK_EXCLUSIVE

text \<open>Where the code would sleep until the lock is free, the result is \<^const>\<open>LockWouldBlock\<close> and the state is unchanged.\<close>

definition SharedLockBuffer :: "nat \<Rightarrow> nat \<Rightarrow> buffer_lock_mode \<Rightarrow> (pool, unit) comp" where
  "SharedLockBuffer me i mode =
     (if mode = BUFFER_LOCK_UNLOCK then LWLockRelease me i
      else bindC (LWLockConditionalAcquire me i (mode = BUFFER_LOCK_EXCLUSIVE)) (\<lambda>got. if got then ret () else raise (LockWouldBlock i)))"

definition SharedConditionalLockBuffer :: "nat \<Rightarrow> nat \<Rightarrow> (pool, bool) comp" where
  "SharedConditionalLockBuffer me i = LWLockConditionalAcquire me i True"

section \<open>Input and output\<close>

text \<open>Waiting for the I/O of another backend is the result \<^const>\<open>BufferIOBusy\<close>, with the state unchanged.\<close>

definition StartBufferIO :: "nat \<Rightarrow> bool \<Rightarrow> bool \<Rightarrow> (pool, bool) comp" where
  "StartBufferIO i forInput nowait = (\<lambda>p.
     let st = buf_state p i
     in if has_flag st BM_IO_IN_PROGRESS then (if nowait then (Inr False, p) else (Inl (BufferIOBusy i), p))
        else if (if forInput then has_flag st BM_VALID else \<not> has_flag st BM_DIRTY) then (Inr False, p)
        else (Inr True, set_state i (st OR BM_IO_IN_PROGRESS) p))"

definition TerminateBufferIO :: "nat \<Rightarrow> bool \<Rightarrow> 32 word \<Rightarrow> pool \<Rightarrow> pool" where
  "TerminateBufferIO i clear_dirty set_flag_bits p =
     (let st = buf_state p i AND NOT (BM_IO_IN_PROGRESS OR BM_IO_ERROR);
          st = (if clear_dirty \<and> \<not> has_flag st BM_JUST_DIRTIED then st AND NOT (BM_DIRTY OR BM_CHECKPOINT_NEEDED) else st)
      in set_state i (st OR set_flag_bits) p)"

definition AbortBufferIO :: "nat \<Rightarrow> pool \<Rightarrow> pool" where
  "AbortBufferIO i p = TerminateBufferIO i False BM_IO_ERROR p"

text \<open>The log is flushed at least up to the page's position when the buffer is of a permanent relation.\<close>

definition FlushBuffer :: "page_settings \<Rightarrow> nat \<Rightarrow> (pool, unit) comp" where
  "FlushBuffer cfg i = bindC (StartBufferIO i False False) (\<lambda>started. if \<not> started then ret () else modifyC (\<lambda>p.
     let recptr = PageGetLSN (BufferBlocks p ! i);
         st = buf_state p i AND NOT BM_JUST_DIRTIED;
         p = set_state i st p;
         p = (if has_flag st BM_PERMANENT then p\<lparr>flushed := max (flushed p) recptr\<rparr> else p);
         t = tag (buf_desc p i);
         p = p\<lparr>disk := (disk p)(t \<mapsto> PageSetChecksumCopy cfg (BufferBlocks p ! i) (blockNum t))\<rparr>
     in TerminateBufferIO i True 0 p))"

definition SharedMarkBufferDirty :: "nat \<Rightarrow> (pool, unit) comp" where
  "SharedMarkBufferDirty i = (\<lambda>p. if NBuffers p \<le> i then (Inl (BadBuffer i), p)
     else (Inr (), set_state i (buf_state p i OR (BM_DIRTY OR BM_JUST_DIRTIED)) p))"

section \<open>Eviction and allocation\<close>

definition InvalidateVictimBuffer :: "nat \<Rightarrow> (pool, bool) comp" where
  "InvalidateVictimBuffer i = (\<lambda>p.
     let t = tag (buf_desc p i); st = buf_state p i
     in if BUF_STATE_GET_REFCOUNT st \<noteq> 1 \<or> has_flag st BM_DIRTY then (Inr False, p)
        else bindC (BufTableDelete t) (\<lambda>_. ret True)
          (upd_desc i (\<lambda>d. d\<lparr>tag := ClearBufferTag, state := st AND NOT (BUF_FLAG_MASK OR BUF_USAGECOUNT_MASK)\<rparr>) p))"

text \<open>The jumps back to \<^verbatim>\<open>again\<close> are bounded by the last argument.\<close>

primrec GetVictimBuffer :: "page_settings \<Rightarrow> nat \<Rightarrow> nat \<Rightarrow> (pool, nat) comp" where
  "GetVictimBuffer cfg me 0 = raise OutOfFuel"
| "GetVictimBuffer cfg me (Suc n) =
     bindC StrategyGetBuffer (\<lambda>i. bindC (gets (\<lambda>p. buf_state p i)) (\<lambda>st.
     bindC (modifyC (PinBuffer_Locked me i)) (\<lambda>_. bindC (CheckBufferIsPinnedOnce me i) (\<lambda>_.
     bindC (if has_flag st BM_DIRTY then
              bindC (LWLockConditionalAcquire me i False) (\<lambda>got.
                if \<not> got then ret False
                else bindC (FlushBuffer cfg i) (\<lambda>_. bindC (LWLockRelease me i) (\<lambda>_. ret True)))
            else ret True) (\<lambda>written.
     if \<not> written then bindC (modifyC (UnpinBuffer me i)) (\<lambda>_. GetVictimBuffer cfg me n)
     else if has_flag st BM_TAG_VALID then
       bindC (InvalidateVictimBuffer i) (\<lambda>invalidated.
         if \<not> invalidated then bindC (modifyC (UnpinBuffer me i)) (\<lambda>_. GetVictimBuffer cfg me n) else ret i)
     else ret i)))))"

text \<open>Giving the chosen buffer its new tag, or finding that another backend has the block in the pool by now.\<close>

definition claim_victim :: "nat \<Rightarrow> bool \<Rightarrow> BufferTag \<Rightarrow> nat \<Rightarrow> (pool, nat \<times> bool) comp" where
  "claim_victim me permanent newTag i = bindC (BufTableInsert newTag i) (\<lambda>existing.
     case existing of
       Some j \<Rightarrow> (\<lambda>p. case PinBuffer me j (StrategyFreeBuffer i (UnpinBuffer me i p)) of (valid, p) \<Rightarrow> (Inr (j, valid), p))
     | None \<Rightarrow> (\<lambda>p.
         let st = buf_state p i OR (BM_TAG_VALID OR BUF_USAGECOUNT_ONE);
             st = (if permanent \<or> forkNum newTag = INIT_FORKNUM then st OR BM_PERMANENT else st)
         in (Inr (i, False), upd_desc i (\<lambda>d. d\<lparr>tag := newTag, state := st\<rparr>) p)))"

definition BufferAlloc :: "page_settings \<Rightarrow> nat \<Rightarrow> nat \<Rightarrow> bool \<Rightarrow> BufferTag \<Rightarrow> (pool, nat \<times> bool) comp" where
  "BufferAlloc cfg fuel me permanent newTag = bindC (gets (BufTableLookup newTag)) (\<lambda>existing.
     case existing of
       Some j \<Rightarrow> (\<lambda>p. case PinBuffer me j p of (valid, p) \<Rightarrow> (Inr (j, valid), p))
     | None \<Rightarrow> bindC (GetVictimBuffer cfg me fuel) (claim_victim me permanent newTag))"

text \<open>Outside of recovery a block beyond the end of the file is an error, or a page of zeros under \<^verbatim>\<open>zero_damaged_pages\<close>.\<close>

definition smgrread :: "page_settings \<Rightarrow> BufferTag \<Rightarrow> pool \<Rightarrow> bytes option" where
  "smgrread cfg t p =
     (case disk p t of
        Some pg \<Rightarrow> Some pg
      | None \<Rightarrow> if zero_damaged_pages cfg then Some (replicate BLCKSZ 0) else None)"

text \<open>Reading the block of a pinned buffer from its file, unless another backend has done so.\<close>

definition WaitReadBuffer :: "page_settings \<Rightarrow> nat \<Rightarrow> (pool, unit) comp" where
  "WaitReadBuffer cfg i = bindC (StartBufferIO i True False) (\<lambda>started. if \<not> started then ret () else (\<lambda>p.
     let t = tag (buf_desc p i)
     in case smgrread cfg t p of
          None \<Rightarrow> (Inl (ReadPastEnd (blockNum t)), p)
        | Some pg \<Rightarrow>
            let p = p\<lparr>BufferBlocks := (BufferBlocks p)[i := pg]\<rparr>
            in if fst (PageIsVerifiedExtended cfg pg (blockNum t) True True) then (Inr (), TerminateBufferIO i False BM_VALID p)
               else if zero_damaged_pages cfg
               then (Inr (), TerminateBufferIO i False BM_VALID (p\<lparr>BufferBlocks := (BufferBlocks p)[i := replicate BLCKSZ 0]\<rparr>))
               else (Inl (InvalidPage (blockNum t)), p)))"

definition SharedReadBuffer :: "page_settings \<Rightarrow> nat \<Rightarrow> nat \<Rightarrow> bool \<Rightarrow> BufferTag \<Rightarrow> (pool, nat) comp" where
  "SharedReadBuffer cfg fuel me permanent t = bindC (BufferAlloc cfg fuel me permanent t) (\<lambda>(i, found).
     if found then ret i else bindC (WaitReadBuffer cfg i) (\<lambda>_. ret i))"

section \<open>The invariant\<close>

text \<open>
  One buffer: the pin count is the number of backends that have it pinned, the usage count is bounded, only a buffer with a tag is
  valid and only a valid one dirty, holders of the content lock have it pinned and an exclusive holder is alone, a valid buffer holds a
  page, which is the one on disk (up to the checksum) unless it is dirty, the permanent flag is that of the relation, and
  a buffer with I/O in progress has a tag and is pinned.
\<close>

definition pinners :: "(nat \<Rightarrow> nat) \<Rightarrow> nat set" where
  "pinners pins = {b. b < MAX_BACKENDS \<and> 0 < pins b}"

definition lock_ok :: "(nat \<Rightarrow> nat) \<Rightarrow> (nat \<times> bool) list \<Rightarrow> bool" where
  "lock_ok pins lk \<longleftrightarrow> (\<forall>h \<in> set lk. 0 < pins (fst h)) \<and> ((\<exists>h \<in> set lk. snd h) \<longrightarrow> length lk = 1)"

definition buf_ok :: "(BufferTag \<Rightarrow> bool) \<Rightarrow> (BufferTag \<Rightarrow> bytes option) \<Rightarrow> bytes \<Rightarrow> (nat \<Rightarrow> nat) \<Rightarrow> BufferDesc \<Rightarrow> bool" where
  "buf_ok perm dsk blk pins d \<longleftrightarrow>
     refc (state d) = card (pinners pins) \<and> (\<forall>b \<ge> MAX_BACKENDS. pins b = 0) \<and> usg (state d) \<le> unat BM_MAX_USAGE_COUNT \<and>
     (bit (state d) 24 \<longrightarrow> bit (state d) 25) \<and> (bit (state d) 23 \<longrightarrow> bit (state d) 24) \<and> lock_ok pins (content_lock d) \<and>
     (bit (state d) 24 \<longrightarrow> length blk = BLCKSZ) \<and>
     (bit (state d) 24 \<and> \<not> bit (state d) 23 \<longrightarrow> map_option sans_checksum (dsk (tag d)) = Some (sans_checksum blk)) \<and>
     (bit (state d) 31 \<longleftrightarrow> bit (state d) 25 \<and> perm (tag d)) \<and> (bit (state d) 26 \<longrightarrow> bit (state d) 25 \<and> 0 < refc (state d))"

text \<open>
  The pool: the mapping table has exactly the buffers with a valid tag, the clock hand and the freelist stay in the array, and the
  log is on disk up to every permanent page that is on disk.
\<close>

definition pool_ok :: "(BufferTag \<Rightarrow> bool) \<Rightarrow> pool \<Rightarrow> bool" where
  "pool_ok perm p \<longleftrightarrow> clock_ok p \<and> free_ok p \<and> length (BufferBlocks p) = NBuffers p \<and>
     (\<forall>i < NBuffers p. buf_ok perm (disk p) (BufferBlocks p ! i) (\<lambda>b. PrivateRefCount p b i) (buf_desc p i)) \<and>
     (\<forall>t i. SharedBufHash p t = Some i \<longleftrightarrow> i < NBuffers p \<and> bit (buf_state p i) 25 \<and> tag (buf_desc p i) = t) \<and>
     (\<forall>t pg. disk p t = Some pg \<longrightarrow> length pg = BLCKSZ \<and> (perm t \<longrightarrow> PageGetLSN pg \<le> flushed p))"

text \<open>What a block contains, up to the checksum: the valid buffer, if there is one, or the file.\<close>

definition contents :: "pool \<Rightarrow> BufferTag \<Rightarrow> bytes option" where
  "contents p t = (case SharedBufHash p t of
     Some i \<Rightarrow> if bit (buf_state p i) 24 then Some (sans_checksum (BufferBlocks p ! i)) else map_option sans_checksum (disk p t)
   | None \<Rightarrow> map_option sans_checksum (disk p t))"

subsection \<open>Changes of one buffer\<close>

text \<open>The change from \<open>p\<close> to \<open>q\<close> concerns buffer \<open>i\<close> only.\<close>

definition only :: "nat \<Rightarrow> pool \<Rightarrow> pool \<Rightarrow> bool" where
  "only i p q \<longleftrightarrow> NBuffers q = NBuffers p \<and> length (BufferBlocks q) = length (BufferBlocks p) \<and> SharedBufHash q = SharedBufHash p \<and>
     disk q = disk p \<and> flushed q = flushed p \<and> nextVictimBuffer q = nextVictimBuffer p \<and> free_ok q = free_ok p \<and>
     (\<forall>j. j \<noteq> i \<longrightarrow> buf_desc q j = buf_desc p j \<and> BufferBlocks q ! j = BufferBlocks p ! j \<and> (\<forall>b. PrivateRefCount q b j = PrivateRefCount p b j)) \<and>
     tag (buf_desc q i) = tag (buf_desc p i) \<and> (bit (buf_state q i) 25 \<longleftrightarrow> bit (buf_state p i) 25)"

abbreviation buffer_ok :: "(BufferTag \<Rightarrow> bool) \<Rightarrow> pool \<Rightarrow> nat \<Rightarrow> bool" where
  "buffer_ok perm p i \<equiv> buf_ok perm (disk p) (BufferBlocks p ! i) (\<lambda>b. PrivateRefCount p b i) (buf_desc p i)"

lemma only_ok:
  assumes "pool_ok perm p" "only i p q" "i < NBuffers p" "buffer_ok perm q i"
  shows "pool_ok perm q"
  unfolding pool_ok_def
proof (intro conjI allI impI)
  show "clock_ok q" "free_ok q" "length (BufferBlocks q) = NBuffers q"
    using assms(1,2) by (auto simp: pool_ok_def only_def clock_ok_def)
  show "buffer_ok perm q j" if "j < NBuffers q" for j
    using assms that by (cases "j = i") (auto simp: pool_ok_def only_def)
  show "SharedBufHash q t = Some j \<longleftrightarrow> j < NBuffers q \<and> bit (buf_state q j) 25 \<and> tag (buf_desc q j) = t" for t j
    using assms(1,2) by (cases "j = i") (auto simp: pool_ok_def only_def)
  show "length pg = BLCKSZ" "perm t \<Longrightarrow> PageGetLSN pg \<le> flushed q" if "disk q t = Some pg" for t pg
    using assms(1,2) that by (auto simp: pool_ok_def only_def)
qed

lemma only_contents:
  assumes "only i p q" "bit (buf_state q i) 24 \<longleftrightarrow> bit (buf_state p i) 24" "bit (buf_state p i) 24 \<longrightarrow> BufferBlocks q ! i = BufferBlocks p ! i"
  shows "contents q = contents p"
proof
  fix t
  show "contents q t = contents p t"
  proof (cases "SharedBufHash p t")
    case (Some j)
    then show ?thesis using assms by (cases "j = i") (auto simp: contents_def only_def)
  qed (use assms(1) in \<open>auto simp: contents_def only_def\<close>)
qed

lemma kept_pool_ok:
  assumes "pool_ok perm p" "kept p q" "clock_ok q" "free_ok q"
  shows "pool_ok perm q" "contents q = contents p"
proof -
  have same: "NBuffers q = NBuffers p" "BufferBlocks q = BufferBlocks p" "SharedBufHash q = SharedBufHash p"
      "PrivateRefCount q = PrivateRefCount p" "disk q = disk p" "flushed q = flushed p"
    using assms(2) by (simp_all add: kept_def)
  have d: "tag (buf_desc q i) = tag (buf_desc p i)" "content_lock (buf_desc q i) = content_lock (buf_desc p i)"
      "refc (buf_state q i) = refc (buf_state p i)" "usg (buf_state q i) \<le> usg (buf_state p i)"
      "22 \<le> n \<Longrightarrow> bit (buf_state q i) n \<longleftrightarrow> bit (buf_state p i) n" if "i < NBuffers p" for i n
    using assms(2) that by (simp_all add: kept_def)
  have "buffer_ok perm q i" if "i < NBuffers q" for i
  proof -
    have i: "i < NBuffers p" using that same(1) by simp
    have "buffer_ok perm p i" using assms(1) i by (simp add: pool_ok_def)
    then show ?thesis using d(4) [OF i] unfolding buf_ok_def same by (auto simp: d(1,2,3,5) [OF i])
  qed
  moreover have "SharedBufHash q t = Some i \<longleftrightarrow> i < NBuffers q \<and> bit (buf_state q i) 25 \<and> tag (buf_desc q i) = t" for t i
    using assms(1) d(1,5) [of i] by (auto simp: pool_ok_def same)
  ultimately show "pool_ok perm q" using assms(1,3,4) unfolding pool_ok_def by (simp add: same)
  have "i < NBuffers p" if "SharedBufHash p t = Some i" for t i using assms(1) that by (simp add: pool_ok_def)
  then show "contents q = contents p" by (auto simp: contents_def same fun_eq_iff d(5) split: option.splits)
qed

subsection \<open>Pins and locks keep the invariant\<close>

lemma finite_pinners [simp]: "finite (pinners pins)"
  by (simp add: pinners_def)

lemma pinners_upd:
  "me < MAX_BACKENDS \<Longrightarrow> pinners (pins(me := n)) = (if n = 0 then pinners pins - {me} else insert me (pinners pins))"
  by (auto simp: pinners_def)

lemma card_pinners_less: "me < MAX_BACKENDS \<Longrightarrow> pins me = 0 \<Longrightarrow> card (pinners pins) + 1 \<le> MAX_BACKENDS"
proof -
  assume me: "me < MAX_BACKENDS" "pins me = 0"
  then have "insert me (pinners pins) \<subseteq> {..<MAX_BACKENDS}" "me \<notin> pinners pins" by (auto simp: pinners_def)
  then show ?thesis using card_mono [of "{..<MAX_BACKENDS}" "insert me (pinners pins)"] by simp
qed

lemma pins_set [simp]:
  "(\<lambda>b. PrivateRefCount (set_pins me i n p) b i) = (\<lambda>b. PrivateRefCount p b i)(me := n)"
  "j \<noteq> i \<Longrightarrow> PrivateRefCount (set_pins me i n p) b j = PrivateRefCount p b j"
  "PrivateRefCount (set_pins me i n p) me i = n"
  by (auto simp: set_pins_def)

lemma set_pins_simps [simp]:
  "BufferDescriptors (set_pins me i n p) = BufferDescriptors p" "BufferBlocks (set_pins me i n p) = BufferBlocks p"
  "SharedBufHash (set_pins me i n p) = SharedBufHash p" "disk (set_pins me i n p) = disk p" "flushed (set_pins me i n p) = flushed p"
  "nextVictimBuffer (set_pins me i n p) = nextVictimBuffer p" "firstFreeBuffer (set_pins me i n p) = firstFreeBuffer p"
  by (simp_all add: set_pins_def)

text \<open>A new state word for a buffer, and new pins.\<close>

lemma buf_ok_state:
  assumes "buf_ok perm dsk blk pins d" "refc st = card (pinners pins')" "\<forall>b \<ge> MAX_BACKENDS. pins' b = 0" "usg st \<le> unat BM_MAX_USAGE_COUNT"
    "\<And>n. n \<in> {23, 24, 25, 26, 31} \<Longrightarrow> bit st n \<longleftrightarrow> bit (state d) n" "lock_ok pins' (content_lock d)" "bit (state d) 26 \<Longrightarrow> 0 < refc st"
  shows "buf_ok perm dsk blk pins' (d\<lparr>state := st\<rparr>)"
  using assms(1-4,6,7) assms(5) [of 23] assms(5) [of 24] assms(5) [of 25] assms(5) [of 26] assms(5) [of 31] by (auto simp: buf_ok_def)

lemma pool_okD:
  assumes "pool_ok perm p"
  shows "clock_ok p" "free_ok p" "length (BufferBlocks p) = NBuffers p" "i < NBuffers p \<Longrightarrow> buffer_ok perm p i"
    "SharedBufHash p t = Some i \<longleftrightarrow> i < NBuffers p \<and> bit (buf_state p i) 25 \<and> tag (buf_desc p i) = t"
    "disk p t = Some pg \<Longrightarrow> length pg = BLCKSZ" "disk p t = Some pg \<Longrightarrow> perm t \<Longrightarrow> PageGetLSN pg \<le> flushed p"
  using assms by (auto simp: pool_ok_def)

lemma buf_okD:
  assumes "buf_ok perm dsk blk pins d"
  shows "refc (state d) = card (pinners pins)" "b \<ge> MAX_BACKENDS \<Longrightarrow> pins b = 0" "usg (state d) \<le> unat BM_MAX_USAGE_COUNT"
    "bit (state d) 24 \<Longrightarrow> bit (state d) 25" "bit (state d) 23 \<Longrightarrow> bit (state d) 24" "lock_ok pins (content_lock d)"
    "bit (state d) 24 \<Longrightarrow> length blk = BLCKSZ"
    "bit (state d) 24 \<Longrightarrow> \<not> bit (state d) 23 \<Longrightarrow> map_option sans_checksum (dsk (tag d)) = Some (sans_checksum blk)"
    "bit (state d) 31 \<longleftrightarrow> bit (state d) 25 \<and> perm (tag d)" "bit (state d) 26 \<Longrightarrow> 0 < refc (state d)" "bit (state d) 26 \<Longrightarrow> bit (state d) 25"
  using assms by (auto simp: buf_ok_def)

lemma free_ok_state [simp]: "i < NBuffers p \<Longrightarrow> free_ok (set_state i st p) = free_ok p"
  by (auto simp: free_ok_def nth_list_update)

lemma free_ok_pins [simp]: "free_ok (set_pins me i n p) = free_ok p"
  by (simp add: free_ok_def)

text \<open>The state word of a pin.\<close>

lemma pin_word:
  assumes "refc st + 1 < 2 ^ 18" "usg st \<le> unat BM_MAX_USAGE_COUNT"
  defines "st' \<equiv> (let st = st + BUF_REFCOUNT_ONE in if BUF_STATE_GET_USAGECOUNT st < BM_MAX_USAGE_COUNT then st + BUF_USAGECOUNT_ONE else st)"
  shows "refc st' = refc st + 1" "usg st' \<le> unat BM_MAX_USAGE_COUNT" "22 \<le> n \<Longrightarrow> bit st' n \<longleftrightarrow> bit st n"
proof -
  note r = refc_add [OF assms(1)]
  have m: "unat BM_MAX_USAGE_COUNT = 5" by (simp add: BM_MAX_USAGE_COUNT_def)
  have c: "usg (st + BUF_REFCOUNT_ONE) + 1 < 2 ^ 4" if "usg (st + BUF_REFCOUNT_ONE) < unat BM_MAX_USAGE_COUNT" using that m by simp
  show "refc st' = refc st + 1" "usg st' \<le> unat BM_MAX_USAGE_COUNT" "22 \<le> n \<Longrightarrow> bit st' n \<longleftrightarrow> bit st n"
    using r assms(2) usg_add [OF c] by (auto simp: st'_def Let_def word_less_nat_alt)
qed

text \<open>A change of state word, pins and lock only.\<close>

definition restate :: "nat \<Rightarrow> pool \<Rightarrow> pool \<Rightarrow> bool" where
  "restate i p q \<longleftrightarrow> only i p q \<and> BufferBlocks q = BufferBlocks p \<and> (bit (buf_state q i) 24 \<longleftrightarrow> bit (buf_state p i) 24)"

lemma restate_ok:
  assumes "pool_ok perm p" "restate i p q" "i < NBuffers p" "buffer_ok perm q i"
  shows "pool_ok perm q \<and> contents q = contents p"
  using only_ok [OF assms(1) _ assms(3,4)] only_contents [of i p q] assms(2) by (simp add: restate_def)

lemma PinBuffer_ok:
  assumes "pool_ok perm p" "i < NBuffers p" "me < MAX_BACKENDS" "PinBuffer me i p = (v, q)"
  shows "pool_ok perm q" "contents q = contents p" "restate i p q" "v \<longleftrightarrow> bit (buf_state q i) 24" "0 < PrivateRefCount q me i"
    "22 \<le> n \<Longrightarrow> bit (buf_state q i) n \<longleftrightarrow> bit (buf_state p i) n"
proof -
  have ok: "buffer_ok perm p i" using pool_okD(4) [OF assms(1,2)] .
  note b = buf_okD [OF ok]
  have "restate i p q \<and> buffer_ok perm q i \<and> (v \<longleftrightarrow> bit (buf_state q i) 24) \<and> 0 < PrivateRefCount q me i \<and>
    (\<forall>n \<ge> 22. bit (buf_state q i) n \<longleftrightarrow> bit (buf_state p i) n)"
  proof (cases "PrivateRefCount p me i = 0")
    case True
    define st where "st = (let st = buf_state p i + BUF_REFCOUNT_ONE
      in if BUF_STATE_GET_USAGECOUNT st < BM_MAX_USAGE_COUNT then st + BUF_USAGECOUNT_ONE else st)"
    have q: "q = set_pins me i 1 (set_state i st p)" "v = has_flag st BM_VALID"
      using assms(4) True by (simp_all add: PinBuffer_def st_def Let_def)
    have "refc (buf_state p i) + 1 < 2 ^ 18"
      using card_pinners_less [OF assms(3), of "\<lambda>b. PrivateRefCount p b i"] True b(1) by (simp add: MAX_BACKENDS_def)
    note w = pin_word [OF this b(3), folded st_def]
    have pins: "pinners ((\<lambda>b. PrivateRefCount p b i)(me := 1)) = insert me (pinners (\<lambda>b. PrivateRefCount p b i))" "me \<notin> pinners (\<lambda>b. PrivateRefCount p b i)"
      using True by (simp_all add: pinners_upd [OF assms(3)]) (simp add: pinners_def)
    have "buf_ok perm (disk p) (BufferBlocks p ! i) ((\<lambda>b. PrivateRefCount p b i)(me := 1)) ((buf_desc p i)\<lparr>state := st\<rparr>)"
    proof (rule buf_ok_state [OF ok])
      show "refc st = card (pinners ((\<lambda>b. PrivateRefCount p b i)(me := 1)))" using w(1) b(1) pins by simp
      show "lock_ok ((\<lambda>b. PrivateRefCount p b i)(me := 1)) (content_lock (buf_desc p i))" using b(6) by (auto simp: lock_ok_def)
    qed (use w b(2) assms(3) in auto)
    then show ?thesis using q assms(2) w(3) by (auto simp: restate_def only_def has_flag_bit)
  next
    case False
    have q: "q = set_pins me i (PrivateRefCount p me i + 1) p" "v = has_flag (buf_state p i) BM_VALID"
      using assms(4) False by (simp_all add: PinBuffer_def)
    have "pinners ((\<lambda>b. PrivateRefCount p b i)(me := n + 1)) = pinners (\<lambda>b. PrivateRefCount p b i)" for n
      using False assms(3) by (auto simp: pinners_def)
    then have "buf_ok perm (disk p) (BufferBlocks p ! i) ((\<lambda>b. PrivateRefCount p b i)(me := PrivateRefCount p me i + 1)) ((buf_desc p i)\<lparr>state := buf_state p i\<rparr>)"
      using b assms(3) by (intro buf_ok_state [OF ok]) (auto simp: lock_ok_def)
    then show ?thesis using q by (auto simp: restate_def only_def has_flag_bit)
  qed
  then show "pool_ok perm q" "contents q = contents p" "restate i p q" "v \<longleftrightarrow> bit (buf_state q i) 24" "0 < PrivateRefCount q me i"
    "22 \<le> n \<Longrightarrow> bit (buf_state q i) n \<longleftrightarrow> bit (buf_state p i) n"
    using restate_ok [OF assms(1) _ assms(2)] by auto
qed

lemma PinBuffer_Locked_ok:
  assumes "pool_ok perm p" "i < NBuffers p" "me < MAX_BACKENDS" "refc (buf_state p i) = 0"
  shows "pool_ok perm (PinBuffer_Locked me i p)" "contents (PinBuffer_Locked me i p) = contents p" "restate i p (PinBuffer_Locked me i p)"
    "pinners (\<lambda>b. PrivateRefCount (PinBuffer_Locked me i p) b i) = {me}" "PrivateRefCount (PinBuffer_Locked me i p) me i = 1"
    "22 \<le> n \<Longrightarrow> bit (buf_state (PinBuffer_Locked me i p) i) n \<longleftrightarrow> bit (buf_state p i) n"
proof -
  let ?q = "PinBuffer_Locked me i p" and ?pins = "\<lambda>b. PrivateRefCount p b i"
  have ok: "buffer_ok perm p i" using pool_okD(4) [OF assms(1,2)] .
  note b = buf_okD [OF ok]
  have none: "pinners ?pins = {}" using assms(4) b(1) by (simp only:) simp
  then have zero: "PrivateRefCount p b i = 0" for b using b(2) [of b] by (cases "b < MAX_BACKENDS") (auto simp: pinners_def)
  have lk: "content_lock (buf_desc p i) = []" using b(6) zero by (cases "content_lock (buf_desc p i)") (auto simp: lock_ok_def)
  have q: "?q = set_pins me i 1 (set_state i (buf_state p i + BUF_REFCOUNT_ONE) p)" by (simp add: PinBuffer_Locked_def zero)
  have w: "refc (buf_state p i + BUF_REFCOUNT_ONE) = 1" "usg (buf_state p i + BUF_REFCOUNT_ONE) = usg (buf_state p i)"
      "18 \<le> n \<Longrightarrow> bit (buf_state p i + BUF_REFCOUNT_ONE) n \<longleftrightarrow> bit (buf_state p i) n" for n
    using refc_add [of "buf_state p i"] assms(4) by simp_all
  have pins: "pinners (?pins(me := 1)) = {me}" using none by (simp add: pinners_upd [OF assms(3)])
  then have "buf_ok perm (disk p) (BufferBlocks p ! i) (?pins(me := 1)) ((buf_desc p i)\<lparr>state := buf_state p i + BUF_REFCOUNT_ONE\<rparr>)"
    using w b(2,3) assms(3) lk by (intro buf_ok_state [OF ok]) (auto simp: lock_ok_def)
  then have ok': "buffer_ok perm ?q i" using q assms(2) by simp
  show re: "restate i p ?q" using q assms(2) w(3) by (auto simp: restate_def only_def)
  show "pool_ok perm ?q" "contents ?q = contents p" using restate_ok [OF assms(1) re assms(2) ok'] by auto
  show "pinners (\<lambda>b. PrivateRefCount ?q b i) = {me}" "PrivateRefCount ?q me i = 1" using q pins by simp_all
  show "22 \<le> n \<Longrightarrow> bit (buf_state ?q i) n \<longleftrightarrow> bit (buf_state p i) n" using q w(3) assms(2) by simp
qed

lemma bit_push1: "bit (push_bit k 1 :: 32 word) n \<longleftrightarrow> n = k \<and> k < 32"
  unfolding bit_push_bit_iff bit_1_iff by (auto simp: possible_bit_word)

lemma bit_flags [simp]:
  "bit BM_DIRTY n \<longleftrightarrow> n = 23" "bit BM_VALID n \<longleftrightarrow> n = 24" "bit BM_TAG_VALID n \<longleftrightarrow> n = 25" "bit BM_IO_IN_PROGRESS n \<longleftrightarrow> n = 26"
  "bit BM_IO_ERROR n \<longleftrightarrow> n = 27" "bit BM_JUST_DIRTIED n \<longleftrightarrow> n = 28" "bit BM_PIN_COUNT_WAITER n \<longleftrightarrow> n = 29"
  "bit BM_CHECKPOINT_NEEDED n \<longleftrightarrow> n = 30" "bit BM_PERMANENT n \<longleftrightarrow> n = 31"
  unfolding BM_DIRTY_def BM_VALID_def BM_TAG_VALID_def BM_IO_IN_PROGRESS_def BM_IO_ERROR_def BM_JUST_DIRTIED_def
    BM_PIN_COUNT_WAITER_def BM_CHECKPOINT_NEEDED_def BM_PERMANENT_def
  by (simp_all only: bit_push1) simp_all

lemma bit_less32: "bit (st :: 32 word) n \<Longrightarrow> n < 32"
  using bit_imp_le_length by fastforce

lemma flag_counts:
  assumes "\<And>n. n < 22 \<Longrightarrow> \<not> bit f n"
  shows "refc (st AND NOT f) = refc st" "usg (st AND NOT f) = usg st" "refc (st OR f) = refc st" "usg (st OR f) = usg st"
  using assms by (auto intro!: same_counts simp: bit_simps)

lemmas word_bits = bit_and_iff bit_or_iff bit_not_iff_eq

lemma UnpinBuffer_ok:
  assumes "pool_ok perm p" "i < NBuffers p" "0 < PrivateRefCount p me i"
    "PrivateRefCount p me i = 1 \<Longrightarrow> me \<notin> fst ` set (content_lock (buf_desc p i))"
    "bit (buf_state p i) 26 \<Longrightarrow> 1 < refc (buf_state p i) \<or> 1 < PrivateRefCount p me i"
  shows "pool_ok perm (UnpinBuffer me i p)" "contents (UnpinBuffer me i p) = contents p" "restate i p (UnpinBuffer me i p)"
proof -
  let ?q = "UnpinBuffer me i p" and ?pins = "\<lambda>b. PrivateRefCount p b i" and ?n = "PrivateRefCount p me i"
  have ok: "buffer_ok perm p i" using pool_okD(4) [OF assms(1,2)] .
  note b = buf_okD [OF ok]
  have me: "me < MAX_BACKENDS" using b(2) [of me] assms(3) by force
  have "restate i p ?q \<and> buffer_ok perm ?q i"
  proof (cases "?n = 1")
    case True
    let ?st = "buf_state p i - BUF_REFCOUNT_ONE"
    define st where "st = (if has_flag ?st BM_PIN_COUNT_WAITER \<and> BUF_STATE_GET_REFCOUNT ?st = 1 then ?st AND NOT BM_PIN_COUNT_WAITER else ?st)"
    obtain sg where q: "?q = (set_state i st (set_pins me i 0 p))\<lparr>signals := sg\<rparr>"
    proof
      show "?q = (set_state i st (set_pins me i 0 p))\<lparr>signals := signals ?q\<rparr>"
        using True assms(2) by (intro pool.equality) (simp_all add: UnpinBuffer_def Let_def st_def set_state_def upd_desc_def)
    qed
    have "me \<in> pinners ?pins" using me True by (simp add: pinners_def)
    then have pos: "0 < refc (buf_state p i)" using b(1) by (auto simp: card_gt_0_iff)
    have w: "refc st = refc (buf_state p i) - 1" "usg st = usg (buf_state p i)" "n \<noteq> 29 \<Longrightarrow> 22 \<le> n \<Longrightarrow> bit st n \<longleftrightarrow> bit (buf_state p i) n" for n
      using refc_sub [OF pos] flag_counts [of BM_PIN_COUNT_WAITER ?st] by (auto simp: st_def word_bits dest: bit_less32)
    have "buf_ok perm (disk p) (BufferBlocks p ! i) (?pins(me := 0)) ((buf_desc p i)\<lparr>state := st\<rparr>)"
    proof (rule buf_ok_state [OF ok])
      show "refc st = card (pinners (?pins(me := 0)))" using \<open>me \<in> pinners ?pins\<close> w(1) b(1) by (simp add: pinners_upd [OF me])
      show "lock_ok (?pins(me := 0)) (content_lock (buf_desc p i))" using b(6) assms(4) True by (force simp: lock_ok_def)
      show "0 < refc st" if "bit (buf_state p i) 26" using assms(5) [OF that] True w(1) by linarith
    qed (use w b in auto)
    then show ?thesis using q assms(2) w(3) by (auto simp: restate_def only_def free_ok_def nth_list_update)
  next
    case False
    obtain m where m: "?n = Suc (Suc m)" using False assms(3) by (metis One_nat_def gr0_implies_Suc not0_implies_Suc)
    have q: "?q = set_pins me i (Suc m) p" using m by (auto simp: UnpinBuffer_def Let_def)
    have pins: "pinners (?pins(me := Suc m)) = pinners ?pins" using m me by (auto simp: pinners_def)
    have "buf_ok perm (disk p) (BufferBlocks p ! i) (?pins(me := Suc m)) ((buf_desc p i)\<lparr>state := buf_state p i\<rparr>)"
      using b me by (intro buf_ok_state [OF ok]) (auto simp: lock_ok_def pins)
    then show ?thesis using q by (auto simp: restate_def only_def)
  qed
  then show "pool_ok perm ?q" "contents ?q = contents p" "restate i p ?q" using restate_ok [OF assms(1) _ assms(2)] by auto
qed

text \<open>Content locks.\<close>

lemma set_lock_ok:
  assumes "pool_ok perm p" "i < NBuffers p" "lock_ok (\<lambda>b. PrivateRefCount p b i) lk"
  shows "pool_ok perm (set_lock i lk p)" "contents (set_lock i lk p) = contents p" "restate i p (set_lock i lk p)"
proof -
  have "buffer_ok perm p i" using pool_okD(4) [OF assms(1,2)] .
  then have ok: "buffer_ok perm (set_lock i lk p) i" using assms(2,3) by (auto simp: buf_ok_def set_lock_def upd_desc_def)
  show re: "restate i p (set_lock i lk p)"
    using assms(2) by (auto simp: restate_def only_def set_lock_def upd_desc_def free_ok_def nth_list_update)
  show "pool_ok perm (set_lock i lk p)" "contents (set_lock i lk p) = contents p" using restate_ok [OF assms(1) re assms(2) ok] by auto
qed

lemma LWLockConditionalAcquire_ok:
  assumes "pool_ok perm p" "i < NBuffers p" "0 < PrivateRefCount p me i" "LWLockConditionalAcquire me i x p = (r, q)"
  shows "pool_ok perm q \<and> contents q = contents p \<and> restate i p q"
proof (cases "lock_free x (content_lock (buf_desc p i))")
  case True
  have "lock_ok (\<lambda>b. PrivateRefCount p b i) ((me, x) # content_lock (buf_desc p i))"
    using buf_okD(6) [OF pool_okD(4) [OF assms(1,2)]] True assms(3) by (cases x) (auto simp: lock_ok_def lock_free_def list_all_iff)
  then show ?thesis using set_lock_ok [OF assms(1,2)] assms(4) True by (auto simp: LWLockConditionalAcquire_def Let_def)
next
  case False
  then show ?thesis using assms(1,4) by (auto simp: LWLockConditionalAcquire_def Let_def restate_def only_def)
qed

lemma lock_ok_remove:
  assumes "lock_ok pins lk" "h \<in> set lk"
  shows "lock_ok pins (remove1 h lk)"
proof (cases "\<exists>h \<in> set lk. snd h")
  case True
  then have "length lk = 1" using assms(1) by (simp add: lock_ok_def)
  then have "remove1 h lk = []" using assms(2) by (auto simp: length_Suc_conv)
  then show ?thesis by (simp add: lock_ok_def)
next
  case False
  then show ?thesis using assms(1) by (auto simp: lock_ok_def dest: notin_set_remove1)
qed

lemma LWLockRelease_ok:
  assumes "pool_ok perm p" "i < NBuffers p" "LWLockRelease me i p = (r, q)"
  shows "pool_ok perm q \<and> contents q = contents p \<and> restate i p q"
proof (cases "filter (\<lambda>h. fst h = me) (content_lock (buf_desc p i))")
  case Nil
  then show ?thesis using assms(1,3) by (auto simp: LWLockRelease_def restate_def only_def)
next
  case (Cons h hs)
  then have "h \<in> set (content_lock (buf_desc p i))" by (metis filter_is_subset list.set_intros(1) subsetD)
  then have "lock_ok (\<lambda>b. PrivateRefCount p b i) (remove1 h (content_lock (buf_desc p i)))"
    using buf_okD(6) [OF pool_okD(4) [OF assms(1,2)]] by (rule lock_ok_remove [rotated])
  then show ?thesis using set_lock_ok [OF assms(1,2)] assms(3) Cons by (auto simp: LWLockRelease_def)
qed

subsection \<open>Input and output keep the invariant\<close>

lemma tag_unique:
  assumes "pool_ok perm p" "i < NBuffers p" "j < NBuffers p" "bit (buf_state p i) 25" "bit (buf_state p j) 25" "tag (buf_desc p i) = tag (buf_desc p j)"
  shows "i = j"
  using pool_okD(5) [OF assms(1), of "tag (buf_desc p i)" i] pool_okD(5) [OF assms(1), of "tag (buf_desc p i)" j] assms(2-6) by simp

lemma copy_keeps:
  assumes "length pg = BLCKSZ"
  shows "sans_checksum (PageSetChecksumCopy cfg pg n) = sans_checksum pg" "length (PageSetChecksumCopy cfg pg n) = BLCKSZ"
    "PageGetLSN (PageSetChecksumCopy cfg pg n) = PageGetLSN pg"
  using header_put_checksum [OF assms] assms by (simp_all add: PageSetChecksumCopy_def)

text \<open>The state word and the pool after a write.\<close>

definition written_state :: "32 word \<Rightarrow> 32 word" where
  "written_state st =
     (let st = ((st OR BM_IO_IN_PROGRESS) AND NOT BM_JUST_DIRTIED) AND NOT (BM_IO_IN_PROGRESS OR BM_IO_ERROR)
      in (if \<not> has_flag st BM_JUST_DIRTIED then st AND NOT (BM_DIRTY OR BM_CHECKPOINT_NEEDED) else st) OR 0)"

lemma written_state_bits:
  "refc (written_state st) = refc st" "usg (written_state st) = usg st"
  "bit (written_state st) n \<longleftrightarrow> bit st n \<and> n \<notin> {23, 26, 27, 28, 30}"
proof -
  show bits: "bit (written_state st) n \<longleftrightarrow> bit st n \<and> n \<notin> {23, 26, 27, 28, 30}" for n
    using bit_less32 [of st n] by (auto simp: written_state_def word_bits has_flag_bit)
  show "refc (written_state st) = refc st" "usg (written_state st) = usg st" by (auto intro!: same_counts simp: bits)
qed

definition written :: "page_settings \<Rightarrow> nat \<Rightarrow> pool \<Rightarrow> pool" where
  "written cfg i p = (set_state i (written_state (buf_state p i)) p)
     \<lparr>flushed := (if bit (buf_state p i) 31 then max (flushed p) (PageGetLSN (BufferBlocks p ! i)) else flushed p),
      disk := (disk p)(tag (buf_desc p i) \<mapsto> PageSetChecksumCopy cfg (BufferBlocks p ! i) (blockNum (tag (buf_desc p i))))\<rparr>"

lemma FlushBuffer_run:
  assumes "i < NBuffers p"
  shows "FlushBuffer cfg i p =
    (if bit (buf_state p i) 26 then (Inl (BufferIOBusy i), p) else if \<not> bit (buf_state p i) 23 then (Inr (), p) else (Inr (), written cfg i p))"
proof -
  consider "bit (buf_state p i) 26" | "\<not> bit (buf_state p i) 26" "\<not> bit (buf_state p i) 23" | "\<not> bit (buf_state p i) 26" "bit (buf_state p i) 23" by blast
  then show ?thesis
  proof cases
    case 3
    let ?st = "(buf_state p i OR BM_IO_IN_PROGRESS) AND NOT BM_JUST_DIRTIED"
    have perm: "has_flag ?st BM_PERMANENT \<longleftrightarrow> bit (buf_state p i) 31" by (simp add: word_bits has_flag_bit)
    have start: "StartBufferIO i False False p = (Inr True, set_state i (buf_state p i OR BM_IO_IN_PROGRESS) p)"
      using 3 by (simp add: StartBufferIO_def has_flag_bit)
    have "snd (FlushBuffer cfg i p) = written cfg i p"
      unfolding FlushBuffer_def bindC_ok [of "StartBufferIO i False False", OF start] using assms
      by (intro pool.equality) (simp_all add: Let_def TerminateBufferIO_def written_def written_state_def perm set_state_def upd_desc_def)
    moreover have "fst (FlushBuffer cfg i p) = Inr ()" unfolding FlushBuffer_def bindC_ok [of "StartBufferIO i False False", OF start] by simp
    ultimately show ?thesis using 3 by (metis prod.collapse)
  qed (simp_all add: FlushBuffer_def StartBufferIO_def bindC_def Let_def has_flag_bit)
qed

lemma written_ok:
  assumes "pool_ok perm p" "i < NBuffers p" "bit (buf_state p i) 23" "\<not> bit (buf_state p i) 26"
  shows "pool_ok perm (written cfg i p)" "contents (written cfg i p) = contents p"
proof -
  let ?q = "written cfg i p" and ?t = "tag (buf_desc p i)"
  note b = buf_okD [OF pool_okD(4) [OF assms(1,2)]]
  have bits: "bit (buf_state p i) 24" "bit (buf_state p i) 25" using assms(3) b(4,5) by auto
  note len = b(7) [OF bits(1)]
  note copy = copy_keeps [OF len]
  have q: "NBuffers ?q = NBuffers p" "BufferBlocks ?q = BufferBlocks p" "SharedBufHash ?q = SharedBufHash p" "PrivateRefCount ?q = PrivateRefCount p"
      "\<And>j. j \<noteq> i \<Longrightarrow> buf_desc ?q j = buf_desc p j" "buf_desc ?q i = (buf_desc p i)\<lparr>state := written_state (buf_state p i)\<rparr>"
      "disk ?q = (disk p)(?t \<mapsto> PageSetChecksumCopy cfg (BufferBlocks p ! i) (blockNum ?t))" "flushed p \<le> flushed ?q"
      "bit (buf_state p i) 31 \<Longrightarrow> PageGetLSN (BufferBlocks p ! i) \<le> flushed ?q"
    using assms(2) by (simp_all add: written_def)
  have "buffer_ok perm ?q j" if "j < NBuffers p" for j
  proof (cases "j = i")
    case True
    then show ?thesis using pool_okD(4) [OF assms(1,2)] bits len copy(1) unfolding True q buf_ok_def by (auto simp: q written_state_bits)
  next
    case False
    have ok: "buffer_ok perm p j" using pool_okD(4) [OF assms(1) that] .
    have "disk ?q (tag (buf_desc p j)) = disk p (tag (buf_desc p j))" if "bit (buf_state p j) 24"
      using tag_unique [OF assms(1,2) \<open>j < NBuffers p\<close> bits(2)] buf_okD(4) [OF ok that] False q(7) by auto
    then show ?thesis using ok unfolding buf_ok_def q(5) [OF False] by (auto simp: q(2,4))
  qed
  moreover have "clock_ok ?q" "free_ok ?q" "length (BufferBlocks ?q) = NBuffers ?q"
    using pool_okD(1-3) [OF assms(1)] assms(2) by (simp_all add: written_def clock_ok_def free_ok_def nth_list_update)
  moreover have "SharedBufHash ?q t = Some j \<longleftrightarrow> j < NBuffers ?q \<and> bit (buf_state ?q j) 25 \<and> tag (buf_desc ?q j) = t" for t j
    using pool_okD(5) [OF assms(1), of t j] by (cases "j = i") (auto simp: q written_state_bits)
  moreover have "length pg = BLCKSZ \<and> (perm t \<longrightarrow> PageGetLSN pg \<le> flushed ?q)" if "disk ?q t = Some pg" for t pg
  proof (cases "t = ?t")
    case True
    then show ?thesis using that copy q(7,9) b(9) bits(2) by auto
  next
    case False
    then show ?thesis using that q(7,8) pool_okD(6,7) [OF assms(1), of t pg] by auto
  qed
  ultimately show "pool_ok perm ?q" unfolding pool_ok_def q(1) by blast
  show "contents ?q = contents p"
  proof
    fix t
    have hash: "SharedBufHash p ?t = Some i" using pool_okD(5) [OF assms(1)] assms(2) bits(2) by simp
    show "contents ?q t = contents p t"
    proof (cases "t = ?t")
      case True
      then show ?thesis using hash bits by (simp add: contents_def q written_state_bits)
    next
      case False
      then have "SharedBufHash p t \<noteq> Some i" using pool_okD(5) [OF assms(1), of t i] by auto
      then show ?thesis using False by (auto simp: contents_def q split: option.splits)
    qed
  qed
qed

lemma FlushBuffer_ok:
  assumes "pool_ok perm p" "i < NBuffers p" "FlushBuffer cfg i p = (r, q)"
  shows "pool_ok perm q" "contents q = contents p"
  using written_ok [OF assms(1,2)] assms by (auto simp: FlushBuffer_run split: if_splits)

text \<open>A new state word that keeps the pins.\<close>

lemma TerminateBufferIO_word:
  fixes st f :: "32 word"
  defines "st' \<equiv> (st AND NOT (BM_IO_IN_PROGRESS OR BM_IO_ERROR)) OR f"
  assumes "\<And>n. n < 22 \<Longrightarrow> \<not> bit f n"
  shows "refc st' = refc st" "usg st' = usg st" "bit st' n \<longleftrightarrow> (bit st n \<and> n \<noteq> 26 \<and> n \<noteq> 27) \<or> bit f n"
proof -
  show bits: "bit st' n \<longleftrightarrow> (bit st n \<and> n \<noteq> 26 \<and> n \<noteq> 27) \<or> bit f n" for n
    using bit_less32 [of st n] by (auto simp: st'_def word_bits)
  show "refc st' = refc st" "usg st' = usg st" using assms(2) by (auto intro!: same_counts simp: bits)
qed

lemma AbortBufferIO_ok:
  assumes "pool_ok perm p" "i < NBuffers p"
  shows "pool_ok perm (AbortBufferIO i p)" "contents (AbortBufferIO i p) = contents p" "restate i p (AbortBufferIO i p)"
proof -
  let ?q = "AbortBufferIO i p"
  have ok: "buffer_ok perm p i" using pool_okD(4) [OF assms] .
  have "\<And>n. n < 22 \<Longrightarrow> \<not> bit BM_IO_ERROR n" by simp
  define st where "st = (buf_state p i AND NOT (BM_IO_IN_PROGRESS OR BM_IO_ERROR)) OR BM_IO_ERROR"
  note w = TerminateBufferIO_word [OF \<open>\<And>n. n < 22 \<Longrightarrow> \<not> bit BM_IO_ERROR n\<close>, of "buf_state p i", folded st_def]
  have q: "?q = set_state i st p" by (simp add: AbortBufferIO_def TerminateBufferIO_def st_def)
  have ok': "buffer_ok perm ?q i" using ok assms(2) unfolding q by (auto simp: buf_ok_def w)
  show re: "restate i p ?q" unfolding q using assms(2) by (auto simp: restate_def only_def w)
  show "pool_ok perm ?q" "contents ?q = contents p" using restate_ok [OF assms(1) re assms(2) ok'] by auto
qed

text \<open>Reading a block. Only a buffer that is not valid is filled, with what its file has.\<close>

lemma WaitReadBuffer_run:
  assumes "i < NBuffers p" "\<not> zero_damaged_pages cfg"
  shows "WaitReadBuffer cfg i p =
    (if bit (buf_state p i) 26 then (Inl (BufferIOBusy i), p)
     else if bit (buf_state p i) 24 then (Inr (), p)
     else case disk p (tag (buf_desc p i)) of
       None \<Rightarrow> (Inl (ReadPastEnd (blockNum (tag (buf_desc p i)))), set_state i (buf_state p i OR BM_IO_IN_PROGRESS) p)
     | Some pg \<Rightarrow>
         if fst (PageIsVerifiedExtended cfg pg (blockNum (tag (buf_desc p i))) True True)
         then (Inr (), TerminateBufferIO i False BM_VALID
           ((set_state i (buf_state p i OR BM_IO_IN_PROGRESS) p)\<lparr>BufferBlocks := (BufferBlocks p)[i := pg]\<rparr>))
         else (Inl (InvalidPage (blockNum (tag (buf_desc p i)))),
           (set_state i (buf_state p i OR BM_IO_IN_PROGRESS) p)\<lparr>BufferBlocks := (BufferBlocks p)[i := pg]\<rparr>))"
proof -
  consider "bit (buf_state p i) 26" | "\<not> bit (buf_state p i) 26" "bit (buf_state p i) 24" | "\<not> bit (buf_state p i) 26" "\<not> bit (buf_state p i) 24" by blast
  then show ?thesis
  proof cases
    case 3
    then have start: "StartBufferIO i True False p = (Inr True, set_state i (buf_state p i OR BM_IO_IN_PROGRESS) p)"
      by (simp add: StartBufferIO_def has_flag_bit)
    show ?thesis unfolding WaitReadBuffer_def bindC_ok [of "StartBufferIO i True False", OF start] using 3 assms
      by (cases "disk p (tag (buf_desc p i))") (simp_all add: Let_def smgrread_def)
  qed (simp_all add: WaitReadBuffer_def StartBufferIO_def bindC_def Let_def has_flag_bit)
qed

lemma WaitReadBuffer_ok:
  assumes "pool_ok perm p" "i < NBuffers p" "0 < PrivateRefCount p me i" "bit (buf_state p i) 25" "\<not> zero_damaged_pages cfg"
    "WaitReadBuffer cfg i p = (r, q)"
  shows "pool_ok perm q" "contents q = contents p" "only i p q" "PrivateRefCount q = PrivateRefCount p" "r = Inr () \<Longrightarrow> bit (buf_state q i) 24"
    "r \<in> {Inr (), Inl (BufferIOBusy i), Inl (ReadPastEnd (blockNum (tag (buf_desc p i)))), Inl (InvalidPage (blockNum (tag (buf_desc p i))))}"
proof -
  let ?t = "tag (buf_desc p i)" and ?st = "buf_state p i OR BM_IO_IN_PROGRESS"
  have ok: "buffer_ok perm p i" using pool_okD(4) [OF assms(1,2)] .
  note b = buf_okD [OF ok]
  have "me \<in> pinners (\<lambda>b. PrivateRefCount p b i)" using assms(3) b(2) [of me] by (force simp: pinners_def)
  then have pinned: "0 < refc (buf_state p i)" using b(1) by (auto simp: card_gt_0_iff)
  have io: "refc ?st = refc (buf_state p i)" "usg ?st = usg (buf_state p i)" "bit ?st n \<longleftrightarrow> bit (buf_state p i) n \<or> n = 26" for n
    using flag_counts [of BM_IO_IN_PROGRESS "buf_state p i"] by (simp_all add: word_bits)
  have "\<And>n. n < 22 \<Longrightarrow> \<not> bit BM_VALID n" by simp
  define st where "st = (?st AND NOT (BM_IO_IN_PROGRESS OR BM_IO_ERROR)) OR BM_VALID"
  note w = TerminateBufferIO_word [OF \<open>\<And>n. n < 22 \<Longrightarrow> \<not> bit BM_VALID n\<close>, of ?st, folded st_def]
  have hash: "SharedBufHash p ?t = Some i" using pool_okD(5) [OF assms(1)] assms(2,4) by simp
  have len: "length (BufferBlocks p) = NBuffers p" using pool_okD(3) [OF assms(1)] .
  let ?v = "\<lambda>pg. fst (PageIsVerifiedExtended cfg pg (blockNum ?t) True True)"
  note run = assms(6) [unfolded WaitReadBuffer_run [OF assms(2,5)]]
  consider (none) "bit (buf_state p i) 26 \<or> bit (buf_state p i) 24"
    | (gone) "\<not> bit (buf_state p i) 26" "\<not> bit (buf_state p i) 24" "disk p ?t = None"
    | (bad) pg where "\<not> bit (buf_state p i) 26" "\<not> bit (buf_state p i) 24" "disk p ?t = Some pg" "\<not> ?v pg"
    | (read) pg where "\<not> bit (buf_state p i) 26" "\<not> bit (buf_state p i) 24" "disk p ?t = Some pg" "?v pg" by (cases "disk p ?t") blast+
  then have "pool_ok perm q \<and> contents q = contents p \<and> only i p q \<and> PrivateRefCount q = PrivateRefCount p \<and> (r = Inr () \<longrightarrow> bit (buf_state q i) 24)"
  proof cases
    case none
    then show ?thesis using run assms(1) by (auto simp: only_def split: if_splits)
  next
    case gone
    have rq: "r \<noteq> Inr ()" "q = set_state i ?st p" using run gone by auto
    have only: "only i p q" using assms(2) by (auto simp: rq only_def io)
    have "buffer_ok perm q i" using ok assms(2,4) pinned by (auto simp: rq buf_ok_def io)
    from only_ok [OF assms(1) only assms(2) this] only_contents [OF only] show ?thesis using only assms(2) gone rq(1) by (simp add: rq(2) io)
  next
    case bad
    have rq: "r \<noteq> Inr ()" "q = (set_state i ?st p)\<lparr>BufferBlocks := (BufferBlocks p)[i := pg]\<rparr>" using run bad by auto
    have only: "only i p q" using assms(2) len by (auto simp: rq only_def io free_ok_def nth_list_update)
    have "buffer_ok perm q i" using ok assms(2,4) pinned bad(2) by (auto simp: rq buf_ok_def io)
    from only_ok [OF assms(1) only assms(2) this] only_contents [OF only] show ?thesis using only assms(2) bad(2) rq(1) by (simp add: rq(2) io)
  next
    case read
    have "q = TerminateBufferIO i False BM_VALID ((set_state i ?st p)\<lparr>BufferBlocks := (BufferBlocks p)[i := pg]\<rparr>)" using run read by simp
    then have q: "q = (set_state i st p)\<lparr>BufferBlocks := (BufferBlocks p)[i := pg]\<rparr>"
      using assms(2) by (simp add: TerminateBufferIO_def set_state_def upd_desc_def st_def)
    have only: "only i p q" using assms(2) len by (auto simp: q only_def w io free_ok_def nth_list_update)
    have "buffer_ok perm q i"
      using ok assms(2,4) len read(2,3) pool_okD(6) [OF assms(1) read(3)] unfolding q buf_ok_def by (auto simp: w io)
    from only_ok [OF assms(1) only assms(2) this] have "pool_ok perm q" .
    moreover have "contents q t = contents p t" for t
    proof (cases "SharedBufHash p t = Some i")
      case True
      then have "t = ?t" using pool_okD(5) [OF assms(1)] by auto
      then show ?thesis using read(2,3) hash assms(2) len by (simp add: contents_def q w)
    next
      case False
      then show ?thesis using assms(2) by (auto simp: contents_def q nth_list_update split: option.splits)
    qed
    ultimately show ?thesis using only assms(2) by (auto simp: q w)
  qed
  then show "pool_ok perm q" "contents q = contents p" "only i p q" "PrivateRefCount q = PrivateRefCount p" "r = Inr () \<Longrightarrow> bit (buf_state q i) 24" by auto
  show "r \<in> {Inr (), Inl (BufferIOBusy i), Inl (ReadPastEnd (blockNum ?t)), Inl (InvalidPage (blockNum ?t))}"
    using run by (auto split: if_splits option.splits)
qed

subsection \<open>Eviction and allocation keep the invariant\<close>

lemma cleared_word:
  fixes st :: "32 word"
  defines "st' \<equiv> st AND NOT (BUF_FLAG_MASK OR BUF_USAGECOUNT_MASK)"
  shows "refc st' = refc st" "usg st' = 0" "18 \<le> n \<Longrightarrow> \<not> bit st' n"
proof -
  have "BUF_FLAG_MASK OR BUF_USAGECOUNT_MASK = NOT (mask 18)"
    by (simp add: BUF_FLAG_MASK_def BUF_USAGECOUNT_MASK_def mask_eq_exp_minus_1)
  then have "st' = take_bit 18 st" by (simp add: st'_def take_bit_eq_mask)
  then have bits: "bit st' n \<longleftrightarrow> n < 18 \<and> bit st n" for n by (simp add: bit_take_bit_iff)
  show "refc st' = refc st" unfolding counts_take by (rule bit_word_eqI) (auto simp: bit_simps bits)
  have "take_bit 4 (drop_bit 18 st') = 0" by (rule bit_word_eqI) (auto simp: bit_simps bits)
  then show "usg st' = 0" by (simp add: usg_take)
  show "18 \<le> n \<Longrightarrow> \<not> bit st' n" by (simp add: bits)
qed

lemma bit_usage_one: "bit BUF_USAGECOUNT_ONE n \<longleftrightarrow> n = 18"
  unfolding BUF_USAGECOUNT_ONE_def by (simp only: bit_push1) simp

lemma claimed_word:
  fixes st :: "32 word" and perm :: bool
  defines "st' \<equiv> (let st = st OR (BM_TAG_VALID OR BUF_USAGECOUNT_ONE) in if perm then st OR BM_PERMANENT else st)"
  shows "refc st' = refc st" "usg st \<le> unat BM_MAX_USAGE_COUNT \<Longrightarrow> usg st' \<le> unat BM_MAX_USAGE_COUNT"
    "22 \<le> n \<Longrightarrow> bit st' n \<longleftrightarrow> bit st n \<or> n = 25 \<or> n = 31 \<and> perm"
proof -
  have bits: "bit st' n \<longleftrightarrow> bit st n \<or> n = 18 \<or> n = 25 \<or> n = 31 \<and> perm" for n
    by (auto simp: st'_def Let_def word_bits bit_usage_one)
  show "refc st' = refc st" unfolding counts_take by (rule bit_word_eqI) (auto simp: bit_simps bits)
  show "22 \<le> n \<Longrightarrow> bit st' n \<longleftrightarrow> bit st n \<or> n = 25 \<or> n = 31 \<and> perm" using bits by auto
  show "usg st' \<le> unat BM_MAX_USAGE_COUNT" if "usg st \<le> unat BM_MAX_USAGE_COUNT"
  proof -
    let ?w = "BUF_STATE_GET_USAGECOUNT st"
    have "BUF_STATE_GET_USAGECOUNT st' = ?w OR 1"
      unfolding usg_take by (rule bit_word_eqI) (auto simp: bit_simps bits bit_1_iff)
    moreover have "unat ?w \<le> 5" using that by (simp add: BM_MAX_USAGE_COUNT_def)
    then have "unat ?w = 0 \<or> unat ?w = 1 \<or> unat ?w = 2 \<or> unat ?w = 3 \<or> unat ?w = 4 \<or> unat ?w = 5" by linarith
    then have "?w = 0 \<or> ?w = 1 \<or> ?w = 2 \<or> ?w = 3 \<or> ?w = 4 \<or> ?w = 5" by (simp add: word_unat_eq_iff)
    then have "unat (?w OR 1) \<le> 5" by (elim disjE) simp_all
    ultimately show ?thesis by (simp add: BM_MAX_USAGE_COUNT_def)
  qed
qed

lemma StrategyFreeBuffer_ok:
  assumes "pool_ok perm p" "i < NBuffers p"
  shows "pool_ok perm (StrategyFreeBuffer i p)" "contents (StrategyFreeBuffer i p) = contents p" "kept p (StrategyFreeBuffer i p)"
proof -
  show k: "kept p (StrategyFreeBuffer i p)"
    using assms(2) by (auto simp: kept_def StrategyFreeBuffer_def Let_def upd_desc_def nth_list_update)
  have "clock_ok (StrategyFreeBuffer i p)" "free_ok (StrategyFreeBuffer i p)"
    using pool_okD(1,2) [OF assms(1)] assms(2) by (auto simp: clock_ok_def free_ok_def StrategyFreeBuffer_def Let_def upd_desc_def nth_list_update)
  from kept_pool_ok [OF assms(1) k this] show "pool_ok perm (StrategyFreeBuffer i p)" "contents (StrategyFreeBuffer i p) = contents p" by auto
qed

text \<open>The buffer after it has been invalidated, and the pool.\<close>

definition cleared :: "nat \<Rightarrow> pool \<Rightarrow> pool" where
  "cleared i p = (upd_desc i (\<lambda>d. d\<lparr>tag := ClearBufferTag, state := buf_state p i AND NOT (BUF_FLAG_MASK OR BUF_USAGECOUNT_MASK)\<rparr>) p)
     \<lparr>SharedBufHash := (SharedBufHash p)(tag (buf_desc p i) := None)\<rparr>"

lemma InvalidateVictimBuffer_run:
  assumes "pool_ok perm p" "i < NBuffers p" "bit (buf_state p i) 25"
  shows "InvalidateVictimBuffer i p =
    (if refc (buf_state p i) \<noteq> 1 \<or> bit (buf_state p i) 23 then (Inr False, p) else (Inr True, cleared i p))"
proof -
  have "SharedBufHash p (tag (buf_desc p i)) = Some i" using pool_okD(5) [OF assms(1)] assms(2,3) by simp
  moreover have "BUF_STATE_GET_REFCOUNT (buf_state p i) = 1 \<longleftrightarrow> refc (buf_state p i) = 1" by (simp add: word_unat_eq_iff)
  ultimately show ?thesis using assms(2)
    by (simp add: InvalidateVictimBuffer_def Let_def has_flag_bit bindC_def BufTableDelete_def upd_desc_def cleared_def)
qed

lemma cleared_ok:
  assumes "pool_ok perm p" "i < NBuffers p" "bit (buf_state p i) 25" "refc (buf_state p i) = 1" "\<not> bit (buf_state p i) 23"
  shows "pool_ok perm (cleared i p)" "contents (cleared i p) = contents p"
proof -
  let ?q = "cleared i p" and ?t = "tag (buf_desc p i)"
  define st where "st = buf_state p i AND NOT (BUF_FLAG_MASK OR BUF_USAGECOUNT_MASK)"
  note w = cleared_word [where st = "buf_state p i", folded st_def]
  have ok: "buffer_ok perm p i" using pool_okD(4) [OF assms(1,2)] .
  note b = buf_okD [OF ok]
  have hash: "SharedBufHash p ?t = Some i" using pool_okD(5) [OF assms(1)] assms(2,3) by simp
  have q: "NBuffers ?q = NBuffers p" "BufferBlocks ?q = BufferBlocks p" "SharedBufHash ?q = (SharedBufHash p)(?t := None)" "PrivateRefCount ?q = PrivateRefCount p"
      "\<And>j. j \<noteq> i \<Longrightarrow> buf_desc ?q j = buf_desc p j" "buf_desc ?q i = (buf_desc p i)\<lparr>tag := ClearBufferTag, state := st\<rparr>"
      "disk ?q = disk p" "flushed ?q = flushed p"
    using assms(2) by (simp_all add: cleared_def upd_desc_def st_def)
  have "buffer_ok perm ?q j" if "j < NBuffers p" for j
    using pool_okD(4) [OF assms(1) that] by (cases "j = i") (auto simp: q buf_ok_def w)
  moreover have "clock_ok ?q" "free_ok ?q" using pool_okD(1,2) [OF assms(1)] assms(2)
    by (simp_all add: cleared_def clock_ok_def free_ok_def upd_desc_def nth_list_update)
  moreover have "SharedBufHash ?q t = Some j \<longleftrightarrow> j < NBuffers ?q \<and> bit (buf_state ?q j) 25 \<and> tag (buf_desc ?q j) = t" for t j
  proof (cases "j = i")
    case True
    then show ?thesis using pool_okD(5) [OF assms(1), of t i] w(3) [of 25] by (auto simp: q)
  next
    case False
    then show ?thesis using pool_okD(5) [OF assms(1), of t j] hash by (auto simp: q)
  qed
  ultimately show "pool_ok perm ?q" using assms(1) unfolding pool_ok_def q(1,2,7,8) by blast
  show "contents ?q = contents p"
  proof
    fix t
    show "contents ?q t = contents p t"
    proof (cases "t = ?t")
      case True
      then show ?thesis using hash b(8) assms(5) by (auto simp: contents_def q)
    next
      case False
      then have "SharedBufHash p t \<noteq> Some i" using pool_okD(5) [OF assms(1), of t i] by auto
      then show ?thesis using False by (auto simp: contents_def q split: option.splits)
    qed
  qed
qed

text \<open>A buffer without a tag becomes the buffer of a block that is not in the pool.\<close>

definition claimed :: "bool \<Rightarrow> BufferTag \<Rightarrow> nat \<Rightarrow> pool \<Rightarrow> pool" where
  "claimed permanent t i p = (upd_desc i (\<lambda>d. d\<lparr>tag := t, state :=
       (let st = buf_state p i OR (BM_TAG_VALID OR BUF_USAGECOUNT_ONE) in if permanent then st OR BM_PERMANENT else st)\<rparr>) p)
     \<lparr>SharedBufHash := (SharedBufHash p)(t \<mapsto> i)\<rparr>"

lemma claimed_ok:
  assumes "pool_ok perm p" "i < NBuffers p" "\<not> bit (buf_state p i) 25" "SharedBufHash p t = None"
  shows "pool_ok perm (claimed (perm t) t i p)" "contents (claimed (perm t) t i p) = contents p"
proof -
  let ?q = "claimed (perm t) t i p"
  define st where "st = (let st = buf_state p i OR (BM_TAG_VALID OR BUF_USAGECOUNT_ONE) in if perm t then st OR BM_PERMANENT else st)"
  note w = claimed_word [where st = "buf_state p i" and perm = "perm t", folded st_def]
  have ok: "buffer_ok perm p i" using pool_okD(4) [OF assms(1,2)] .
  note b = buf_okD [OF ok]
  have bits: "\<not> bit (buf_state p i) 24" "\<not> bit (buf_state p i) 23" "\<not> bit (buf_state p i) 31" using b(4,5,9) assms(3) by auto
  have q: "NBuffers ?q = NBuffers p" "BufferBlocks ?q = BufferBlocks p" "SharedBufHash ?q = (SharedBufHash p)(t \<mapsto> i)" "PrivateRefCount ?q = PrivateRefCount p"
      "\<And>j. j \<noteq> i \<Longrightarrow> buf_desc ?q j = buf_desc p j" "buf_desc ?q i = (buf_desc p i)\<lparr>tag := t, state := st\<rparr>"
      "disk ?q = disk p" "flushed ?q = flushed p"
    using assms(2) by (simp_all add: claimed_def upd_desc_def st_def)
  have "buffer_ok perm ?q j" if "j < NBuffers p" for j
    using pool_okD(4) [OF assms(1) that] bits w(2) by (cases "j = i") (auto simp: q buf_ok_def w(1,3))
  moreover have "clock_ok ?q" "free_ok ?q" using pool_okD(1,2) [OF assms(1)] assms(2)
    by (simp_all add: claimed_def clock_ok_def free_ok_def upd_desc_def nth_list_update)
  moreover have "SharedBufHash ?q t' = Some j \<longleftrightarrow> j < NBuffers ?q \<and> bit (buf_state ?q j) 25 \<and> tag (buf_desc ?q j) = t'" for t' j
    using pool_okD(5) [OF assms(1), of t' j] assms(2-4) by (cases "j = i"; cases "t' = t") (auto simp: q w(3))
  ultimately show "pool_ok perm ?q" using assms(1) unfolding pool_ok_def q(1,2,7,8) by blast
  show "contents ?q = contents p"
  proof
    fix t'
    have "SharedBufHash p t' \<noteq> Some i" using pool_okD(5) [OF assms(1), of t' i] assms(3) by auto
    then show "contents ?q t' = contents p t'" using assms(4) bits by (cases "t' = t") (auto simp: contents_def q w(3) split: option.splits)
  qed
qed

text \<open>Changing a page under the exclusive lock: the new bytes, and the dirty mark.\<close>

definition write_page :: "nat \<Rightarrow> bytes \<Rightarrow> (pool, unit) comp" where
  "write_page i pg = bindC (modifyC (\<lambda>p. p\<lparr>BufferBlocks := (BufferBlocks p)[i := pg]\<rparr>)) (\<lambda>_. SharedMarkBufferDirty i)"

lemma write_page_ok:
  assumes "pool_ok perm p" "i < NBuffers p" "bit (buf_state p i) 24" "length pg = BLCKSZ" "write_page i pg p = (r, q)"
  shows "pool_ok perm q" "contents q = (contents p)(tag (buf_desc p i) \<mapsto> sans_checksum pg)" "r = Inr ()"
proof -
  let ?t = "tag (buf_desc p i)"
  define st where "st = buf_state p i OR (BM_DIRTY OR BM_JUST_DIRTIED)"
  have w: "refc st = refc (buf_state p i)" "usg st = usg (buf_state p i)" "bit st n \<longleftrightarrow> bit (buf_state p i) n \<or> n = 23 \<or> n = 28" for n
    using flag_counts [of "BM_DIRTY OR BM_JUST_DIRTIED" "buf_state p i"] by (auto simp: st_def word_bits)
  have q: "q = set_state i st (p\<lparr>BufferBlocks := (BufferBlocks p)[i := pg]\<rparr>)" "r = Inr ()"
    using assms(2,5) by (simp_all add: write_page_def SharedMarkBufferDirty_def bindC_def st_def)
  have ok: "buffer_ok perm p i" using pool_okD(4) [OF assms(1,2)] .
  have len: "length (BufferBlocks p) = NBuffers p" using pool_okD(3) [OF assms(1)] .
  have only: "only i p q" using assms(2) len by (auto simp: q only_def w free_ok_def nth_list_update)
  have "buffer_ok perm q i" using ok assms(2-4) len unfolding q buf_ok_def by (auto simp: w)
  from only_ok [OF assms(1) only assms(2) this] show "pool_ok perm q" .
  have hash: "SharedBufHash p t = Some i \<longleftrightarrow> t = ?t" for t using pool_okD(5) [OF assms(1)] assms(2,3) buf_okD(4) [OF ok] by auto
  show "contents q = (contents p)(?t \<mapsto> sans_checksum pg)"
  proof
    fix t
    show "contents q t = ((contents p)(?t \<mapsto> sans_checksum pg)) t"
      using hash [of t] assms(2,3) len by (cases "t = ?t") (auto simp: contents_def q(1) w nth_list_update split: option.splits)
  qed
  show "r = Inr ()" by (rule q(2))
qed

end
