(* ===== verification/TR_BufCache.thy ===== *)
theory TR_BufCache
  imports TR_BufMgr
begin

text \<open>
  Reading through the pool: the choice and eviction of a victim, the allocation of a buffer and the read of a block. Reading a block gives
  what the block contains, and evictions lose nothing.
\<close>

section \<open>Composed operations\<close>

text \<open>The other buffers keep tag, page, validity, locks and pins.\<close>

definition others :: "nat \<Rightarrow> pool \<Rightarrow> pool \<Rightarrow> bool" where
  "others i p q \<longleftrightarrow> NBuffers q = NBuffers p \<and> (\<forall>j < NBuffers p. j \<noteq> i \<longrightarrow> tag (buf_desc q j) = tag (buf_desc p j) \<and> BufferBlocks q ! j = BufferBlocks p ! j \<and>
     (bit (buf_state q j) 24 \<longleftrightarrow> bit (buf_state p j) 24) \<and> (bit (buf_state q j) 25 \<longleftrightarrow> bit (buf_state p j) 25) \<and> (bit (buf_state q j) 26 \<longleftrightarrow> bit (buf_state p j) 26) \<and> content_lock (buf_desc q j) = content_lock (buf_desc p j) \<and>
     (\<forall>b. PrivateRefCount q b j = PrivateRefCount p b j))"

lemma others_trans: "others i p q \<Longrightarrow> others i q s \<Longrightarrow> others i p s"
  by (simp add: others_def)

lemma others_kept: "kept p q \<Longrightarrow> others i p q"
  by (simp add: others_def kept_def)

lemma others_only: "only i p q \<Longrightarrow> others i p q"
  by (auto simp: others_def only_def)

lemma others_refl [simp]: "others i p p"
  by (simp add: others_def)

lemma others_steps:
  "others i p (written cfg i p)" "others i p (cleared i p)" "others i p (claimed x t i p)"
  by (auto simp: others_def written_def cleared_def claimed_def upd_desc_def)

text \<open>A buffer that was unpinned in \<open>p\<close> and that only \<open>me\<close> has pinned in \<open>q\<close>; nothing is lost.\<close>

definition pinned_victim :: "(BufferTag \<Rightarrow> bool) \<Rightarrow> nat \<Rightarrow> nat \<Rightarrow> pool \<Rightarrow> pool \<Rightarrow> bool" where
  "pinned_victim perm me i p q \<longleftrightarrow> pool_ok perm q \<and> contents q = contents p \<and> others i p q \<and> i < NBuffers q \<and> PrivateRefCount q me i = 1 \<and>
     content_lock (buf_desc q i) = [] \<and> refc (buf_state p i) = 0 \<and> refc (buf_state q i) = 1 \<and> \<not> bit (buf_state q i) 26 \<and>
     (\<forall>t. SharedBufHash p t = None \<longrightarrow> SharedBufHash q t = None \<and> disk q t = disk p t)"

lemma set_lock_simps [simp]:
  "BufferDescriptors (set_lock i lk p) = (BufferDescriptors p)[i := (buf_desc p i)\<lparr>content_lock := lk\<rparr>]"
  "BufferBlocks (set_lock i lk p) = BufferBlocks p" "SharedBufHash (set_lock i lk p) = SharedBufHash p"
  "PrivateRefCount (set_lock i lk p) = PrivateRefCount p" "disk (set_lock i lk p) = disk p"
  by (simp_all add: set_lock_def upd_desc_def)

lemma victim_cleared:
  assumes "pinned_victim perm me i p q" "\<not> bit (buf_state q i) 23" "bit (buf_state q i) 25"
  shows "InvalidateVictimBuffer i q = (Inr True, cleared i q)" "pinned_victim perm me i p (cleared i q)" "\<not> bit (buf_state (cleared i q) i) 25"
proof -
  have v: "pool_ok perm q" "i < NBuffers q" "refc (buf_state q i) = 1" using assms(1) by (simp_all add: pinned_victim_def)
  show "InvalidateVictimBuffer i q = (Inr True, cleared i q)"
    using assms(2) v(3) by (simp only: InvalidateVictimBuffer_run [OF v(1,2) assms(3)]) simp
  define st where "st = buf_state q i AND NOT (BUF_FLAG_MASK OR BUF_USAGECOUNT_MASK)"
  note w = cleared_word [where st = "buf_state q i", folded st_def]
  have d: "buf_desc (cleared i q) i = (buf_desc q i)\<lparr>tag := ClearBufferTag, state := st\<rparr>" "PrivateRefCount (cleared i q) = PrivateRefCount q"
      "NBuffers (cleared i q) = NBuffers q" "disk (cleared i q) = disk q" "SharedBufHash q t = None \<Longrightarrow> SharedBufHash (cleared i q) t = None" for t
    using v(2) by (simp_all add: cleared_def upd_desc_def st_def)
  show "\<not> bit (buf_state (cleared i q) i) 25" using w(3) by (simp add: d)
  have "others i p (cleared i q)" using others_trans [OF _ others_steps(2)] assms(1) by (simp add: pinned_victim_def)
  then show "pinned_victim perm me i p (cleared i q)"
    using assms(1) cleared_ok [OF v(1,2) assms(3) v(3) assms(2)] w d by (simp add: pinned_victim_def)
qed

text \<open>Writing a dirty victim out, under a share lock.\<close>

lemma victim_flushed:
  fixes cfg :: page_settings
  assumes "pinned_victim perm me i p q" "bit (buf_state q i) 23"
  defines "q' \<equiv> set_lock i [] (written cfg i (set_lock i [(me, False)] q))"
  shows "bindC (LWLockConditionalAcquire me i False) (\<lambda>got. if \<not> got then ret False
      else bindC (FlushBuffer cfg i) (\<lambda>_. bindC (LWLockRelease me i) (\<lambda>_. ret True))) q = (Inr True, q')"
    "pinned_victim perm me i p q'" "\<not> bit (buf_state q' i) 23" "bit (buf_state q' i) 25 \<longleftrightarrow> bit (buf_state q i) 25"
proof -
  let ?p3 = "set_lock i [(me, False)] q"
  let ?p4 = "written cfg i ?p3"
  have v: "pool_ok perm q" "i < NBuffers q" "PrivateRefCount q me i = 1" "content_lock (buf_desc q i) = []" "\<not> bit (buf_state q i) 26"
      "refc (buf_state q i) = 1" "contents q = contents p" "others i p q"
    using assms(1) by (simp_all add: pinned_victim_def)
  have acq: "LWLockConditionalAcquire me i False q = (Inr True, ?p3)" using v(4) by (simp add: LWLockConditionalAcquire_def lock_free_def)
  have "lock_ok (\<lambda>b. PrivateRefCount q b i) [(me, False)]" using v(3) by (simp add: lock_ok_def)
  note ok3 = set_lock_ok [OF v(1,2) this]
  have i3: "i < NBuffers ?p3" "bit (buf_state ?p3 i) 23" "\<not> bit (buf_state ?p3 i) 26" using v(2,5) assms(2) by simp_all
  note ok4 = written_ok [OF ok3(1) i3]
  have fl: "FlushBuffer cfg i ?p3 = (Inr (), ?p4)" using i3 by (simp only: FlushBuffer_run) simp
  have d4: "buf_desc ?p4 i = (buf_desc q i)\<lparr>content_lock := [(me, False)], state := written_state (buf_state q i)\<rparr>" "NBuffers ?p4 = NBuffers q"
    using v(2) by (simp_all add: written_def)
  have rel: "LWLockRelease me i ?p4 = (Inr (), q')" by (simp add: LWLockRelease_def d4 q'_def)
  have i4: "i < NBuffers ?p4" using v(2) d4(2) by simp
  have "lock_ok (\<lambda>b. PrivateRefCount ?p4 b i) []" by (simp add: lock_ok_def)
  note ok5 = set_lock_ok [OF ok4(1) i4 this, folded q'_def]
  have bits: "bit (buf_state q i) 25" using buf_okD(4,5) [OF pool_okD(4) [OF v(1,2)]] assms(2) by blast
  have d: "buf_desc q' i = (buf_desc q i)\<lparr>content_lock := [], state := written_state (buf_state q i)\<rparr>" "NBuffers q' = NBuffers q"
      "PrivateRefCount q' = PrivateRefCount q"
    using v(2) by (simp_all add: q'_def d4) (simp add: written_def)
  show "bindC (LWLockConditionalAcquire me i False) (\<lambda>got. if \<not> got then ret False
      else bindC (FlushBuffer cfg i) (\<lambda>_. bindC (LWLockRelease me i) (\<lambda>_. ret True))) q = (Inr True, q')"
    by (simp add: bindC_def acq fl rel)
  show "\<not> bit (buf_state q' i) 23" "bit (buf_state q' i) 25 \<longleftrightarrow> bit (buf_state q i) 25" by (simp_all add: d written_state_bits)
  have oth: "others i p q'"
    using others_trans [OF v(8) others_trans [OF others_only others_trans [OF others_steps(1) others_only]]] ok3(3) ok5(3) unfolding restate_def by blast
  have "SharedBufHash q' t = None \<and> disk q' t = disk p t" if "SharedBufHash p t = None" for t
  proof -
    have "SharedBufHash q t = None" "disk q t = disk p t" using assms(1) that by (simp_all add: pinned_victim_def)
    moreover have "t \<noteq> tag (buf_desc q i)" using calculation(1) pool_okD(5) [OF v(1), of "tag (buf_desc q i)" i] v(2) bits by auto
    ultimately show ?thesis using v(2) by (simp add: q'_def written_def)
  qed
  then show "pinned_victim perm me i p q'"
    using assms(1) ok5(1,2) ok4(2) ok3(2) oth by (simp add: pinned_victim_def d written_state_bits)
qed

text \<open>The pin that the choice is followed by, under the same header lock.\<close>

lemma victim_pinned:
  assumes "pool_ok perm p" "me < MAX_BACKENDS" "chosen p (Inr i, p1)"
  shows "pinned_victim perm me i p (PinBuffer_Locked me i p1)"
    "22 \<le> n \<Longrightarrow> bit (buf_state (PinBuffer_Locked me i p1) i) n \<longleftrightarrow> bit (buf_state p1 i) n"
proof -
  let ?q = "PinBuffer_Locked me i p1"
  have k: "kept p p1" "clock_ok p1" "free_ok p1" using assms(3) pool_okD(2) [OF assms(1)] by (simp_all add: chosen_def)
  note ok1 = kept_pool_ok [OF assms(1) k]
  have i: "i < NBuffers p1" "refc (buf_state p1 i) = 0" "refc (buf_state p i) = 0"
    using assms(3) kept_N [OF k(1)] kept_refc [OF k(1), of i] by (auto simp: chosen_def)
  note pin = PinBuffer_Locked_ok [OF ok1(1) i(1) assms(2) i(2)]
  note b = buf_okD [OF pool_okD(4) [OF ok1(1) i(1)]]
  have N: "i < NBuffers ?q" using i(1) by (simp add: PinBuffer_Locked_def)
  have "PrivateRefCount p1 b i = 0" for b using b(1) b(2) [of b] i(2) by (cases "b < MAX_BACKENDS") (auto simp: pinners_def)
  then have "content_lock (buf_desc p1 i) = []" using b(6) by (cases "content_lock (buf_desc p1 i)") (auto simp: lock_ok_def)
  then have lk: "content_lock (buf_desc ?q i) = []" using i(1) by (simp add: PinBuffer_Locked_def)
  have "refc (buf_state ?q i) = 1" using buf_okD(1) [OF pool_okD(4) [OF pin(1) N]] pin(4) by simp
  moreover have "\<not> bit (buf_state ?q i) 26" using b(10) i(2) pin(6) [of 26] by auto
  moreover have "others i p ?q" using others_trans [OF others_kept [OF k(1)] others_only] pin(3) by (auto simp: restate_def)
  moreover have "SharedBufHash ?q = SharedBufHash p" "disk ?q = disk p" using pin(3) k(1) by (simp_all add: restate_def only_def kept_def)
  ultimately show "pinned_victim perm me i p ?q" using pin(1,2,5) ok1(2) N lk i(3) by (simp add: pinned_victim_def)
  show "22 \<le> n \<Longrightarrow> bit (buf_state ?q i) n \<longleftrightarrow> bit (buf_state p1 i) n" by (rule pin(6))
qed

text \<open>The choice of a victim succeeds at once when some buffer is unpinned.\<close>

lemma GetVictimBuffer_ok:
  assumes "pool_ok perm p" "me < MAX_BACKENDS"
  shows "(\<exists>i q. GetVictimBuffer cfg me (Suc n) p = (Inr i, q) \<and> pinned_victim perm me i p q \<and> \<not> bit (buf_state q i) 25) \<or>
    (\<exists>q. GetVictimBuffer cfg me (Suc n) p = (Inl NoUnpinnedBuffers, q) \<and> (\<forall>i < NBuffers p. 0 < refc (buf_state p i)) \<and>
      kept p q \<and> pool_ok perm q \<and> contents q = contents p)"
proof -
  obtain r1 p1 where get: "StrategyGetBuffer p = (r1, p1)" by (cases "StrategyGetBuffer p")
  have c: "chosen p (r1, p1)" using StrategyGetBuffer_chosen [of p] pool_okD(1,2) [OF assms(1)] get by simp
  show ?thesis
  proof (cases r1)
    case (Inl e)
    have k: "kept p p1" "clock_ok p1" "free_ok p1" using c pool_okD(2) [OF assms(1)] by (simp_all add: chosen_def)
    have "GetVictimBuffer cfg me (Suc n) p = (Inl NoUnpinnedBuffers, p1)" using Inl get c by (simp add: chosen_def bindC_def)
    then show ?thesis using c Inl k(1) kept_pool_ok [OF assms(1) k] by (simp add: chosen_def)
  next
    case (Inr i)
    let ?p2 = "PinBuffer_Locked me i p1"
    note v = victim_pinned [OF assms c [unfolded Inr]]
    have st: "has_flag (buf_state p1 i) BM_DIRTY \<longleftrightarrow> bit (buf_state ?p2 i) 23" "has_flag (buf_state p1 i) BM_TAG_VALID \<longleftrightarrow> bit (buf_state ?p2 i) 25"
      using v(2) by (simp_all add: has_flag_bit)
    have check: "CheckBufferIsPinnedOnce me i ?p2 = (Inr (), ?p2)" using v(1) by (simp add: CheckBufferIsPinnedOnce_def pinned_victim_def)
    define p5 where "p5 = (if bit (buf_state ?p2 i) 23 then set_lock i [] (written cfg i (set_lock i [(me, False)] ?p2)) else ?p2)"
    have fl: "(if has_flag (buf_state p1 i) BM_DIRTY then
              bindC (LWLockConditionalAcquire me i False) (\<lambda>got.
                if \<not> got then ret False
                else bindC (FlushBuffer cfg i) (\<lambda>_. bindC (LWLockRelease me i) (\<lambda>_. ret True)))
            else ret True) ?p2 = (Inr True, p5)"
      using victim_flushed(1) [OF v(1)] by (simp add: st p5_def)
    have v5: "pinned_victim perm me i p p5" "\<not> bit (buf_state p5 i) 23" "bit (buf_state p5 i) 25 \<longleftrightarrow> bit (buf_state ?p2 i) 25"
      using victim_flushed(2-4) [OF v(1)] v(1) by (simp_all add: p5_def)
    show ?thesis
    proof (cases "bit (buf_state p5 i) 25")
      case True
      then have "GetVictimBuffer cfg me (Suc n) p = (Inr i, cleared i p5)"
        using get Inr check fl st(2) v5(3) victim_cleared(1) [OF v5(1,2) True] by (simp add: bindC_def)
      then show ?thesis using victim_cleared(2,3) [OF v5(1,2) True] by blast
    next
      case False
      then have "GetVictimBuffer cfg me (Suc n) p = (Inr i, p5)" using get Inr check fl st(2) v5(3) by (simp add: bindC_def)
      then show ?thesis using v5(1) False by blast
    qed
  qed
qed

lemma claimed_simps:
  assumes "i < NBuffers p"
  shows "tag (buf_desc (claimed x t i p) i) = t" "content_lock (buf_desc (claimed x t i p) i) = content_lock (buf_desc p i)"
    "NBuffers (claimed x t i p) = NBuffers p" "PrivateRefCount (claimed x t i p) = PrivateRefCount p" "disk (claimed x t i p) = disk p"
    "22 \<le> n \<Longrightarrow> bit (buf_state (claimed x t i p) i) n \<longleftrightarrow> bit (buf_state p i) n \<or> n = 25 \<or> n = 31 \<and> x"
  using assms claimed_word(3) [where st = "buf_state p i" and perm = x and n = n] by (simp_all add: claimed_def upd_desc_def del: bit_or_iff)

text \<open>Giving the victim its tag, or the buffer another backend has read the block into meanwhile.\<close>

lemma claim_fresh:
  assumes "SharedBufHash p t = None" "perm t \<longleftrightarrow> permanent \<or> forkNum t = INIT_FORKNUM"
  shows "claim_victim me permanent t i p = (Inr (i, False), claimed (perm t) t i p)"
proof -
  have "snd (claim_victim me permanent t i p) = claimed (perm t) t i p"
    using assms by (intro pool.equality) (simp_all add: claim_victim_def bindC_def BufTableInsert_def claimed_def upd_desc_def Let_def)
  moreover have "fst (claim_victim me permanent t i p) = Inr (i, False)"
    using assms by (simp add: claim_victim_def bindC_def BufTableInsert_def Let_def)
  ultimately show ?thesis by (metis prod.collapse)
qed

lemma claim_victim_ok:
  assumes "pool_ok perm p" "i < NBuffers p" "PrivateRefCount p me i = 1" "me \<notin> fst ` set (content_lock (buf_desc p i))" "\<not> bit (buf_state p i) 25"
    "perm t \<longleftrightarrow> permanent \<or> forkNum t = INIT_FORKNUM" "claim_victim me permanent t i p = (r, q)"
  shows "pool_ok perm q \<and> contents q = contents p"
proof (cases "SharedBufHash p t")
  case None
  then show ?thesis using claim_fresh [where perm = perm, OF None assms(6)] claimed_ok [OF assms(1,2,5) None] assms(7) by simp
next
  case (Some j)
  let ?p1 = "UnpinBuffer me i p"
  let ?p2 = "StrategyFreeBuffer i ?p1"
  note b = buf_okD [OF pool_okD(4) [OF assms(1,2)]]
  have me: "me < MAX_BACKENDS" using b(2) [of me] assms(3) by force
  have pins: "0 < PrivateRefCount p me i" "bit (buf_state p i) 26 \<Longrightarrow> 1 < refc (buf_state p i) \<or> 1 < PrivateRefCount p me i"
    using assms(3,5) b(11) by auto
  note un = UnpinBuffer_ok [OF assms(1,2) pins(1) assms(4) pins(2)]
  have N: "NBuffers ?p1 = NBuffers p" using un(3) by (simp add: restate_def only_def)
  note fr = StrategyFreeBuffer_ok [OF un(1), of i]
  have j: "j < NBuffers ?p2" using pool_okD(5) [OF assms(1)] Some N kept_N [OF fr(3)] assms(2) by simp
  obtain v q' where pin: "PinBuffer me j ?p2 = (v, q')" by (cases "PinBuffer me j ?p2")
  have "q = q'" using assms(7) Some pin by (simp add: claim_victim_def bindC_def BufTableInsert_def)
  then show ?thesis using PinBuffer_ok(1,2) [OF fr(1) j me pin] fr(2) un(2) N assms(2) by simp
qed

lemma BufferAlloc_ok:
  assumes "pool_ok perm p" "me < MAX_BACKENDS" "perm t \<longleftrightarrow> permanent \<or> forkNum t = INIT_FORKNUM"
  shows "(\<exists>i q. BufferAlloc cfg (Suc n) me permanent t p = (Inr (i, bit (buf_state q i) 24), q) \<and> pool_ok perm q \<and> contents q = contents p \<and>
      others i p q \<and> i < NBuffers q \<and> bit (buf_state q i) 25 \<and> tag (buf_desc q i) = t \<and> 0 < PrivateRefCount q me i \<and> disk q t = disk p t \<and>
      (SharedBufHash p t = Some i \<and> restate i p q \<and> (bit (buf_state q i) 26 \<longleftrightarrow> bit (buf_state p i) 26) \<or> refc (buf_state p i) = 0 \<and> \<not> bit (buf_state q i) 26)) \<or>
    (\<exists>q. BufferAlloc cfg (Suc n) me permanent t p = (Inl NoUnpinnedBuffers, q) \<and> SharedBufHash p t = None \<and>
      (\<forall>i < NBuffers p. 0 < refc (buf_state p i)) \<and> kept p q \<and> pool_ok perm q \<and> contents q = contents p)"
proof (cases "SharedBufHash p t")
  case (Some i)
  then have i: "i < NBuffers p" "bit (buf_state p i) 25" "tag (buf_desc p i) = t" using pool_okD(5) [OF assms(1)] by auto
  obtain v q where pin: "PinBuffer me i p = (v, q)" by (cases "PinBuffer me i p")
  note ok = PinBuffer_ok [OF assms(1) i(1) assms(2) pin]
  have only: "only i p q" using ok(3) by (simp add: restate_def)
  have "BufferAlloc cfg (Suc n) me permanent t p = (Inr (i, bit (buf_state q i) 24), q)"
    using Some pin ok(4) by (simp add: BufferAlloc_def bindC_def BufTableLookup_def)
  then show ?thesis using ok i only others_only [OF only] Some by (intro disjI1 exI [of _ i] exI [of _ q]) (auto simp: only_def)
next
  case None
  from GetVictimBuffer_ok [OF assms(1,2), of cfg n] show ?thesis
  proof (elim disjE exE conjE)
    fix i p1
    assume get: "GetVictimBuffer cfg me (Suc n) p = (Inr i, p1)" and v: "pinned_victim perm me i p p1" and t: "\<not> bit (buf_state p1 i) 25"
    let ?q = "claimed (perm t) t i p1"
    have p1: "pool_ok perm p1" "i < NBuffers p1" "SharedBufHash p1 t = None" "disk p1 t = disk p t" "contents p1 = contents p" "others i p p1"
        "PrivateRefCount p1 me i = 1" "refc (buf_state p i) = 0" "\<not> bit (buf_state p1 i) 26"
      using v None by (simp_all add: pinned_victim_def)
    note ok = claimed_ok [OF p1(1,2) t p1(3)]
    have "\<not> bit (buf_state p1 i) 24" using buf_okD(4) [OF pool_okD(4) [OF p1(1,2)]] t by blast
    then have d: "bit (buf_state ?q i) 25" "\<not> bit (buf_state ?q i) 24" "\<not> bit (buf_state ?q i) 26" "tag (buf_desc ?q i) = t" "NBuffers ?q = NBuffers p1"
        "PrivateRefCount ?q = PrivateRefCount p1" "disk ?q = disk p1"
      using p1(9) by (simp_all add: claimed_simps [OF p1(2)])
    have "BufferAlloc cfg (Suc n) me permanent t p = (Inr (i, False), ?q)"
      using None get claim_fresh [where perm = perm, OF p1(3) assms(3)] by (simp add: BufferAlloc_def bindC_def BufTableLookup_def)
    then show ?thesis using ok p1 d others_trans [OF p1(6) others_steps(3)]
      by (intro disjI1 exI [of _ i] exI [of _ ?q]) simp
  next
    fix p1
    assume "GetVictimBuffer cfg me (Suc n) p = (Inl NoUnpinnedBuffers, p1)" "\<forall>i < NBuffers p. 0 < refc (buf_state p i)"
      "kept p p1" "pool_ok perm p1" "contents p1 = contents p"
    then show ?thesis using None by (intro disjI2 exI [of _ p1]) (simp add: BufferAlloc_def bindC_def BufTableLookup_def)
  qed
qed

text \<open>A buffer that somebody has pinned and that is valid keeps its block and its page.\<close>

definition undisturbed :: "pool \<Rightarrow> pool \<Rightarrow> bool" where
  "undisturbed p q \<longleftrightarrow> (\<forall>j < NBuffers p. 0 < refc (buf_state p j) \<and> has_flag (buf_state p j) BM_VALID \<longrightarrow>
     tag (buf_desc q j) = tag (buf_desc p j) \<and> BufferBlocks q ! j = BufferBlocks p ! j \<and> has_flag (buf_state q j) BM_VALID)"

lemma undisturbed_others:
  assumes "others i p q" "refc (buf_state p i) = 0 \<or> \<not> bit (buf_state p i) 24 \<or> tag (buf_desc q i) = tag (buf_desc p i) \<and> BufferBlocks q ! i = BufferBlocks p ! i \<and> bit (buf_state q i) 24"
  shows "undisturbed p q"
  unfolding undisturbed_def has_flag_bit
proof (intro allI impI)
  fix j assume j: "j < NBuffers p" "0 < refc (buf_state p j) \<and> bit (buf_state p j) 24"
  show "tag (buf_desc q j) = tag (buf_desc p j) \<and> BufferBlocks q ! j = BufferBlocks p ! j \<and> bit (buf_state q j) 24"
    using assms j by (cases "j = i") (simp_all add: others_def)
qed

text \<open>The errors of a read, each with its reason.\<close>

definition read_error :: "page_settings \<Rightarrow> BufferTag \<Rightarrow> pool \<Rightarrow> pg_error \<Rightarrow> bool" where
  "read_error cfg t p e \<longleftrightarrow>
     e = NoUnpinnedBuffers \<and> SharedBufHash p t = None \<and> (\<forall>i < NBuffers p. 0 < refc (buf_state p i)) \<or>
     (\<exists>i. e = BufferIOBusy i \<and> SharedBufHash p t = Some i \<and> has_flag (buf_state p i) BM_IO_IN_PROGRESS) \<or>
     e = ReadPastEnd (blockNum t) \<and> disk p t = None \<or>
     e = InvalidPage (blockNum t) \<and> (\<exists>pg. disk p t = Some pg \<and> \<not> fst (PageIsVerifiedExtended cfg pg (blockNum t) True True))"

text \<open>The outcome of a read: nothing is lost or disturbed, and the buffer holds the block.\<close>

definition read_outcome :: "page_settings \<Rightarrow> (BufferTag \<Rightarrow> bool) \<Rightarrow> nat \<Rightarrow> BufferTag \<Rightarrow> pool \<Rightarrow> pg_error + nat \<Rightarrow> pool \<Rightarrow> bool" where
  "read_outcome cfg perm me t p r q \<longleftrightarrow> pool_ok perm q \<and> contents q = contents p \<and> undisturbed p q \<and>
     (case r of
        Inr i \<Rightarrow> i < NBuffers q \<and> 0 < PrivateRefCount q me i \<and> tag (buf_desc q i) = t \<and> has_flag (buf_state q i) BM_VALID \<and>
          contents p t = Some (sans_checksum (BufferBlocks q ! i))
      | Inl e \<Rightarrow> read_error cfg t p e)"

lemma read_allocated:
  assumes ok: "pool_ok perm p1" "contents p1 = contents p" and oth: "others i p p1"
    and i: "i < NBuffers p1" "bit (buf_state p1 i) 25" "tag (buf_desc p1 i) = t" "0 < PrivateRefCount p1 me i" "disk p1 t = disk p t"
    and c: "SharedBufHash p t = Some i \<and> restate i p p1 \<and> (bit (buf_state p1 i) 26 \<longleftrightarrow> bit (buf_state p i) 26) \<or>
      refc (buf_state p i) = 0 \<and> \<not> bit (buf_state p1 i) 26"
    and z: "\<not> zero_damaged_pages cfg" and run: "(if bit (buf_state p1 i) 24 then ret i else bindC (WaitReadBuffer cfg i) (\<lambda>_. ret i)) p1 = (r, q)"
  shows "read_outcome cfg perm me t p r q"
proof (cases "bit (buf_state p1 i) 24")
  case True
  have "SharedBufHash p1 t = Some i" using pool_okD(5) [OF ok(1)] i(1-3) by simp
  then have "contents p1 t = Some (sans_checksum (BufferBlocks p1 ! i))" using True by (simp add: contents_def)
  moreover have "r = Inr i" "q = p1" using run True by simp_all
  moreover have "undisturbed p p1" using c True by (intro undisturbed_others [OF oth]) (auto simp: restate_def only_def)
  ultimately show ?thesis using ok i True by (simp add: has_flag_bit read_outcome_def)
next
  case False
  obtain r1 where wr: "WaitReadBuffer cfg i p1 = (r1, q)" and r: "r = map_sum id (\<lambda>_. i) r1"
    using run False by (cases "WaitReadBuffer cfg i p1") (auto simp: bindC_def split: sum.splits)
  note w = WaitReadBuffer_ok [OF ok(1) i(1,4,2) z wr]
  have tags: "tag (buf_desc q i) = t" "bit (buf_state q i) 25" "NBuffers q = NBuffers p1" using w(3) i(2,3) by (simp_all add: only_def)
  have und: "undisturbed p q"
    using c False by (intro undisturbed_others [OF others_trans [OF oth others_only [OF w(3)]]]) (auto simp: restate_def)
  show ?thesis
  proof (cases r1)
    case (Inl e)
    have "read_error cfg t p e" using wr c False i(3,5) unfolding WaitReadBuffer_run [OF i(1) z] Inl
      by (auto simp: read_error_def has_flag_bit split: if_splits option.splits)
    then show ?thesis using w(1,2) ok(2) und by (simp add: r Inl read_outcome_def)
  next
    case (Inr u)
    have v: "bit (buf_state q i) 24" using w(5) Inr by simp
    have "SharedBufHash q t = Some i" using pool_okD(5) [OF w(1)] tags i(1) by simp
    then have "contents q t = Some (sans_checksum (BufferBlocks q ! i))" using v by (simp add: contents_def)
    then show ?thesis using w(1,2,4) ok(2) und tags i(1,4) v by (simp add: r Inr has_flag_bit read_outcome_def)
  qed
qed

lemma read_ok:
  assumes "pool_ok perm p" "me < MAX_BACKENDS" "perm t \<longleftrightarrow> permanent \<or> forkNum t = INIT_FORKNUM" "\<not> zero_damaged_pages cfg"
    "SharedReadBuffer cfg (Suc n) me permanent t p = (r, q)"
  shows "read_outcome cfg perm me t p r q"
  using BufferAlloc_ok [OF assms(1-3), of cfg n]
proof
  assume "\<exists>q. BufferAlloc cfg (Suc n) me permanent t p = (Inl NoUnpinnedBuffers, q) \<and> SharedBufHash p t = None \<and>
      (\<forall>i < NBuffers p. 0 < refc (buf_state p i)) \<and> kept p q \<and> pool_ok perm q \<and> contents q = contents p"
  then obtain p1 where "BufferAlloc cfg (Suc n) me permanent t p = (Inl NoUnpinnedBuffers, p1)" "SharedBufHash p t = None"
      "\<forall>i < NBuffers p. 0 < refc (buf_state p i)" "kept p p1" "pool_ok perm p1" "contents p1 = contents p" by blast
  moreover have "undisturbed p p1" using \<open>kept p p1\<close> by (simp add: undisturbed_def has_flag_bit kept_def)
  ultimately show ?thesis using assms(5) by (auto simp: SharedReadBuffer_def bindC_def read_error_def read_outcome_def)
next
  assume "\<exists>i q. BufferAlloc cfg (Suc n) me permanent t p = (Inr (i, bit (buf_state q i) 24), q) \<and> pool_ok perm q \<and> contents q = contents p \<and>
      others i p q \<and> i < NBuffers q \<and> bit (buf_state q i) 25 \<and> tag (buf_desc q i) = t \<and> 0 < PrivateRefCount q me i \<and> disk q t = disk p t \<and>
      (SharedBufHash p t = Some i \<and> restate i p q \<and> (bit (buf_state q i) 26 \<longleftrightarrow> bit (buf_state p i) 26) \<or> refc (buf_state p i) = 0 \<and> \<not> bit (buf_state q i) 26)"
  then obtain i p1 where alloc: "BufferAlloc cfg (Suc n) me permanent t p = (Inr (i, bit (buf_state p1 i) 24), p1)"
    and c: "pool_ok perm p1" "contents p1 = contents p" "others i p p1" "i < NBuffers p1" "bit (buf_state p1 i) 25" "tag (buf_desc p1 i) = t"
      "0 < PrivateRefCount p1 me i" "disk p1 t = disk p t"
      "SharedBufHash p t = Some i \<and> restate i p p1 \<and> (bit (buf_state p1 i) 26 \<longleftrightarrow> bit (buf_state p i) 26) \<or> refc (buf_state p i) = 0 \<and> \<not> bit (buf_state p1 i) 26"
    by blast
  have "(if bit (buf_state p1 i) 24 then ret i else bindC (WaitReadBuffer cfg i) (\<lambda>_. ret i)) p1 = (r, q)"
    using alloc assms(5) by (simp add: SharedReadBuffer_def bindC_def [of "BufferAlloc cfg (Suc n) me permanent t"])
  then show ?thesis by (rule read_allocated [OF c assms(4)])
qed

end
