(* ===== verification/TR_BufExtend.thy ===== *)
theory TR_BufExtend
  imports TR_BufCache TR_Storage
begin

text \<open>
  Extension of a relation by one block through the pool (\<^verbatim>\<open>ExtendBufferedRelShared\<close> of \<^verbatim>\<open>bufmgr.c\<close>), which is what the index asks for with
  \<^verbatim>\<open>P_NEW\<close>. When no buffer for the new block is left over, the extension makes a page of zeros, in the pool and on disk. A buffer that
  a failed read beyond the end of the file has left behind is taken over with the old page that is in it.
\<close>

section \<open>Extension\<close>

definition zero_page_bytes :: bytes where
  "zero_page_bytes = replicate BLCKSZ 0"

definition PageIsNew_bytes :: "bytes \<Rightarrow> bool" where
  "PageIsNew_bytes pg \<longleftrightarrow> upper_of pg = 0"

text \<open>A buffer for the new block exists already: it is pinned instead of the victim, and made invalid.\<close>

definition take_existing :: "nat \<Rightarrow> nat \<Rightarrow> nat \<Rightarrow> BufferTag \<Rightarrow> (pool, unit) comp" where
  "take_existing me i j t = (\<lambda>p.
     case PinBuffer me j p of (valid, p) \<Rightarrow>
       let p = UnpinBuffer me i (StrategyFreeBuffer i p)
       in if valid \<and> \<not> PageIsNew_bytes (BufferBlocks p ! j) then (Inl (UnexpectedData (blockNum t)), p)
          else bindC (StartBufferIO j True False) (\<lambda>_. ret ()) (set_state j (buf_state p j AND NOT BM_VALID) p))"

definition tag_new_block :: "bool \<Rightarrow> BufferTag \<Rightarrow> nat \<Rightarrow> pool \<Rightarrow> pool" where
  "tag_new_block permanent t i p =
     (let st = buf_state p i OR (BM_TAG_VALID OR BUF_USAGECOUNT_ONE);
          st = (if permanent \<or> forkNum t = INIT_FORKNUM then st OR BM_PERMANENT else st)
      in upd_desc i (\<lambda>d. d\<lparr>tag := t, state := st\<rparr>) p)"

definition insert_new_block :: "nat \<Rightarrow> bool \<Rightarrow> BufferTag \<Rightarrow> nat \<Rightarrow> (pool, nat) comp" where
  "insert_new_block me permanent t i = bindC (BufTableInsert t i) (\<lambda>existing.
     case existing of
       Some j \<Rightarrow> bindC (take_existing me i j t) (\<lambda>_. ret j)
     | None \<Rightarrow> bindC (modifyC (tag_new_block permanent t i)) (\<lambda>_. bindC (StartBufferIO i True False) (\<lambda>_. ret i)))"

text \<open>
  One block is asked for and no extension lock is taken, as \<^verbatim>\<open>ReadBufferExtended\<close> does for \<^verbatim>\<open>P_NEW\<close>. The tag is that of the first block beyond
  the end of the file, the number that \<^verbatim>\<open>smgrnblocks\<close> reports.
\<close>

definition new_block_io :: "nat \<Rightarrow> bool \<Rightarrow> BufferTag \<Rightarrow> nat \<Rightarrow> (pool, nat) comp" where
  "new_block_io me lock_first t j =
     bindC (modifyC (\<lambda>p. p\<lparr>disk := (disk p)(t \<mapsto> zero_page_bytes)\<rparr>)) (\<lambda>_.
     bindC (if lock_first then SharedLockBuffer me j BUFFER_LOCK_EXCLUSIVE else ret ()) (\<lambda>_.
     bindC (modifyC (TerminateBufferIO j False BM_VALID)) (\<lambda>_. ret j)))"

definition ExtendBufferedRelShared :: "page_settings \<Rightarrow> nat \<Rightarrow> nat \<Rightarrow> bool \<Rightarrow> bool \<Rightarrow> BufferTag \<Rightarrow> (pool, nat) comp" where
  "ExtendBufferedRelShared cfg fuel me permanent lock_first t =
     bindC (GetVictimBuffer cfg me fuel) (\<lambda>i.
     bindC (modifyC (\<lambda>p. p\<lparr>BufferBlocks := (BufferBlocks p)[i := zero_page_bytes]\<rparr>)) (\<lambda>_.
     if MaxBlockNumber \<le> blockNum t + 1 then raise ExtendLimit
     else bindC (insert_new_block me permanent t i) (new_block_io me lock_first t)))"

section \<open>A new block\<close>

lemma zero_page:
  "writable (replicate BLCKSZ 0)" "PageSetChecksumCopy cfg (replicate BLCKSZ 0) n = replicate BLCKSZ 0" "PageGetLSN (replicate BLCKSZ 0) = 0"
proof -
  have "upper_of (replicate BLCKSZ 0) = 0" by (simp add: upper_of_def get16_def BLCKSZ_def)
  then show "writable (replicate BLCKSZ 0)" "PageSetChecksumCopy cfg (replicate BLCKSZ 0) n = replicate BLCKSZ 0"
    by (simp_all add: writable_def PageSetChecksumCopy_def)
  show "PageGetLSN (replicate BLCKSZ 0) = 0" by (simp add: PageGetLSN_def upt_rec BLCKSZ_def)
qed

lemma zero_page_bytes:
  "length zero_page_bytes = BLCKSZ" "PageGetLSN zero_page_bytes = 0" "PageIsNew_bytes zero_page_bytes"
proof -
  show "length zero_page_bytes = BLCKSZ" "PageGetLSN zero_page_bytes = 0" by (simp_all only: zero_page_bytes_def zero_page length_replicate)
  show "PageIsNew_bytes zero_page_bytes" by (simp add: zero_page_bytes_def PageIsNew_bytes_def upper_of_def get16_def BLCKSZ_def)
qed

lemma zeroextend_ok:
  assumes "pool_ok perm p" "\<And>j. SharedBufHash p t = Some j \<Longrightarrow> \<not> bit (buf_state p j) 24"
  shows "pool_ok perm (p\<lparr>disk := (disk p)(t \<mapsto> zero_page_bytes)\<rparr>)"
    "contents (p\<lparr>disk := (disk p)(t \<mapsto> zero_page_bytes)\<rparr>) = (contents p)(t \<mapsto> sans_checksum zero_page_bytes)"
proof -
  let ?q = "p\<lparr>disk := (disk p)(t \<mapsto> zero_page_bytes)\<rparr>"
  have "buffer_ok perm ?q j" if j: "j < NBuffers p" for j
  proof -
    have ok: "buffer_ok perm p j" using pool_okD(4) [OF assms(1) j] .
    have "tag (buf_desc p j) \<noteq> t" if "bit (buf_state p j) 24"
      using assms(2) [of j] pool_okD(5) [OF assms(1), of t j] buf_okD(4) [OF ok that] that j by blast
    then show ?thesis using ok by (auto simp: buf_ok_def)
  qed
  then show "pool_ok perm ?q" using assms(1) zero_page_bytes by (auto simp: pool_ok_def clock_ok_def free_ok_def)
  show "contents ?q = (contents p)(t \<mapsto> sans_checksum zero_page_bytes)"
  proof
    fix u
    show "contents ?q u = ((contents p)(t \<mapsto> sans_checksum zero_page_bytes)) u"
      using assms(2) by (cases "u = t") (auto simp: contents_def split: option.splits)
  qed
qed

text \<open>The end of an input: a buffer that has the page of its file becomes valid.\<close>

lemma TerminateInput_ok:
  assumes "pool_ok perm p" "i < NBuffers p" "bit (buf_state p i) 25" "\<not> bit (buf_state p i) 24" "disk p (tag (buf_desc p i)) = Some (BufferBlocks p ! i)"
  defines "q \<equiv> TerminateBufferIO i False BM_VALID p"
  shows "pool_ok perm q" "contents q = contents p" "only i p q" "bit (buf_state q i) 24" "\<not> bit (buf_state q i) 23"
    "content_lock (buf_desc q i) = content_lock (buf_desc p i)" "PrivateRefCount q = PrivateRefCount p" "BufferBlocks q = BufferBlocks p"
proof -
  have "\<And>n. n < 22 \<Longrightarrow> \<not> bit BM_VALID n" by simp
  define st where "st = (buf_state p i AND NOT (BM_IO_IN_PROGRESS OR BM_IO_ERROR)) OR BM_VALID"
  note w = TerminateBufferIO_word [OF \<open>\<And>n. n < 22 \<Longrightarrow> \<not> bit BM_VALID n\<close>, of "buf_state p i", folded st_def]
  have q: "q = set_state i st p" by (simp add: q_def TerminateBufferIO_def st_def)
  have ok: "buffer_ok perm p i" using pool_okD(4) [OF assms(1,2)] .
  show only: "only i p q" using assms(2) by (auto simp: q only_def w)
  show "bit (buf_state q i) 24" "content_lock (buf_desc q i) = content_lock (buf_desc p i)" "PrivateRefCount q = PrivateRefCount p" "BufferBlocks q = BufferBlocks p"
    using assms(2) by (simp_all add: q w)
  show "\<not> bit (buf_state q i) 23" using buf_okD(5) [OF ok] assms(2,4) by (auto simp: q w)
  have "buffer_ok perm q i" using ok assms(2,3,5) pool_okD(6) [OF assms(1,5)] unfolding q buf_ok_def by (auto simp: w)
  from only_ok [OF assms(1) only assms(2) this] show "pool_ok perm q" .
  show "contents q = contents p"
  proof
    fix t
    show "contents q t = contents p t"
    proof (cases "SharedBufHash p t = Some i")
      case True
      then have "t = tag (buf_desc p i)" using pool_okD(5) [OF assms(1)] by auto
      then show ?thesis using True assms(2,4,5) by (simp add: contents_def q w)
    next
      case False
      then show ?thesis using assms(2) by (auto simp: contents_def q nth_list_update split: option.splits)
    qed
  qed
qed

text \<open>No buffer is left over: the victim gets the tag, and the I/O starts.\<close>

lemma insert_new_block_fresh:
  assumes "i < NBuffers p" "SharedBufHash p t = None" "perm t \<longleftrightarrow> permanent \<or> forkNum t = INIT_FORKNUM" "\<not> bit (buf_state p i) 24" "\<not> bit (buf_state p i) 26"
  shows "insert_new_block me permanent t i p = (Inr i, set_state i (buf_state (claimed (perm t) t i p) i OR BM_IO_IN_PROGRESS) (claimed (perm t) t i p))"
proof -
  have ins: "BufTableInsert t i p = (Inr None, p\<lparr>SharedBufHash := (SharedBufHash p)(t \<mapsto> i)\<rparr>)" using assms(2) by (simp add: BufTableInsert_def)
  have eq: "tag_new_block permanent t i (p\<lparr>SharedBufHash := (SharedBufHash p)(t \<mapsto> i)\<rparr>) = claimed (perm t) t i p"
    using assms(3) by (intro pool.equality) (simp_all add: tag_new_block_def claimed_def upd_desc_def Let_def)
  have "\<not> bit (buf_state (claimed (perm t) t i p) i) 26" "\<not> bit (buf_state (claimed (perm t) t i p) i) 24"
    using assms(4,5) claimed_simps(6) [OF assms(1)] by simp_all
  then have io: "StartBufferIO i True False (claimed (perm t) t i p) =
      (Inr True, set_state i (buf_state (claimed (perm t) t i p) i OR BM_IO_IN_PROGRESS) (claimed (perm t) t i p))"
    by (simp add: StartBufferIO_def has_flag_bit Let_def)
  show ?thesis unfolding insert_new_block_def using ins io eq by (simp add: bindC_def Let_def)
qed

lemma new_block_io_step:
  assumes "pool_ok perm p" "i < NBuffers p" "bit (buf_state p i) 25" "\<not> bit (buf_state p i) 24" "tag (buf_desc p i) = t" "BufferBlocks p ! i = zero_page_bytes"
    "0 < PrivateRefCount p me i" "new_block_io me lock_first t i p = (Inr j, q)"
  shows "j = i" "pool_ok perm q" "contents q = (contents p)(t \<mapsto> sans_checksum zero_page_bytes)" "others i p q" "tag (buf_desc q i) = t"
    "bit (buf_state q i) 24" "BufferBlocks q ! i = zero_page_bytes" "disk q t = Some zero_page_bytes"
proof -
  let ?p1 = "p\<lparr>disk := (disk p)(t \<mapsto> zero_page_bytes)\<rparr>"
  have "SharedBufHash p t = Some j \<Longrightarrow> \<not> bit (buf_state p j) 24" for j
    using pool_okD(5) [OF assms(1), of t i] assms(2,3,4,5) by simp
  then have ok1: "pool_ok perm ?p1" "contents ?p1 = (contents p)(t \<mapsto> sans_checksum zero_page_bytes)" using zeroextend_ok [OF assms(1)] by blast+
  obtain r2 p2 where run: "(if lock_first then SharedLockBuffer me i BUFFER_LOCK_EXCLUSIVE else ret ()) ?p1 = (r2, p2)"
    by (cases "(if lock_first then SharedLockBuffer me i BUFFER_LOCK_EXCLUSIVE else ret ()) ?p1")
  have "new_block_io me lock_first t i p = (case r2 of Inl e \<Rightarrow> (Inl e, p2) | Inr _ \<Rightarrow> (Inr i, TerminateBufferIO i False BM_VALID p2))"
    unfolding new_block_io_def bindC_def modifyC_run prod.case sum.case run by (cases r2) simp_all
  then have q: "q = TerminateBufferIO i False BM_VALID p2" and "j = i" and "r2 = Inr ()" using assms(8) by (cases r2; simp)+
  note lk = run [unfolded \<open>r2 = Inr ()\<close>]
  have ok2: "pool_ok perm p2 \<and> contents p2 = contents ?p1 \<and> restate i ?p1 p2"
  proof (cases lock_first)
    case True
    obtain r3 p3 where acq: "LWLockConditionalAcquire me i True ?p1 = (r3, p3)" by (cases "LWLockConditionalAcquire me i True ?p1")
    then have "p3 = p2" using lk True by (cases r3) (auto simp: SharedLockBuffer_def bindC_def split: if_splits)
    then show ?thesis using LWLockConditionalAcquire_ok [OF ok1(1) _ _ acq] assms(2,7) by simp
  qed (use lk ok1(1) in \<open>auto simp: restate_def only_def\<close>)
  then have d2: "i < NBuffers p2" "bit (buf_state p2 i) 25" "\<not> bit (buf_state p2 i) 24" "disk p2 (tag (buf_desc p2 i)) = Some (BufferBlocks p2 ! i)"
      "tag (buf_desc p2 i) = t" "BufferBlocks p2 ! i = zero_page_bytes" "disk p2 t = Some zero_page_bytes"
    using assms(2-6) by (simp_all add: restate_def only_def)
  note fin = TerminateInput_ok [OF conjunct1 [OF ok2] d2(1-4), folded q]
  show "j = i" by fact
  show "pool_ok perm q" "contents q = (contents p)(t \<mapsto> sans_checksum zero_page_bytes)" "bit (buf_state q i) 24" "BufferBlocks q ! i = zero_page_bytes"
    using fin ok1(2) ok2 d2(6) by simp_all
  show "tag (buf_desc q i) = t" "disk q t = Some zero_page_bytes" using fin(3) d2(5,7) by (simp_all add: only_def)
  have "others i p ?p1" by (simp add: others_def)
  then show "others i p q" using others_trans [OF _ others_trans [OF others_only others_only [OF fin(3)]]] ok2 unfolding restate_def by blast
qed

text \<open>The same when nobody has the lock: the input ends, with the lock if it was asked for.\<close>

lemma new_block_io_run:
  assumes "i < NBuffers p" "content_lock (buf_desc p i) = []"
  shows "\<exists>q. new_block_io me lock_first t i p = (Inr i, q) \<and> PrivateRefCount q = PrivateRefCount p \<and>
    content_lock (buf_desc q i) = (if lock_first then [(me, True)] else []) \<and> bit (buf_state q i) 24 \<and> (bit (buf_state q i) 23 \<longleftrightarrow> bit (buf_state p i) 23) \<and>
    BufferBlocks q = BufferBlocks p \<and> tag (buf_desc q i) = tag (buf_desc p i) \<and> disk q t = Some zero_page_bytes \<and> NBuffers q = NBuffers p"
proof -
  let ?p1 = "p\<lparr>disk := (disk p)(t \<mapsto> zero_page_bytes)\<rparr>"
  let ?p2 = "if lock_first then set_lock i [(me, True)] ?p1 else ?p1"
  have lk: "(if lock_first then SharedLockBuffer me i BUFFER_LOCK_EXCLUSIVE else ret ()) ?p1 = (Inr (), ?p2)"
    using assms(2) by (simp add: SharedLockBuffer_def bindC_def LWLockConditionalAcquire_def lock_free_def)
  have "new_block_io me lock_first t i p = (Inr i, TerminateBufferIO i False BM_VALID ?p2)" using lk by (simp add: new_block_io_def bindC_def)
  then show ?thesis using assms by (intro exI [of _ "TerminateBufferIO i False BM_VALID ?p2"]) (auto simp: TerminateBufferIO_def Let_def word_bits)
qed

text \<open>The insertion into the mapping table, with the input started.\<close>

lemma insert_new_block_step:
  assumes "pool_ok perm p" "i < NBuffers p" "\<not> bit (buf_state p i) 25" "0 < PrivateRefCount p me i" "SharedBufHash p t = None"
    "perm t \<longleftrightarrow> permanent \<or> forkNum t = INIT_FORKNUM"
  shows "\<exists>q. insert_new_block me permanent t i p = (Inr i, q) \<and> pool_ok perm q \<and> contents q = contents p \<and> others i p q \<and> bit (buf_state q i) 25 \<and>
    \<not> bit (buf_state q i) 24 \<and> tag (buf_desc q i) = t \<and> BufferBlocks q = BufferBlocks p \<and> PrivateRefCount q = PrivateRefCount p \<and>
    content_lock (buf_desc q i) = content_lock (buf_desc p i) \<and> disk q = disk p"
proof -
  let ?p1 = "claimed (perm t) t i p"
  let ?st = "buf_state ?p1 i OR BM_IO_IN_PROGRESS"
  let ?q = "set_state i ?st ?p1"
  note b = buf_okD [OF pool_okD(4) [OF assms(1,2)]]
  have bits: "\<not> bit (buf_state p i) 24" "\<not> bit (buf_state p i) 26" using b(4,11) assms(3) by auto
  note ok1 = claimed_ok [OF assms(1-3,5)]
  note d1 = claimed_simps [where x = "perm t" and t = t, OF assms(2)]
  have N: "i < NBuffers ?p1" using d1(3) assms(2) by simp
  have io: "refc ?st = refc (buf_state ?p1 i)" "usg ?st = usg (buf_state ?p1 i)" "bit ?st n \<longleftrightarrow> bit (buf_state ?p1 i) n \<or> n = 26" for n
    using flag_counts [of BM_IO_IN_PROGRESS "buf_state ?p1 i"] by (simp_all add: word_bits)
  have ok: "buffer_ok perm ?p1 i" using pool_okD(4) [OF ok1(1) N] .
  have "me \<in> pinners (\<lambda>b. PrivateRefCount ?p1 b i)"
    using assms(4) buf_okD(2) [OF ok, of me] d1(4) by (force simp: pinners_def)
  then have "0 < refc (buf_state ?p1 i)" using buf_okD(1) [OF ok] by (auto simp: card_gt_0_iff)
  then have ok': "buffer_ok perm ?q i" using ok N d1(6) [of 25] by (auto simp: buf_ok_def io)
  have re: "restate i ?p1 ?q" using N by (auto simp: restate_def only_def io)
  have fin: "pool_ok perm ?q" "contents ?q = contents ?p1" using restate_ok [OF ok1(1) re N ok'] by auto
  have "others i p ?q" using others_trans [OF others_steps(3) others_only] re by (auto simp: restate_def)
  then show ?thesis
    using insert_new_block_fresh [where perm = perm, OF assms(2,5,6) bits, of me] fin ok1(2) d1(6) [of 24] d1(6) [of 25] bits N d1
    by (intro exI [of _ ?q]) (simp add: io, simp add: claimed_def upd_desc_def)
qed

section \<open>Extension through the pool\<close>

lemma fill_invalid:
  assumes "pool_ok perm p" "i < NBuffers p" "\<not> bit (buf_state p i) 25"
  shows "pool_ok perm (p\<lparr>BufferBlocks := (BufferBlocks p)[i := pg]\<rparr>)" "contents (p\<lparr>BufferBlocks := (BufferBlocks p)[i := pg]\<rparr>) = contents p"
    "only i p (p\<lparr>BufferBlocks := (BufferBlocks p)[i := pg]\<rparr>)"
proof -
  let ?q = "p\<lparr>BufferBlocks := (BufferBlocks p)[i := pg]\<rparr>"
  have nv: "\<not> bit (buf_state p i) 24" using buf_okD(4) [OF pool_okD(4) [OF assms(1,2)]] assms(3) by blast
  show only: "only i p ?q" by (auto simp: only_def free_ok_def)
  have "buffer_ok perm ?q i" using pool_okD(4) [OF assms(1,2)] nv by (auto simp: buf_ok_def)
  then show "pool_ok perm ?q" "contents ?q = contents p" using only_ok [OF assms(1) only assms(2)] only_contents [OF only] nv by simp_all
qed

lemma extend_ok:
  assumes "pool_ok perm p" "me < MAX_BACKENDS" "perm t \<longleftrightarrow> permanent \<or> forkNum t = INIT_FORKNUM" "SharedBufHash p t = None" "blockNum t + 1 < MaxBlockNumber"
  shows "(\<exists>i q. ExtendBufferedRelShared cfg (Suc n) me permanent lock_first t p = (Inr i, q) \<and> pool_ok perm q \<and>
      contents q = (contents p)(t \<mapsto> sans_checksum zero_page_bytes) \<and> undisturbed p q \<and> PrivateRefCount q me i = 1 \<and> tag (buf_desc q i) = t \<and>
      has_flag (buf_state q i) BM_VALID \<and> BufferBlocks q ! i = zero_page_bytes \<and> content_lock (buf_desc q i) = (if lock_first then [(me, True)] else [])) \<or>
    (\<exists>q. ExtendBufferedRelShared cfg (Suc n) me permanent lock_first t p = (Inl NoUnpinnedBuffers, q) \<and> (\<forall>i < NBuffers p. 0 < refc (buf_state p i)) \<and>
      pool_ok perm q \<and> contents q = contents p)"
  using GetVictimBuffer_ok [OF assms(1,2), of cfg n]
proof (elim disjE exE conjE)
  fix p1
  assume "GetVictimBuffer cfg me (Suc n) p = (Inl NoUnpinnedBuffers, p1)" "\<forall>i < NBuffers p. 0 < refc (buf_state p i)" "pool_ok perm p1" "contents p1 = contents p"
  then show ?thesis by (intro disjI2 exI [of _ p1]) (simp add: ExtendBufferedRelShared_def bindC_def del: GetVictimBuffer.simps)
next
  fix i p1
  assume get: "GetVictimBuffer cfg me (Suc n) p = (Inr i, p1)" and v: "pinned_victim perm me i p p1" and nt: "\<not> bit (buf_state p1 i) 25"
  let ?p2 = "p1\<lparr>BufferBlocks := (BufferBlocks p1)[i := zero_page_bytes]\<rparr>"
  have p1: "pool_ok perm p1" "i < NBuffers p1" "SharedBufHash p1 t = None" "contents p1 = contents p" "others i p p1"
      "PrivateRefCount p1 me i = 1" "refc (buf_state p i) = 0" "content_lock (buf_desc p1 i) = []"
    using v assms(4) by (simp_all add: pinned_victim_def)
  have len: "length (BufferBlocks p1) = NBuffers p1" using pool_okD(3) [OF p1(1)] .
  note ok2 = fill_invalid [OF p1(1,2) nt, of zero_page_bytes]
  obtain p3 where p3: "insert_new_block me permanent t i ?p2 = (Inr i, p3)" "pool_ok perm p3" "contents p3 = contents ?p2" "others i ?p2 p3"
      "bit (buf_state p3 i) 25" "\<not> bit (buf_state p3 i) 24" "tag (buf_desc p3 i) = t" "BufferBlocks p3 = BufferBlocks ?p2" "PrivateRefCount p3 = PrivateRefCount ?p2"
      "content_lock (buf_desc p3 i) = content_lock (buf_desc ?p2 i)"
    using insert_new_block_step [OF ok2(1) _ _ _ _ assms(3), of i me] p1(2,3,6) nt by auto
  have d3: "i < NBuffers p3" "BufferBlocks p3 ! i = zero_page_bytes" "0 < PrivateRefCount p3 me i" "content_lock (buf_desc p3 i) = []"
    using p3(4,8,9,10) p1(2,6,8) len by (simp_all add: others_def)
  obtain q where q: "new_block_io me lock_first t i p3 = (Inr i, q)" "PrivateRefCount q = PrivateRefCount p3"
      "content_lock (buf_desc q i) = (if lock_first then [(me, True)] else [])"
    using new_block_io_run [OF d3(1,4), of me lock_first t] by blast
  note s = new_block_io_step [OF p3(2) d3(1) p3(5,6,7) d3(2,3) q(1)]
  have "ExtendBufferedRelShared cfg (Suc n) me permanent lock_first t p = (Inr i, q)"
    using get p3(1) q(1) assms(5) by (simp add: ExtendBufferedRelShared_def bindC_def del: GetVictimBuffer.simps)
  moreover have "others i p q" using others_trans [OF p1(5) others_trans [OF others_only [OF ok2(3)] others_trans [OF p3(4) s(4)]]] .
  then have "undisturbed p q" using p1(7) by (intro undisturbed_others) auto
  ultimately show ?thesis using s q(2,3) p3(3,9) ok2(2) p1(4,6) by (intro disjI1 exI [of _ i] exI [of _ q]) (simp add: has_flag_bit)
qed

section \<open>A buffer that is left over\<close>

text \<open>The existing buffer keeps its bytes; it is not valid, and the input is started.\<close>

lemma take_existing_run:
  assumes "pool_ok perm p" "i < NBuffers p" "j < NBuffers p" "i \<noteq> j" "me < MAX_BACKENDS" "bit (buf_state p j) 25" "\<not> bit (buf_state p j) 24" "\<not> bit (buf_state p j) 26"
  shows "\<exists>q. take_existing me i j t p = (Inr (), q) \<and> NBuffers q = NBuffers p \<and> BufferBlocks q = BufferBlocks p \<and> tag (buf_desc q j) = tag (buf_desc p j) \<and>
    content_lock (buf_desc q j) = content_lock (buf_desc p j) \<and> \<not> bit (buf_state q j) 23"
proof -
  obtain v p1 where pin: "PinBuffer me j p = (v, p1)" by (cases "PinBuffer me j p")
  note ok1 = PinBuffer_ok [OF assms(1,3,5) pin]
  have d1: "NBuffers p1 = NBuffers p" "BufferBlocks p1 = BufferBlocks p" "content_lock (buf_desc p1 j) = content_lock (buf_desc p j)" "tag (buf_desc p1 j) = tag (buf_desc p j)"
    using pin assms(3) by (auto simp: PinBuffer_def Let_def split: if_splits)
  have bits: "\<not> bit (buf_state p1 j) 24" "\<not> bit (buf_state p1 j) 26" "\<not> bit (buf_state p1 j) 23"
    using ok1(6) assms(7,8) buf_okD(5) [OF pool_okD(4) [OF assms(1,3)]] by auto
  then have "\<not> v" using ok1(4) by simp
  let ?p2 = "UnpinBuffer me i (StrategyFreeBuffer i p1)"
  have d2: "buf_desc ?p2 j = buf_desc p1 j" "NBuffers ?p2 = NBuffers p1" "BufferBlocks ?p2 = BufferBlocks p1"
    using assms(4) by (auto simp: UnpinBuffer_def StrategyFreeBuffer_def Let_def upd_desc_def)
  let ?st = "buf_state ?p2 j AND NOT BM_VALID"
  let ?p3 = "set_state j ?st ?p2"
  have st: "bit ?st n \<longleftrightarrow> bit (buf_state p1 j) n \<and> n \<noteq> 24" for n using bit_less32 [of "buf_state p1 j" n] by (auto simp: word_bits d2(1))
  have j2: "j < NBuffers ?p2" using assms(3) d1(1) d2(2) by simp
  have io: "StartBufferIO j True False ?p3 = (Inr True, set_state j (?st OR BM_IO_IN_PROGRESS) ?p3)"
    using j2 bits by (simp add: StartBufferIO_def has_flag_bit Let_def st)
  have "take_existing me i j t p = (Inr (), set_state j (?st OR BM_IO_IN_PROGRESS) ?p3)"
    using pin \<open>\<not> v\<close> io by (simp add: take_existing_def Let_def bindC_def)
  then show ?thesis using d1 d2 j2 bits st by (intro exI [of _ "set_state j (?st OR BM_IO_IN_PROGRESS) ?p3"]) (simp add: bit_or_iff)
qed

lemma extend_existing:
  assumes "pool_ok perm p" "me < MAX_BACKENDS" "SharedBufHash p t = Some j" "\<not> bit (buf_state p j) 24" "\<not> bit (buf_state p j) 26" "0 < refc (buf_state p j)"
    "content_lock (buf_desc p j) = []" "blockNum t + 1 < MaxBlockNumber" "\<exists>i < NBuffers p. refc (buf_state p i) = 0"
  shows "\<exists>q. ExtendBufferedRelShared cfg (Suc n) me permanent lock_first t p = (Inr j, q) \<and> has_flag (buf_state q j) BM_VALID \<and>
    \<not> has_flag (buf_state q j) BM_DIRTY \<and> tag (buf_desc q j) = t \<and> BufferBlocks q ! j = BufferBlocks p ! j \<and> disk q t = Some zero_page_bytes \<and> j < NBuffers q"
proof -
  have j: "j < NBuffers p" "bit (buf_state p j) 25" "tag (buf_desc p j) = t" using pool_okD(5) [OF assms(1)] assms(3) by auto
  obtain i p1 where get: "GetVictimBuffer cfg me (Suc n) p = (Inr i, p1)" and v: "pinned_victim perm me i p p1" and nt: "\<not> bit (buf_state p1 i) 25"
    using GetVictimBuffer_ok [OF assms(1,2), of cfg n] assms(9) by (metis less_irrefl)
  have ij: "i \<noteq> j" using v assms(6) by (auto simp: pinned_victim_def)
  have p1: "pool_ok perm p1" "i < NBuffers p1" "NBuffers p1 = NBuffers p" using v by (simp_all add: pinned_victim_def others_def)
  have "others i p p1" using v by (simp add: pinned_victim_def)
  then have d1: "tag (buf_desc p1 j) = t" "BufferBlocks p1 ! j = BufferBlocks p ! j" "\<not> bit (buf_state p1 j) 24" "bit (buf_state p1 j) 25" "\<not> bit (buf_state p1 j) 26"
      "content_lock (buf_desc p1 j) = []"
    using j ij assms(4,5,7) by (auto simp: others_def)
  have hash: "SharedBufHash p1 t = Some j" using pool_okD(5) [OF p1(1)] p1(3) j(1) d1(1,4) by simp
  let ?p2 = "p1\<lparr>BufferBlocks := (BufferBlocks p1)[i := zero_page_bytes]\<rparr>"
  note ok2 = fill_invalid(1) [OF p1(1,2) nt, of zero_page_bytes]
  obtain p3 where p3: "take_existing me i j t ?p2 = (Inr (), p3)" "NBuffers p3 = NBuffers ?p2" "BufferBlocks p3 = BufferBlocks ?p2" "tag (buf_desc p3 j) = tag (buf_desc ?p2 j)"
      "content_lock (buf_desc p3 j) = content_lock (buf_desc ?p2 j)" "\<not> bit (buf_state p3 j) 23"
    using take_existing_run [OF ok2 _ _ ij assms(2), of t] p1(2,3) j(1) d1(3,4,5) by auto
  have ins: "insert_new_block me permanent t i ?p2 = (Inr j, p3)"
    using hash p3(1) by (simp add: insert_new_block_def bindC_def BufTableInsert_def)
  have d3: "j < NBuffers p3" "content_lock (buf_desc p3 j) = []" "BufferBlocks p3 ! j = BufferBlocks p ! j" "tag (buf_desc p3 j) = t"
    using p3(2-5) p1(3) j(1) d1(1,2,6) ij by simp_all
  obtain q where q: "new_block_io me lock_first t j p3 = (Inr j, q)" "bit (buf_state q j) 24" "\<not> bit (buf_state q j) 23" "BufferBlocks q = BufferBlocks p3"
      "tag (buf_desc q j) = tag (buf_desc p3 j)" "disk q t = Some zero_page_bytes" "NBuffers q = NBuffers p3"
    using new_block_io_run [OF d3(1,2), of me lock_first t] p3(6) by blast
  have "ExtendBufferedRelShared cfg (Suc n) me permanent lock_first t p = (Inr j, q)"
    using get ins q(1) assms(8) by (simp add: ExtendBufferedRelShared_def bindC_def del: GetVictimBuffer.simps)
  then show ?thesis using q d3 by (intro exI [of _ q]) (simp add: has_flag_bit)
qed

end
