(* ===== verification/TR_BufPool.thy ===== *)
theory TR_BufPool
  imports TR_BufExtend
begin

text \<open>
  The shared buffer pool under every interleaving of the steps of many backends: from the start of the server on, the pool stays consistent
  and behaves like a plain store of blocks, and the log is written before the data.
\<close>

section \<open>The initial pool\<close>

definition INVALID_PROC_NUMBER :: int where "INVALID_PROC_NUMBER = - 1"

definition StrategyInitialize :: "pool \<Rightarrow> pool" where
  "StrategyInitialize p = p\<lparr>SharedBufHash := (\<lambda>_. None), firstFreeBuffer := 0, lastFreeBuffer := int (NBuffers p) - 1, nextVictimBuffer := 0,
     completePasses := 0, numBufferAllocs := 0, bgwprocno := - 1\<rparr>"

text \<open>The pool of a server that starts, over the files and the log as they are.\<close>

definition InitBufferPool :: "nat \<Rightarrow> pool \<Rightarrow> pool" where
  "InitBufferPool n p =
     (let descs = map (\<lambda>i. \<lparr>tag = ClearBufferTag, state = 0, wait_backend_pgprocno = INVALID_PROC_NUMBER, freeNext = int i + 1, content_lock = []\<rparr>) [0..<n];
          descs = descs[n - 1 := (descs ! (n - 1))\<lparr>freeNext := FREENEXT_END_OF_LIST\<rparr>]
      in StrategyInitialize (p\<lparr>BufferDescriptors := descs, BufferBlocks := replicate n (replicate BLCKSZ 0), PrivateRefCount := (\<lambda>_ _. 0)\<rparr>))"

lemma init_ok:
  assumes "0 < n" "n < 2 ^ 31" "\<And>t pg. disk p t = Some pg \<Longrightarrow> length pg = BLCKSZ \<and> (perm t \<longrightarrow> PageGetLSN pg \<le> flushed p)"
  shows "pool_ok perm (InitBufferPool n p)" "contents (InitBufferPool n p) = (\<lambda>t. map_option sans_checksum (disk p t))"
proof -
  let ?q = "InitBufferPool n p"
  have q: "NBuffers ?q = n" "SharedBufHash ?q = (\<lambda>_. None)" "firstFreeBuffer ?q = 0" "nextVictimBuffer ?q = 0" "PrivateRefCount ?q = (\<lambda>_ _. 0)"
      "disk ?q = disk p" "flushed ?q = flushed p" "length (BufferBlocks ?q) = n"
    by (simp_all add: InitBufferPool_def StrategyInitialize_def Let_def)
  have d: "state (buf_desc ?q i) = 0" "content_lock (buf_desc ?q i) = []" "freeNext (buf_desc ?q i) < int n" if "i < n" for i
    using that by (auto simp: InitBufferPool_def StrategyInitialize_def Let_def nth_list_update FREENEXT_END_OF_LIST_def)
  have zero: "refc 0 = 0" "usg 0 = 0" by (simp_all add: state_word_defs)
  have "buffer_ok perm ?q i" if "i < n" for i
    using d [OF that] zero by (simp add: buf_ok_def q lock_ok_def pinners_def)
  then show "pool_ok perm ?q" using assms d q by (auto simp: pool_ok_def clock_ok_def free_ok_def)
  show "contents ?q = (\<lambda>t. map_option sans_checksum (disk p t))" by (simp add: contents_def q fun_eq_iff)
qed

section \<open>Interleavings\<close>

text \<open>
  The steps of the backends, each one with what the code holds at that point: the pin, the content lock, the flags it has just tested.
  A read, an eviction or an allocation is a sequence of such steps, and the steps of other backends come in between. What is seen
  of a step is the page it writes, if any. The extension of a relation is a step only for a block that has no buffer yet (a
  buffer left over by a failed read is taken over with its old page).
\<close>

datatype pool_event = Silent | Wrote BufferTag bytes

inductive pool_step :: "page_settings \<Rightarrow> (BufferTag \<Rightarrow> bool) \<Rightarrow> pool \<Rightarrow> pool_event \<Rightarrow> pool \<Rightarrow> bool" for cfg perm where
  hit: "BufTableLookup t p = Some i \<Longrightarrow> me < MAX_BACKENDS \<Longrightarrow> PinBuffer me i p = (v, q) \<Longrightarrow> pool_step cfg perm p Silent q"
| choose: "StrategyGetBuffer p = (Inr i, p') \<Longrightarrow> me < MAX_BACKENDS \<Longrightarrow> pool_step cfg perm p Silent (PinBuffer_Locked me i p')"
| no_victim: "StrategyGetBuffer p = (Inl e, q) \<Longrightarrow> pool_step cfg perm p Silent q"
| unpin: "i < NBuffers p \<Longrightarrow> 0 < PrivateRefCount p me i \<Longrightarrow> (PrivateRefCount p me i = 1 \<longrightarrow> me \<notin> fst ` set (content_lock (buf_desc p i))) \<Longrightarrow>
    (has_flag (buf_state p i) BM_IO_IN_PROGRESS \<longrightarrow> 1 < refc (buf_state p i) \<or> 1 < PrivateRefCount p me i) \<Longrightarrow>
    SharedReleaseBuffer me i p = (r, q) \<Longrightarrow> pool_step cfg perm p Silent q"
| lock: "i < NBuffers p \<Longrightarrow> 0 < PrivateRefCount p me i \<Longrightarrow> SharedLockBuffer me i mode p = (r, q) \<Longrightarrow> pool_step cfg perm p Silent q"
| flush: "i < NBuffers p \<Longrightarrow> 0 < PrivateRefCount p me i \<Longrightarrow> (me, x) \<in> set (content_lock (buf_desc p i)) \<Longrightarrow> FlushBuffer cfg i p = (r, q) \<Longrightarrow>
    pool_step cfg perm p Silent q"
| invalidate: "i < NBuffers p \<Longrightarrow> PrivateRefCount p me i = 1 \<Longrightarrow> has_flag (buf_state p i) BM_TAG_VALID \<Longrightarrow> InvalidateVictimBuffer i p = (r, q) \<Longrightarrow>
    pool_step cfg perm p Silent q"
| claim: "i < NBuffers p \<Longrightarrow> PrivateRefCount p me i = 1 \<Longrightarrow> me \<notin> fst ` set (content_lock (buf_desc p i)) \<Longrightarrow> \<not> has_flag (buf_state p i) BM_TAG_VALID \<Longrightarrow>
    (perm t \<longleftrightarrow> permanent \<or> forkNum t = INIT_FORKNUM) \<Longrightarrow> claim_victim me permanent t i p = (r', q) \<Longrightarrow> pool_step cfg perm p Silent q"
| read: "i < NBuffers p \<Longrightarrow> 0 < PrivateRefCount p me i \<Longrightarrow> has_flag (buf_state p i) BM_TAG_VALID \<Longrightarrow> WaitReadBuffer cfg i p = (r, q) \<Longrightarrow>
    pool_step cfg perm p Silent q"
| zero_fill: "i < NBuffers p \<Longrightarrow> PrivateRefCount p me i = 1 \<Longrightarrow> \<not> has_flag (buf_state p i) BM_TAG_VALID \<Longrightarrow>
    pool_step cfg perm p Silent (p\<lparr>BufferBlocks := (BufferBlocks p)[i := zero_page_bytes]\<rparr>)"
| new_tag: "i < NBuffers p \<Longrightarrow> PrivateRefCount p me i = 1 \<Longrightarrow> \<not> has_flag (buf_state p i) BM_TAG_VALID \<Longrightarrow> BufTableLookup t p = None \<Longrightarrow>
    (perm t \<longleftrightarrow> permanent \<or> forkNum t = INIT_FORKNUM) \<Longrightarrow> insert_new_block me permanent t i p = (r'', q) \<Longrightarrow> pool_step cfg perm p Silent q"
| new_block: "i < NBuffers p \<Longrightarrow> 0 < PrivateRefCount p me i \<Longrightarrow> has_flag (buf_state p i) BM_TAG_VALID \<Longrightarrow> \<not> has_flag (buf_state p i) BM_VALID \<Longrightarrow>
    tag (buf_desc p i) = t \<Longrightarrow> disk p t = None \<Longrightarrow> BufferBlocks p ! i = zero_page_bytes \<Longrightarrow> new_block_io me lock_first t i p = (Inr j, q) \<Longrightarrow>
    pool_step cfg perm p (Wrote t (sans_checksum zero_page_bytes)) q"
| abort: "i < NBuffers p \<Longrightarrow> 0 < PrivateRefCount p me i \<Longrightarrow> has_flag (buf_state p i) BM_IO_IN_PROGRESS \<Longrightarrow> pool_step cfg perm p Silent (AbortBufferIO i p)"
| modify: "i < NBuffers p \<Longrightarrow> (me, True) \<in> set (content_lock (buf_desc p i)) \<Longrightarrow> has_flag (buf_state p i) BM_VALID \<Longrightarrow> length pg = BLCKSZ \<Longrightarrow>
    write_page i pg p = (r, q) \<Longrightarrow> pool_step cfg perm p (Wrote (tag (buf_desc p i)) (sans_checksum pg)) q"

text \<open>The store the pool stands for: a block has what was written to it last.\<close>

fun store_event :: "pool_event \<Rightarrow> (BufferTag \<Rightarrow> bytes option) \<Rightarrow> BufferTag \<Rightarrow> bytes option" where
  "store_event Silent s = s"
| "store_event (Wrote t pg) s = s(t \<mapsto> pg)"

inductive pool_run :: "page_settings \<Rightarrow> (BufferTag \<Rightarrow> bool) \<Rightarrow> pool \<Rightarrow> pool_event list \<Rightarrow> pool \<Rightarrow> bool" for cfg perm where
  stop: "pool_run cfg perm p [] p"
| more: "pool_step cfg perm p e p' \<Longrightarrow> pool_run cfg perm p' es q \<Longrightarrow> pool_run cfg perm p (e # es) q"

lemma SharedLockBuffer_ok:
  assumes "pool_ok perm p" "i < NBuffers p" "0 < PrivateRefCount p me i" "SharedLockBuffer me i mode p = (r, q)"
  shows "pool_ok perm q \<and> contents q = contents p"
proof (cases "mode = BUFFER_LOCK_UNLOCK")
  case True
  then show ?thesis using LWLockRelease_ok [OF assms(1,2)] assms(4) by (simp add: SharedLockBuffer_def)
next
  case False
  obtain r' q' where a: "LWLockConditionalAcquire me i (mode = BUFFER_LOCK_EXCLUSIVE) p = (r', q')"
    by (cases "LWLockConditionalAcquire me i (mode = BUFFER_LOCK_EXCLUSIVE) p")
  then have "q = q'" using assms(4) False by (auto simp: SharedLockBuffer_def bindC_def split: sum.splits if_splits)
  then show ?thesis using LWLockConditionalAcquire_ok [OF assms(1-3) a] by simp
qed

lemma step_ok:
  assumes "pool_step cfg perm p e q" "pool_ok perm p" "\<not> zero_damaged_pages cfg"
  shows "pool_ok perm q \<and> contents q = store_event e (contents p)"
  using assms
proof (cases rule: pool_step.cases)
  case (hit t i me v)
  then have "i < NBuffers p" using pool_okD(5) [OF assms(2)] by (simp add: BufTableLookup_def)
  from PinBuffer_ok(1,2) [OF assms(2) this hit(3,4)] show ?thesis using hit(1) by simp
next
  case (choose i p' me)
  have "chosen p (Inr i, p')" using StrategyGetBuffer_chosen [of p] pool_okD(1,2) [OF assms(2)] choose(3) by simp
  from victim_pinned(1) [OF assms(2) choose(4) this] show ?thesis using choose(1,2) by (simp add: pinned_victim_def)
next
  case (no_victim e')
  have "chosen p (Inl e', q)" using StrategyGetBuffer_chosen [of p] pool_okD(1,2) [OF assms(2)] no_victim(2) by simp
  then show ?thesis using kept_pool_ok [OF assms(2), of q] pool_okD(2) [OF assms(2)] no_victim(1) by (simp add: chosen_def)
next
  case (unpin i me r)
  have q: "q = UnpinBuffer me i p" using unpin(2,6) by (simp add: SharedReleaseBuffer_def)
  have "pool_ok perm (UnpinBuffer me i p)" "contents (UnpinBuffer me i p) = contents p"
    using UnpinBuffer_ok(1,2) [OF assms(2) unpin(2,3)] unpin(4,5) by (simp_all add: has_flag_bit)
  then show ?thesis using q unpin(1) by simp
next
  case (lock i me mode r)
  then show ?thesis using SharedLockBuffer_ok [OF assms(2)] by simp
next
  case (flush i me x r)
  then show ?thesis using FlushBuffer_ok [OF assms(2)] by simp
next
  case (invalidate i me r)
  have t: "bit (buf_state p i) 25" using invalidate(4) by (simp add: has_flag_bit)
  show ?thesis using invalidate(1,5) cleared_ok [OF assms(2) invalidate(2) t] assms(2)
    unfolding InvalidateVictimBuffer_run [OF assms(2) invalidate(2) t] by (auto split: if_splits)
next
  case (claim i me t permanent r)
  have t: "\<not> bit (buf_state p i) 25" using claim(5) by (simp add: has_flag_bit)
  show ?thesis using claim_victim_ok [OF assms(2) claim(2-4) t claim(6,7)] claim(1) by simp
next
  case (read i me r)
  have t: "bit (buf_state p i) 25" using read(4) by (simp add: has_flag_bit)
  show ?thesis using WaitReadBuffer_ok(1,2) [OF assms(2) read(2,3) t assms(3) read(5)] read(1) by simp
next
  case (zero_fill i me)
  have "\<not> bit (buf_state p i) 25" using zero_fill(5) by (simp add: has_flag_bit)
  from fill_invalid(1,2) [OF assms(2) zero_fill(3) this] show ?thesis using zero_fill(1,2) by simp
next
  case (new_tag i me t permanent r)
  have nt: "\<not> bit (buf_state p i) 25" "0 < PrivateRefCount p me i" "SharedBufHash p t = None" using new_tag(3,4,5) by (simp_all add: has_flag_bit BufTableLookup_def)
  from insert_new_block_step [OF assms(2) new_tag(2) nt new_tag(6)] show ?thesis using new_tag(1,7) by auto
next
  case (new_block i me t lock_first j)
  have b: "bit (buf_state p i) 25" "\<not> bit (buf_state p i) 24" using new_block(4,5) by (simp_all add: has_flag_bit)
  from new_block_io_step(2,3) [OF assms(2) new_block(2) b new_block(6,8,3,9)] show ?thesis using new_block(1) by simp
next
  case (abort i me)
  then show ?thesis using AbortBufferIO_ok [OF assms(2)] by simp
next
  case (modify i me pg r)
  have v: "bit (buf_state p i) 24" using modify(4) by (simp add: has_flag_bit)
  show ?thesis using write_page_ok(1,2) [OF assms(2) modify(2) v modify(5,6)] modify(1) by simp
qed

lemma run_ok:
  "pool_run cfg perm p es q \<Longrightarrow> pool_ok perm p \<Longrightarrow> \<not> zero_damaged_pages cfg \<Longrightarrow> pool_ok perm q \<and> contents q = fold store_event es (contents p)"
proof (induction rule: pool_run.induct)
  case (more p e p' es q)
  then show ?case using step_ok [OF more.hyps(1)] by simp
qed simp

section \<open>What the pool promises\<close>

text \<open>C11. The buffer pool is a transparent cache. From the start of the server, under every interleaving of the steps of the backends
  (pins, victims, writes of dirty pages, evictions, claims of a buffer for a block, reads, locks, failed reads, changes of pages), the pool
  stays consistent, and every block contains what was written to it last, or what its file had at the start if nothing was.
  The setting \<^verbatim>\<open>zero_damaged_pages\<close> is off.\<close>

theorem pool_refines_store:
  assumes "pool_run cfg perm (InitBufferPool n p) es q" "0 < n" "n < 2 ^ 31" "\<not> zero_damaged_pages cfg"
    "\<forall>t pg. disk p t = Some pg \<longrightarrow> length pg = BLCKSZ \<and> (perm t \<longrightarrow> PageGetLSN pg \<le> flushed p)"
  shows "pool_ok perm q \<and> contents q = fold store_event es (\<lambda>t. map_option sans_checksum (disk p t))"
proof -
  have "length pg = BLCKSZ \<and> (perm t \<longrightarrow> PageGetLSN pg \<le> flushed p)" if "disk p t = Some pg" for t pg using assms(5) that by blast
  note init = init_ok [OF assms(2,3) this]
  show ?thesis using run_ok [OF assms(1) init(1) assms(4)] init(2) by simp
qed

text \<open>C12. Reading a block through the pool, whatever the state of the pool and whichever buffer has to be evicted for it, gives a buffer
  that the caller has pinned and that holds the contents of that block; the contents of all blocks are as before, and no valid buffer
  that somebody had pinned has been reused. The errors that can occur instead are those listed, each only for its own reason.
  The setting \<^verbatim>\<open>zero_damaged_pages\<close> is off.\<close>

theorem read_returns_block:
  assumes "pool_ok perm p" "me < MAX_BACKENDS" "perm t \<longleftrightarrow> permanent \<or> forkNum t = INIT_FORKNUM" "\<not> zero_damaged_pages cfg"
  shows "case SharedReadBuffer cfg (Suc n) me permanent t p of (r, q) \<Rightarrow>
    pool_ok perm q \<and> contents q = contents p \<and> undisturbed p q \<and>
    (case r of
       Inr i \<Rightarrow> i < NBuffers q \<and> 0 < PrivateRefCount q me i \<and> tag (buf_desc q i) = t \<and> has_flag (buf_state q i) BM_VALID \<and>
         contents p t = Some (sans_checksum (BufferBlocks q ! i))
     | Inl e \<Rightarrow> read_error cfg t p e)"
proof -
  obtain r q where rq: "SharedReadBuffer cfg (Suc n) me permanent t p = (r, q)" by (cases "SharedReadBuffer cfg (Suc n) me permanent t p")
  from read_ok [OF assms rq] show ?thesis by (simp add: rq read_outcome_def)
qed

text \<open>C13. Extending a relation by a block that no buffer is left over for gives a pinned buffer, exclusively locked if that was asked for, with a
  page of zeros for the new block; the block exists from then on with these contents, all other blocks are as before, and no valid buffer that somebody
  had pinned has been reused. Below the limit on the number of blocks it fails only when every buffer is
  pinned, and then changes nothing.\<close>

theorem extend_makes_zero_page:
  assumes "pool_ok perm p" "me < MAX_BACKENDS" "perm t \<longleftrightarrow> permanent \<or> forkNum t = INIT_FORKNUM" "SharedBufHash p t = None" "blockNum t + 1 < MaxBlockNumber"
  shows "case ExtendBufferedRelShared cfg (Suc n) me permanent lock_first t p of
      (Inr i, q) \<Rightarrow> pool_ok perm q \<and> contents q = (contents p)(t \<mapsto> sans_checksum zero_page_bytes) \<and> undisturbed p q \<and> PrivateRefCount q me i = 1 \<and>
        tag (buf_desc q i) = t \<and> has_flag (buf_state q i) BM_VALID \<and> BufferBlocks q ! i = zero_page_bytes \<and>
        content_lock (buf_desc q i) = (if lock_first then [(me, True)] else [])
    | (Inl e, q) \<Rightarrow> e = NoUnpinnedBuffers \<and> (\<forall>i < NBuffers p. 0 < refc (buf_state p i)) \<and> pool_ok perm q \<and> contents q = contents p"
  using extend_ok [OF assms, of cfg n lock_first] by auto

text \<open>C40. A buffer that a failed read beyond the end of the file has left over keeps the page that was in it before. When the relation is then
  extended by that block while somebody has the buffer pinned, so that it is not chosen as the victim, it is made valid as it is:
  it is clean, holds the old page, and the file has a page of zeros. The pool is
  inconsistent from then on unless the old page was zero.\<close>

theorem extend_takes_stale_page:
  assumes "pool_ok perm p" "me < MAX_BACKENDS" "SharedBufHash p t = Some j" "\<not> has_flag (buf_state p j) BM_VALID" "\<not> has_flag (buf_state p j) BM_IO_IN_PROGRESS"
    "0 < refc (buf_state p j)" "content_lock (buf_desc p j) = []" "blockNum t + 1 < MaxBlockNumber" "\<exists>i < NBuffers p. refc (buf_state p i) = 0"
    "sans_checksum (BufferBlocks p ! j) \<noteq> sans_checksum zero_page_bytes"
  shows "\<exists>q. ExtendBufferedRelShared cfg (Suc n) me permanent lock_first t p = (Inr j, q) \<and> has_flag (buf_state q j) BM_VALID \<and>
    \<not> has_flag (buf_state q j) BM_DIRTY \<and> BufferBlocks q ! j = BufferBlocks p ! j \<and> disk q t = Some zero_page_bytes \<and> \<not> pool_ok perm q"
proof -
  have bits: "\<not> bit (buf_state p j) 24" "\<not> bit (buf_state p j) 26" using assms(4,5) by (simp_all add: has_flag_bit)
  obtain q where q: "ExtendBufferedRelShared cfg (Suc n) me permanent lock_first t p = (Inr j, q)" "has_flag (buf_state q j) BM_VALID"
      "\<not> has_flag (buf_state q j) BM_DIRTY" "tag (buf_desc q j) = t" "BufferBlocks q ! j = BufferBlocks p ! j" "disk q t = Some zero_page_bytes" "j < NBuffers q"
    using extend_existing [OF assms(1-3) bits assms(6-9), of cfg n permanent lock_first] by blast
  have "\<not> pool_ok perm q"
  proof
    assume "pool_ok perm q"
    from buf_okD(8) [OF pool_okD(4) [OF this q(7)]] q(2-6) assms(10) show False by (simp add: has_flag_bit)
  qed
  then show ?thesis using q by blast
qed

text \<open>C23. The log comes first: at every moment of every interleaving, the log is on disk up to the position of every page of a
  permanent relation that is on disk.\<close>

theorem wal_before_data:
  assumes "pool_run cfg perm (InitBufferPool n p) es q" "0 < n" "n < 2 ^ 31" "\<not> zero_damaged_pages cfg"
    "\<forall>t pg. disk p t = Some pg \<longrightarrow> length pg = BLCKSZ \<and> (perm t \<longrightarrow> PageGetLSN pg \<le> flushed p)"
    "perm t" "disk q t = Some pg"
  shows "PageGetLSN pg \<le> flushed q"
proof -
  have "length pg = BLCKSZ \<and> (perm t \<longrightarrow> PageGetLSN pg \<le> flushed p)" if "disk p t = Some pg" for t pg using assms(5) that by blast
  from run_ok [OF assms(1) init_ok(1) [OF assms(2,3) this] assms(4)] show ?thesis using pool_okD(7) assms(6,7) by blast
qed

subsection \<open>An example\<close>

text \<open>A server with one buffer and one file of one empty page; a backend reads the page and changes it.\<close>

definition sample_tag :: BufferTag where
  "sample_tag = \<lparr>spcOid = 1663, dbOid = 5, relNumber = 16384, forkNum = MAIN_FORKNUM, blockNum = 0\<rparr>"

definition sample_cfg :: page_settings where
  "sample_cfg = \<lparr>data_checksums = True, ignore_checksum_failure = False, zero_damaged_pages = False\<rparr>"

definition sample_files :: pool where
  "sample_files = sample_pool\<lparr>disk := [sample_tag \<mapsto> replicate BLCKSZ 0], flushed := 0\<rparr>"

lemma sample_files_ok: "\<forall>t pg. disk sample_files t = Some pg \<longrightarrow> length pg = BLCKSZ \<and> (True \<longrightarrow> PageGetLSN pg \<le> flushed sample_files)"
  by (simp add: sample_files_def zero_page)

definition sample_events :: "pool_event list" where
  "sample_events = [Silent, Silent, Silent, Silent, Wrote sample_tag (sans_checksum sample_bytes)]"

lemma sample_start:
  "pool_ok (\<lambda>_. True) (InitBufferPool 1 sample_files)" "buf_state (InitBufferPool 1 sample_files) 0 = 0" "NBuffers (InitBufferPool 1 sample_files) = 1"
  "SharedBufHash (InitBufferPool 1 sample_files) = (\<lambda>_. None)" "disk (InitBufferPool 1 sample_files) = [sample_tag \<mapsto> replicate BLCKSZ 0]"
proof -
  show "pool_ok (\<lambda>_. True) (InitBufferPool 1 sample_files)" using sample_files_ok by (intro init_ok) auto
qed (simp_all add: InitBufferPool_def StrategyInitialize_def Let_def sample_files_def)

text \<open>A claimed buffer is read, locked and changed.\<close>

lemma read_and_modify:
  assumes "pool_ok perm p" "i < NBuffers p" "bit (buf_state p i) 25" "\<not> bit (buf_state p i) 24" "\<not> bit (buf_state p i) 26" "0 < PrivateRefCount p me i"
    "content_lock (buf_desc p i) = []" "disk p (tag (buf_desc p i)) = Some pg0" "fst (PageIsVerifiedExtended cfg pg0 (blockNum (tag (buf_desc p i))) True True)"
    "\<not> zero_damaged_pages cfg" "length pg = BLCKSZ"
  shows "\<exists>q. pool_run cfg perm p [Silent, Silent, Wrote (tag (buf_desc p i)) (sans_checksum pg)] q"
proof -
  define p1 where "p1 = TerminateBufferIO i False BM_VALID ((set_state i (buf_state p i OR BM_IO_IN_PROGRESS) p)\<lparr>BufferBlocks := (BufferBlocks p)[i := pg0]\<rparr>)"
  have rd: "WaitReadBuffer cfg i p = (Inr (), p1)"
    using assms(4,5,8,9) by (simp add: WaitReadBuffer_run [OF assms(2,10)] p1_def)
  note w = WaitReadBuffer_ok [OF assms(1,2,6,3,10) rd]
  have d: "content_lock (buf_desc p1 i) = []" using assms(2,7) by (simp add: p1_def TerminateBufferIO_def Let_def)
  have v: "has_flag (buf_state p1 i) BM_VALID" "i < NBuffers p1" "0 < PrivateRefCount p1 me i" "tag (buf_desc p1 i) = tag (buf_desc p i)"
    using w(3-5) assms(2,6) by (simp_all add: has_flag_bit only_def)
  let ?p2 = "set_lock i [(me, True)] p1"
  have lk: "SharedLockBuffer me i BUFFER_LOCK_EXCLUSIVE p1 = (Inr (), ?p2)"
    using d by (simp add: SharedLockBuffer_def bindC_def LWLockConditionalAcquire_def lock_free_def)
  obtain r q where wp: "write_page i pg ?p2 = (r, q)" by (cases "write_page i pg ?p2")
  have "pool_step cfg perm p Silent p1" using assms(3) by (intro pool_step.read [OF assms(2,6) _ rd]) (simp add: has_flag_bit)
  moreover have "pool_step cfg perm p1 Silent ?p2" by (rule pool_step.lock [OF v(2,3) lk])
  moreover have "pool_step cfg perm ?p2 (Wrote (tag (buf_desc ?p2 i)) (sans_checksum pg)) q"
    using v by (intro pool_step.modify [OF _ _ _ assms(11) wp, of me]) simp_all
  ultimately show ?thesis using v(2,4) by (intro exI [of _ q]) (auto intro!: pool_run.intros)
qed

lemma sample_claimed:
  obtains p2 p3 where "pool_step sample_cfg (\<lambda>_. True) (InitBufferPool 1 sample_files) Silent p2" "pool_step sample_cfg (\<lambda>_. True) p2 Silent p3"
    "pool_ok (\<lambda>_. True) p3" "bit (buf_state p3 0) 25" "\<not> bit (buf_state p3 0) 24" "\<not> bit (buf_state p3 0) 26" "tag (buf_desc p3 0) = sample_tag" "0 < NBuffers p3"
    "0 < PrivateRefCount p3 0 0" "disk p3 sample_tag = Some (replicate BLCKSZ 0)" "content_lock (buf_desc p3 0) = []"
proof -
  let ?perm = "\<lambda>_ :: BufferTag. True" and ?p = "InitBufferPool 1 sample_files"
  note p = sample_start
  obtain r p1 where get: "StrategyGetBuffer ?p = (r, p1)" by (cases "StrategyGetBuffer ?p")
  have c: "chosen ?p (r, p1)" using StrategyGetBuffer_chosen [of ?p] pool_okD(1,2) [OF p(1)] get by simp
  have "r = Inr 0" using c p(2,3) by (auto simp: chosen_def state_word_defs split: sum.splits)
  note c = c [unfolded this] and get = get [unfolded this]
  have me: "0 < MAX_BACKENDS" by (simp add: MAX_BACKENDS_def)
  let ?p2 = "PinBuffer_Locked 0 0 p1"
  have v: "pinned_victim ?perm 0 0 ?p ?p2" using victim_pinned(1) [OF p(1) me c] .
  then have v2: "pool_ok ?perm ?p2" "0 < NBuffers ?p2" "PrivateRefCount ?p2 0 0 = 1" "content_lock (buf_desc ?p2 0) = []" "SharedBufHash ?p2 sample_tag = None"
      "disk ?p2 sample_tag = Some (replicate BLCKSZ 0)" "\<not> bit (buf_state ?p2 0) 26"
    using p(4,5) by (simp_all add: pinned_victim_def)
  have "\<not> bit (buf_state ?p2 0) 25" using victim_pinned(2) [OF p(1) me c, of 25] c p(2,3) by (auto simp: chosen_def kept_def)
  then have nt: "\<not> has_flag (buf_state ?p2 0) BM_TAG_VALID" "\<not> bit (buf_state ?p2 0) 24"
    using buf_okD(4) [OF pool_okD(4) [OF v2(1,2)]] by (auto simp: has_flag_bit)
  let ?p3 = "claimed True sample_tag 0 ?p2"
  have claim: "claim_victim 0 True sample_tag 0 ?p2 = (Inr (0, False), ?p3)" using claim_fresh [where perm = ?perm, OF v2(5)] by simp
  have v3: "bit (buf_state ?p3 0) 25" "\<not> bit (buf_state ?p3 0) 24" "\<not> bit (buf_state ?p3 0) 26" "tag (buf_desc ?p3 0) = sample_tag" "0 < NBuffers ?p3"
      "0 < PrivateRefCount ?p3 0 0" "disk ?p3 sample_tag = Some (replicate BLCKSZ 0)" "content_lock (buf_desc ?p3 0) = []"
    using v2 nt(2) by (simp_all add: claimed_simps [OF v2(2)])
  have "pool_step sample_cfg ?perm ?p Silent ?p2" using get me by (rule pool_step.choose)
  moreover have "pool_step sample_cfg ?perm ?p2 Silent ?p3"
    using v2(4) by (intro pool_step.claim [OF v2(2,3) _ nt(1) _ claim]) simp_all
  moreover have "pool_ok ?perm ?p3" using claimed_ok(1) [where perm = ?perm, OF v2(1,2) _ v2(5)] nt(1) by (simp add: has_flag_bit)
  ultimately show ?thesis using v3 by (rule that)
qed

lemma sample_run: "\<exists>q. pool_run sample_cfg (\<lambda>_. True) (InitBufferPool 1 sample_files) sample_events q"
proof -
  obtain p2 p3 where s: "pool_step sample_cfg (\<lambda>_. True) (InitBufferPool 1 sample_files) Silent p2" "pool_step sample_cfg (\<lambda>_. True) p2 Silent p3"
      "pool_ok (\<lambda>_. True) p3" "bit (buf_state p3 0) 25" "\<not> bit (buf_state p3 0) 24" "\<not> bit (buf_state p3 0) 26" "tag (buf_desc p3 0) = sample_tag" "0 < NBuffers p3"
      "0 < PrivateRefCount p3 0 0" "disk p3 sample_tag = Some (replicate BLCKSZ 0)" "content_lock (buf_desc p3 0) = []"
    by (rule sample_claimed)
  have "fst (PageIsVerifiedExtended sample_cfg (replicate BLCKSZ 0) 0 True True)"
    using written_page_verifies [OF zero_page(1), of sample_cfg 0 True True] by (simp add: zero_page)
  moreover have "blockNum sample_tag = 0" "length sample_bytes = BLCKSZ" "\<not> zero_damaged_pages sample_cfg"
    using sample_bytes_writable by (simp_all add: sample_tag_def writable_def sample_cfg_def)
  ultimately obtain q where "pool_run sample_cfg (\<lambda>_. True) p3 [Silent, Silent, Wrote sample_tag (sans_checksum sample_bytes)] q"
    using read_and_modify [OF s(3,8,4,5,6,9,11), of "replicate BLCKSZ 0" sample_cfg sample_bytes] s(7,10) by auto
  then show ?thesis unfolding sample_events_def using pool_run.more [OF s(1) pool_run.more [OF s(2)]] by blast
qed

theorem pool_refines_store_witness:
  "\<exists>q. pool_run sample_cfg (\<lambda>_. True) (InitBufferPool 1 sample_files) sample_events q \<and> contents q sample_tag = Some (sans_checksum sample_bytes)"
proof -
  obtain q where run: "pool_run sample_cfg (\<lambda>_. True) (InitBufferPool 1 sample_files) sample_events q" using sample_run by blast
  have "contents q = fold store_event sample_events (\<lambda>t. map_option sans_checksum (disk sample_files t))"
    using pool_refines_store [OF run] sample_files_ok by (simp add: sample_cfg_def)
  then show ?thesis using run by (auto simp: sample_events_def)
qed

theorem read_returns_block_witness:
  "\<exists>i q. SharedReadBuffer sample_cfg 1 0 True sample_tag (InitBufferPool 1 sample_files) = (Inr i, q) \<and> tag (buf_desc q i) = sample_tag \<and>
    contents q = contents (InitBufferPool 1 sample_files)"
proof -
  let ?p = "InitBufferPool 1 sample_files"
  have h: "pool_ok (\<lambda>_. True) ?p" "0 < MAX_BACKENDS" "\<not> zero_damaged_pages sample_cfg"
    using sample_start(1) by (simp_all add: MAX_BACKENDS_def sample_cfg_def)
  obtain r q where rq: "SharedReadBuffer sample_cfg 1 0 True sample_tag ?p = (r, q)" by (cases "SharedReadBuffer sample_cfg 1 0 True sample_tag ?p")
  have "fst (PageIsVerifiedExtended sample_cfg (replicate BLCKSZ 0) 0 True True)"
    using written_page_verifies [OF zero_page(1), of sample_cfg 0 True True] by (simp add: zero_page)
  then have "\<not> read_error sample_cfg sample_tag ?p e" for e
    using sample_start(2,3,4,5) by (auto simp: read_error_def state_word_defs sample_tag_def)
  then show ?thesis
    using read_returns_block [where t = sample_tag and permanent = True and n = 0 and perm = "\<lambda>_. True", OF h(1,2) _ h(3)] rq by (cases r) auto
qed

theorem wal_before_data_witness:
  "\<exists>q pg. pool_run sample_cfg (\<lambda>_. True) (InitBufferPool 1 sample_files) [] q \<and> disk q sample_tag = Some pg \<and> PageGetLSN pg \<le> flushed q"
proof -
  have run: "pool_run sample_cfg (\<lambda>_. True) (InitBufferPool 1 sample_files) [] (InitBufferPool 1 sample_files)" by (rule pool_run.stop)
  have "PageGetLSN (replicate BLCKSZ 0) \<le> flushed (InitBufferPool 1 sample_files)"
    using wal_before_data [OF run, of sample_tag "replicate BLCKSZ 0"] sample_files_ok sample_start(5) by (simp add: sample_cfg_def)
  moreover have "disk (InitBufferPool 1 sample_files) sample_tag = Some (replicate BLCKSZ 0)" by (simp only: sample_start(5)) simp
  ultimately show ?thesis using run by blast
qed

theorem extend_makes_zero_page_witness:
  "case ExtendBufferedRelShared sample_cfg 1 0 True True (sample_tag\<lparr>blockNum := 1\<rparr>) (InitBufferPool 1 sample_files) of
     (Inr i, q) \<Rightarrow> contents q = (contents (InitBufferPool 1 sample_files))(sample_tag\<lparr>blockNum := 1\<rparr> \<mapsto> sans_checksum zero_page_bytes)
   | (Inl e, q) \<Rightarrow> False"
proof -
  let ?p = "InitBufferPool 1 sample_files" and ?t = "sample_tag\<lparr>blockNum := 1\<rparr>"
  have h: "pool_ok (\<lambda>_. True) ?p" "0 < MAX_BACKENDS" "SharedBufHash ?p ?t = None" "blockNum ?t + 1 < MaxBlockNumber"
    using sample_start(1,4) by (simp_all add: MAX_BACKENDS_def MaxBlockNumber_def)
  have "\<not> (\<forall>i < NBuffers ?p. 0 < refc (buf_state ?p i))" using sample_start(2,3) by (auto simp: state_word_defs)
  then show ?thesis
    using extend_makes_zero_page [where perm = "\<lambda>_. True" and permanent = True and cfg = sample_cfg and n = 0 and lock_first = True, OF h(1,2) _ h(3,4)]
    by (auto split: prod.splits sum.splits)
qed

text \<open>Two buffers; the first is left over by a read of block 1, which does not exist, and holds an old page.\<close>

definition sample_stale :: pool where
  "sample_stale = snd (PinBuffer 3 0 (claimed True (sample_tag\<lparr>blockNum := 1\<rparr>) 0
     ((InitBufferPool 2 sample_files)\<lparr>BufferBlocks := (BufferBlocks (InitBufferPool 2 sample_files))[0 := sample_bytes]\<rparr>)))"

lemma sample_stale:
  "pool_ok (\<lambda>_. True) sample_stale" "SharedBufHash sample_stale (sample_tag\<lparr>blockNum := 1\<rparr>) = Some 0" "\<not> has_flag (buf_state sample_stale 0) BM_VALID"
  "\<not> has_flag (buf_state sample_stale 0) BM_IO_IN_PROGRESS" "0 < refc (buf_state sample_stale 0)" "content_lock (buf_desc sample_stale 0) = []"
  "NBuffers sample_stale = 2" "refc (buf_state sample_stale 1) = 0" "BufferBlocks sample_stale ! 0 = sample_bytes"
proof -
  let ?t = "sample_tag\<lparr>blockNum := 1\<rparr>" and ?p = "InitBufferPool 2 sample_files"
  define p1 where "p1 = ?p\<lparr>BufferBlocks := (BufferBlocks ?p)[0 := sample_bytes]\<rparr>"
  define p2 where "p2 = claimed True ?t 0 p1"
  obtain v q where pin: "PinBuffer 3 0 p2 = (v, q)" by (cases "PinBuffer 3 0 p2")
  have s: "sample_stale = q" using pin by (simp add: sample_stale_def p2_def p1_def)
  have i: "NBuffers ?p = 2" "buf_state ?p 0 = 0" "content_lock (buf_desc ?p 0) = []" "PrivateRefCount ?p 3 0 = 0" "buf_state ?p (Suc 0) = 0" "SharedBufHash ?p = (\<lambda>_. None)" "length (BufferBlocks ?p) = 2"
    by (simp_all add: InitBufferPool_def StrategyInitialize_def Let_def)
  have "pool_ok (\<lambda>_. True) ?p" using sample_files_ok by (intro init_ok) auto
  then have "pool_ok (\<lambda>_. True) p1" unfolding p1_def by (rule fill_invalid(1)) (simp_all add: i)
  then have "pool_ok (\<lambda>_. True) p2"
    using claimed_ok(1) [where perm = "\<lambda>_. True" and p = p1 and i = 0 and t = ?t] by (simp add: p2_def p1_def i)
  moreover have n2: "NBuffers p2 = 2" "buf_state p2 (Suc 0) = 0" by (simp_all add: p2_def p1_def claimed_def upd_desc_def i)
  ultimately show "pool_ok (\<lambda>_. True) sample_stale" using PinBuffer_ok(1) [where perm = "\<lambda>_. True", OF _ _ _ pin] by (simp add: s MAX_BACKENDS_def)
  have c: "PrivateRefCount p2 3 0 = 0" "buf_state p2 0 = BM_TAG_VALID OR BUF_USAGECOUNT_ONE OR BM_PERMANENT" "content_lock (buf_desc p2 0) = []"
    "SharedBufHash p2 ?t = Some 0" "BufferBlocks p2 ! 0 = sample_bytes"
    by (simp_all add: p2_def p1_def claimed_def upd_desc_def Let_def i or.assoc)
  have q: "q = snd (PinBuffer 3 0 p2)" using pin by simp
  show "SharedBufHash sample_stale ?t = Some 0" "\<not> has_flag (buf_state sample_stale 0) BM_VALID" "\<not> has_flag (buf_state sample_stale 0) BM_IO_IN_PROGRESS"
    "0 < refc (buf_state sample_stale 0)" "content_lock (buf_desc sample_stale 0) = []" "NBuffers sample_stale = 2" "refc (buf_state sample_stale 1) = 0"
    "BufferBlocks sample_stale ! 0 = sample_bytes"
    using n2 c by (simp_all add: s q PinBuffer_def Let_def state_word_defs has_flag_def BM_TAG_VALID_def BM_PERMANENT_def BM_VALID_def BM_IO_IN_PROGRESS_def
        BM_MAX_USAGE_COUNT_def)
qed

theorem extend_takes_stale_page_witness:
  "\<exists>q. ExtendBufferedRelShared sample_cfg 1 0 True True (sample_tag\<lparr>blockNum := 1\<rparr>) sample_stale = (Inr 0, q) \<and> BufferBlocks q ! 0 = sample_bytes \<and>
     disk q (sample_tag\<lparr>blockNum := 1\<rparr>) = Some zero_page_bytes \<and> \<not> pool_ok (\<lambda>_. True) q"
proof -
  have "sans_checksum sample_bytes ! 12 \<noteq> sans_checksum zero_page_bytes ! 12"
    by (simp add: sans_checksum_def put_bytes_def sample_bytes_def zero_page_bytes_def le16_def nth_append BLCKSZ_def)
  then have "sans_checksum (BufferBlocks sample_stale ! 0) \<noteq> sans_checksum zero_page_bytes" using sample_stale(9) by auto
  moreover have "\<exists>i < NBuffers sample_stale. refc (buf_state sample_stale i) = 0" using sample_stale(7,8) by (intro exI [of _ 1]) simp
  ultimately show ?thesis
    using extend_takes_stale_page [OF sample_stale(1) _ sample_stale(2-6), where n = 0 and me = 0 and cfg = sample_cfg and permanent = True and lock_first = True]
      sample_stale(9)
    by (auto simp: MAX_BACKENDS_def MaxBlockNumber_def)
qed

end
