(* ===== verification/Spec2Isabelle.thy ===== *)
theory Spec2Isabelle
  imports TR_AccessMethod TR_Crash TR_GenericXLog TR_PageEdit TR_BufPool
begin

text \<open>
  A verification development of the \<^verbatim>\<open>temporal_rtree\<close> index access method
  (\<^verbatim>\<open>src/postgresql/contrib/temporal_rtree\<close>) and of the parts of PostgreSQL it stands on.

  \<^bold>\<open>The program.\<close> The extension is an R-tree over values of type \<^verbatim>\<open>cube\<close> whose first dimension is a period of time and whose second is
  an attribute. An index is a relation of 8 kB pages: a meta page that names the root, inner pages with downlinks and
  bounding boxes, leaves with the rows. Insertion descends by the smallest penalty, splits full pages and promotes a new root; a scan
  walks the tree with a stack; vacuum removes dead rows and rebuilds the downlinks; the handler gives the table of entry points to the
  server; the planner gets a cost estimate and, by hooks, cheaper index paths. Pages are changed through the buffer manager and
  logged as generic WAL records.

  \<^bold>\<open>How the code is modelled.\<close> A structure is a record, an enumeration a datatype, a function of the code a function of the same name (a
  suffix or prefix where the name is taken). Code with effects is a computation \<open>'s \<Rightarrow> (pg_error + 'a) \<times> 's\<close>: the state
  survives an error, as shared memory does, and every \<^verbatim>\<open>ereport\<close>, failed guard and early return is a branch. Machine integers are words,
  or \<^typ>\<open>int\<close> with the wrap-around written out; doubles are modelled with their rounding. A wait (for a lock of
  another backend, for the I/O of another backend) is an error value that leaves the state unchanged: the step has not happened yet.
  What the sources call and do not contain (the catalogs, other hooks, the heap scan, clause selectivity, the result of an out-of-range
  \<^verbatim>\<open>llround\<close>) is an argument of the definitions.

  \<^bold>\<open>The theories.\<close>
  \<^item> \<open>TR_Prelude\<close>: errors, computations with state and errors, wrap-around, shared lemmas.
  \<^item> \<open>TR_Float64\<close>: IEEE binary64 numbers with rounding to nearest even, comparison, conversion, \<^verbatim>\<open>llround\<close>. Conversions are exact up to \<open>2\<^sup>5\<^sup>3\<close>
    and rounding is monotone.
  \<^item> \<open>TR_Cube\<close>: the datum of \<^verbatim>\<open>contrib/cube\<close>, its macros, constructors and the operators of the operator class.
  \<^item> \<open>TR_Box\<close>: temporal boxes (\<^verbatim>\<open>temporal_rtree_page.c\<close>, first half) and the SQL constructors (\<^verbatim>\<open>temporalbox--1.0.sql\<close>).
    Round trip of boxes and cubes; on temporal cubes (corners in order) the box test has no false negatives and is exact on whole seconds; the union is the least upper bound (locale \<open>mbr_union\<close>).
  \<^item> \<open>TR_Split\<close>: penalty and splits (\<^verbatim>\<open>temporal_rtree_split.c\<close>). A split is a partition with two inhabited sides.
  \<^item> \<open>TR_Bufpage\<close>, \<open>TR_Compact\<close>, \<open>TR_HeapPage\<close>, \<open>TR_PageEdit\<close>: slotted pages (\<^verbatim>\<open>bufpage.c\<close>) with line pointers and the bytes of the
    items: adding, deleting one or several items, compaction in both orders, overwriting, cleaning of heap pages. Each routine keeps the page
    well formed and does to the list of items what it says (locale \<open>slotted_page\<close> is the contract the index uses).
  \<^item> \<open>TR_Page\<close>: index tuples, the special space, meta and data pages, the bounding box of a page.
  \<^item> \<open>TR_Storage\<close>: blocks, buffers, locks and pins as the index sees them, and the logging wrappers (\<^verbatim>\<open>temporal_rtree_wal.c\<close>). The contract
    of reading a block that is used here, that it gives what was written last, is what \<open>TR_BufPool\<close> proves of the buffer manager.
  \<^item> \<open>TR_Tree\<close>: the tree a set of blocks represents, well-formedness, frame rules.
  \<^item> \<open>TR_Insert\<close>, \<open>TR_Index\<close>: insertion and build (\<^verbatim>\<open>temporal_rtree_insert.c\<close>, \<^verbatim>\<open>temporal_rtree_build.c\<close>): exactly the row is added.
  \<^item> \<open>TR_Search\<close>: scans (\<^verbatim>\<open>temporal_rtree_search.c\<close>): exactly the matching rows are returned, the loop ends on every state;
    what goes wrong (other keys ignored, no recheck, the lock that is kept) is stated as well.
  \<^item> \<open>TR_Vacuum\<close>: vacuum (\<^verbatim>\<open>temporal_rtree_vacuum.c\<close>): exactly the dead rows are removed, the recursion is bounded on every state.
  \<^item> \<open>TR_AccessMethod\<close>: the handler, and sequences of calls. The entry points refine a specification in which an index is a multiset of
    rows (locale \<open>call_simulation\<close>), and an index scan is a table scan.
  \<^item> \<open>TR_Delta\<close>, \<open>TR_GenericXLog\<close>: generic WAL records on the bytes of pages (\<^verbatim>\<open>generic_xlog.c\<close>): a delta fits its buffer, replay
    reproduces the change and is idempotent.
  \<^item> \<open>TR_Crash\<close>: recovery of the index: what insertions and vacuums recover exactly, and that the split of the root is not recovered.
  \<^item> \<open>TR_Cost\<close>, \<open>TR_Hooks\<close>: the cost estimate and the planner and executor hooks.
  \<^item> \<open>TR_Checksum\<close>: page checksums and the verification of pages (\<^verbatim>\<open>checksum_impl.h\<close>, \<^verbatim>\<open>bufpage.c\<close>).
  \<^item> \<open>TR_BufState\<close>, \<open>TR_BufMgr\<close>, \<open>TR_BufCache\<close>, \<open>TR_BufExtend\<close>, \<open>TR_BufPool\<close>: shared buffers (\<^verbatim>\<open>buf_internals.h\<close>, \<^verbatim>\<open>buf_table.c\<close>, \<^verbatim>\<open>freelist.c\<close>, \<^verbatim>\<open>bufmgr.c\<close>): the state word with pin
    count, usage count and flags at its 32 bits, the clock sweep, pins, content locks, I/O, eviction, allocation, reading and extension by a block. The sweep ends
    and finds an unpinned buffer if there is one; the invariant of the pool is kept by every step; for every interleaving
    of the steps of the backends the pool is a transparent cache of the files and the log is written before the data. An extension is a step of these interleavings only for a block without a
    buffer: an invalid buffer left over for the block is taken over with its old page, which breaks the invariant.

  \<^bold>\<open>Bounds and fuel.\<close> The recursion of vacuum has fuel: one more than the number of blocks, which is shown to be enough on every state. The jumps
  back in \<^verbatim>\<open>GetVictimBuffer\<close> have fuel, and one round is shown to be enough when no other backend comes in between; every round
  is also a sequence of steps of the interleaving. All other loops are total functions, with proofs of termination. Sequences of
  calls are taken with at most 60000 rows and insertions in all, so that no block number overflows. Boxes are taken with bounds up to
  \<open>2\<^sup>5\<^sup>3\<close> microseconds, the exact range of a double, or infinite. A relation has index tuples
  of one size, from 24 to 8000 bytes, and boxes that span more than one rounded second (\<open>indexable\<close>): with tuples of several sizes, or with
  instants, whose tuples are smaller than their bounding boxes, the code does not make sure that a tuple fits in its half of a split or that a
  larger downlink fits in the place of a smaller one.

  \<^bold>\<open>Not modelled.\<close> Of the buffer manager: extension by several blocks or up to a given size, local buffers, access strategies with a ring, reads of
  several blocks, the background writer and checkpoints, hint bits, cleanup locks, dropping of relations; header spinlocks and the
  retry loops of atomic operations are taken as one step each, and so is the write of a page, during which nobody dirties it again. The wait queues of lightweight locks: they decide who is served first, not what
  is computed. Infinite timestamps in the SQL constructors. Index tuples of several columns, and toasted or compressed values: the boxes come from one column with plain storage.
  Text input and output, distances and GiST support of \<^verbatim>\<open>cube\<close>: no code of the index calls them. The physical format of WAL records around
  the generic payload, and compression of page images. The SQL script, the planner and executor around the hooks, and the rest of
  PostgreSQL: they call the modelled code and are not called by it.
\<close>

end
